(* ===== verification/Prelude.thy ===== *)
theory Prelude
  imports Main "HOL-Library.Word"
begin

text \<open>
  Shared vocabulary of the development: the machine types of the 64-bit targets the
  application is built for, a byte-addressed memory with bulk reads and writes, the
  failure monad in which the C functions that return \<open>false\<close> early are written, and
  the generic lemmas on lists, words and memory that the component theories use.
\<close>

unbundle bit_operations_syntax

named_theorems byte_simps \<open>splitting words into bytes and assembling them again\<close>
named_theorems heap_simps \<open>reads over writes of the byte memory\<close>
named_theorems bind_simps \<open>elimination of the early-return combinator\<close>

type_synonym byte = "8 word"
type_synonym uint16 = "16 word"
type_synonym uint32 = "32 word"
type_synonym uint64 = "64 word"
type_synonym size_t = "64 word"
type_synonym addr = nat
type_synonym heap = "addr \<Rightarrow> byte"

abbreviation c_char :: "char \<Rightarrow> byte" where
  "c_char c \<equiv> of_char c"

section \<open>Memory\<close>

definition read_bytes :: "heap \<Rightarrow> addr \<Rightarrow> nat \<Rightarrow> byte list" where
  "read_bytes h a n = map h [a..<a + n]"

primrec write_bytes :: "heap \<Rightarrow> addr \<Rightarrow> byte list \<Rightarrow> heap" where
  "write_bytes h a [] = h"
| "write_bytes h a (b # bs) = write_bytes (h(a := b)) (Suc a) bs"

lemma length_read_bytes [simp]: "length (read_bytes h a n) = n"
  by (simp add: read_bytes_def)

lemma read_bytes_0 [simp]: "read_bytes h a 0 = []"
  by (simp add: read_bytes_def)

lemma read_bytes_Suc: "read_bytes h a (Suc n) = h a # read_bytes h (Suc a) n"
  by (simp add: read_bytes_def upt_conv_Cons del: upt_Suc)

lemma read_bytes_append:
  "read_bytes h a (m + n) = read_bytes h a m @ read_bytes h (a + m) n"
  by (rule nth_equalityI) (auto simp: nth_append read_bytes_def)

lemma nth_read_bytes [simp]: "i < n \<Longrightarrow> read_bytes h a n ! i = h (a + i)"
  by (simp add: read_bytes_def)

lemma read_bytes_map_shift: "map (\<lambda>i. h (a + i)) [0..<n] = read_bytes h a n"
  by (rule nth_equalityI) simp_all

lemma read_bytes_cong:
  "(\<And>x. a \<le> x \<Longrightarrow> x < a + n \<Longrightarrow> h x = h' x) \<Longrightarrow> read_bytes h a n = read_bytes h' a n"
  by (simp add: read_bytes_def)

lemma take_read_bytes [simp]: "take m (read_bytes h a n) = read_bytes h a (min m n)"
  by (rule nth_equalityI) simp_all

lemma drop_read_bytes [simp]: "drop m (read_bytes h a n) = read_bytes h (a + m) (n - m)"
  by (rule nth_equalityI) (simp_all add: add.assoc)

lemma write_bytes_apply [heap_simps]:
  "write_bytes h a bs x = (if a \<le> x \<and> x < a + length bs then bs ! (x - a) else h x)"
proof (induction bs arbitrary: h a)
  case (Cons b bs)
  then show ?case by (auto simp: nth_Cons' Suc_diff_le)
qed auto

lemma write_bytes_outside: "x < a \<or> a + length bs \<le> x \<Longrightarrow> write_bytes h a bs x = h x"
  by (auto simp: write_bytes_apply)

lemma read_write_same [simp]: "read_bytes (write_bytes h a bs) a (length bs) = bs"
  by (rule nth_equalityI) (simp_all add: write_bytes_apply)

lemma write_bytes_append:
  "write_bytes h a (xs @ ys) = write_bytes (write_bytes h a xs) (a + length xs) ys"
  by (induction xs arbitrary: h a) simp_all

section \<open>Early return\<close>

text \<open>
  A C function that reports failure by returning \<open>false\<close> and otherwise delivers a value
  through an output parameter is a function from a state to an optional value and a new
  state; \<open>None\<close> is \<open>return false\<close>, with the state the caller then sees.
  \<open>bindf f g\<close> is \<open>if (!f(\<dots>)) return false; g(\<dots>)\<close>.
\<close>

definition bindf :: "('s \<Rightarrow> 'a option \<times> 's) \<Rightarrow> ('a \<Rightarrow> 's \<Rightarrow> 'b option \<times> 's) \<Rightarrow> 's \<Rightarrow> 'b option \<times> 's" where
  "bindf f g s = (case f s of (None, s') \<Rightarrow> (None, s') | (Some a, s') \<Rightarrow> g a s')"

definition retf :: "'a \<Rightarrow> 's \<Rightarrow> 'a option \<times> 's" where
  "retf a s = (Some a, s)"

lemma bindf_Some [bind_simps]: "f s = (Some a, s') \<Longrightarrow> bindf f g s = g a s'"
  by (simp add: bindf_def)

lemma bindf_None [bind_simps]: "f s = (None, s') \<Longrightarrow> bindf f g s = (None, s')"
  by (simp add: bindf_def)

lemma bindf_eq_Some:
  "bindf f g s = (Some b, t) \<longleftrightarrow> (\<exists>a s'. f s = (Some a, s') \<and> g a s' = (Some b, t))"
  by (auto simp: bindf_def split: prod.splits option.splits)

lemma bindf_assoc: "bindf (bindf f g) k = bindf f (\<lambda>a. bindf (g a) k)"
  by (rule ext) (simp add: bindf_def split: prod.split option.split)

section \<open>Words and bytes\<close>

lemma unat_of_nat_size [simp]: "n < 2 ^ 64 \<Longrightarrow> unat (of_nat n :: 64 word) = n"
  by (simp add: unat_of_nat take_bit_nat_eq_self)

lemma unat_ucast_byte64 [simp]: "unat (ucast (b :: byte) :: 64 word) = unat b"
  by transfer (simp add: take_bit_eq_mod)

lemma word_less_nat: "(a :: 'a::len word) < b \<longleftrightarrow> unat a < unat b"
  by (rule word_less_nat_alt)

text \<open>Little-endian byte strings and the words they denote.\<close>

primrec le_word :: "byte list \<Rightarrow> 'a::len word" where
  "le_word [] = 0"
| "le_word (b # bs) = ucast b OR push_bit 8 (le_word bs)"

definition le_bytes :: "nat \<Rightarrow> 'a::len word \<Rightarrow> byte list" where
  "le_bytes n w = map (\<lambda>i. ucast (drop_bit (8 * i) w)) [0..<n]"

definition load :: "nat \<Rightarrow> heap \<Rightarrow> addr \<Rightarrow> 'a::len word" where
  "load n h a = le_word (read_bytes h a n)"

lemma length_le_bytes [simp]: "length (le_bytes n w) = n"
  by (simp add: le_bytes_def)

lemma le_bytes_Suc: "le_bytes (Suc n) w = ucast w # le_bytes n (drop_bit 8 w)"
proof -
  have "[0..<Suc n] = 0 # map Suc [0..<n]"
    by (simp add: upt_conv_Cons map_Suc_upt del: upt_Suc)
  then show ?thesis by (simp add: le_bytes_def algebra_simps del: upt_Suc)
qed

lemma bit_le_word:
  "bit (le_word bs :: 'a::len word) n \<longleftrightarrow>
     n < LENGTH('a) \<and> n div 8 < length bs \<and> bit (bs ! (n div 8)) (n mod 8)"
proof (induction bs arbitrary: n)
  case (Cons b bs)
  show ?case
  proof (cases "n < 8")
    case True
    then show ?thesis by (auto simp: bit_simps)
  next
    case False
    then obtain m where n: "n = m + 8" by (metis add.commute le_Suc_ex not_less)
    have "\<not> bit b n" using False by (auto dest: bit_imp_le_length)
    then show ?thesis using n Cons[of m] by (auto simp: bit_simps div_add_self2)
  qed
qed simp

lemma le_word_le_bytes [byte_simps]: "le_word (le_bytes n w) = take_bit (8 * n) (w :: 'a::len word)"
proof (rule bit_word_eqI)
  fix i assume i: "i < LENGTH('a)"
  have "8 * (i div 8) + i mod 8 = i" by simp
  then show "bit (le_word (le_bytes n w) :: 'a word) i = bit (take_bit (8 * n) w) i"
    using i by (auto simp: bit_le_word le_bytes_def bit_simps nth_append less_mult_imp_div_less)
qed

text \<open>Two words are equal when they agree on every bit, in the form the bit proofs use.\<close>

lemma word_eqI_bits:
  fixes x y :: "'a::len word"
  assumes "\<And>n. n < LENGTH('a) \<Longrightarrow> bit x n = bit y n"
  shows "x = y"
  by (rule bit_word_eqI) (rule assms)

text \<open>A property of bytes can be checked on all 256 of them.\<close>

lemma byte_all:
  assumes "list_all (\<lambda>n. P (word_of_nat n)) [0..<256]"
  shows "P (b :: byte)"
proof -
  have "unat b \<in> {0..<256}" using unsigned_less[of b] by simp
  with assms have "P (word_of_nat (unat b))" unfolding list_all_iff set_upt by blast
  then show ?thesis by simp
qed

lemma unat_lt_64: "unat (w :: 64 word) < 2 ^ 64"
  using unsigned_less[of w] by simp

lemma and_7F_eq: "v AND 0x7F = take_bit 7 (v :: 'a::len word)"
  by (simp add: take_bit_eq_mask mask_eq_exp_minus_1)

lemma unat_and_7F: "unat (v AND 0x7F :: 'a::len word) = unat v mod 128"
  unfolding and_7F_eq by (simp only: unsigned_take_bit_eq take_bit_nat_def) simp

lemma byte_and_80_eq_0: "(b AND 0x80 :: byte) = 0 \<longleftrightarrow> unat b < 128"
  by (rule byte_all) code_simp

lemma unat_of_nat_byte: "unat (of_nat n :: byte) = n mod 256"
  by (simp add: unsigned_of_nat take_bit_nat_def)

lemma unat_ucast_mod: "unat (ucast (w :: 'b::len word) :: 'a::len word) = unat w mod 2 ^ LENGTH('a)"
  by (simp only: unsigned_ucast_eq take_bit_nat_def)

lemma not_bit_unat_less:
  fixes w :: "'a::len word"
  assumes "unat w < 2 ^ k" and "k \<le> n"
  shows "\<not> bit w n"
proof -
  have "unat w < 2 ^ n"
    using assms by (meson less_le_trans one_le_numeral power_increasing)
  then have "\<not> bit (unat w) n" by (simp add: bit_iff_odd)
  then show ?thesis by (auto simp: bit_unsigned_iff dest: bit_imp_le_length)
qed

end
