(* ===== verification/Pb_Ostream.thy ===== *)
theory Pb_Ostream
  imports Prelude
begin

text \<open>
  nanopb's output side, \<^verbatim>\<open>Pods/nanopb/pb_encode.c\<close>: the output stream with its callback,
  and the wire-format writers (varint, zigzag, fixed-width, tag, length-prefixed string).
  The build sets \<^verbatim>\<open>PB_FIELD_32BIT\<close> and \<^verbatim>\<open>PB_ENABLE_MALLOC\<close>; 64-bit integers and error
  messages are on. A stream carries its callback as an optional function, since the code
  only calls it or compares it with \<open>NULL\<close>; it is given the stream's \<open>state\<close>, the
  bytes to write and the memory, as the rules in \<^verbatim>\<open>pb_encode.h\<close> allow.
\<close>

record ostream =
  o_callback :: "(addr \<Rightarrow> byte list \<Rightarrow> heap \<Rightarrow> bool \<times> addr \<times> heap) option"
  o_state :: addr
  o_max_size :: size_t
  o_bytes_written :: size_t
  o_errmsg :: "string option"

type_synonym 'a enc = "ostream \<times> heap \<Rightarrow> 'a option \<times> (ostream \<times> heap)"

definition o_error :: "string \<Rightarrow> 'a enc" where
  "o_error msg = (\<lambda>(s, h). (None,
     (s\<lparr>o_errmsg := (case o_errmsg s of None \<Rightarrow> Some msg | Some m \<Rightarrow> Some m)\<rparr>, h)))"

definition buf_write :: "addr \<Rightarrow> byte list \<Rightarrow> heap \<Rightarrow> bool \<times> addr \<times> heap" where
  "buf_write dest buf h = (True, dest + length buf, write_bytes h dest buf)"

definition pb_ostream_from_buffer :: "addr \<Rightarrow> size_t \<Rightarrow> ostream" where
  "pb_ostream_from_buffer buf bufsize =
     \<lparr>o_callback = Some buf_write, o_state = buf, o_max_size = bufsize,
      o_bytes_written = 0, o_errmsg = None\<rparr>"

definition PB_OSTREAM_SIZING :: ostream where
  "PB_OSTREAM_SIZING =
     \<lparr>o_callback = None, o_state = 0, o_max_size = 0, o_bytes_written = 0, o_errmsg = None\<rparr>"

definition pb_write :: "byte list \<Rightarrow> size_t \<Rightarrow> unit enc" where
  "pb_write buf count = (\<lambda>(s, h).
     let done = (\<lambda>s h. (Some (), (s\<lparr>o_bytes_written := o_bytes_written s + count\<rparr>, h))) in
     case o_callback s of
       None \<Rightarrow> done s h
     | Some callback \<Rightarrow>
         if 0 < count then
           if o_bytes_written s + count < o_bytes_written s \<or>
              o_bytes_written s + count > o_max_size s
           then o_error ''stream full'' (s, h)
           else (case callback (o_state s) (take (unat count) buf) h of
               (ok, state', h') \<Rightarrow>
                 let s' = s\<lparr>o_state := state'\<rparr> in
                 if ok then done s' h' else o_error ''io error'' (s', h'))
         else done s h)"

section \<open>Wire-format writers\<close>

text \<open>The loop of \<open>pb_encode_varint\<close>: seven bits per byte, continuation bit set.\<close>

function varint_fill :: "uint64 \<Rightarrow> byte list" where
  "varint_fill value =
     (if value = 0 then []
      else ucast ((value AND 0x7F) OR 0x80) # varint_fill (drop_bit 7 value))"
  by pat_completeness auto
termination
proof (relation "measure unat")
  fix v :: uint64
  assume "v \<noteq> 0"
  then have "unat v div 2 ^ 7 < unat v"
    by (intro div_less_dividend) (auto simp: unat_gt_0)
  then show "(drop_bit 7 v, v) \<in> measure unat"
    by (simp add: drop_bit_eq_div unat_div)
qed simp

declare varint_fill.simps [simp del]

definition pb_encode_varint :: "uint64 \<Rightarrow> unit enc" where
  "pb_encode_varint value =
     (if value \<le> 0x7F then pb_write [ucast value] 1
      else let buffer = varint_fill value; i = length buffer;
               buffer' = buffer[i - 1 := buffer ! (i - 1) AND 0x7F]
           in pb_write buffer' (of_nat i))"

definition pb_encode_svarint :: "uint64 \<Rightarrow> unit enc" where
  "pb_encode_svarint value =
     (let zigzagged = (if sint value < 0 then NOT (push_bit 1 value) else push_bit 1 value)
      in pb_encode_varint zigzagged)"

definition pb_encode_fixed32 :: "uint32 \<Rightarrow> unit enc" where
  "pb_encode_fixed32 val =
     pb_write [ucast (val AND 0xFF), ucast (drop_bit 8 val AND 0xFF),
               ucast (drop_bit 16 val AND 0xFF), ucast (drop_bit 24 val AND 0xFF)] 4"

definition pb_encode_fixed64 :: "uint64 \<Rightarrow> unit enc" where
  "pb_encode_fixed64 val =
     pb_write [ucast (val AND 0xFF), ucast (drop_bit 8 val AND 0xFF),
               ucast (drop_bit 16 val AND 0xFF), ucast (drop_bit 24 val AND 0xFF),
               ucast (drop_bit 32 val AND 0xFF), ucast (drop_bit 40 val AND 0xFF),
               ucast (drop_bit 48 val AND 0xFF), ucast (drop_bit 56 val AND 0xFF)] 8"

type_synonym pb_wire_type_t = uint32

abbreviation PB_WT_VARINT :: pb_wire_type_t where "PB_WT_VARINT \<equiv> 0"
abbreviation PB_WT_64BIT :: pb_wire_type_t where "PB_WT_64BIT \<equiv> 1"
abbreviation PB_WT_STRING :: pb_wire_type_t where "PB_WT_STRING \<equiv> 2"
abbreviation PB_WT_32BIT :: pb_wire_type_t where "PB_WT_32BIT \<equiv> 5"

definition pb_encode_tag :: "pb_wire_type_t \<Rightarrow> uint32 \<Rightarrow> unit enc" where
  "pb_encode_tag wiretype field_number =
     pb_encode_varint (push_bit 3 (ucast field_number) OR ucast wiretype)"

definition pb_encode_string :: "byte list \<Rightarrow> size_t \<Rightarrow> unit enc" where
  "pb_encode_string buffer len =
     bindf (pb_encode_varint len) (\<lambda>_. pb_write buffer len)"

section \<open>What the writers produce\<close>

text \<open>The reference encoding: little-endian groups of seven bits.\<close>

function varint_bytes :: "nat \<Rightarrow> byte list" where
  "varint_bytes n =
     (if n < 128 then [of_nat n] else of_nat (n mod 128 + 128) # varint_bytes (n div 128))"
  by pat_completeness auto
termination by (relation "measure id") auto

declare varint_bytes.simps [simp del]

end
