(* ===== verification/Pb_Istream.thy ===== *)
theory Pb_Istream
  imports Pb_Ostream
begin

text \<open>
  nanopb's input side, \<^verbatim>\<open>Pods/nanopb/pb_decode.c\<close>: the input stream and the wire-format
  readers. The stream's callback is either \<open>buf_read\<close>, against which the code compares
  it, or a function of the user, which is given the stream's state, a count and the memory
  and delivers the content of the buffer it has filled.
\<close>

datatype read_callback =
    Buf_read
  | User_read "addr \<Rightarrow> nat \<Rightarrow> heap \<Rightarrow> (nat \<Rightarrow> byte) option \<times> addr \<times> heap"

record istream =
  i_callback :: read_callback
  i_state :: addr
  i_bytes_left :: size_t
  i_errmsg :: "string option"

type_synonym 'a dec = "istream \<times> heap \<Rightarrow> 'a option \<times> (istream \<times> heap)"

definition i_error :: "string \<Rightarrow> 'a dec" where
  "i_error msg = (\<lambda>(s, h). (None,
     (s\<lparr>i_errmsg := (case i_errmsg s of None \<Rightarrow> Some msg | Some m \<Rightarrow> Some m)\<rparr>, h)))"

definition buf_read :: "addr \<Rightarrow> nat \<Rightarrow> heap \<Rightarrow> (nat \<Rightarrow> byte) option \<times> addr \<times> heap" where
  "buf_read source count h = (Some (\<lambda>i. h (source + i)), source + count, h)"

definition call_read :: "istream \<Rightarrow> nat \<Rightarrow> heap \<Rightarrow> (nat \<Rightarrow> byte) option \<times> addr \<times> heap" where
  "call_read s count h =
     (case i_callback s of
        Buf_read \<Rightarrow> buf_read (i_state s) count h
      | User_read f \<Rightarrow> f (i_state s) count h)"

definition is_buf_read :: "istream \<Rightarrow> bool" where
  "is_buf_read s = (case i_callback s of Buf_read \<Rightarrow> True | User_read _ \<Rightarrow> False)"

text \<open>\<open>pb_read\<close> with a buffer to fill: the part after the skipping special case.\<close>

definition pb_read_into :: "size_t \<Rightarrow> byte list dec" where
  "pb_read_into count = (\<lambda>(s, h).
     if count = 0 then (Some [], (s, h))
     else if i_bytes_left s < count then i_error ''end-of-stream'' (s, h)
     else (case call_read s (unat count) h of
         (None, state', h') \<Rightarrow> i_error ''io error'' (s\<lparr>i_state := state'\<rparr>, h')
       | (Some buf, state', h') \<Rightarrow>
           (Some (map buf [0..<unat count]),
            (s\<lparr>i_state := state', i_bytes_left := i_bytes_left s - count\<rparr>, h'))))"

text \<open>
  \<open>pb_read\<close> with a null buffer on a stream that is not a memory buffer: read and
  discard sixteen bytes at a time.
\<close>

function pb_read_skip :: "size_t \<Rightarrow> unit dec" where
  "pb_read_skip count =
     (if count > 16
      then bindf (pb_read_into 16) (\<lambda>_. pb_read_skip (count - 16))
      else bindf (pb_read_into count) (\<lambda>_. retf ()))"
  by pat_completeness auto
termination
proof (relation "measure unat")
  fix count :: size_t
  assume "16 < count"
  then show "(count - 16, count) \<in> measure unat"
    by (simp add: word_less_nat unat_sub word_le_nat_alt)
qed simp

declare pb_read_skip.simps [simp del]

definition pb_read_null :: "size_t \<Rightarrow> unit dec" where
  "pb_read_null count = (\<lambda>(s, h).
     if count = 0 then (Some (), (s, h))
     else if \<not> is_buf_read s then pb_read_skip count (s, h)
     else bindf (pb_read_into count) (\<lambda>_. retf ()) (s, h))"

definition pb_readbyte :: "byte dec" where
  "pb_readbyte = (\<lambda>(s, h).
     if i_bytes_left s = 0 then i_error ''end-of-stream'' (s, h)
     else (case call_read s 1 h of
         (None, state', h') \<Rightarrow> i_error ''io error'' (s\<lparr>i_state := state'\<rparr>, h')
       | (Some buf, state', h') \<Rightarrow>
           (Some (buf 0), (s\<lparr>i_state := state', i_bytes_left := i_bytes_left s - 1\<rparr>, h'))))"

definition pb_istream_from_buffer :: "addr \<Rightarrow> size_t \<Rightarrow> istream" where
  "pb_istream_from_buffer buf bufsize =
     \<lparr>i_callback = Buf_read, i_state = buf, i_bytes_left = bufsize, i_errmsg = None\<rparr>"

lemma i_error_state [simp]:
  "fst (i_error msg sh) = None"
  "i_bytes_left (fst (snd (i_error msg sh))) = i_bytes_left (fst sh)"
  by (simp_all add: i_error_def split_beta)

lemma pb_readbyte_bytes_left:
  assumes "pb_readbyte sh = (Some b, sh')"
  shows "unat (i_bytes_left (fst sh)) = Suc (unat (i_bytes_left (fst sh')))"
proof -
  obtain s h where sh: "sh = (s, h)" by fastforce
  have nz: "i_bytes_left s \<noteq> 0"
    using assms by (auto simp: sh pb_readbyte_def i_error_def split: if_splits)
  then have "i_bytes_left (fst sh') = i_bytes_left s - 1"
    using assms by (auto simp: sh pb_readbyte_def i_error_def split: prod.splits option.splits)
  then show ?thesis using nz by (simp add: sh unat_minus_one unat_gt_0)
qed

section \<open>Wire-format readers\<close>

text \<open>
  The multi-byte loop of \<open>pb_decode_varint32_eof\<close>. \<open>bitpos\<close> has type
  \<^verbatim>\<open>uint_fast8_t\<close>, an 8-bit type on the target, so it wraps.
\<close>

function varint32_loop :: "8 word \<Rightarrow> uint32 \<Rightarrow> uint32 dec" where
  "varint32_loop bitpos result sh =
     (case pb_readbyte sh of
        (None, sh') \<Rightarrow> (None, sh')
      | (Some byte, sh') \<Rightarrow>
          let sign_extension = (if bitpos < 63 then 0xFF else 0x01 :: byte) in
          if bitpos \<ge> 32 \<and> byte AND 0x7F \<noteq> 0 \<and>
             (drop_bit 31 result = 0 \<or> byte \<noteq> sign_extension)
          then i_error ''varint overflow'' sh'
          else
            let result' = (if bitpos \<ge> 32 then result
                           else result OR push_bit (unat bitpos) (ucast (byte AND 0x7F)));
                bitpos' = bitpos + 7
            in if byte AND 0x80 \<noteq> 0 then varint32_loop bitpos' result' sh'
               else if bitpos' = 35 \<and> byte AND 0x70 \<noteq> 0
               then i_error ''varint overflow'' sh'
               else (Some result', sh'))"
  by pat_completeness auto
termination
  by (relation "measure (\<lambda>(_, _, sh). unat (i_bytes_left (fst sh)))")
     (auto dest: pb_readbyte_bytes_left[OF sym])

declare varint32_loop.simps [simp del]

text \<open>The second component of the result is the value the call stores in \<open>*eof\<close>.\<close>

definition pb_decode_varint32_eof :: "istream \<times> heap \<Rightarrow> (uint32 option \<times> bool) \<times> (istream \<times> heap)" where
  "pb_decode_varint32_eof sh =
     (case pb_readbyte sh of
        (None, sh') \<Rightarrow> ((None, i_bytes_left (fst sh') = 0), sh')
      | (Some byte, sh') \<Rightarrow>
          if byte AND 0x80 = 0 then ((Some (ucast byte), False), sh')
          else (case varint32_loop 7 (ucast (byte AND 0x7F)) sh' of
                  (r, sh'') \<Rightarrow> ((r, False), sh'')))"

definition pb_decode_varint32 :: "uint32 dec" where
  "pb_decode_varint32 sh = (case pb_decode_varint32_eof sh of ((r, _), sh') \<Rightarrow> (r, sh'))"

function varint_loop :: "8 word \<Rightarrow> uint64 \<Rightarrow> uint64 dec" where
  "varint_loop bitpos result sh =
     (if bitpos \<ge> 64 then i_error ''varint overflow'' sh
      else case pb_readbyte sh of
        (None, sh') \<Rightarrow> (None, sh')
      | (Some byte, sh') \<Rightarrow>
          let result' = result OR push_bit (unat bitpos) (ucast (byte AND 0x7F));
              bitpos' = bitpos + 7
          in if byte AND 0x80 \<noteq> 0 then varint_loop bitpos' result' sh'
             else (Some result', sh'))"
  by pat_completeness auto
termination
  by (relation "measure (\<lambda>(_, _, sh). unat (i_bytes_left (fst sh)))")
     (auto dest: pb_readbyte_bytes_left[OF sym])

declare varint_loop.simps [simp del]

definition pb_decode_varint :: "uint64 dec" where
  "pb_decode_varint = varint_loop 0 0"

definition pb_decode_svarint :: "uint64 dec" where
  "pb_decode_svarint =
     bindf pb_decode_varint (\<lambda>value.
       retf (if value AND 1 \<noteq> 0 then NOT (drop_bit 1 value) else drop_bit 1 value))"

lemma pb_read_into_bytes_left:
  assumes "pb_read_into n sh = (Some bs, sh')" and "n \<noteq> 0"
  shows "unat (i_bytes_left (fst sh)) = unat (i_bytes_left (fst sh')) + unat n"
proof -
  obtain s h where sh: "sh = (s, h)" by fastforce
  have le: "n \<le> i_bytes_left s"
    using assms by (auto simp: sh pb_read_into_def i_error_def split: if_splits)
  then have "i_bytes_left (fst sh') = i_bytes_left s - n"
    using assms
    by (auto simp: sh pb_read_into_def i_error_def split: prod.splits option.splits if_splits)
  then show ?thesis using le by (simp add: sh unat_sub word_le_nat_alt)
qed

function pb_skip_varint :: "unit dec" where
  "pb_skip_varint sh =
     (case pb_read_into 1 sh of
        (None, sh') \<Rightarrow> (None, sh')
      | (Some bytes, sh') \<Rightarrow>
          if bytes ! 0 AND 0x80 \<noteq> 0 then pb_skip_varint sh' else (Some (), sh'))"
  by pat_completeness auto
termination
  by (relation "measure (\<lambda>sh. unat (i_bytes_left (fst sh)))")
     (auto dest: pb_read_into_bytes_left[OF sym])

declare pb_skip_varint.simps [simp del]

definition pb_skip_string :: "unit dec" where
  "pb_skip_string = bindf pb_decode_varint32 (\<lambda>length. pb_read_null (ucast length))"

text \<open>The result is the wire type and tag; the flag is \<open>*eof\<close>.\<close>

definition pb_decode_tag :: "istream \<times> heap \<Rightarrow> ((pb_wire_type_t \<times> uint32) option \<times> bool) \<times> (istream \<times> heap)" where
  "pb_decode_tag sh =
     (case pb_decode_varint32_eof sh of
        ((None, eof), sh') \<Rightarrow> ((None, eof), sh')
      | ((Some temp, _), sh') \<Rightarrow>
          if temp = 0 then ((None, True), sh')
          else ((Some (temp AND 7, drop_bit 3 temp), False), sh'))"

definition pb_skip_field :: "pb_wire_type_t \<Rightarrow> unit dec" where
  "pb_skip_field wire_type =
     (if wire_type = PB_WT_VARINT then pb_skip_varint
      else if wire_type = PB_WT_64BIT then pb_read_null 8
      else if wire_type = PB_WT_STRING then pb_skip_string
      else if wire_type = PB_WT_32BIT then pb_read_null 4
      else i_error ''invalid wire_type'')"

text \<open>
  The varint case of \<open>read_raw_value\<close>: \<open>sz\<close> is the value of \<open>*size\<close> before
  the iteration, \<open>buf\<close> the bytes stored through the pointer so far.
\<close>

function raw_varint_loop :: "size_t \<Rightarrow> size_t \<Rightarrow> byte list \<Rightarrow> byte list dec" where
  "raw_varint_loop max_size sz buf sh =
     (if sz + 1 > max_size then (None, sh)
      else case pb_read_into 1 sh of
        (None, sh') \<Rightarrow> (None, sh')
      | (Some bytes, sh') \<Rightarrow>
          if bytes ! 0 AND 0x80 \<noteq> 0
          then raw_varint_loop max_size (sz + 1) (buf @ [bytes ! 0]) sh'
          else (Some (buf @ [bytes ! 0]), sh'))"
  by pat_completeness auto
termination
  by (relation "measure (\<lambda>(_, _, _, sh). unat (i_bytes_left (fst sh)))")
     (auto dest: pb_read_into_bytes_left[OF sym])

declare raw_varint_loop.simps [simp del]

definition read_raw_value :: "pb_wire_type_t \<Rightarrow> size_t \<Rightarrow> byte list dec" where
  "read_raw_value wire_type max_size =
     (if wire_type = PB_WT_VARINT then raw_varint_loop max_size 0 []
      else if wire_type = PB_WT_64BIT then pb_read_into 8
      else if wire_type = PB_WT_32BIT then pb_read_into 4
      else i_error ''invalid wire_type'')"

definition pb_make_string_substream :: "istream dec" where
  "pb_make_string_substream =
     bindf pb_decode_varint32 (\<lambda>size32. \<lambda>(s, h).
       let substream = s in
       if i_bytes_left substream < ucast size32
       then i_error ''parent stream too short'' (s, h)
       else (Some (substream\<lparr>i_bytes_left := ucast size32\<rparr>),
             (s\<lparr>i_bytes_left := i_bytes_left s - ucast size32\<rparr>, h)))"

definition pb_close_string_substream :: "istream \<Rightarrow> unit dec" where
  "pb_close_string_substream substream = (\<lambda>(s, h).
     case (if i_bytes_left substream \<noteq> 0
           then pb_read_null (i_bytes_left substream) (substream, h)
           else (Some (), (substream, h))) of
       (None, (_, h')) \<Rightarrow> (None, (s, h'))
     | (Some _, (sub', h')) \<Rightarrow>
         (Some (), (s\<lparr>i_state := i_state sub', i_errmsg := i_errmsg sub'\<rparr>, h')))"

definition pb_decode_bool :: "bool dec" where
  "pb_decode_bool = bindf pb_decode_varint32 (\<lambda>v. retf (v \<noteq> 0))"

definition pb_decode_fixed32 :: "uint32 dec" where
  "pb_decode_fixed32 =
     bindf (pb_read_into 4) (\<lambda>bytes.
       retf (push_bit 0 (ucast (bytes ! 0)) OR push_bit 8 (ucast (bytes ! 1)) OR
             push_bit 16 (ucast (bytes ! 2)) OR push_bit 24 (ucast (bytes ! 3))))"

definition pb_decode_fixed64 :: "uint64 dec" where
  "pb_decode_fixed64 =
     bindf (pb_read_into 8) (\<lambda>bytes.
       retf (push_bit 0 (ucast (bytes ! 0)) OR push_bit 8 (ucast (bytes ! 1)) OR
             push_bit 16 (ucast (bytes ! 2)) OR push_bit 24 (ucast (bytes ! 3)) OR
             push_bit 32 (ucast (bytes ! 4)) OR push_bit 40 (ucast (bytes ! 5)) OR
             push_bit 48 (ucast (bytes ! 6)) OR push_bit 56 (ucast (bytes ! 7))))"

end
