(* ===== verification/Pb_Wire.thy ===== *)
theory Pb_Wire
  imports Pb_Istream
begin

text \<open>
  The wire format of nanopb end to end.
\<close>

section \<open>Writers on a memory buffer\<close>

definition buffer_ostream :: "ostream \<Rightarrow> bool" where
  "buffer_ostream s \<longleftrightarrow> o_callback s = Some buf_write"

definition o_room :: "ostream \<Rightarrow> nat" where
  "o_room s = unat (o_max_size s) - unat (o_bytes_written s)"

definition o_advance :: "nat \<Rightarrow> ostream \<Rightarrow> ostream" where
  "o_advance n s = s\<lparr>o_state := o_state s + n, o_bytes_written := o_bytes_written s + of_nat n\<rparr>"

lemma pb_write_buffer:
  assumes "buffer_ostream s" and "length bs \<le> o_room s"
    and "unat (o_bytes_written s) \<le> unat (o_max_size s)"
  shows "pb_write bs (of_nat (length bs)) (s, h) =
           (Some (), (o_advance (length bs) s, write_bytes h (o_state s) bs))"
proof -
  let ?n = "of_nat (length bs) :: size_t"
  have max: "unat (o_max_size s) < 2 ^ 64" using unsigned_less[of "o_max_size s"] by simp
  have n: "unat ?n = length bs"
    using assms max by (intro unat_of_nat_size) (simp add: o_room_def)
  have sum: "unat (o_bytes_written s + ?n) = unat (o_bytes_written s) + length bs"
    using assms max n by (subst unat_add_lem[THEN iffD1]) (auto simp: o_room_def)
  have "\<not> o_bytes_written s + ?n < o_bytes_written s" and "\<not> o_max_size s < o_bytes_written s + ?n"
    using assms by (auto simp: word_less_nat sum o_room_def)
  then show ?thesis
    using assms(1) n by (cases "bs = []")
      (auto simp: pb_write_def buffer_ostream_def buf_write_def o_advance_def Let_def
            word_less_nat)
qed

lemma pb_write_full:
  assumes "buffer_ostream s" and "o_room s < length bs" and "length bs < 2 ^ 64"
  shows "pb_write bs (of_nat (length bs)) (s, h) = o_error ''stream full'' (s, h)"
proof -
  let ?n = "of_nat (length bs) :: size_t"
  have n: "unat ?n = length bs" using assms(3) by simp
  have "o_bytes_written s + ?n < o_bytes_written s \<or> o_max_size s < o_bytes_written s + ?n"
  proof (rule ccontr)
    assume a: "\<not> ?thesis"
    then have "unat (o_bytes_written s + ?n) = unat (o_bytes_written s) + length bs"
      using n no_olen_add_nat[of "o_bytes_written s" ?n] unat_add_lem[of "o_bytes_written s" ?n]
        no_olen_add[of "o_bytes_written s" ?n] word_le_nat_alt
      by (metis not_less)
    then show False using a assms(2) by (auto simp: word_less_nat o_room_def)
  qed
  moreover have "0 < ?n" using n assms(2) by (auto simp: word_less_nat)
  ultimately show ?thesis
    using assms(1) by (simp add: pb_write_def buffer_ostream_def Let_def)
qed

section \<open>Varints\<close>

lemma low7_byte: "ucast ((v AND 0x7F) OR 0x80 :: uint64) = (of_nat (unat v mod 128 + 128) :: byte)"
proof -
  have "ucast ((v AND 0x7F) OR 0x80 :: uint64) = (ucast v AND 0x7F) OR (0x80::byte)"
    by (rule bit_word_eqI) (auto simp: bit_simps)
  moreover have "(b AND 0x7F) OR 0x80 = word_of_nat (unat b mod 128 + 128)" for b :: byte
    by (rule byte_all) code_simp
  moreover have "unat (ucast v :: byte) mod 128 = unat v mod 128"
    by (simp add: unat_ucast_mod mod_mod_cancel)
  ultimately show ?thesis by simp
qed

lemma varint_bytes_nonempty [simp]: "varint_bytes n \<noteq> []"
  by (subst varint_bytes.simps) simp

lemma varint_fill_eq:
  "v \<noteq> 0 \<Longrightarrow>
   (let buf = varint_fill v; i = length buf in buf[i - 1 := buf ! (i - 1) AND 0x7F]) =
     varint_bytes (unat v)"
proof (induction v rule: varint_fill.induct)
  case (1 v)
  have fill: "varint_fill v = of_nat (unat v mod 128 + 128) # varint_fill (drop_bit 7 v)"
    using "1.prems" by (subst varint_fill.simps) (simp add: low7_byte)
  have div: "unat (drop_bit 7 v) = unat v div 128"
    by (simp add: drop_bit_eq_div unat_div)
  show ?case
  proof (cases "drop_bit 7 v = 0")
    case True
    with div have small: "unat v < 128" by (simp add: div_eq_0_iff)
    have "(of_nat (n + 128) AND 0x7F :: byte) = of_nat n" if "n < 128" for n
    proof -
      have "unat (of_nat (n + 128) AND 0x7F :: byte) = unat (of_nat n :: byte)"
        using that by (simp only: unat_and_7F unat_of_nat_byte) simp
      then show ?thesis by (simp only: word_unat_eq_iff)
    qed
    from this[OF small] True small fill show ?thesis
      by (simp add: varint_fill.simps[of 0] varint_bytes.simps[of "unat v"])
  next
    case False
    then have "unat (drop_bit 7 v) \<noteq> 0" by (simp add: unat_eq_0)
    then have big: "\<not> unat v < 128" unfolding div by simp
    have ne: "varint_fill (drop_bit 7 v) \<noteq> []"
      using False by (subst varint_fill.simps) simp
    have IH: "(let buf = varint_fill (drop_bit 7 v); i = length buf
               in buf[i - 1 := buf ! (i - 1) AND 0x7F]) = varint_bytes (unat v div 128)"
      using "1.IH" "1.prems" False by (simp add: div)
    have "varint_bytes (unat v) = of_nat (unat v mod 128 + 128) # varint_bytes (unat v div 128)"
      using big by (subst varint_bytes.simps) simp
    then show ?thesis
      using ne by (cases "varint_fill (drop_bit 7 v)")
        (simp_all add: fill IH[symmetric] Let_def nth_Cons' del: IH)
  qed
qed

lemma pb_encode_varint_eq:
  "pb_encode_varint v = pb_write (varint_bytes (unat v)) (of_nat (length (varint_bytes (unat v))))"
proof (cases "v \<le> 0x7F")
  case True
  then have "unat v < 128" by (simp add: word_le_nat_alt)
  moreover have "ucast v = (of_nat (unat v) :: byte)"
    by (simp only: of_nat_unat)
  ultimately show ?thesis
    using True by (simp add: pb_encode_varint_def varint_bytes.simps[of "unat v"])
next
  case False
  then have "v \<noteq> 0" by auto
  from varint_fill_eq[OF this] have eq: "(varint_fill v)[length (varint_fill v) - 1 :=
      varint_fill v ! (length (varint_fill v) - 1) AND 0x7F] = varint_bytes (unat v)"
    by (simp only: Let_def)
  then have "length (varint_fill v) = length (varint_bytes (unat v))"
    by (metis length_list_update)
  with eq False show ?thesis by (simp add: pb_encode_varint_def Let_def)
qed

text \<open>The encoder's stack buffer has ten bytes.\<close>

lemma length_varint_bytes_le: "n < 2 ^ (7 * k) \<Longrightarrow> 0 < k \<Longrightarrow> length (varint_bytes n) \<le> k"
proof (induction k arbitrary: n)
  case (Suc k)
  show ?case
  proof (cases "n < 128")
    case True
    then show ?thesis by (subst varint_bytes.simps) simp
  next
    case False
    with Suc.prems(1) have "0 < k" by (cases k) auto
    moreover have "n div 128 < 2 ^ (7 * k)"
      using Suc.prems(1) by (simp add: less_mult_imp_div_less power_add mult.commute)
    ultimately show ?thesis using Suc.IH False by (subst varint_bytes.simps) simp
  qed
qed simp

lemma length_varint_bytes_64: "length (varint_bytes (unat (v :: uint64))) \<le> 10"
proof (rule length_varint_bytes_le)
  show "unat v < 2 ^ (7 * 10)" using unat_lt_64[of v] by (rule less_trans) simp
qed simp

section \<open>Readers on a memory buffer\<close>

text \<open>
  \<open>window s h bs\<close>: the stream reads from memory and the next bytes it can deliver
  begin with \<open>bs\<close>.
\<close>

definition window :: "istream \<Rightarrow> heap \<Rightarrow> byte list \<Rightarrow> bool" where
  "window s h bs \<longleftrightarrow> i_callback s = Buf_read \<and> length bs \<le> unat (i_bytes_left s) \<and>
     read_bytes h (i_state s) (length bs) = bs"

definition i_advance :: "nat \<Rightarrow> istream \<Rightarrow> istream" where
  "i_advance n s = s\<lparr>i_state := i_state s + n, i_bytes_left := i_bytes_left s - of_nat n\<rparr>"

lemma i_advance_0 [simp]: "i_advance 0 s = s"
  by (simp add: i_advance_def)

lemma i_advance_add [simp]: "i_advance m (i_advance n s) = i_advance (n + m) s"
  by (simp add: i_advance_def algebra_simps)

lemma i_advance_simps [simp]:
  "i_callback (i_advance n s) = i_callback s"
  "i_state (i_advance n s) = i_state s + n"
  "i_errmsg (i_advance n s) = i_errmsg s"
  by (simp_all add: i_advance_def)

lemma unat_i_advance:
  "n \<le> unat (i_bytes_left s) \<Longrightarrow> unat (i_bytes_left (i_advance n s)) = unat (i_bytes_left s) - n"
proof -
  assume n: "n \<le> unat (i_bytes_left s)"
  then have "unat (of_nat n :: size_t) = n"
    using unat_lt_64[of "i_bytes_left s"] by simp
  with n show ?thesis by (simp add: i_advance_def unat_sub word_le_nat_alt)
qed

lemma window_length: "window s h bs \<Longrightarrow> length bs \<le> unat (i_bytes_left s)"
  by (simp add: window_def)

lemma window_drop:
  assumes "window s h (xs @ ys)"
  shows "window (i_advance (length xs) s) h ys"
proof -
  have "read_bytes h (i_state s) (length xs) @ read_bytes h (i_state s + length xs) (length ys) = xs @ ys"
    using assms by (simp add: window_def flip: read_bytes_append)
  then have "read_bytes h (i_state s + length xs) (length ys) = ys" by simp
  then show ?thesis using assms by (auto simp: window_def unat_i_advance)
qed

lemma window_take: "window s h (xs @ ys) \<Longrightarrow> window s h xs"
  by (auto simp: window_def read_bytes_append)

lemma window_Cons_hd: "window s h (b # bs) \<Longrightarrow> h (i_state s) = b"
  by (simp add: window_def read_bytes_Suc)

lemma pb_readbyte_window:
  assumes "window s h (b # bs)"
  shows "pb_readbyte (s, h) = (Some b, (i_advance 1 s, h))"
proof -
  have "unat (i_bytes_left s) \<noteq> 0" using assms by (auto simp: window_def)
  then have "i_bytes_left s \<noteq> 0" by auto
  then show ?thesis using assms window_Cons_hd[OF assms]
    by (simp add: pb_readbyte_def call_read_def buf_read_def i_advance_def window_def)
qed

lemma pb_read_into_window:
  assumes "window s h (xs @ ys)"
  shows "pb_read_into (of_nat (length xs)) (s, h) = (Some xs, (i_advance (length xs) s, h))"
proof (cases "xs = []")
  case False
  have xs: "window s h xs" using assms by (rule window_take)
  then have len: "unat (of_nat (length xs) :: size_t) = length xs"
    using unat_lt_64[of "i_bytes_left s"] by (simp add: window_def)
  then have "of_nat (length xs) \<noteq> (0 :: size_t)" using False by auto
  moreover have "\<not> i_bytes_left s < of_nat (length xs)"
    using xs len by (simp add: window_def word_less_nat)
  ultimately show ?thesis
    using xs len by (simp add: pb_read_into_def call_read_def buf_read_def i_advance_def window_def
        read_bytes_map_shift)
qed (simp add: pb_read_into_def)

lemma pb_read_null_window:
  assumes "window s h (xs @ ys)"
  shows "pb_read_null (of_nat (length xs)) (s, h) = (Some (), (i_advance (length xs) s, h))"
proof -
  have "is_buf_read s" using assms by (simp add: is_buf_read_def window_def)
  moreover have "length xs < 2 ^ 64"
    using window_length[OF window_take[OF assms]] unat_lt_64[of "i_bytes_left s"] by simp
  ultimately show ?thesis
    using pb_read_into_window[OF assms]
    by (auto simp: pb_read_null_def bindf_def retf_def dest!: arg_cong[where f = unat])
qed

section \<open>Reading varints\<close>

lemma unat_bitpos_lt: "k < 256 \<Longrightarrow> unat (of_nat k :: 8 word) = k"
  by (simp add: unat_of_nat_byte)

lemma group7_join:
  fixes n :: nat
  shows "(of_nat (n mod 128) :: 'a::len word) OR push_bit 7 (of_nat (n div 128)) = of_nat n"
proof -
  have "(of_nat (n mod 128) :: 'a word) = take_bit 7 (of_nat n)"
    by (simp flip: of_nat_take_bit add: take_bit_nat_def)
  moreover have "push_bit 7 (of_nat (n div 128) :: 'a word) = of_nat (push_bit 7 (drop_bit 7 n))"
    by (simp only: of_nat_push_bit drop_bit_nat_def) simp
  moreover have "take_bit 7 n OR push_bit 7 (drop_bit 7 n) = n"
  proof (rule bit_eqI)
    fix i show "bit (take_bit 7 n OR push_bit 7 (drop_bit 7 n)) i = bit n i"
      by (cases "i < 7") (auto simp: bit_simps not_less)
  qed
  ultimately show ?thesis
    by (metis of_nat_or_eq of_nat_take_bit)
qed

lemma of_nat_byte_and_7F:
  "ucast ((of_nat m :: byte) AND 0x7F) = (of_nat (m mod 128) :: 'a::len word)"
proof -
  have "unat ((of_nat m :: byte) AND 0x7F) = m mod 128"
    by (simp only: unat_and_7F unat_of_nat_byte) (simp add: mod_mod_cancel)
  then show ?thesis by (metis of_nat_unat)
qed

lemma varint_loop_step:
  assumes "bitpos < 64" and "pb_readbyte sh = (Some b, sh')"
  shows "varint_loop bitpos r sh =
    (let r' = r OR push_bit (unat bitpos) (ucast (b AND 0x7F)) in
     if b AND 0x80 \<noteq> 0 then varint_loop (bitpos + 7) r' sh' else (Some r', sh'))"
  using assms by (subst varint_loop.simps) (simp add: Let_def linorder_not_le[symmetric])

lemma varint_loop_window:
  fixes n k :: nat
  assumes "window s h (varint_bytes n @ rest)" and "k < 64" and "n < 2 ^ (64 - k)"
  shows "varint_loop (of_nat k) r (s, h) =
           (Some (r OR push_bit k (of_nat n)), (i_advance (length (varint_bytes n)) s, h))"
  using assms
proof (induction n arbitrary: s k r rule: varint_bytes.induct)
  case (1 n)
  have k: "unat (of_nat k :: 8 word) = k" using "1.prems"(2) by (simp add: unat_bitpos_lt)
  then have k64: "(of_nat k :: 8 word) < 64"
    using "1.prems"(2) by (simp add: word_less_nat)
  show ?case
  proof (cases "n < 128")
    case True
    then have bytes: "varint_bytes n = [of_nat n]" by (subst varint_bytes.simps) simp
    have rd: "pb_readbyte (s, h) = (Some (of_nat n), (i_advance 1 s, h))"
      using "1.prems"(1) by (intro pb_readbyte_window) (simp add: bytes)
    have "(of_nat n :: byte) AND 0x80 = 0"
      using True by (simp only: byte_and_80_eq_0 unat_of_nat_byte)
    with True k varint_loop_step[OF k64 rd] show ?thesis
      by (simp add: bytes of_nat_byte_and_7F)
  next
    case False
    let ?b = "of_nat (n mod 128 + 128) :: byte"
    have bytes: "varint_bytes n = ?b # varint_bytes (n div 128)"
      using False by (subst varint_bytes.simps) simp
    have rd: "pb_readbyte (s, h) = (Some ?b, (i_advance 1 s, h))"
      using "1.prems"(1) by (intro pb_readbyte_window) (simp add: bytes)
    have cont: "?b AND 0x80 \<noteq> 0" by (simp only: byte_and_80_eq_0 unat_of_nat_byte) simp
    have k7: "k + 7 < 64"
    proof (rule ccontr)
      assume "\<not> k + 7 < 64"
      then have "2 ^ (64 - k) \<le> (2 ^ 7 :: nat)" by (intro power_increasing) auto
      with "1.prems"(3) False show False by simp
    qed
    have small: "n div 128 < 2 ^ (64 - (k + 7))"
    proof -
      have "64 - k = (64 - (k + 7)) + 7" using k7 by simp
      then have "(2::nat) ^ (64 - k) = 2 ^ (64 - (k + 7)) * 2 ^ 7" by (simp only: power_add)
      with "1.prems"(3) show ?thesis by (simp add: less_mult_imp_div_less)
    qed
    have "window (i_advance 1 s) h (varint_bytes (n div 128) @ rest)"
      using window_drop[of s h "[?b]"] "1.prems"(1) by (simp add: bytes)
    from "1.IH"[OF False this k7 small]
    have IH: "varint_loop (of_nat (k + 7)) r' (i_advance 1 s, h) =
        (Some (r' OR push_bit (k + 7) (of_nat (n div 128))),
         (i_advance (1 + length (varint_bytes (n div 128))) s, h))" for r'
      by simp
    have "(of_nat n :: uint64) = of_nat (n mod 128) OR push_bit 7 (of_nat (n div 128))"
      by (simp only: group7_join)
    then have res: "(r OR push_bit k (of_nat (n mod 128))) OR push_bit (k + 7) (of_nat (n div 128)) =
        r OR push_bit k (of_nat n :: uint64)"
      by (simp only: push_bit_or push_bit_push_bit or.assoc)
    have low: "(n mod 128 + 128) mod 128 = n mod 128" by simp
    have "varint_loop (of_nat k) r (s, h) =
        varint_loop (of_nat (k + 7)) (r OR push_bit k (of_nat (n mod 128))) (i_advance 1 s, h)"
      unfolding varint_loop_step[OF k64 rd] k of_nat_byte_and_7F low Let_def
      using cont by simp
    also have "\<dots> = (Some (r OR push_bit k (of_nat n)), (i_advance (length (varint_bytes n)) s, h))"
      unfolding IH res by (simp add: bytes)
    finally show ?thesis .
  qed
qed

lemma pb_decode_varint_window:
  assumes "window s h (varint_bytes (unat v) @ rest)"
  shows "pb_decode_varint (s, h) = (Some v, (i_advance (length (varint_bytes (unat v))) s, h))"
  using varint_loop_window[OF assms, of 0 0] unat_lt_64[of v]
  by (simp add: pb_decode_varint_def)

lemma varint32_loop_step:
  assumes "bitpos < 32" and "pb_readbyte sh = (Some b, sh')"
  shows "varint32_loop bitpos r sh =
    (let r' = r OR push_bit (unat bitpos) (ucast (b AND 0x7F)) in
     if b AND 0x80 \<noteq> 0 then varint32_loop (bitpos + 7) r' sh'
     else if bitpos = 28 \<and> b AND 0x70 \<noteq> 0 then i_error ''varint overflow'' sh'
     else (Some r', sh'))"
proof -
  have "bitpos + 7 = 35 \<longleftrightarrow> bitpos = 28" by (rule byte_all) code_simp
  then show ?thesis using assms
    by (subst varint32_loop.simps) (simp add: Let_def linorder_not_le[symmetric])
qed

lemma varint32_loop_window:
  fixes n k :: nat
  assumes "window s h (varint_bytes n @ rest)" and "k \<in> {7, 14, 21, 28}" and "n < 2 ^ (32 - k)"
  shows "varint32_loop (of_nat k) r (s, h) =
           (Some (r OR push_bit k (of_nat n)), (i_advance (length (varint_bytes n)) s, h))"
  using assms
proof (induction n arbitrary: s k r rule: varint_bytes.induct)
  case (1 n)
  have k: "unat (of_nat k :: 8 word) = k" using "1.prems"(2) by (auto simp: unat_bitpos_lt)
  then have k32: "(of_nat k :: 8 word) < 32"
    using "1.prems"(2) by (auto simp: word_less_nat)
  show ?case
  proof (cases "n < 128")
    case True
    then have bytes: "varint_bytes n = [of_nat n]" by (subst varint_bytes.simps) simp
    have rd: "pb_readbyte (s, h) = (Some (of_nat n), (i_advance 1 s, h))"
      using "1.prems"(1) by (intro pb_readbyte_window) (simp add: bytes)
    have last: "(of_nat n :: byte) AND 0x80 = 0"
      using True by (simp only: byte_and_80_eq_0 unat_of_nat_byte)
    have "\<not> ((of_nat k :: 8 word) = 28 \<and> (of_nat n :: byte) AND 0x70 \<noteq> 0)"
    proof
      assume a: "(of_nat k :: 8 word) = 28 \<and> (of_nat n :: byte) AND 0x70 \<noteq> 0"
      then have "unat (of_nat k :: 8 word) = unat (28 :: 8 word)" by simp
      then have "k = 28" using k by simp
      then have "unat (of_nat n :: byte) < 16" using "1.prems"(3) by (simp add: unat_of_nat_byte)
      moreover have "unat b < 16 \<longrightarrow> b AND 0x70 = 0" for b :: byte
        by (rule byte_all) code_simp
      ultimately show False using a by blast
    qed
    with last True k varint32_loop_step[OF k32 rd] show ?thesis
      by (simp add: bytes of_nat_byte_and_7F)
  next
    case False
    let ?b = "of_nat (n mod 128 + 128) :: byte"
    have bytes: "varint_bytes n = ?b # varint_bytes (n div 128)"
      using False by (subst varint_bytes.simps) simp
    have rd: "pb_readbyte (s, h) = (Some ?b, (i_advance 1 s, h))"
      using "1.prems"(1) by (intro pb_readbyte_window) (simp add: bytes)
    have cont: "?b AND 0x80 \<noteq> 0" by (simp only: byte_and_80_eq_0 unat_of_nat_byte) simp
    have k7: "k + 7 \<in> {7, 14, 21, 28}"
      using "1.prems"(2,3) False by auto
    have small: "n div 128 < 2 ^ (32 - (k + 7))"
      using "1.prems"(2,3) False by (auto simp: less_mult_imp_div_less)
    have "window (i_advance 1 s) h (varint_bytes (n div 128) @ rest)"
      using window_drop[of s h "[?b]"] "1.prems"(1) by (simp add: bytes)
    from "1.IH"[OF False this k7 small]
    have IH: "varint32_loop (of_nat (k + 7)) r' (i_advance 1 s, h) =
        (Some (r' OR push_bit (k + 7) (of_nat (n div 128))),
         (i_advance (1 + length (varint_bytes (n div 128))) s, h))" for r'
      by simp
    have "(of_nat n :: uint32) = of_nat (n mod 128) OR push_bit 7 (of_nat (n div 128))"
      by (simp only: group7_join)
    then have res: "(r OR push_bit k (of_nat (n mod 128))) OR push_bit (k + 7) (of_nat (n div 128)) =
        r OR push_bit k (of_nat n :: uint32)"
      by (simp only: push_bit_or push_bit_push_bit or.assoc)
    have low: "(n mod 128 + 128) mod 128 = n mod 128" by simp
    have "varint32_loop (of_nat k) r (s, h) =
        varint32_loop (of_nat (k + 7)) (r OR push_bit k (of_nat (n mod 128))) (i_advance 1 s, h)"
      unfolding varint32_loop_step[OF k32 rd] k of_nat_byte_and_7F low Let_def
      using cont by simp
    also have "\<dots> = (Some (r OR push_bit k (of_nat n)), (i_advance (length (varint_bytes n)) s, h))"
      unfolding IH res by (simp add: bytes)
    finally show ?thesis .
  qed
qed

lemma pb_decode_varint32_eof_window:
  assumes "window s h (varint_bytes (unat v) @ rest)"
  shows "pb_decode_varint32_eof (s, h) =
    ((Some v, False), (i_advance (length (varint_bytes (unat v))) s, h))"
proof (cases "unat v < 128")
  case True
  then have bytes: "varint_bytes (unat v) = [of_nat (unat v)]" by (subst varint_bytes.simps) simp
  have "pb_readbyte (s, h) = (Some (of_nat (unat v)), (i_advance 1 s, h))"
    using assms by (intro pb_readbyte_window) (simp add: bytes)
  moreover have "(of_nat (unat v) :: byte) AND 0x80 = 0"
    using True by (simp only: byte_and_80_eq_0 unat_of_nat_byte)
  moreover have "ucast (of_nat (unat v) :: byte) = v"
    using True by (simp add: word_unat_eq_iff unat_ucast_mod unat_of_nat_byte del: of_nat_unat)
  ultimately show ?thesis by (simp add: pb_decode_varint32_eof_def bytes del: of_nat_unat)
next
  case False
  let ?n = "unat v"
  let ?b = "of_nat (?n mod 128 + 128) :: byte"
  have bytes: "varint_bytes ?n = ?b # varint_bytes (?n div 128)"
    using False by (subst varint_bytes.simps) simp
  have rd: "pb_readbyte (s, h) = (Some ?b, (i_advance 1 s, h))"
    using assms by (intro pb_readbyte_window) (simp add: bytes)
  have cont: "?b AND 0x80 \<noteq> 0" by (simp only: byte_and_80_eq_0 unat_of_nat_byte) simp
  have win: "window (i_advance 1 s) h (varint_bytes (?n div 128) @ rest)"
    using window_drop[of s h "[?b]"] assms by (simp add: bytes)
  have "?n < 2 ^ 25 * 128" using unsigned_less[of v] by simp
  then have "?n div 128 < 2 ^ (32 - 7)" by (simp add: less_mult_imp_div_less)
  from varint32_loop_window[OF win _ this, of "of_nat (?n mod 128)"]
  have "varint32_loop 7 (of_nat (?n mod 128)) (i_advance 1 s, h) =
      (Some v, (i_advance (length (varint_bytes ?n)) s, h))"
    by (simp add: bytes group7_join)
  moreover have "ucast (?b AND 0x7F) = (of_nat (?n mod 128) :: uint32)"
    by (simp only: of_nat_byte_and_7F) simp
  ultimately show ?thesis using rd cont by (simp add: pb_decode_varint32_eof_def)
qed

lemma pb_decode_varint32_window:
  assumes "window s h (varint_bytes (unat (v :: uint32)) @ rest)"
  shows "pb_decode_varint32 (s, h) = (Some v, (i_advance (length (varint_bytes (unat v))) s, h))"
  by (simp add: pb_decode_varint32_def pb_decode_varint32_eof_window[OF assms])

end
