(* ===== verification/Pb_Codec.thy ===== *)
theory Pb_Codec
  imports Pb_Wire
begin

text \<open>
  The contract between a writer and a reader of the nanopb wire format, stated once as a
  locale and interpreted for the varint, zigzag and fixed-width codecs of
  \<^verbatim>\<open>pb_encode.c\<close> and \<^verbatim>\<open>pb_decode.c\<close>: the writer stores exactly the reference bytes when
  they fit and fails otherwise, the reader consumes exactly them. Round trips of single
  values and of runs of values (the packed arrays of \<open>encode_array\<close>) follow in the
  locale.
\<close>

text \<open>The element loops of the packed arrays: one call of the codec per element.\<close>

primrec enc_seq :: "('v \<Rightarrow> unit enc) \<Rightarrow> 'v list \<Rightarrow> unit enc" where
  "enc_seq e [] = retf ()"
| "enc_seq e (v # vs) = bindf (e v) (\<lambda>_. enc_seq e vs)"

primrec dec_seq :: "'v dec \<Rightarrow> nat \<Rightarrow> 'v list dec" where
  "dec_seq d 0 = retf []"
| "dec_seq d (Suc n) = bindf d (\<lambda>v. bindf (dec_seq d n) (\<lambda>vs. retf (v # vs)))"

definition o_inv :: "ostream \<Rightarrow> bool" where
  "o_inv s \<longleftrightarrow> buffer_ostream s \<and> unat (o_bytes_written s) \<le> unat (o_max_size s)"

lemma o_inv_from_buffer [simp]: "o_inv (pb_ostream_from_buffer buf n)"
  by (simp add: o_inv_def buffer_ostream_def pb_ostream_from_buffer_def)

lemma o_room_from_buffer [simp]: "o_room (pb_ostream_from_buffer buf n) = unat n"
  by (simp add: o_room_def pb_ostream_from_buffer_def)

lemma o_advance_simps [simp]:
  "o_callback (o_advance n s) = o_callback s"
  "o_state (o_advance n s) = o_state s + n"
  "o_max_size (o_advance n s) = o_max_size s"
  "o_errmsg (o_advance n s) = o_errmsg s"
  "o_advance 0 s = s"
  "o_advance m (o_advance n s) = o_advance (n + m) s"
  by (simp_all add: o_advance_def algebra_simps)

lemma unat_o_advance:
  assumes "o_inv s" and "n \<le> o_room s"
  shows "unat (o_bytes_written (o_advance n s)) = unat (o_bytes_written s) + n"
proof -
  have "unat (o_bytes_written s) + n \<le> unat (o_max_size s)"
    using assms by (auto simp: o_inv_def o_room_def)
  then have lt: "unat (o_bytes_written s) + n < 2 ^ 64"
    using unat_lt_64[of "o_max_size s"] by linarith
  then have "unat (of_nat n :: size_t) = n" by simp
  with lt show ?thesis by (simp add: o_advance_def unat_word_ariths)
qed

lemma o_inv_advance: "o_inv s \<Longrightarrow> n \<le> o_room s \<Longrightarrow> o_inv (o_advance n s)"
  using unat_o_advance[of s n] by (auto simp: o_inv_def o_room_def buffer_ostream_def)

lemma o_room_advance: "o_inv s \<Longrightarrow> n \<le> o_room s \<Longrightarrow> o_room (o_advance n s) = o_room s - n"
  using unat_o_advance[of s n] by (auto simp: o_room_def)

lemma window_written:
  assumes "length bs < 2 ^ 64"
  shows "window (pb_istream_from_buffer buf (of_nat (length bs))) (write_bytes h buf bs) bs"
  using assms by (simp add: window_def pb_istream_from_buffer_def)

locale wire_codec =
  fixes enc :: "'v \<Rightarrow> unit enc"
    and dec :: "'v dec"
    and bytes :: "'v \<Rightarrow> byte list"
  assumes enc_writes:
      "o_inv s \<Longrightarrow> length (bytes v) \<le> o_room s \<Longrightarrow>
       enc v (s, h) = (Some (), (o_advance (length (bytes v)) s, write_bytes h (o_state s) (bytes v)))"
    and enc_full: "o_inv s \<Longrightarrow> o_room s < length (bytes v) \<Longrightarrow> fst (enc v (s, h)) = None"
    and dec_reads:
      "window i h (bytes v @ rest) \<Longrightarrow> dec (i, h) = (Some v, (i_advance (length (bytes v)) i, h))"
begin

lemma enc_seq_writes:
  "o_inv s \<Longrightarrow> length (concat (map bytes vs)) \<le> o_room s \<Longrightarrow>
   enc_seq enc vs (s, h) =
     (Some (), (o_advance (length (concat (map bytes vs))) s,
                write_bytes h (o_state s) (concat (map bytes vs))))"
proof (induction vs arbitrary: s h)
  case (Cons v vs)
  then have "length (bytes v) \<le> o_room s" by simp
  with Cons show ?case
    by (simp add: bindf_def enc_writes o_inv_advance o_room_advance write_bytes_append)
qed (simp add: retf_def)

lemma dec_seq_reads:
  "window s h (concat (map bytes vs) @ rest) \<Longrightarrow>
   dec_seq dec (length vs) (s, h) = (Some vs, (i_advance (length (concat (map bytes vs))) s, h))"
proof (induction vs arbitrary: s)
  case (Cons v vs)
  then have w: "window s h (bytes v @ concat (map bytes vs) @ rest)" by simp
  from Cons.IH[OF window_drop[OF w]] show ?case
    by (simp add: bindf_def retf_def dec_reads[OF w])
qed (simp add: retf_def)

lemma seq_roundtrip:
  assumes "length (concat (map bytes vs)) \<le> unat bufsize"
  shows "\<exists>os h'. enc_seq enc vs (pb_ostream_from_buffer buf bufsize, h) = (Some (), (os, h')) \<and>
    unat (o_bytes_written os) = length (concat (map bytes vs)) \<and>
    (\<exists>is. dec_seq dec (length vs) (pb_istream_from_buffer buf (o_bytes_written os), h') =
            (Some vs, (is, h')) \<and> i_bytes_left is = 0)"
proof -
  let ?bs = "concat (map bytes vs)" and ?s = "pb_ostream_from_buffer buf bufsize"
  have lt: "length ?bs < 2 ^ 64" using assms unat_lt_64[of bufsize] by linarith
  have bw: "o_bytes_written (o_advance (length ?bs) ?s) = of_nat (length ?bs)"
    by (simp add: o_advance_def pb_ostream_from_buffer_def)
  have "enc_seq enc vs (?s, h) = (Some (), (o_advance (length ?bs) ?s, write_bytes h buf ?bs))"
    using enc_seq_writes[of ?s vs h] assms
    by (simp add: pb_ostream_from_buffer_def[of buf bufsize, THEN arg_cong[where f = o_state]])
  moreover have "dec_seq dec (length vs) (pb_istream_from_buffer buf (of_nat (length ?bs)), write_bytes h buf ?bs)
      = (Some vs, (i_advance (length ?bs) (pb_istream_from_buffer buf (of_nat (length ?bs))), write_bytes h buf ?bs))"
    using dec_seq_reads[of _ _ vs "[]"] window_written[OF lt, of buf h] by simp
  ultimately show ?thesis
    using lt by (simp add: bw) (simp add: i_advance_def pb_istream_from_buffer_def)
qed

lemma roundtrip:
  assumes "length (bytes v) \<le> unat bufsize"
  shows "\<exists>os h'. enc v (pb_ostream_from_buffer buf bufsize, h) = (Some (), (os, h')) \<and>
    unat (o_bytes_written os) = length (bytes v) \<and>
    (\<exists>is. dec (pb_istream_from_buffer buf (o_bytes_written os), h') = (Some v, (is, h')) \<and>
          i_bytes_left is = 0)"
proof -
  have e: "enc_seq enc [v] = enc v"
    by (rule ext) (auto simp: bindf_def retf_def split: prod.split option.split)
  have d: "dec_seq dec 1 sh = (Some [v], sh') \<Longrightarrow> dec sh = (Some v, sh')" for sh sh'
    by (auto simp: bindf_def retf_def split: prod.splits option.splits)
  from seq_roundtrip[of "[v]" bufsize buf h] assms show ?thesis
    using d unfolding e by fastforce
qed

end

text \<open>A codec whose writer is one call of \<open>pb_write\<close>.\<close>

locale write_codec =
  fixes enc :: "'v \<Rightarrow> unit enc"
    and dec :: "'v dec"
    and bytes :: "'v \<Rightarrow> byte list"
  assumes enc_eq: "enc v = pb_write (bytes v) (of_nat (length (bytes v)))"
    and bytes_len: "length (bytes v) < 2 ^ 64"
    and reads: "window s h (bytes v @ rest) \<Longrightarrow>
      dec (s, h) = (Some v, (i_advance (length (bytes v)) s, h))"

sublocale write_codec \<subseteq> wire_codec enc dec bytes
proof
  show "enc v (s, h) = (Some (), (o_advance (length (bytes v)) s, write_bytes h (o_state s) (bytes v)))"
    if "o_inv s" "length (bytes v) \<le> o_room s" for s v h
    using that by (simp add: enc_eq o_inv_def pb_write_buffer)
  show "fst (enc v (s, h)) = None" if "o_inv s" "o_room s < length (bytes v)" for s v h
    using that pb_write_full[of s "bytes v" h] bytes_len[of v]
    by (simp add: enc_eq o_inv_def o_error_def)
qed (rule reads)

section \<open>The codecs of the program\<close>

definition zigzag :: "uint64 \<Rightarrow> uint64" where
  "zigzag v = (if sint v < 0 then NOT (push_bit 1 v) else push_bit 1 v)"

lemma sint_neg_bit63: "sint (v :: uint64) < 0 \<longleftrightarrow> bit v 63"
  by (simp add: sint_uint bit_last_iff bit_uint_iff)

lemma unzigzag:
  "(if zigzag v AND 1 \<noteq> 0 then NOT (drop_bit 1 (zigzag v)) else drop_bit 1 (zigzag v)) = v"
proof -
  have top63: "n < 64 \<Longrightarrow> \<not> n < 63 \<Longrightarrow> n = 63" for n :: nat by simp
  have odd: "z AND 1 \<noteq> 0 \<longleftrightarrow> bit z 0" for z :: uint64
    by (simp add: and_one_eq bit_0 odd_iff_mod_2_eq_one)
  show ?thesis
  proof (cases "bit v 63")
    case True
    then have "NOT (drop_bit 1 (NOT (push_bit 1 v))) = v"
      by (intro bit_word_eqI)
        (auto simp: bit_simps simp del: push_bit_Suc drop_bit_Suc dest: top63)
    with True show ?thesis by (simp add: odd zigzag_def sint_neg_bit63 bit_simps del: push_bit_Suc drop_bit_Suc)
  next
    case False
    then have "drop_bit 1 (push_bit 1 v) = v"
      by (intro bit_word_eqI)
        (auto simp: bit_simps simp del: push_bit_Suc drop_bit_Suc dest: top63)
    with False show ?thesis by (simp add: odd zigzag_def sint_neg_bit63 bit_simps del: push_bit_Suc drop_bit_Suc)
  qed
qed

lemma byte_of_and_FF: "ucast (v AND 0xFF :: 'a::len word) = (ucast v :: byte)"
proof -
  have "v AND 0xFF = take_bit 8 v" by (simp add: take_bit_eq_mask mask_eq_exp_minus_1)
  then show ?thesis by (simp add: unsigned_take_bit_eq take_bit_word_eq_self)
qed

lemma fixed32_bytes:
  "[ucast (v AND 0xFF), ucast (drop_bit 8 v AND 0xFF), ucast (drop_bit 16 v AND 0xFF),
    ucast (drop_bit 24 v AND 0xFF)] = le_bytes 4 (v :: uint32)"
  by (simp add: le_bytes_def upt_rec byte_of_and_FF)

lemma fixed64_bytes:
  "[ucast (v AND 0xFF), ucast (drop_bit 8 v AND 0xFF), ucast (drop_bit 16 v AND 0xFF),
    ucast (drop_bit 24 v AND 0xFF), ucast (drop_bit 32 v AND 0xFF), ucast (drop_bit 40 v AND 0xFF),
    ucast (drop_bit 48 v AND 0xFF), ucast (drop_bit 56 v AND 0xFF)] = le_bytes 8 (v :: uint64)"
  by (simp add: le_bytes_def upt_rec byte_of_and_FF)

lemma le_word_4:
  "(le_word [a, b, c, d] :: uint32) =
     push_bit 0 (ucast a) OR push_bit 8 (ucast b) OR push_bit 16 (ucast c) OR push_bit 24 (ucast d)"
  by (simp add: or.assoc)

lemma le_word_8:
  "(le_word [a, b, c, d, e, f, g, i] :: uint64) =
     push_bit 0 (ucast a) OR push_bit 8 (ucast b) OR push_bit 16 (ucast c) OR push_bit 24 (ucast d) OR
     push_bit 32 (ucast e) OR push_bit 40 (ucast f) OR push_bit 48 (ucast g) OR push_bit 56 (ucast i)"
  by (simp add: or.assoc)

lemma nth_list_4: "length xs = 4 \<Longrightarrow> xs = [xs ! 0, xs ! 1, xs ! 2, xs ! 3]"
  by (intro nth_equalityI) (auto simp: less_Suc_eq numeral_nat)

lemma nth_list_8:
  "length xs = 8 \<Longrightarrow> xs = [xs ! 0, xs ! 1, xs ! 2, xs ! 3, xs ! 4, xs ! 5, xs ! 6, xs ! 7]"
  by (intro nth_equalityI) (auto simp: less_Suc_eq numeral_nat)

interpretation varint: write_codec pb_encode_varint pb_decode_varint "\<lambda>v. varint_bytes (unat v)"
proof
  show "pb_encode_varint v = pb_write (varint_bytes (unat v)) (of_nat (length (varint_bytes (unat v))))" for v
    by (rule pb_encode_varint_eq)
  show "length (varint_bytes (unat v)) < 2 ^ 64" for v :: uint64
    using length_varint_bytes_64[of v] by simp
qed (rule pb_decode_varint_window)

interpretation svarint: write_codec pb_encode_svarint pb_decode_svarint
  "\<lambda>v. varint_bytes (unat (zigzag v))"
proof
  show "pb_encode_svarint v =
      pb_write (varint_bytes (unat (zigzag v))) (of_nat (length (varint_bytes (unat (zigzag v)))))" for v
    by (simp add: pb_encode_svarint_def pb_encode_varint_eq zigzag_def Let_def)
  show "length (varint_bytes (unat (zigzag v))) < 2 ^ 64" for v
    by (rule varint.bytes_len)
  show "pb_decode_svarint (s, h) = (Some v, i_advance (length (varint_bytes (unat (zigzag v)))) s, h)"
    if "window s h (varint_bytes (unat (zigzag v)) @ rest)" for s h v rest
    using unzigzag[of v]
    by (simp add: pb_decode_svarint_def bindf_def retf_def varint.reads[OF that])
qed

interpretation fixed32: write_codec pb_encode_fixed32 pb_decode_fixed32 "le_bytes 4"
proof
  show "pb_encode_fixed32 v = pb_write (le_bytes 4 v) (of_nat (length (le_bytes 4 v)))" for v
    by (simp add: pb_encode_fixed32_def fixed32_bytes)
  show "pb_decode_fixed32 (s, h) = (Some v, i_advance (length (le_bytes 4 v)) s, h)"
    if "window s h (le_bytes 4 v @ rest)" for s h v rest
  proof -
    have "le_word (le_bytes 4 v) = v" by (simp add: le_word_le_bytes take_bit_word_eq_self)
    then show ?thesis
      using pb_read_into_window[OF that] nth_list_4[of "le_bytes 4 v"]
      by (simp add: pb_decode_fixed32_def bindf_def retf_def) (metis le_word_4 push_bit_0_id id_apply)
  qed
qed simp

interpretation fixed64: write_codec pb_encode_fixed64 pb_decode_fixed64 "le_bytes 8"
proof
  show "pb_encode_fixed64 v = pb_write (le_bytes 8 v) (of_nat (length (le_bytes 8 v)))" for v
    by (simp add: pb_encode_fixed64_def fixed64_bytes)
  show "pb_decode_fixed64 (s, h) = (Some v, i_advance (length (le_bytes 8 v)) s, h)"
    if "window s h (le_bytes 8 v @ rest)" for s h v rest
  proof -
    have "le_word (le_bytes 8 v) = v" by (simp add: le_word_le_bytes take_bit_word_eq_self)
    then show ?thesis
      using pb_read_into_window[OF that] nth_list_8[of "le_bytes 8 v"]
      by (simp add: pb_decode_fixed64_def bindf_def retf_def) (metis le_word_8 push_bit_0_id id_apply)
  qed
qed simp

section \<open>Tags, strings and skipping\<close>

lemma tag_word:
  fixes wt num :: uint32
  assumes "unat wt < 8" and "unat num < 2 ^ 29"
  defines "t \<equiv> push_bit 3 num OR wt"
  shows "push_bit 3 (ucast num) OR ucast wt = (ucast t :: uint64)"
    and "t AND 7 = wt" and "drop_bit 3 t = num"
proof -
  have wt: "\<not> bit wt n" if "3 \<le> n" for n
    using not_bit_unat_less[of wt 3 n] assms(1) that by simp
  have num: "n < 29" if "bit num n" for n
    using not_bit_unat_less[of num 29 n] assms(2) that by (meson not_less)
  have seven: "x AND 7 = take_bit 3 x" for x :: uint32
    by (simp add: take_bit_eq_mask mask_eq_exp_minus_1)
  show "push_bit 3 (ucast num) OR ucast wt = (ucast t :: uint64)"
    by (intro bit_word_eqI) (auto simp: t_def bit_simps dest: num)
  show "t AND 7 = wt"
    unfolding seven t_def using wt by (intro bit_word_eqI) (auto simp: bit_simps)
  show "drop_bit 3 t = num"
    unfolding t_def using wt by (intro bit_word_eqI) (auto simp: bit_simps dest: num)
qed

lemma pb_encode_tag_eq:
  assumes "unat wt < 8" and "unat num < 2 ^ 29"
  shows "pb_encode_tag wt num = pb_encode_varint (ucast (push_bit 3 num OR wt))"
  by (simp add: pb_encode_tag_def tag_word(1)[OF assms])

lemma pb_decode_tag_window:
  assumes "unat wt < 8" and "unat num < 2 ^ 29" and "num \<noteq> 0"
    and "window s h (varint_bytes (unat (push_bit 3 num OR wt)) @ rest)"
  shows "pb_decode_tag (s, h) = ((Some (wt, num), False),
    (i_advance (length (varint_bytes (unat (push_bit 3 num OR wt)))) s, h))"
proof -
  have "push_bit 3 num OR wt \<noteq> 0"
    using tag_word(3)[OF assms(1,2)] assms(3) by (metis drop_bit_of_0)
  then show ?thesis
    using pb_decode_varint32_eof_window[OF assms(4)] tag_word(2,3)[OF assms(1,2)]
    by (simp add: pb_decode_tag_def)
qed

definition string_bytes :: "byte list \<Rightarrow> byte list" where
  "string_bytes bs = varint_bytes (length bs) @ bs"

lemma pb_encode_string_writes:
  assumes "o_inv s" and "length (string_bytes bs) \<le> o_room s"
  shows "pb_encode_string bs (of_nat (length bs)) (s, h) =
    (Some (), (o_advance (length (string_bytes bs)) s, write_bytes h (o_state s) (string_bytes bs)))"
proof -
  let ?v = "varint_bytes (length bs)"
  have "o_room s < 2 ^ 64" using unat_lt_64[of "o_max_size s"] by (simp add: o_room_def)
  then have n: "unat (of_nat (length bs) :: size_t) = length bs"
    using assms(2) by (simp add: string_bytes_def)
  have v: "length ?v \<le> o_room s" using assms(2) by (simp add: string_bytes_def)
  have "pb_encode_varint (of_nat (length bs)) (s, h) =
      (Some (), (o_advance (length ?v) s, write_bytes h (o_state s) ?v))"
    using varint.enc_writes[of s "of_nat (length bs)" h] assms(1) v by (simp add: n)
  moreover have "o_inv (o_advance (length ?v) s)" and "length bs \<le> o_room (o_advance (length ?v) s)"
    using assms o_inv_advance[OF assms(1) v] o_room_advance[OF assms(1) v]
    by (auto simp: string_bytes_def)
  ultimately show ?thesis
    by (simp add: pb_encode_string_def bindf_def pb_write_buffer o_inv_def string_bytes_def
        write_bytes_append)
qed

lemma pb_make_string_substream_window:
  assumes "window s h (string_bytes bs @ rest)" and "length bs < 2 ^ 32"
  shows "pb_make_string_substream (s, h) =
    (Some ((i_advance (length (varint_bytes (length bs))) s)\<lparr>i_bytes_left := of_nat (length bs)\<rparr>),
     ((i_advance (length (varint_bytes (length bs))) s)
        \<lparr>i_bytes_left := i_bytes_left s - of_nat (length (string_bytes bs))\<rparr>, h))"
proof -
  let ?v = "varint_bytes (length bs)"
  let ?s = "i_advance (length ?v) s"
  have n32: "unat (of_nat (length bs) :: uint32) = length bs"
    using assms(2) by (simp add: unsigned_of_nat take_bit_nat_eq_self)
  have uc: "ucast (of_nat (length bs) :: uint32) = (of_nat (length bs) :: size_t)"
    using n32 by (metis of_nat_unat)
  have w: "window ?s h (bs @ rest)"
    using window_drop[of s h ?v "bs @ rest"] assms(1) by (simp add: string_bytes_def)
  have dec: "pb_decode_varint32 (s, h) = (Some (of_nat (length bs)), (?s, h))"
    using pb_decode_varint32_window[of s h "of_nat (length bs)" "bs @ rest"] assms(1)
    by (simp add: n32 string_bytes_def)
  have "\<not> i_bytes_left ?s < of_nat (length bs)"
    using window_length[OF w] unat_lt_64[of "i_bytes_left ?s"] by (simp add: word_less_nat)
  then show ?thesis
    by (simp add: pb_make_string_substream_def bindf_def dec uc Let_def)
       (simp add: i_advance_def string_bytes_def)
qed

lemma pb_close_string_substream_window:
  assumes "window sub h bs" and "unat (i_bytes_left sub) = length bs"
  shows "pb_close_string_substream sub (s, h) =
    (Some (), (s\<lparr>i_state := i_state sub + length bs, i_errmsg := i_errmsg sub\<rparr>, h))"
proof -
  have "i_bytes_left sub = of_nat (length bs)" using assms(2) by (metis of_nat_unat ucast_id)
  then show ?thesis
    using pb_read_null_window[of sub h bs "[]"] assms
    by (auto simp: pb_close_string_substream_def)
qed

lemma pb_skip_varint_window:
  assumes "window s h (varint_bytes n @ rest)"
  shows "pb_skip_varint (s, h) = (Some (), (i_advance (length (varint_bytes n)) s, h))"
  using assms
proof (induction n arbitrary: s rule: varint_bytes.induct)
  case (1 n)
  define b where "b = (of_nat (if n < 128 then n else n mod 128 + 128) :: byte)"
  have bytes: "varint_bytes n = b # (if n < 128 then [] else varint_bytes (n div 128))"
    unfolding b_def by (subst varint_bytes.simps) simp
  have rd: "pb_read_into 1 (s, h) = (Some [b], (i_advance 1 s, h))"
    using pb_read_into_window[of s h "[b]"] "1.prems" by (simp add: bytes)
  have cont: "b AND 0x80 = 0 \<longleftrightarrow> n < 128"
    unfolding b_def by (simp only: byte_and_80_eq_0 unat_of_nat_byte) simp
  show ?case
  proof (cases "n < 128")
    case True
    then show ?thesis using rd cont by (subst pb_skip_varint.simps) (simp add: bytes)
  next
    case False
    have "window (i_advance 1 s) h (varint_bytes (n div 128) @ rest)"
      using window_drop[of s h "[b]"] "1.prems" False by (simp add: bytes)
    from "1.IH"[OF False this] show ?thesis
      using False rd cont by (subst pb_skip_varint.simps) (simp add: bytes)
  qed
qed

lemma pb_skip_string_window:
  assumes "window s h (string_bytes bs @ rest)" and "length bs < 2 ^ 32"
  shows "pb_skip_string (s, h) = (Some (), (i_advance (length (string_bytes bs)) s, h))"
proof -
  let ?v = "varint_bytes (length bs)"
  have n32: "unat (of_nat (length bs) :: uint32) = length bs"
    using assms(2) by (simp add: unsigned_of_nat take_bit_nat_eq_self)
  have uc: "ucast (of_nat (length bs) :: uint32) = (of_nat (length bs) :: size_t)"
    using n32 by (metis of_nat_unat)
  have "pb_decode_varint32 (s, h) = (Some (of_nat (length bs)), (i_advance (length ?v) s, h))"
    using pb_decode_varint32_window[of s h "of_nat (length bs)" "bs @ rest"] assms(1)
    by (simp add: n32 string_bytes_def)
  moreover have "window (i_advance (length ?v) s) h (bs @ rest)"
    using window_drop[of s h ?v "bs @ rest"] assms(1) by (simp add: string_bytes_def)
  ultimately show ?thesis
    using pb_read_null_window by (simp add: pb_skip_string_def bindf_def uc string_bytes_def)
qed

section \<open>Properties of the wire format\<close>

text \<open>
  C5. A 64-bit value written by \<open>pb_encode_varint\<close> to a buffer of at least ten bytes is
  read back by \<open>pb_decode_varint\<close>; at most ten bytes are written and the reader consumes
  all of them.
\<close>

theorem pb_varint_roundtrip:
  assumes "10 \<le> unat bufsize"
  shows "\<exists>os h'. pb_encode_varint v (pb_ostream_from_buffer buf bufsize, h) = (Some (), (os, h')) \<and>
    unat (o_bytes_written os) \<le> 10 \<and>
    (\<exists>is. pb_decode_varint (pb_istream_from_buffer buf (o_bytes_written os), h') =
            (Some v, (is, h')) \<and> i_bytes_left is = 0)"
  using varint.roundtrip[of v bufsize buf h] assms length_varint_bytes_64[of v]
  by (metis (no_types, lifting) order_trans)

theorem pb_varint_roundtrip_witness:
  "\<exists>os h'. pb_encode_varint 300 (pb_ostream_from_buffer 4096 16, \<lambda>_. 0) = (Some (), (os, h')) \<and>
    unat (o_bytes_written os) \<le> 10 \<and>
    (\<exists>is. pb_decode_varint (pb_istream_from_buffer 4096 (o_bytes_written os), h') =
            (Some 300, (is, h')) \<and> i_bytes_left is = 0)"
  by (rule pb_varint_roundtrip) simp

text \<open>
  A run of signed values written one after the other with the zigzag encoder, as the
  packed arrays of \<open>encode_array\<close> are, is read back value by value by
  \<open>pb_decode_svarint\<close>, which consumes exactly what was written.
\<close>

theorem pb_svarint_packed_roundtrip:
  assumes "10 * length vs \<le> unat bufsize"
  shows "\<exists>os h'. enc_seq pb_encode_svarint vs (pb_ostream_from_buffer buf bufsize, h) = (Some (), (os, h')) \<and>
    (\<exists>is. dec_seq pb_decode_svarint (length vs)
             (pb_istream_from_buffer buf (o_bytes_written os), h') = (Some vs, (is, h')) \<and>
          i_bytes_left is = 0)"
proof -
  have "length (concat (map (\<lambda>v. varint_bytes (unat (zigzag v))) vs)) \<le> 10 * length vs"
  proof (induction vs)
    case (Cons v vs)
    then show ?case using length_varint_bytes_64[of "zigzag v"] by simp
  qed simp
  then have "length (concat (map (\<lambda>v. varint_bytes (unat (zigzag v))) vs)) \<le> unat bufsize"
    using assms by linarith
  from svarint.seq_roundtrip[OF this, of buf h] show ?thesis by blast
qed

theorem pb_svarint_packed_roundtrip_witness:
  "\<exists>os h'. enc_seq pb_encode_svarint [1, -1, 300] (pb_ostream_from_buffer 4096 64, \<lambda>_. 0) = (Some (), (os, h')) \<and>
    (\<exists>is. dec_seq pb_decode_svarint (length [1, -1, 300 :: uint64])
             (pb_istream_from_buffer 4096 (o_bytes_written os), h') = (Some [1, -1, 300], (is, h')) \<and>
          i_bytes_left is = 0)"
  by (rule pb_svarint_packed_roundtrip) simp

text \<open>
  The fixed-width codecs round-trip: a 32-bit and a 64-bit value take four and eight
  bytes, and the readers return them.
\<close>

theorem pb_fixed_roundtrip:
  assumes "8 \<le> unat bufsize"
  shows "(\<exists>os h'. pb_encode_fixed32 x (pb_ostream_from_buffer buf bufsize, h) = (Some (), (os, h')) \<and>
            o_bytes_written os = 4 \<and>
            (\<exists>is. pb_decode_fixed32 (pb_istream_from_buffer buf 4, h') = (Some x, (is, h')) \<and>
               i_bytes_left is = 0)) \<and>
         (\<exists>os h'. pb_encode_fixed64 y (pb_ostream_from_buffer buf bufsize, h) = (Some (), (os, h')) \<and>
            o_bytes_written os = 8 \<and>
            (\<exists>is. pb_decode_fixed64 (pb_istream_from_buffer buf 8, h') = (Some y, (is, h')) \<and>
               i_bytes_left is = 0))"
proof -
  have eq: "unat w = n \<Longrightarrow> w = of_nat n" for w :: size_t and n
    by (metis of_nat_unat ucast_id)
  show ?thesis
    using fixed32.roundtrip[of x bufsize buf h] fixed64.roundtrip[of y bufsize buf h] assms
    by (fastforce dest!: eq)
qed

theorem pb_fixed_roundtrip_witness:
  "(\<exists>os h'. pb_encode_fixed32 7 (pb_ostream_from_buffer 4096 8, \<lambda>_. 0) = (Some (), (os, h')) \<and>
      o_bytes_written os = 4 \<and>
      (\<exists>is. pb_decode_fixed32 (pb_istream_from_buffer 4096 4, h') = (Some 7, (is, h')) \<and>
         i_bytes_left is = 0)) \<and>
   (\<exists>os h'. pb_encode_fixed64 9 (pb_ostream_from_buffer 4096 8, \<lambda>_. 0) = (Some (), (os, h')) \<and>
      o_bytes_written os = 8 \<and>
      (\<exists>is. pb_decode_fixed64 (pb_istream_from_buffer 4096 8, h') = (Some 9, (is, h')) \<and>
         i_bytes_left is = 0))"
  by (rule pb_fixed_roundtrip) simp

lemma pb_encode_field_writes:
  fixes num :: uint32
  assumes num: "num \<noteq> 0" "unat num < 2 ^ 29"
    and room: "10 + length (string_bytes payload) \<le> unat bufsize"
  shows "bindf (pb_encode_tag PB_WT_STRING num) (\<lambda>_. pb_encode_string payload (of_nat (length payload)))
      (pb_ostream_from_buffer buf bufsize, h) =
    (Some (), (o_advance (length (varint_bytes (unat (push_bit 3 num OR PB_WT_STRING)) @ string_bytes payload))
        (pb_ostream_from_buffer buf bufsize),
      write_bytes h buf (varint_bytes (unat (push_bit 3 num OR PB_WT_STRING)) @ string_bytes payload)))"
    and "length (varint_bytes (unat (push_bit 3 num OR PB_WT_STRING)) @ string_bytes payload) < 2 ^ 64"
proof -
  let ?t = "varint_bytes (unat (push_bit 3 num OR PB_WT_STRING))"
  let ?p = "string_bytes payload"
  let ?s = "pb_ostream_from_buffer buf bufsize"
  let ?h = "write_bytes h buf (?t @ ?p)"
  have wt: "unat PB_WT_STRING < 8" by simp
  have uc: "unat (ucast (push_bit 3 num OR PB_WT_STRING) :: uint64) = unat (push_bit 3 num OR PB_WT_STRING)"
    by (simp add: unat_ucast_mod mod_less[OF less_trans[OF unsigned_less]])
  have t10: "length ?t \<le> 10"
    using length_varint_bytes_64[of "ucast (push_bit 3 num OR PB_WT_STRING)"] uc by simp
  have "pb_encode_tag PB_WT_STRING num (?s, h) = (Some (), (o_advance (length ?t) ?s, write_bytes h buf ?t))"
    using varint.enc_writes[of ?s "ucast (push_bit 3 num OR PB_WT_STRING)" h] t10 room
    by (simp add: pb_encode_tag_eq[OF wt num(2)] uc pb_ostream_from_buffer_def[THEN arg_cong[where f = o_state]])
  moreover have "pb_encode_string payload (of_nat (length payload)) (o_advance (length ?t) ?s, write_bytes h buf ?t)
     = (Some (), (o_advance (length (?t @ ?p)) ?s, ?h))"
    using pb_encode_string_writes[of "o_advance (length ?t) ?s" payload "write_bytes h buf ?t"] t10 room
      o_inv_advance[of ?s "length ?t"] o_room_advance[of ?s "length ?t"]
    by (simp add: write_bytes_append pb_ostream_from_buffer_def[THEN arg_cong[where f = o_state]])
  ultimately show "bindf (pb_encode_tag PB_WT_STRING num)
      (\<lambda>_. pb_encode_string payload (of_nat (length payload))) (?s, h) =
      (Some (), (o_advance (length (?t @ ?p)) ?s, ?h))"
    by (simp add: bindf_def)
  show "length (?t @ ?p) < 2 ^ 64" using t10 room unat_lt_64[of bufsize] by simp
qed

text \<open>
  C17. A length-delimited field. The tag written by \<open>pb_encode_tag\<close> and the payload
  written by \<open>pb_encode_string\<close> are read back by \<open>pb_decode_tag\<close> and
  \<open>pb_make_string_substream\<close>: the substream holds exactly the payload, and closing it
  leaves the parent stream at the end of the field.
\<close>

theorem pb_string_field_roundtrip:
  fixes num :: uint32
  assumes num: "num \<noteq> 0" "unat num < 2 ^ 29"
    and room: "10 + length (string_bytes payload) \<le> unat bufsize" "length payload < 2 ^ 32"
  shows "\<exists>os h'. bindf (pb_encode_tag PB_WT_STRING num) (\<lambda>_. pb_encode_string payload (of_nat (length payload)))
        (pb_ostream_from_buffer buf bufsize, h) = (Some (), (os, h')) \<and>
    (\<exists>is. pb_decode_tag (pb_istream_from_buffer buf (o_bytes_written os), h') =
            ((Some (PB_WT_STRING, num), False), (is, h')) \<and>
     (\<exists>is' sub. pb_make_string_substream (is, h') = (Some sub, (is', h')) \<and>
        unat (i_bytes_left sub) = length payload \<and> window sub h' payload \<and>
        (\<exists>is''. pb_close_string_substream sub (is', h') = (Some (), (is'', h')) \<and>
           i_state is'' = buf + unat (o_bytes_written os) \<and> i_bytes_left is'' = 0)))"
proof -
  let ?t = "varint_bytes (unat (push_bit 3 num OR PB_WT_STRING))"
  let ?p = "string_bytes payload"
  let ?s = "pb_ostream_from_buffer buf bufsize"
  let ?h = "write_bytes h buf (?t @ ?p)"
  have wt: "unat PB_WT_STRING < 8" by simp
  note enc = pb_encode_field_writes(1)[OF num room(1), of buf h] and lt = pb_encode_field_writes(2)[OF num room(1)]
  let ?w = "of_nat (length (?t @ ?p)) :: size_t"
  have bw: "o_bytes_written (o_advance (length (?t @ ?p)) ?s) = ?w"
    by (simp add: o_advance_def pb_ostream_from_buffer_def)
  let ?i = "pb_istream_from_buffer buf ?w"
  have win: "window ?i ?h (?t @ ?p @ [])" using window_written[OF lt, of buf h] by simp
  have tag: "pb_decode_tag (?i, ?h) = ((Some (PB_WT_STRING, num), False), (i_advance (length ?t) ?i, ?h))"
    by (rule pb_decode_tag_window[OF wt num(2,1) win])
  note win2 = window_drop[OF win]
  let ?sub = "(i_advance (length (varint_bytes (length payload))) (i_advance (length ?t) ?i))
      \<lparr>i_bytes_left := of_nat (length payload)\<rparr>"
  note sub = pb_make_string_substream_window[OF win2 room(2)]
  have lp: "length payload < 2 ^ 64" using room(2) by simp
  have "window (i_advance (length (varint_bytes (length payload))) (i_advance (length ?t) ?i)) ?h payload"
    using window_drop[of "i_advance (length ?t) ?i" ?h "varint_bytes (length payload)" payload] win2
    by (simp add: string_bytes_def)
  then have wsub: "window ?sub ?h payload" using lp by (simp add: window_def)
  have len: "unat (i_bytes_left ?sub) = length payload" using lp by simp
  let ?i2 = "(i_advance (length (varint_bytes (length payload))) (i_advance (length ?t) ?i))
      \<lparr>i_bytes_left := i_bytes_left (i_advance (length ?t) ?i) - of_nat (length ?p)\<rparr>"
  note close = pb_close_string_substream_window[OF wsub len, of ?i2]
  have "unat ?w = length (?t @ ?p)" using lt by (rule unat_of_nat_size)
  then have "i_state ?sub + length payload = buf + unat ?w" and "i_bytes_left ?i2 = 0"
    by (simp_all add: i_advance_def pb_istream_from_buffer_def string_bytes_def)
  then have fin: "i_state (?i2\<lparr>i_state := i_state ?sub + length payload, i_errmsg := i_errmsg ?sub\<rparr>) =
        buf + unat ?w"
      "i_bytes_left (?i2\<lparr>i_state := i_state ?sub + length payload, i_errmsg := i_errmsg ?sub\<rparr>) = 0"
    by simp_all
  show ?thesis
    by (rule exI, rule exI, rule conjI[OF enc], unfold bw, rule exI, rule conjI[OF tag], rule exI,
        rule exI, rule conjI[OF sub], rule conjI[OF len], rule conjI[OF wsub], rule exI,
        rule conjI[OF close], rule conjI[OF fin])
qed

theorem pb_string_field_roundtrip_witness:
  "\<exists>os h'. bindf (pb_encode_tag PB_WT_STRING 5) (\<lambda>_. pb_encode_string [104, 105] (of_nat (length [104, 105 :: byte])))
        (pb_ostream_from_buffer 4096 64, \<lambda>_. 0) = (Some (), (os, h')) \<and>
    (\<exists>is. pb_decode_tag (pb_istream_from_buffer 4096 (o_bytes_written os), h') =
            ((Some (PB_WT_STRING, 5), False), (is, h')) \<and>
     (\<exists>is' sub. pb_make_string_substream (is, h') = (Some sub, (is', h')) \<and>
        unat (i_bytes_left sub) = length [104, 105 :: byte] \<and> window sub h' [104, 105] \<and>
        (\<exists>is''. pb_close_string_substream sub (is', h') = (Some (), (is'', h')) \<and>
           i_state is'' = 4096 + unat (o_bytes_written os) \<and> i_bytes_left is'' = 0)))"
  by (rule pb_string_field_roundtrip) (simp_all add: string_bytes_def varint_bytes.simps[of "Suc (Suc 0)"])

text \<open>
  C18. Skipping an unknown field consumes exactly the payload that a writer of the same
  wire type produced, for all four wire types.
\<close>

theorem pb_skip_field_exact:
  assumes "length bs < 2 ^ 32"
  shows "(window s h (varint_bytes (unat v) @ rest) \<longrightarrow>
            pb_skip_field PB_WT_VARINT (s, h) = (Some (), (i_advance (length (varint_bytes (unat v))) s, h))) \<and>
         (window s h (le_bytes 8 x @ rest) \<longrightarrow>
            pb_skip_field PB_WT_64BIT (s, h) = (Some (), (i_advance 8 s, h))) \<and>
         (window s h (string_bytes bs @ rest) \<longrightarrow>
            pb_skip_field PB_WT_STRING (s, h) = (Some (), (i_advance (length (string_bytes bs)) s, h))) \<and>
         (window s h (le_bytes 4 y @ rest) \<longrightarrow>
            pb_skip_field PB_WT_32BIT (s, h) = (Some (), (i_advance 4 s, h)))"
proof -
  have "window s h (le_bytes 8 x @ rest) \<Longrightarrow> pb_read_null 8 (s, h) = (Some (), (i_advance 8 s, h))"
    using pb_read_null_window[of s h "le_bytes 8 x" rest] by simp
  moreover have "window s h (le_bytes 4 y @ rest) \<Longrightarrow> pb_read_null 4 (s, h) = (Some (), (i_advance 4 s, h))"
    using pb_read_null_window[of s h "le_bytes 4 y" rest] by simp
  ultimately show ?thesis
    using assms by (simp add: pb_skip_field_def pb_skip_varint_window pb_skip_string_window)
qed

theorem pb_skip_field_exact_witness:
  "pb_skip_field PB_WT_VARINT (pb_istream_from_buffer 0 1, \<lambda>_. 0) =
     (Some (), (i_advance (length (varint_bytes (unat (0 :: uint64)))) (pb_istream_from_buffer 0 1), \<lambda>_. 0))"
proof -
  have "window (pb_istream_from_buffer 0 1) (\<lambda>_. 0) (varint_bytes (unat (0 :: uint64)) @ [])"
    by (simp add: window_def pb_istream_from_buffer_def varint_bytes.simps[of 0] read_bytes_def)
  moreover have "length ([] :: byte list) < 2 ^ 32" by simp
  ultimately show ?thesis using pb_skip_field_exact by blast
qed

end
