(* ===== verification/Pb_Safety.thy ===== *)
theory Pb_Safety
  imports Pb_Codec
begin

text \<open>
  Memory behaviour of nanopb's wire readers on a stream over a memory buffer: they read
  inside the \<open>bytes_left\<close> bytes from the stream's position only, whatever the bytes are,
  and leave the memory alone. Reading out of bounds would make the result depend on memory
  outside that range, so confinement is stated as independence of it.
\<close>

definition agree :: "istream \<Rightarrow> heap \<Rightarrow> heap \<Rightarrow> bool" where
  "agree s h g \<longleftrightarrow> (\<forall>x. i_state s \<le> x \<and> x < i_state s + unat (i_bytes_left s) \<longrightarrow> g x = h x)"

text \<open>The stream moved forward inside what it had left.\<close>

definition moved :: "istream \<Rightarrow> istream \<Rightarrow> bool" where
  "moved s s' \<longleftrightarrow> i_callback s' = Buf_read \<and> i_state s \<le> i_state s' \<and>
     i_state s' + unat (i_bytes_left s') = i_state s + unat (i_bytes_left s)"

definition confined_at :: "(istream \<times> heap \<Rightarrow> 'r \<times> (istream \<times> heap)) \<Rightarrow> istream \<Rightarrow> heap \<Rightarrow> bool" where
  "confined_at d s h \<longleftrightarrow> (\<exists>r s'. moved s s' \<and> (\<forall>g. agree s h g \<longrightarrow> d (s, g) = (r, (s', g))))"

definition confined :: "(istream \<times> heap \<Rightarrow> 'r \<times> (istream \<times> heap)) \<Rightarrow> bool" where
  "confined d \<longleftrightarrow> (\<forall>s h. i_callback s = Buf_read \<longrightarrow> confined_at d s h)"

lemma agree_refl [simp]: "agree s h h"
  by (simp add: agree_def)

lemma moved_refl: "i_callback s = Buf_read \<Longrightarrow> moved s s"
  by (simp add: moved_def)

lemma moved_trans: "moved s t \<Longrightarrow> moved t u \<Longrightarrow> moved s u"
  by (auto simp: moved_def)

lemma agree_moved: "agree s h g \<Longrightarrow> moved s s' \<Longrightarrow> agree s' h g"
  by (auto simp: agree_def moved_def)

lemma confined_atI:
  "moved s s' \<Longrightarrow> (\<And>g. agree s h g \<Longrightarrow> d (s, g) = (r, (s', g))) \<Longrightarrow> confined_at d s h"
  by (auto simp: confined_at_def)

lemma confined_at_retf: "i_callback s = Buf_read \<Longrightarrow> confined_at (retf a) s h"
  by (rule confined_atI[OF moved_refl]) (auto simp: retf_def)

lemma confined_at_error: "i_callback s = Buf_read \<Longrightarrow> confined_at (i_error m) s h"
  by (rule confined_atI[where r = None
        and s' = "s\<lparr>i_errmsg := (case i_errmsg s of None \<Rightarrow> Some m | Some x \<Rightarrow> Some x)\<rparr>"])
     (auto simp: i_error_def moved_def)

lemma confined_at_case:
  assumes f: "confined_at f s h"
    and k: "\<And>r s'. f (s, h) = (r, (s', h)) \<Longrightarrow> moved s s' \<Longrightarrow> confined_at (k r) s' h"
  shows "confined_at (\<lambda>sh. case f sh of (r, sh') \<Rightarrow> k r sh') s h"
proof -
  from f obtain r s' where m: "moved s s'" and r: "\<And>g. agree s h g \<Longrightarrow> f (s, g) = (r, (s', g))"
    unfolding confined_at_def by blast
  from k[OF r[OF agree_refl] m] obtain r2 s2 where m2: "moved s' s2"
    and r2: "\<And>g. agree s' h g \<Longrightarrow> k r (s', g) = (r2, (s2, g))"
    unfolding confined_at_def by blast
  show ?thesis
    by (rule confined_atI[OF moved_trans[OF m m2]]) (simp add: r r2 agree_moved[OF _ m])
qed

lemma moved_callback: "moved s s' \<Longrightarrow> i_callback s' = Buf_read"
  by (simp add: moved_def)

lemma bindf_as_case:
  "bindf f g = (\<lambda>sh. case f sh of (r, sh') \<Rightarrow> (case r of None \<Rightarrow> \<lambda>x. (None, x) | Some a \<Rightarrow> g a) sh')"
  by (rule ext) (simp add: bindf_def split: prod.split option.split)

lemma confined_at_fail: "i_callback s = Buf_read \<Longrightarrow> confined_at (\<lambda>x. (r, x)) s h"
  by (rule confined_atI[OF moved_refl]) auto

lemma confined_at_bindf:
  assumes "confined_at f s h"
    and "\<And>a s'. f (s, h) = (Some a, (s', h)) \<Longrightarrow> moved s s' \<Longrightarrow> confined_at (g a) s' h"
  shows "confined_at (bindf f g) s h"
  unfolding bindf_as_case
  by (rule confined_at_case[OF assms(1)])
     (auto split: option.split intro: confined_at_fail moved_callback assms(2))

lemma confined_at_pb_readbyte: "i_callback s = Buf_read \<Longrightarrow> confined_at pb_readbyte s h"
proof (cases "i_bytes_left s = 0")
  case True
  assume "i_callback s = Buf_read"
  from confined_at_error[OF this, of "''end-of-stream''" h] True show ?thesis
    by (simp add: confined_at_def pb_readbyte_def)
next
  case False
  assume cb: "i_callback s = Buf_read"
  from False have pos: "0 < unat (i_bytes_left s)" by (simp add: unat_gt_0)
  then have "unat (i_bytes_left (i_advance 1 s)) = unat (i_bytes_left s) - 1"
    by (intro unat_i_advance) simp
  then have "moved s (i_advance 1 s)" using cb pos by (simp add: moved_def)
  then show ?thesis
  proof (rule confined_atI)
    fix g assume "agree s h g"
    then have "g (i_state s) = h (i_state s)" using pos by (simp add: agree_def)
    then show "pb_readbyte (s, g) = (Some (h (i_state s)), (i_advance 1 s, g))"
      using cb False by (simp add: pb_readbyte_def call_read_def buf_read_def i_advance_def)
  qed
qed

lemma confined_at_pb_read_into: "i_callback s = Buf_read \<Longrightarrow> confined_at (pb_read_into n) s h"
proof -
  assume cb: "i_callback s = Buf_read"
  consider "n = 0" | "n \<noteq> 0" "i_bytes_left s < n" | "n \<noteq> 0" "n \<le> i_bytes_left s"
    by (meson not_less)
  then show ?thesis
  proof cases
    case 1
    then show ?thesis using confined_at_retf[OF cb, of "[]" h]
      by (simp add: confined_at_def pb_read_into_def retf_def)
  next
    case 2
    then show ?thesis using confined_at_error[OF cb, of "''end-of-stream''" h]
      by (simp add: confined_at_def pb_read_into_def)
  next
    case 3
    then have le: "unat n \<le> unat (i_bytes_left s)" by (simp add: word_le_nat_alt)
    then have "moved s (i_advance (unat n) s)"
      using cb by (simp add: moved_def unat_i_advance)
    then show ?thesis
    proof (rule confined_atI)
      fix g assume "agree s h g"
      then have "read_bytes g (i_state s) (unat n) = read_bytes h (i_state s) (unat n)"
        using le by (intro read_bytes_cong) (simp add: agree_def)
      then show "pb_read_into n (s, g) = (Some (read_bytes h (i_state s) (unat n)), (i_advance (unat n) s, g))"
        using cb 3 by (simp add: pb_read_into_def call_read_def buf_read_def i_advance_def
            read_bytes_map_shift leD)
    qed
  qed
qed

lemma confined_at_pb_read_null: "i_callback s = Buf_read \<Longrightarrow> confined_at (pb_read_null n) s h"
proof -
  assume cb: "i_callback s = Buf_read"
  have "confined_at (if n = 0 then retf () else bindf (pb_read_into n) (\<lambda>_. retf ())) s h"
    using cb by (auto intro!: confined_at_bindf confined_at_pb_read_into confined_at_retf
        dest: moved_callback)
  then show ?thesis
    using cb by (auto simp: confined_at_def pb_read_null_def is_buf_read_def retf_def split: if_splits)
qed

lemma varint_loop_bindf:
  "varint_loop bitpos result =
     (if bitpos \<ge> 64 then i_error ''varint overflow''
      else bindf pb_readbyte (\<lambda>byte.
        if byte AND 0x80 \<noteq> 0
        then varint_loop (bitpos + 7) (result OR push_bit (unat bitpos) (ucast (byte AND 0x7F)))
        else retf (result OR push_bit (unat bitpos) (ucast (byte AND 0x7F)))))"
  by (rule ext, subst varint_loop.simps)
     (simp add: bindf_def retf_def Let_def split: prod.split option.split)

lemma varint32_loop_bindf:
  "varint32_loop bitpos result =
     bindf pb_readbyte (\<lambda>byte.
       let result' = (if bitpos \<ge> 32 then result
                      else result OR push_bit (unat bitpos) (ucast (byte AND 0x7F))) in
       if bitpos \<ge> 32 \<and> byte AND 0x7F \<noteq> 0 \<and>
          (drop_bit 31 result = 0 \<or> byte \<noteq> (if bitpos < 63 then 0xFF else 0x01))
       then i_error ''varint overflow''
       else if byte AND 0x80 \<noteq> 0 then varint32_loop (bitpos + 7) result'
       else if bitpos + 7 = 35 \<and> byte AND 0x70 \<noteq> 0 then i_error ''varint overflow''
       else retf result')"
  by (rule ext, subst varint32_loop.simps)
     (auto simp add: bindf_def retf_def Let_def split: prod.split option.split)

lemma pb_readbyte_less:
  "pb_readbyte (s, h) = (Some a, (s', h')) \<Longrightarrow> unat (i_bytes_left s') < unat (i_bytes_left s)"
  using pb_readbyte_bytes_left by fastforce

lemma confined_at_varint_loop:
  "i_callback s = Buf_read \<Longrightarrow> confined_at (varint_loop bitpos result) s h"
proof (induction "unat (i_bytes_left s)" arbitrary: s bitpos result rule: less_induct)
  case less
  show ?case
    by (subst varint_loop_bindf)
       (auto intro!: confined_at_bindf confined_at_pb_readbyte confined_at_retf confined_at_error
          less dest: moved_callback pb_readbyte_less)
qed

lemma confined_at_varint32_loop:
  "i_callback s = Buf_read \<Longrightarrow> confined_at (varint32_loop bitpos result) s h"
proof (induction "unat (i_bytes_left s)" arbitrary: s bitpos result rule: less_induct)
  case less
  show ?case
    unfolding varint32_loop_bindf[of bitpos] Let_def
    by (rule confined_at_bindf[OF confined_at_pb_readbyte[OF less.prems]])
       (auto intro!: confined_at_retf confined_at_error less.hyps
          dest: moved_callback pb_readbyte_less)
qed

lemma confined_at_varint32_eof: "i_callback s = Buf_read \<Longrightarrow> confined_at pb_decode_varint32_eof s h"
proof -
  have eq: "pb_decode_varint32_eof = (\<lambda>sh. case pb_readbyte sh of (r, sh') \<Rightarrow>
      (case r of None \<Rightarrow> \<lambda>x. ((None, i_bytes_left (fst x) = 0), x)
       | Some byte \<Rightarrow> (if byte AND 0x80 = 0 then (\<lambda>x. ((Some (ucast byte), False), x))
           else (\<lambda>x. case varint32_loop 7 (ucast (byte AND 0x7F)) x of (r, y) \<Rightarrow> (\<lambda>z. ((r, False), z)) y))) sh')"
    by (rule ext) (simp add: pb_decode_varint32_eof_def split: prod.split option.split)
  have eof: "i_callback s = Buf_read \<Longrightarrow> confined_at (\<lambda>x. ((None, i_bytes_left (fst x) = 0), x)) s h" for s h
    by (rule confined_atI[OF moved_refl]) auto
  assume "i_callback s = Buf_read"
  then show ?thesis
    unfolding eq
    by (intro confined_at_case confined_at_pb_readbyte)
       (auto split: option.split intro!: eof confined_at_fail confined_at_case confined_at_varint32_loop
          dest: moved_callback)
qed

lemma confined_at_varint32: "i_callback s = Buf_read \<Longrightarrow> confined_at pb_decode_varint32 s h"
proof -
  have eq: "pb_decode_varint32 = (\<lambda>sh. case pb_decode_varint32_eof sh of (r, sh') \<Rightarrow> (\<lambda>x. (fst r, x)) sh')"
    by (rule ext) (simp add: pb_decode_varint32_def split: prod.split)
  assume "i_callback s = Buf_read"
  then show ?thesis unfolding eq
    by (intro confined_at_case confined_at_varint32_eof confined_at_fail) (auto dest: moved_callback)
qed

lemma confined_at_skip_varint: "i_callback s = Buf_read \<Longrightarrow> confined_at pb_skip_varint s h"
proof (induction "unat (i_bytes_left s)" arbitrary: s rule: less_induct)
  case less
  have eq: "pb_skip_varint = bindf (pb_read_into 1) (\<lambda>bytes.
      if bytes ! 0 AND 0x80 \<noteq> 0 then pb_skip_varint else retf ())"
    by (rule ext, subst pb_skip_varint.simps)
       (simp add: bindf_def retf_def split: prod.split option.split)
  have smaller: "unat (i_bytes_left s') < unat (i_bytes_left s)"
    if "pb_read_into 1 (s, h) = (Some a, (s', h))" for a s'
    using pb_read_into_bytes_left[OF that] by simp
  show ?case
    by (subst eq)
       (auto intro!: confined_at_bindf confined_at_pb_read_into confined_at_retf less
          dest: moved_callback smaller)
qed

lemma confined_at_raw_varint_loop:
  "i_callback s = Buf_read \<Longrightarrow> confined_at (raw_varint_loop mx sz buf) s h"
proof (induction "unat (i_bytes_left s)" arbitrary: s sz buf rule: less_induct)
  case less
  have eq: "raw_varint_loop mx sz buf = (if sz + 1 > mx then (\<lambda>x. (None, x))
      else bindf (pb_read_into 1) (\<lambda>bytes. if bytes ! 0 AND 0x80 \<noteq> 0
        then raw_varint_loop mx (sz + 1) (buf @ [bytes ! 0]) else retf (buf @ [bytes ! 0])))"
    by (rule ext, subst raw_varint_loop.simps)
       (simp add: bindf_def retf_def split: prod.split option.split)
  have smaller: "unat (i_bytes_left s') < unat (i_bytes_left s)"
    if "pb_read_into 1 (s, h) = (Some a, (s', h))" for a s'
    using pb_read_into_bytes_left[OF that] by simp
  show ?case
    by (subst eq)
       (auto intro!: confined_at_bindf confined_at_pb_read_into confined_at_retf confined_at_fail less
          dest: moved_callback smaller)
qed

lemmas confined_at_readers =
  confined_at_bindf confined_at_retf confined_at_error confined_at_fail
  confined_at_pb_readbyte confined_at_pb_read_into confined_at_pb_read_null
  confined_at_varint_loop confined_at_varint32 confined_at_skip_varint confined_at_raw_varint_loop

lemma confined_decode_tag: "confined pb_decode_tag"
proof -
  have eq: "pb_decode_tag = (\<lambda>sh. case pb_decode_varint32_eof sh of (r, sh') \<Rightarrow>
      (\<lambda>x. (case r of (None, eof) \<Rightarrow> (None, eof)
       | (Some temp, _) \<Rightarrow> (if temp = 0 then (None, True)
           else (Some (temp AND 7, drop_bit 3 temp), False)), x)) sh')"
    by (rule ext) (auto simp: pb_decode_tag_def split: prod.split option.split)
  show ?thesis unfolding confined_def eq
    by (auto intro!: confined_at_case confined_at_varint32_eof confined_at_fail dest: moved_callback)
qed

lemma confined_skip_field: "confined (pb_skip_field wt)"
  by (auto simp: confined_def pb_skip_field_def pb_skip_string_def intro!: confined_at_readers
      dest: moved_callback)

text \<open>
  C9. Every wire reader of \<open>pb_decode.c\<close> is confined: on a stream over a memory buffer
  it reads only inside the stream's remaining bytes (its result, success or failure, is the
  same for every memory that agrees there), changes no memory, and moves the stream forward
  without passing its end.
\<close>

theorem pb_readers_confined:
  "confined pb_decode_varint \<and> confined pb_decode_varint32 \<and> confined pb_decode_svarint \<and>
   confined pb_decode_bool \<and> confined pb_decode_fixed32 \<and> confined pb_decode_fixed64 \<and>
   confined pb_decode_tag \<and> confined (pb_skip_field wt) \<and> confined (read_raw_value wt mx) \<and>
   confined (pb_read_into n) \<and> confined (pb_read_null n)"
  by (intro conjI confined_decode_tag confined_skip_field)
     (auto simp: confined_def pb_decode_varint_def pb_decode_svarint_def pb_decode_bool_def
        pb_decode_fixed32_def pb_decode_fixed64_def read_raw_value_def
        intro!: confined_at_readers dest: moved_callback)

text \<open>
  \<open>pb_decode_varint32\<close> accepts an encoding of 38 bytes, 37 of them 0x80, and
  returns 8: its 8-bit shift counter has wrapped from 252 to 3. \<open>pb_decode_varint\<close>
  rejects the same bytes.
\<close>

theorem pb_decode_varint32_overlong:
  "fst (pb_decode_varint32 (pb_istream_from_buffer 0 38, \<lambda>a. if a < 37 then 0x80 else 0x01)) = Some 8 \<and>
   fst (pb_decode_varint (pb_istream_from_buffer 0 38, \<lambda>a. if a < 37 then 0x80 else 0x01)) = None"
  by code_simp

end
