(* ===== verification/Constant_Time.thy ===== *)
theory Constant_Time
  imports Prelude
begin

text \<open>
  The branch-free comparison and selection primitives of BoringSSL,
  \<^verbatim>\<open>BoringSSL-GRPC/src/crypto/internal.h\<close>: masks of all ones or all zeros computed with
  word arithmetic. \<^verbatim>\<open>crypto_word_t\<close> is 64 bits wide on the target. The lemmas show that
  each mask is the one its name promises, which is what the code built on them relies on.
\<close>

type_synonym crypto_word_t = "64 word"

definition constant_time_msb_w :: "crypto_word_t \<Rightarrow> crypto_word_t" where
  "constant_time_msb_w a = 0 - drop_bit 63 a"

definition constant_time_lt_w :: "crypto_word_t \<Rightarrow> crypto_word_t \<Rightarrow> crypto_word_t" where
  "constant_time_lt_w a b = constant_time_msb_w (a XOR ((a XOR b) OR ((a - b) XOR a)))"

definition constant_time_ge_w :: "crypto_word_t \<Rightarrow> crypto_word_t \<Rightarrow> crypto_word_t" where
  "constant_time_ge_w a b = NOT (constant_time_lt_w a b)"

definition constant_time_is_zero_w :: "crypto_word_t \<Rightarrow> crypto_word_t" where
  "constant_time_is_zero_w a = constant_time_msb_w (NOT a AND (a - 1))"

definition constant_time_eq_w :: "crypto_word_t \<Rightarrow> crypto_word_t \<Rightarrow> crypto_word_t" where
  "constant_time_eq_w a b = constant_time_is_zero_w (a XOR b)"

definition constant_time_eq_8 :: "crypto_word_t \<Rightarrow> crypto_word_t \<Rightarrow> byte" where
  "constant_time_eq_8 a b = ucast (constant_time_eq_w a b)"

definition constant_time_select_w :: "crypto_word_t \<Rightarrow> crypto_word_t \<Rightarrow> crypto_word_t \<Rightarrow> crypto_word_t" where
  "constant_time_select_w msk a b = (msk AND a) OR (NOT msk AND b)"

definition constant_time_select_8 :: "byte \<Rightarrow> byte \<Rightarrow> byte \<Rightarrow> byte" where
  "constant_time_select_8 msk a b =
     ucast (constant_time_select_w (ucast msk) (ucast a) (ucast b))"

section \<open>The masks\<close>

lemma drop_bit_63: "drop_bit 63 (a :: 64 word) = (if bit a 63 then 1 else 0)"
proof (rule bit_word_eqI)
  fix n :: nat
  show "bit (drop_bit 63 a) n = bit (if bit a 63 then 1 else 0 :: 64 word) n"
    by (cases n) (auto simp: bit_simps dest: bit_imp_le_length)
qed

lemma msb_w_eq: "constant_time_msb_w a = (if bit a 63 then - 1 else 0)"
  by (simp add: constant_time_msb_w_def drop_bit_63)

lemma bit_63_iff: "bit (a :: 64 word) 63 \<longleftrightarrow> 2 ^ 63 \<le> unat a"
proof -
  have "bit a 63 \<longleftrightarrow> odd (unat a div 2 ^ 63)"
    by (metis bit_iff_odd bit_unsigned_iff possible_bit_nat)
  moreover have "unat a div 2 ^ 63 < 2"
    using unat_lt_64[of a] by (simp add: less_mult_imp_div_less)
  ultimately show ?thesis by (auto simp: less_2_cases_iff div_eq_0_iff not_less)
qed

lemma lt_w_eq: "constant_time_lt_w a b = (if a < b then - 1 else 0)"
proof -
  have "bit (a XOR ((a XOR b) OR ((a - b) XOR a))) 63 \<longleftrightarrow>
      (if bit a 63 = bit b 63 then bit (a - b) 63 else bit b 63)"
    by (auto simp: bit_simps)
  also have "\<dots> \<longleftrightarrow> a < b"
  proof -
    have "unat (a - b) = (if unat b \<le> unat a then unat a - unat b else unat a + 2 ^ 64 - unat b)"
      by (simp add: unat_sub_if' )
    then show ?thesis
      using unat_lt_64[of a] unat_lt_64[of b] by (auto simp: bit_63_iff word_less_nat)
  qed
  finally show ?thesis by (simp add: constant_time_lt_w_def msb_w_eq)
qed

lemma is_zero_w_eq: "constant_time_is_zero_w a = (if a = 0 then - 1 else 0)"
proof -
  have "bit (NOT a AND (a - 1)) 63 \<longleftrightarrow> a = 0"
  proof (cases "a = 0")
    case True then show ?thesis by (simp add: bit_simps)
  next
    case False
    then have "unat (a - 1) = unat a - 1" by (simp add: unat_minus_one)
    then have "\<not> (\<not> bit a 63 \<and> bit (a - 1) 63)" by (auto simp: bit_63_iff)
    then show ?thesis using False by (simp add: bit_and_iff bit_not_iff)
  qed
  then show ?thesis by (simp add: constant_time_is_zero_w_def msb_w_eq)
qed

lemma word_xor_eq_0: "a XOR b = 0 \<longleftrightarrow> a = (b :: 'a::len word)"
  by (metis xor.assoc xor.left_neutral xor_self_eq)

lemma eq_w_eq: "constant_time_eq_w a b = (if a = b then - 1 else 0)"
  by (simp add: constant_time_eq_w_def is_zero_w_eq word_xor_eq_0)

lemma ucast_byte_inject: "(ucast (a :: byte) :: 64 word) = ucast b \<longleftrightarrow> a = (b :: byte)"
  by (simp add: word_unat_eq_iff)

lemma eq_8_eq: "constant_time_eq_8 (ucast (a :: byte)) (ucast (b :: byte)) = (if a = b then - 1 else 0)"
proof -
  have "ucast (- 1 :: 64 word) = (- 1 :: byte)" by (rule bit_word_eqI) (simp add: bit_simps)
  then show ?thesis by (simp add: constant_time_eq_8_def eq_w_eq ucast_byte_inject)
qed

lemma select_8_eq: "constant_time_select_8 (if c then - 1 else 0) a b = (if c then a else b)"
  by (simp add: constant_time_select_8_def constant_time_select_w_def) (auto intro!: bit_word_eqI simp: bit_simps)

end
