(* ===== verification/Base64.thy ===== *)
theory Base64
  imports Constant_Time
begin

text \<open>
  Base64 coding of BoringSSL, \<^verbatim>\<open>BoringSSL-GRPC/src/crypto/base64/base64.c\<close>: the
  constant-time character conversions, one-shot and streaming encoding, one-shot and
  streaming decoding. A call that writes through \<open>out\<close> returns the bytes it writes
  before the terminating NUL; a context is the record of its four fields, with the used
  prefix of its 48-byte buffer as a list.
\<close>

section \<open>Character conversions\<close>

definition constant_time_lt_args_8 :: "byte \<Rightarrow> byte \<Rightarrow> byte" where
  "constant_time_lt_args_8 a b =
     (let aw = ucast a :: crypto_word_t; bw = ucast b in ucast (constant_time_msb_w (aw - bw)))"

definition constant_time_in_range_8 :: "byte \<Rightarrow> byte \<Rightarrow> byte \<Rightarrow> byte" where
  "constant_time_in_range_8 a mn mx =
     (let a' = a - mn in constant_time_lt_args_8 a' (mx - mn + 1))"

definition conv_bin2ascii :: "byte \<Rightarrow> byte" where
  "conv_bin2ascii a0 =
     (let a = a0 AND 0x3f;
          ret = constant_time_select_8 (constant_time_eq_8 (ucast a) 62) (c_char CHR ''+'') (c_char CHR ''/'');
          ret = constant_time_select_8 (constant_time_lt_args_8 a 62) (a - 52 + c_char CHR ''0'') ret;
          ret = constant_time_select_8 (constant_time_lt_args_8 a 52) (a - 26 + c_char CHR ''a'') ret;
          ret = constant_time_select_8 (constant_time_lt_args_8 a 26) (a + c_char CHR ''A'') ret
      in ret)"

definition base64_ascii_to_bin :: "byte \<Rightarrow> byte" where
  "base64_ascii_to_bin a =
     (let is_upper = constant_time_in_range_8 a (c_char CHR ''A'') (c_char CHR ''Z'');
          is_lower = constant_time_in_range_8 a (c_char CHR ''a'') (c_char CHR ''z'');
          is_digit = constant_time_in_range_8 a (c_char CHR ''0'') (c_char CHR ''9'');
          is_plus = constant_time_eq_8 (ucast a) (of_char CHR ''+'');
          is_slash = constant_time_eq_8 (ucast a) (of_char CHR ''/'');
          is_equals = constant_time_eq_8 (ucast a) (of_char CHR ''='');
          ret = (is_upper AND (a - c_char CHR ''A''))
             OR (is_lower AND (a - c_char CHR ''a'' + 26))
             OR (is_digit AND (a - c_char CHR ''0'' + 52))
             OR (is_plus AND 62)
             OR (is_slash AND 63);
          is_valid = is_upper OR is_lower OR is_digit OR is_plus OR is_slash OR is_equals
      in ret OR NOT is_valid)"

section \<open>Encoding\<close>

record EVP_ENCODE_CTX =
  data :: "byte list"
  eof_seen :: bool
  error_encountered :: bool

definition EVP_EncodedLength :: "size_t \<Rightarrow> size_t option" where
  "EVP_EncodedLength len0 =
     (if len0 + 2 < len0 then None
      else let len = (len0 + 2) div 3 in
        if drop_bit 2 (push_bit 2 len) \<noteq> len then None
        else let len = push_bit 2 len in
          if len + 1 < len then None else Some (len + 1))"

definition EVP_EncodeInit :: EVP_ENCODE_CTX where
  "EVP_EncodeInit = \<lparr>data = [], eof_seen = False, error_encountered = False\<rparr>"

fun EVP_EncodeBlock :: "byte list \<Rightarrow> byte list" where
  "EVP_EncodeBlock [] = []"
| "EVP_EncodeBlock [s0] =
     (let l = push_bit 16 (ucast s0) :: uint32 in
      [conv_bin2ascii (ucast (drop_bit 18 l)), conv_bin2ascii (ucast (drop_bit 12 l)),
       c_char CHR ''='', c_char CHR ''=''])"
| "EVP_EncodeBlock [s0, s1] =
     (let l = push_bit 16 (ucast s0) OR push_bit 8 (ucast s1) :: uint32 in
      [conv_bin2ascii (ucast (drop_bit 18 l)), conv_bin2ascii (ucast (drop_bit 12 l)),
       conv_bin2ascii (ucast (drop_bit 6 l)), c_char CHR ''=''])"
| "EVP_EncodeBlock (s0 # s1 # s2 # src) =
     (let l = push_bit 16 (ucast s0) OR push_bit 8 (ucast s1) OR ucast s2 :: uint32 in
      [conv_bin2ascii (ucast (drop_bit 18 l)), conv_bin2ascii (ucast (drop_bit 12 l)),
       conv_bin2ascii (ucast (drop_bit 6 l)), conv_bin2ascii (ucast l)]
      @ EVP_EncodeBlock src)"

abbreviation newline :: byte where "newline \<equiv> c_char CHR 0x0A"

text \<open>
  The loop over whole 48-byte lines. \<open>Inl\<close> is the return on overflow of \<open>total\<close>,
  which leaves \<open>*out_len\<close> zero.
\<close>

function encode_lines :: "byte list \<Rightarrow> byte list \<Rightarrow> size_t \<Rightarrow> byte list + byte list \<times> byte list \<times> size_t" where
  "encode_lines inp out tot =
     (if length inp \<ge> 48 then
        (let encoded = EVP_EncodeBlock (take 48 inp);
             out' = out @ encoded @ [newline]
         in if tot + of_nat (length encoded) + 1 < tot then Inl out'
            else encode_lines (drop 48 inp) out' (tot + (of_nat (length encoded) + 1)))
      else Inr (inp, out, tot))"
  by pat_completeness auto
termination by (relation "measure (\<lambda>(inp, _, _). length inp)") auto

declare encode_lines.simps [simp del]

text \<open>The result is the context, the bytes written and \<open>*out_len\<close>.\<close>

definition EVP_EncodeUpdate :: "EVP_ENCODE_CTX \<Rightarrow> byte list \<Rightarrow> EVP_ENCODE_CTX \<times> byte list \<times> int" where
  "EVP_EncodeUpdate ctx inp =
     (if inp = [] then (ctx, [], 0)
      else if 48 - length (data ctx) > length inp
      then (ctx\<lparr>data := data ctx @ inp\<rparr>, [], 0)
      else
        let (inp', out, tot) =
              (if data ctx \<noteq> [] then
                 let todo = 48 - length (data ctx);
                     encoded = EVP_EncodeBlock (data ctx @ take todo inp)
                 in (drop todo inp, encoded @ [newline], of_nat (length encoded) + 1)
               else (inp, [], 0))
        in case encode_lines inp' out tot of
             Inl out' \<Rightarrow> (ctx\<lparr>data := []\<rparr>, out', 0)
           | Inr (rest, out', tot') \<Rightarrow>
               (ctx\<lparr>data := rest\<rparr>, out', if tot' > 2147483647 then 0 else uint tot'))"

definition EVP_EncodeFinal :: "EVP_ENCODE_CTX \<Rightarrow> EVP_ENCODE_CTX \<times> byte list \<times> int" where
  "EVP_EncodeFinal ctx =
     (if data ctx = [] then (ctx, [], 0)
      else let encoded = EVP_EncodeBlock (data ctx) @ [newline]
           in (ctx\<lparr>data := []\<rparr>, encoded, int (length encoded)))"

section \<open>Decoding\<close>

definition EVP_DecodedLength :: "size_t \<Rightarrow> size_t option" where
  "EVP_DecodedLength len = (if len mod 4 \<noteq> 0 then None else Some ((len div 4) * 3))"

definition EVP_DecodeInit :: EVP_ENCODE_CTX where
  "EVP_DecodeInit = \<lparr>data = [], eof_seen = False, error_encountered = False\<rparr>"

definition base64_decode_quad :: "byte \<Rightarrow> byte \<Rightarrow> byte \<Rightarrow> byte \<Rightarrow> byte list option" where
  "base64_decode_quad in0 in1 in2 in3 =
     (let a = base64_ascii_to_bin in0; b = base64_ascii_to_bin in1;
          c = base64_ascii_to_bin in2; d = base64_ascii_to_bin in3 in
      if a = 0xff \<or> b = 0xff \<or> c = 0xff \<or> d = 0xff then None
      else
        let v = push_bit 18 (ucast a) OR push_bit 12 (ucast b) OR push_bit 6 (ucast c) OR ucast d :: uint32;
            eq = (\<lambda>x. if x = c_char CHR ''='' then 1 else 0 :: uint32);
            padding_pattern = push_bit 3 (eq in0) OR push_bit 2 (eq in1) OR push_bit 1 (eq in2) OR eq in3
        in if padding_pattern = 0 then Some [ucast (drop_bit 16 v), ucast (drop_bit 8 v), ucast v]
           else if padding_pattern = 1 then Some [ucast (drop_bit 16 v), ucast (drop_bit 8 v)]
           else if padding_pattern = 3 then Some [ucast (drop_bit 16 v)]
           else None)"

definition is_b64_space :: "byte \<Rightarrow> bool" where
  "is_b64_space c \<longleftrightarrow> c = c_char CHR '' '' \<or> c = c_char CHR 0x09 \<or> c = c_char CHR 0x0D \<or> c = newline"

text \<open>The loop of \<open>EVP_DecodeUpdate\<close>; the flag is \<open>False\<close> for \<open>return -1\<close>.\<close>

primrec decode_loop :: "EVP_ENCODE_CTX \<Rightarrow> byte list \<Rightarrow> byte list \<Rightarrow> bool \<times> EVP_ENCODE_CTX \<times> byte list" where
  "decode_loop ctx out [] = (True, ctx, out)"
| "decode_loop ctx out (c # cs) =
     (if is_b64_space c then decode_loop ctx out cs
      else if eof_seen ctx then (False, ctx\<lparr>error_encountered := True\<rparr>, out)
      else
        let ctx1 = ctx\<lparr>data := data ctx @ [c]\<rparr> in
        if length (data ctx1) = 4 then
          (case base64_decode_quad (data ctx1 ! 0) (data ctx1 ! 1) (data ctx1 ! 2) (data ctx1 ! 3) of
             None \<Rightarrow> (False, ctx1\<lparr>error_encountered := True\<rparr>, out)
           | Some bs \<Rightarrow>
               decode_loop (ctx1\<lparr>data := [], eof_seen := (length bs < 3 \<or> eof_seen ctx1)\<rparr>) (out @ bs) cs)
        else decode_loop ctx1 out cs)"

text \<open>The result is the return value, the context, the bytes written and \<open>*out_len\<close>.\<close>

definition EVP_DecodeUpdate :: "EVP_ENCODE_CTX \<Rightarrow> byte list \<Rightarrow> int \<times> EVP_ENCODE_CTX \<times> byte list \<times> int" where
  "EVP_DecodeUpdate ctx inp =
     (if error_encountered ctx then (-1, ctx, [], 0)
      else case decode_loop ctx [] inp of
        (False, ctx', out) \<Rightarrow> (-1, ctx', out, 0)
      | (True, ctx', out) \<Rightarrow>
          if length out > 2147483647 then (-1, ctx'\<lparr>error_encountered := True\<rparr>, out, 0)
          else (if eof_seen ctx' then 0 else 1, ctx', out, int (length out)))"

definition EVP_DecodeFinal :: "EVP_ENCODE_CTX \<Rightarrow> int" where
  "EVP_DecodeFinal ctx = (if error_encountered ctx \<or> data ctx \<noteq> [] then -1 else 1)"

fun decode_quads :: "byte list \<Rightarrow> byte list option" where
  "decode_quads (a # b # c # d # rest) =
     (case base64_decode_quad a b c d of
        None \<Rightarrow> None
      | Some bs \<Rightarrow>
          if length bs \<noteq> 3 \<and> rest \<noteq> [] then None
          else map_option (\<lambda>more. bs @ more) (decode_quads rest))"
| "decode_quads _ = Some []"

definition EVP_DecodeBase64 :: "size_t \<Rightarrow> byte list \<Rightarrow> byte list option" where
  "EVP_DecodeBase64 max_out inp =
     (if length inp mod 4 \<noteq> 0 then None
      else case EVP_DecodedLength (of_nat (length inp)) of
        None \<Rightarrow> None
      | Some max_len \<Rightarrow> if max_out < max_len then None else decode_quads inp)"

definition EVP_DecodeBlock :: "byte list \<Rightarrow> (byte list \<times> int) option" where
  "EVP_DecodeBlock src =
     (let src1 = dropWhile (\<lambda>c. c = c_char CHR '' '' \<or> c = c_char CHR 0x09) src;
          src2 = rev (dropWhile is_b64_space (rev src1))
      in case EVP_DecodedLength (of_nat (length src2)) of
           None \<Rightarrow> None
         | Some dst_len \<Rightarrow>
             if dst_len > 2147483647 then None
             else case EVP_DecodeBase64 dst_len src2 of
               None \<Rightarrow> None
             | Some dst \<Rightarrow>
                 let dst' = dst @ replicate ((3 - length dst mod 3) mod 3) 0
                 in Some (dst', int (length dst')))"

section \<open>The character tables\<close>

definition base64_alphabet :: string where
  "base64_alphabet = ''ABCDEFGHIJKLMNOPQRSTUVWXYZabcdefghijklmnopqrstuvwxyz0123456789+/''"

lemma lt_args_8_eq: "constant_time_lt_args_8 a b = (if a < b then - 1 else 0)"
proof -
  have small: "unat (ucast x :: 64 word) < 2 ^ 63" for x :: byte
  proof -
    have "unat x < 256" using unsigned_less[of x] by simp
    then show ?thesis by simp
  qed
  have "unat (ucast a - ucast b :: 64 word) =
      (if unat b \<le> unat a then unat a - unat b else unat a + 2 ^ 64 - unat b)"
    by (simp add: unat_sub_if')
  then have "bit (ucast a - ucast b :: 64 word) 63 \<longleftrightarrow> a < b"
    using small[of a] small[of b] by (auto simp: bit_63_iff word_less_nat)
  moreover have "ucast (- 1 :: 64 word) = (- 1 :: byte)"
    by (rule bit_word_eqI) (simp add: bit_simps)
  ultimately show ?thesis by (simp add: constant_time_lt_args_8_def msb_w_eq)
qed

lemma eq_8_numeral: "constant_time_eq_8 (ucast (a :: byte)) (numeral k) =
    (if ucast a = (numeral k :: 64 word) then - 1 else 0)"
  by (simp add: constant_time_eq_8_def eq_w_eq)
     (intro impI bit_word_eqI, simp add: bit_simps)

text \<open>The conversions without masks.\<close>

lemma conv_bin2ascii_eq:
  "conv_bin2ascii a0 =
     (let a = a0 AND 0x3f in
      if a < 26 then a + 65 else if a < 52 then a + 71 else if a < 62 then a - 4
      else if a = 62 then 43 else 47)"
proof -
  have "constant_time_eq_8 (ucast a) 62 = (if a = 62 then - 1 else 0)" for a :: byte
    using eq_8_eq[of a 62] by simp
  then show ?thesis
    by (simp add: conv_bin2ascii_def lt_args_8_eq select_8_eq Let_def del: of_char_eq_iff)
qed

lemma in_range_8_eq:
  "constant_time_in_range_8 a mn mx = (if a - mn < mx - mn + 1 then - 1 else 0)"
  by (simp add: constant_time_in_range_8_def lt_args_8_eq)

lemma base64_ascii_to_bin_eq:
  "base64_ascii_to_bin a =
     (if a - 65 < 26 then a - 65 else if a - 97 < 26 then a - 71
      else if a - 48 < 10 then a + 4 else if a = 43 then 62 else if a = 47 then 63
      else if a = 61 then 0 else 0xff)"
proof -
  have e: "constant_time_eq_8 (ucast a) (numeral k) = (if a = numeral k then - 1 else 0)"
    if "unat (numeral k :: byte) = numeral k" "unat (numeral k :: 64 word) = numeral k" for k
    using eq_8_eq[of a "numeral k"] that by (metis unat_ucast_byte64 word_unat_eq_iff)
  have "\<not> (a - 65 < 26 \<and> a - 97 < 26) \<and> \<not> (a - 65 < 26 \<and> a - 48 < 10) \<and>
      \<not> (a - 97 < 26 \<and> a - 48 < 10)"
    by (rule byte_all) code_simp
  then show ?thesis
    by (auto simp: base64_ascii_to_bin_def in_range_8_eq e Let_def simp del: of_char_eq_iff)
qed

lemma alphabet_bytes:
  "map of_char base64_alphabet =
    [65, 66, 67, 68, 69, 70, 71, 72, 73, 74, 75, 76, 77, 78, 79, 80,
     81, 82, 83, 84, 85, 86, 87, 88, 89, 90, 97, 98, 99, 100, 101, 102,
     103, 104, 105, 106, 107, 108, 109, 110, 111, 112, 113, 114, 115, 116, 117, 118,
     119, 120, 121, 122, 48, 49, 50, 51, 52, 53, 54, 55, 56, 57, 43, 47 :: byte]"
  by (simp add: base64_alphabet_def)

lemma sextet_less: "unat (a AND 0x3f :: byte) < 64"
  using word_and_le1[of a "0x3f"] by (simp add: word_le_nat_alt)

lemma length_alphabet: "length (map of_char base64_alphabet) = 64"
  by (simp add: base64_alphabet_def)

lemma bin2ascii_table: "conv_bin2ascii a = map of_char base64_alphabet ! unat (a AND 0x3f)"
proof -
  let ?f = "\<lambda>a :: byte. if a < 26 then a + 65 else if a < 52 then a + 71 else if a < 62 then a - 4
      else if a = 62 then 43 else 47"
  have tab: "map (\<lambda>n. ?f (word_of_nat n)) [0..<64] = map of_char base64_alphabet"
    unfolding alphabet_bytes by (simp add: upt_rec)
  have "map of_char base64_alphabet ! unat (a AND 0x3f) = ?f (word_of_nat (unat (a AND 0x3f)))"
    unfolding tab[symmetric] using sextet_less[of a] by (subst nth_map) simp_all
  then show ?thesis by (simp add: conv_bin2ascii_eq Let_def)
qed

lemma conv_in_alphabet: "conv_bin2ascii a \<in> set (map of_char base64_alphabet)"
  unfolding bin2ascii_table using sextet_less[of a] length_alphabet by (intro nth_mem) simp

lemma ascii_to_bin_alphabet:
  assumes "k < 64"
  shows "base64_ascii_to_bin (map of_char base64_alphabet ! k) = word_of_nat k"
proof -
  have "map base64_ascii_to_bin (map of_char base64_alphabet) = map word_of_nat [0..<64]"
    unfolding alphabet_bytes by (simp add: upt_rec base64_ascii_to_bin_eq)
  then show ?thesis
    using assms length_alphabet by (metis add_0 diff_zero length_upt nth_map nth_upt)
qed

lemma ascii_to_bin_conv: "base64_ascii_to_bin (conv_bin2ascii a) = a AND 0x3f"
  using ascii_to_bin_alphabet[OF sextet_less[of a]] by (simp add: bin2ascii_table)

text \<open>The three ranges of the decoder lie in the alphabet.\<close>

lemma alphabet_range:
  assumes "map (\<lambda>i. of_nat (i + m)) [0..<n] = take n (drop d (map of_char base64_alphabet :: byte list))"
    and "unat (a - of_nat m :: byte) < n"
  shows "a \<in> set (map of_char base64_alphabet)"
proof -
  let ?k = "unat (a - of_nat m)"
  have "a = of_nat (?k + m)" by simp
  also have "\<dots> = map (\<lambda>i. of_nat (i + m)) [0..<n] ! ?k" using assms(2) by simp
  also have "\<dots> \<in> set (map (\<lambda>i. of_nat (i + m)) [0..<n])" using assms(2) by (intro nth_mem) simp
  also have "\<dots> \<subseteq> set (map of_char base64_alphabet)"
    unfolding assms(1) by (meson order_trans set_drop_subset set_take_subset)
  finally show ?thesis .
qed

lemma unat_numeral_byte: "unat (26 :: byte) = 26" "unat (26 :: byte) = 26" "unat (10 :: byte) = 10"
  by simp_all

lemma alphabet_slices:
  "map (\<lambda>i. of_nat (i + 65)) [0..<26] = take 26 (drop 0 (map of_char base64_alphabet :: byte list))"
  "map (\<lambda>i. of_nat (i + 97)) [0..<26] = take 26 (drop 26 (map of_char base64_alphabet :: byte list))"
  "map (\<lambda>i. of_nat (i + 48)) [0..<10] = take 10 (drop 52 (map of_char base64_alphabet :: byte list))"
  unfolding alphabet_bytes by (simp_all add: upt_rec)

lemma ascii_to_bin_outside:
  assumes "c \<notin> set (map of_char base64_alphabet)"
  shows "base64_ascii_to_bin c = (if c = 61 then 0 else 0xff)"
proof -
  have "\<not> c - 65 < 26" using alphabet_range[OF alphabet_slices(1)] assms unfolding word_less_nat
    by (metis of_nat_numeral unat_numeral_byte(1))
  moreover have "\<not> c - 97 < 26" using alphabet_range[OF alphabet_slices(2)] assms unfolding word_less_nat
    by (metis of_nat_numeral unat_numeral_byte(2))
  moreover have "\<not> c - 48 < 10" using alphabet_range[OF alphabet_slices(3)] assms unfolding word_less_nat
    by (metis of_nat_numeral unat_numeral_byte(3))
  moreover have "c \<noteq> 43" "c \<noteq> 47" using assms unfolding alphabet_bytes by auto
  ultimately show ?thesis by (simp add: base64_ascii_to_bin_eq)
qed

lemma conv_ne_61: "conv_bin2ascii a \<noteq> 61"
  using conv_in_alphabet[of a] unfolding alphabet_bytes by auto

lemma is_b64_space_eq: "is_b64_space c \<longleftrightarrow> c = 32 \<or> c = 9 \<or> c = 13 \<or> c = 10"
  by (simp add: is_b64_space_def)

lemma conv_not_space: "\<not> is_b64_space (conv_bin2ascii a)"
proof -
  have "\<forall>c \<in> set (map of_char base64_alphabet). \<not> is_b64_space c"
    unfolding alphabet_bytes is_b64_space_eq by simp
  then show ?thesis using conv_in_alphabet by blast
qed

lemma and_3f_not_ff: "(a AND 0x3f :: byte) \<noteq> 0xff"
proof
  assume "a AND 0x3f = 0xff"
  then have "unat (a AND 0x3f) = unat (0xff :: byte)" by (rule arg_cong)
  then show False using sextet_less[of a] by simp
qed

section \<open>Quads\<close>

lemma sextets_join:
  fixes l :: uint32
  assumes "unat l < 2 ^ 24"
  shows "push_bit 18 (ucast ((ucast (drop_bit 18 l) :: byte) AND 0x3f)) OR
         push_bit 12 (ucast ((ucast (drop_bit 12 l) :: byte) AND 0x3f)) OR
         push_bit 6 (ucast ((ucast (drop_bit 6 l) :: byte) AND 0x3f)) OR
         ucast ((ucast l :: byte) AND 0x3f) = l"
proof -
  have m: "x AND 0x3f = take_bit 6 x" for x :: byte
    by (simp add: take_bit_eq_mask mask_eq_exp_minus_1)
  have hi: "n < 24" if "bit l n" for n
    using not_bit_unat_less[OF assms, of n] that by (meson not_less)
  show ?thesis unfolding m
  proof (rule bit_word_eqI)
    fix n :: nat
    consider "n < 6" | "6 \<le> n" "n < 12" | "12 \<le> n" "n < 18" | "18 \<le> n" by linarith
    then show "bit (push_bit 18 (ucast (take_bit 6 (ucast (drop_bit 18 l) :: byte))) OR
         push_bit 12 (ucast (take_bit 6 (ucast (drop_bit 12 l) :: byte))) OR
         push_bit 6 (ucast (take_bit 6 (ucast (drop_bit 6 l) :: byte))) OR
         ucast (take_bit 6 (ucast l :: byte)) :: uint32) n = bit l n"
      by cases (auto simp: bit_simps dest: hi)
  qed
qed

lemma bytes_join:
  fixes a b c :: byte
  defines "l \<equiv> push_bit 16 (ucast a) OR push_bit 8 (ucast b) OR ucast c :: uint32"
  shows "unat l < 2 ^ 24" and "ucast (drop_bit 16 l) = a" and "ucast (drop_bit 8 l) = b"
    and "ucast l = c"
proof -
  have lt: "n < 8" if "bit x n" for x :: byte and n
    using that bit_imp_le_length by fastforce
  show "ucast (drop_bit 16 l) = a" "ucast (drop_bit 8 l) = b" "ucast l = c"
    unfolding l_def by (rule bit_word_eqI; auto simp: bit_simps dest: lt)+
  have "take_bit 24 l = l"
    unfolding l_def by (rule bit_word_eqI) (auto simp: bit_simps dest: lt)
  then have "take_bit 24 (unat l) = unat l" by (metis unsigned_take_bit_eq)
  then show "unat l < 2 ^ 24" by (metis take_bit_nat_less_exp)
qed

lemma padding_simps:
  "push_bit 3 (0 :: uint32) OR push_bit 2 0 OR push_bit 1 0 OR 0 = 0"
  "push_bit 3 (0 :: uint32) OR push_bit 2 0 OR push_bit 1 0 OR 1 = 1"
  "push_bit 3 (0 :: uint32) OR push_bit 2 0 OR push_bit 1 1 OR 1 = 3"
  by simp_all

lemma decode_encode_quad:
  fixes a b c :: byte
  defines "l \<equiv> push_bit 16 (ucast a) OR push_bit 8 (ucast b) OR ucast c :: uint32"
  shows "base64_decode_quad (conv_bin2ascii (ucast (drop_bit 18 l))) (conv_bin2ascii (ucast (drop_bit 12 l)))
           (conv_bin2ascii (ucast (drop_bit 6 l))) (conv_bin2ascii (ucast l)) = Some [a, b, c]"
  using sextets_join[OF bytes_join(1)[of a b c]] bytes_join(2-4)[of a b c]
  by (simp add: base64_decode_quad_def ascii_to_bin_conv and_3f_not_ff conv_ne_61 Let_def
      flip: l_def)

lemma decode_encode_pad1:
  fixes a b :: byte
  defines "l \<equiv> push_bit 16 (ucast a) OR push_bit 8 (ucast b) :: uint32"
  shows "base64_decode_quad (conv_bin2ascii (ucast (drop_bit 18 l))) (conv_bin2ascii (ucast (drop_bit 12 l)))
           (conv_bin2ascii (ucast (drop_bit 6 l))) (c_char CHR ''='') = Some [a, b]"
proof -
  have l: "l = push_bit 16 (ucast a) OR push_bit 8 (ucast b) OR ucast (0 :: byte)" by (simp add: l_def)
  have facts: "ucast (drop_bit 16 l) = a" "ucast (drop_bit 8 l) = b" "ucast l = (0 :: byte)" "unat l < 2 ^ 24"
    unfolding l by (rule bytes_join)+
  then show ?thesis
    using sextets_join[OF facts(4)]
    by (simp add: base64_decode_quad_def ascii_to_bin_conv and_3f_not_ff conv_ne_61 Let_def
        base64_ascii_to_bin_eq[of 61])
qed

lemma decode_encode_pad2:
  fixes a :: byte
  defines "l \<equiv> push_bit 16 (ucast a) :: uint32"
  shows "base64_decode_quad (conv_bin2ascii (ucast (drop_bit 18 l))) (conv_bin2ascii (ucast (drop_bit 12 l)))
           61 61 = Some [a]"
proof -
  have l: "l = push_bit 16 (ucast a) OR push_bit 8 (ucast (0 :: byte)) OR ucast (0 :: byte)"
    by (simp add: l_def)
  have facts: "ucast (drop_bit 16 l) = a" "ucast l = (0 :: byte)" "unat l < 2 ^ 24"
    unfolding l by (rule bytes_join)+
  moreover have "(ucast (drop_bit 6 l) :: byte) AND 0x3f = 0"
  proof -
    have m: "x AND 0x3f = take_bit 6 x" for x :: byte
      by (simp add: take_bit_eq_mask mask_eq_exp_minus_1)
    show ?thesis unfolding m l_def by (rule bit_word_eqI) (simp add: bit_simps)
  qed
  ultimately show ?thesis
    using sextets_join[OF facts(3)]
    by (simp add: base64_decode_quad_def ascii_to_bin_conv and_3f_not_ff conv_ne_61 Let_def
        base64_ascii_to_bin_eq[of 61])
qed

lemma decode_quads_Some:
  "base64_decode_quad a b c d = Some bs \<Longrightarrow> length bs = 3 \<or> rest = [] \<Longrightarrow>
   decode_quads (a # b # c # d # rest) = map_option (\<lambda>more. bs @ more) (decode_quads rest)"
  by auto

lemma decode_quads_EncodeBlock: "decode_quads (EVP_EncodeBlock bs) = Some bs"
proof (induction bs rule: EVP_EncodeBlock.induct)
  case 1
  then show ?case by simp
next
  case (2 s0)
  then show ?case by (simp add: Let_def decode_encode_pad2 del: of_char_eq_iff)
next
  case (3 s0 s1)
  show ?case
    unfolding EVP_EncodeBlock.simps Let_def
    by (subst decode_quads_Some[OF decode_encode_pad1]) simp_all
next
  case (4 s0 s1 s2 src)
  then show ?case
    unfolding EVP_EncodeBlock.simps Let_def append_Cons append_Nil
    by (subst decode_quads_Some[OF decode_encode_quad]) simp_all
qed

lemma length_EncodeBlock: "length (EVP_EncodeBlock bs) = 4 * ((length bs + 2) div 3)"
  by (induction bs rule: EVP_EncodeBlock.induct, simp_all add: Let_def, presburger)

section \<open>One-shot properties\<close>

text \<open>The specification of the alphabet: the position of a character, if it is in it.\<close>

definition alphabet_index :: "byte \<Rightarrow> nat option" where
  "alphabet_index a =
     (let k = length (takeWhile (\<lambda>c. c \<noteq> a) (map of_char base64_alphabet)) in if k < 64 then Some k else None)"

text \<open>
  C25. The branch-free, table-free conversions compute the base64 alphabet: the encoder
  maps a sextet to the character at that position, and the decoder maps a character to
  its position, padding to zero and everything else to \<open>0xff\<close>.
\<close>

theorem base64_conversions_are_the_alphabet:
  "conv_bin2ascii a = map of_char base64_alphabet ! unat (a AND 0x3f) \<and>
   base64_ascii_to_bin c =
     (case alphabet_index c of Some k \<Rightarrow> of_nat k | None \<Rightarrow> if c = c_char CHR ''='' then 0 else 0xff)"
proof -
  let ?A = "map of_char base64_alphabet :: byte list"
  let ?k = "length (takeWhile (\<lambda>c'. c' \<noteq> c) ?A)"
  have "base64_ascii_to_bin c = (case alphabet_index c of Some k \<Rightarrow> of_nat k | None \<Rightarrow> if c = 61 then 0 else 0xff)"
  proof (cases "c \<in> set ?A")
    case True
    then have "?k < 64"
      using length_takeWhile_le[of "\<lambda>c'. c' \<noteq> c" ?A] takeWhile_eq_all_conv[of "\<lambda>c'. c' \<noteq> c" ?A] length_alphabet
      by (metis le_neq_implies_less takeWhile_eq_take take_all_iff)
    moreover have "?A ! ?k = c"
      using nth_length_takeWhile[of "\<lambda>c'. c' \<noteq> c" ?A] calculation length_alphabet by simp
    ultimately show ?thesis
      using ascii_to_bin_alphabet[of ?k] by (simp add: alphabet_index_def Let_def)
  next
    case False
    then have "takeWhile (\<lambda>c'. c' \<noteq> c) ?A = ?A" by (auto simp: takeWhile_eq_all_conv)
    then have "alphabet_index c = None" unfolding alphabet_index_def using length_alphabet by (simp only: Let_def) simp
    then show ?thesis using ascii_to_bin_outside[OF False] by simp
  qed
  then show ?thesis using bin2ascii_table by simp
qed

end
