(* ===== verification/Block_Buffer.thy ===== *)
theory Block_Buffer
  imports Prelude
begin

text \<open>
  Incremental processing of a byte stream in blocks of fixed size, the discipline shared
  by the streaming digests and by line-wrapped base64 encoding: complete blocks are
  absorbed as they become available and the incomplete rest is kept in a buffer. The
  locale \<open>block_stream\<close> states what an update operation promises and proves once that
  the way the input is cut into calls does not matter.
\<close>

section \<open>Complete blocks and the rest\<close>

function blocks :: "nat \<Rightarrow> 'a list \<Rightarrow> 'a list list" where
  "blocks n xs = (if n = 0 \<or> length xs < n then [] else take n xs # blocks n (drop n xs))"
  by pat_completeness auto
termination by (relation "measure (\<lambda>(n, xs). length xs)") auto

declare blocks.simps [simp del]

definition leftover :: "nat \<Rightarrow> 'a list \<Rightarrow> 'a list" where
  "leftover n xs = drop (n * (length xs div n)) xs"

lemma blocks_short [simp]: "length xs < n \<Longrightarrow> blocks n xs = []"
  by (simp add: blocks.simps)

lemma blocks_step: "0 < n \<Longrightarrow> n \<le> length xs \<Longrightarrow> blocks n xs = take n xs # blocks n (drop n xs)"
  by (subst blocks.simps) simp

lemma leftover_short [simp]: "length xs < n \<Longrightarrow> leftover n xs = xs"
  by (simp add: leftover_def)

lemma leftover_step: "0 < n \<Longrightarrow> n \<le> length xs \<Longrightarrow> leftover n xs = leftover n (drop n xs)"
  by (simp add: leftover_def le_div_geq add.commute)

lemma length_leftover: "length (leftover n xs) = length xs mod n"
  by (simp add: leftover_def minus_mult_div_eq_mod)

lemma length_leftover_less: "0 < n \<Longrightarrow> length (leftover n xs) < n"
  by (simp add: length_leftover)

lemma blocks_append:
  assumes "0 < n"
  shows "blocks n (xs @ ys) = blocks n xs @ blocks n (leftover n xs @ ys)"
proof (induction xs rule: length_induct)
  case (1 xs)
  show ?case
  proof (cases "length xs < n")
    case False
    then have "n \<le> length xs" by simp
    then show ?thesis
      using 1[rule_format, of "drop n xs"] assms
      by (simp add: blocks_step[of n xs] blocks_step[of n "xs @ ys"] leftover_step[of n xs])
  qed simp
qed

lemma leftover_append:
  assumes "0 < n"
  shows "leftover n (xs @ ys) = leftover n (leftover n xs @ ys)"
proof (induction xs rule: length_induct)
  case (1 xs)
  show ?case
  proof (cases "length xs < n")
    case False
    then have "n \<le> length xs" by simp
    then show ?thesis
      using 1[rule_format, of "drop n xs"] assms
      by (simp add: leftover_step[of n xs] leftover_step[of n "xs @ ys"])
  qed simp
qed

lemma blocks_single [simp]: "0 < n \<Longrightarrow> length xs = n \<Longrightarrow> blocks n xs = [xs]"
  by (simp add: blocks_step)

lemma leftover_single [simp]: "0 < n \<Longrightarrow> length xs = n \<Longrightarrow> leftover n xs = []"
  by (simp add: leftover_def)

lemma leftover_Nil [simp]: "leftover n [] = []"
  by (simp add: leftover_def)

lemma blocks_Nil [simp]: "blocks n [] = []"
  by (subst blocks.simps) auto

lemma blocks_Cons_block:
  "0 < n \<Longrightarrow> length xs = n \<Longrightarrow> blocks n (xs @ ys) = xs # blocks n ys"
  by (simp add: blocks_append)

lemma leftover_Cons_block: "0 < n \<Longrightarrow> length xs = n \<Longrightarrow> leftover n (xs @ ys) = leftover n ys"
  by (simp add: leftover_append)

lemma concat_blocks:
  assumes "0 < n"
  shows "concat (blocks n xs) @ leftover n xs = xs"
proof (induction xs rule: length_induct)
  case (1 xs)
  show ?case
  proof (cases "length xs < n")
    case False
    then have "n \<le> length xs" by simp
    then show ?thesis
      using 1[rule_format, of "drop n xs"] assms
      by (simp add: blocks_step[of n xs] leftover_step[of n xs])
  qed simp
qed

lemma blocks_take:
  assumes "0 < n"
  shows "blocks n (take (n * (length xs div n)) xs) = blocks n xs"
proof -
  let ?m = "n * (length xs div n)"
  have split: "xs = take ?m xs @ leftover n xs" by (simp add: leftover_def)
  have "?m \<le> length xs" by (simp add: times_div_less_eq_dividend)
  then have len: "length (take ?m xs) = ?m" by simp
  then have "leftover n (take ?m xs) = []" using assms by (simp add: leftover_def)
  then have "blocks n xs = blocks n (take ?m xs) @ blocks n (leftover n xs)"
    using blocks_append[OF assms, of "take ?m xs" "leftover n xs"] split by simp
  moreover have "blocks n (leftover n xs) = []"
    using length_leftover_less[OF assms, of xs] by (rule blocks_short)
  ultimately show ?thesis by simp
qed

lemma length_blocks: "0 < n \<Longrightarrow> length (blocks n xs) = length xs div n"
proof (induction xs rule: length_induct)
  case (1 xs)
  show ?case
  proof (cases "length xs < n")
    case False
    then show ?thesis
      using 1 by (simp add: blocks_step[of n xs] le_div_geq)
  qed simp
qed

lemma length_of_block: "b \<in> set (blocks n xs) \<Longrightarrow> length b = n"
proof (induction xs rule: length_induct)
  case (1 xs)
  show ?case
  proof (cases "n = 0 \<or> length xs < n")
    case True
    then show ?thesis using 1(2) by (simp add: blocks.simps)
  next
    case False
    then have n: "0 < n" "n \<le> length xs" by auto
    from 1(2) consider "b = take n xs" | "b \<in> set (blocks n (drop n xs))"
      unfolding blocks_step[OF n] by auto
    then show ?thesis
    proof cases
      case 2
      moreover have "length (drop n xs) < length xs" using n by simp
      ultimately show ?thesis using 1(1) by blast
    qed (use n in simp)
  qed
qed

section \<open>Streams over a block function\<close>

text \<open>
  \<open>upd c xs\<close> feeds \<open>xs\<close> to the context \<open>c\<close>; \<open>st\<close> is what has been computed from the
  complete blocks, \<open>buf\<close> the buffered rest, \<open>absorb\<close> the effect of one block and \<open>ok\<close>
  the inputs the operation handles.
\<close>

locale block_stream =
  fixes n :: nat
    and absorb :: "'b list \<Rightarrow> 's \<Rightarrow> 's"
    and upd :: "'c \<Rightarrow> 'b list \<Rightarrow> 'c"
    and st :: "'c \<Rightarrow> 's"
    and buf :: "'c \<Rightarrow> 'b list"
    and inv :: "'c \<Rightarrow> bool"
    and ok :: "'b list \<Rightarrow> bool"
  assumes n_pos: "0 < n"
    and buf_less: "inv c \<Longrightarrow> length (buf c) < n"
    and ok_append: "ok (xs @ ys) \<Longrightarrow> ok xs \<and> ok ys"
    and upd_inv: "inv c \<Longrightarrow> ok xs \<Longrightarrow> inv (upd c xs)"
    and upd_st: "inv c \<Longrightarrow> ok xs \<Longrightarrow> st (upd c xs) = fold absorb (blocks n (buf c @ xs)) (st c)"
    and upd_buf: "inv c \<Longrightarrow> ok xs \<Longrightarrow> buf (upd c xs) = leftover n (buf c @ xs)"
begin

lemma upd_upd:
  assumes "inv c" and "ok (xs @ ys)"
  shows "st (upd (upd c xs) ys) = st (upd c (xs @ ys))"
    and "buf (upd (upd c xs) ys) = buf (upd c (xs @ ys))"
proof -
  have ok: "ok xs" "ok ys" using ok_append[OF assms(2)] by auto
  show "st (upd (upd c xs) ys) = st (upd c (xs @ ys))"
    using assms ok upd_inv[OF assms(1) ok(1)] blocks_append[OF n_pos, of "buf c @ xs" ys]
    by (simp add: upd_st upd_buf)
  show "buf (upd (upd c xs) ys) = buf (upd c (xs @ ys))"
    using assms ok upd_inv[OF assms(1) ok(1)] leftover_append[OF n_pos, of "buf c @ xs" ys]
    by (simp add: upd_buf)
qed

lemma fold_upd:
  assumes "inv c" and "ok (concat xss)"
  shows "inv (fold (\<lambda>xs c. upd c xs) xss c)"
    and "st (fold (\<lambda>xs c. upd c xs) xss c) = fold absorb (blocks n (buf c @ concat xss)) (st c)"
    and "buf (fold (\<lambda>xs c. upd c xs) xss c) = leftover n (buf c @ concat xss)"
proof -
  have "inv (fold (\<lambda>xs c. upd c xs) xss c) \<and>
    st (fold (\<lambda>xs c. upd c xs) xss c) = fold absorb (blocks n (buf c @ concat xss)) (st c) \<and>
    buf (fold (\<lambda>xs c. upd c xs) xss c) = leftover n (buf c @ concat xss)"
    using assms
  proof (induction xss arbitrary: c)
    case Nil
    then show ?case using buf_less by simp
  next
    case (Cons xs xss)
    have ok: "ok xs" "ok (concat xss)" using ok_append[of xs "concat xss"] Cons.prems(2) by auto
    have i: "inv (upd c xs)" using upd_inv[OF Cons.prems(1) ok(1)] .
    show ?case
      using Cons.IH[OF i ok(2)] Cons.prems(1) ok blocks_append[OF n_pos, of "buf c @ xs" "concat xss"]
        leftover_append[OF n_pos, of "buf c @ xs" "concat xss"]
      by (simp add: upd_st upd_buf)
  qed
  then show "inv (fold (\<lambda>xs c. upd c xs) xss c)"
    and "st (fold (\<lambda>xs c. upd c xs) xss c) = fold absorb (blocks n (buf c @ concat xss)) (st c)"
    and "buf (fold (\<lambda>xs c. upd c xs) xss c) = leftover n (buf c @ concat xss)"
    by auto
qed

end

section \<open>Loops in step with a reference\<close>

text \<open>A sequence of C statements, each a function on the local state.\<close>

definition run :: "('s \<Rightarrow> 's) list \<Rightarrow> 's \<Rightarrow> 's" where
  "run fs s = fold (\<lambda>f. f) fs s"

lemma run_append [simp]: "run (fs @ gs) s = run gs (run fs s)"
  by (simp add: run_def)

lemma run_Cons [simp]: "run (f # fs) s = run fs (f s)"
  by (simp add: run_def)

lemma run_Nil [simp]: "run [] s = s"
  by (simp add: run_def)

lemma run_map: "run (map f xs) s = fold f xs s"
  by (simp add: run_def fold_map o_def)

lemma fold_upt_simulation:
  assumes "R 0 s t"
    and "\<And>i s t. i < n \<Longrightarrow> R i s t \<Longrightarrow> R (Suc i) (f i s) (g i t)"
  shows "R n (fold f [0..<n] s) (fold g [0..<n] t)"
  using assms(2)
proof (induction n)
  case 0
  show ?case using assms(1) by simp
next
  case (Suc n)
  then show ?case by simp
qed

text \<open>A C loop that takes \<open>num\<close> blocks off the front of its input one at a time.\<close>

lemma block_loop:
  assumes "0 < n" and "\<And>st bs. bf st bs 0 = st"
    and "\<And>st bs k. bf st bs (Suc k) = bf (cmp (take n bs) st) (drop n bs) k"
  shows "n * k \<le> length bs \<Longrightarrow> bf st bs k = fold cmp (blocks n (take (n * k) bs)) st"
proof (induction k arbitrary: bs st)
  case 0
  then show ?case using assms(2) by simp
next
  case (Suc k)
  have "take (n * Suc k) bs = take n bs @ take (n * k) (drop n bs)" by (simp add: take_add)
  moreover have "length (take n bs) = n" using Suc.prems by simp
  ultimately have "blocks n (take (n * Suc k) bs) = take n bs # blocks n (take (n * k) (drop n bs))"
    using assms(1) by (simp add: blocks_Cons_block)
  then show ?case using Suc assms(3) by simp
qed

lemma fold_blocks_cong:
  assumes "\<And>b s. length b = n \<Longrightarrow> P s \<Longrightarrow> f b s = g b s \<and> P (g b s)" and "P s"
  shows "fold f (blocks n xs) s = fold g (blocks n xs) s" and "P (fold g (blocks n xs) s)"
proof -
  have "fold f bs s = fold g bs s \<and> P (fold g bs s)" if "\<forall>b \<in> set bs. length b = n" "P s" for bs s
    using that by (induction bs arbitrary: s) (auto simp: assms(1))
  then show "fold f (blocks n xs) s = fold g (blocks n xs) s" and "P (fold g (blocks n xs) s)"
    using assms(2) length_of_block by blast+
qed

end
