(* ===== verification/Base64_Stream.thy ===== *)
theory Base64_Stream
  imports Base64 Block_Buffer
begin

text \<open>
  Properties of the base64 interfaces of \<^verbatim>\<open>base64.c\<close> as a whole: one-shot and streaming
  encoding against a line-wrapped reference, decoding of what was encoded, and the
  independence of the streaming interfaces from how their input is cut into calls.
\<close>

section \<open>Lengths and the one-shot round trip\<close>

lemma EncodedLength_eq:
  assumes "n < 2 ^ 63"
  shows "EVP_EncodedLength (of_nat n) = Some (of_nat (4 * ((n + 2) div 3) + 1))"
proof -
  let ?q = "(n + 2) div 3"
  have small: "4 * ?q + 1 < 2 ^ 64" using assms by simp
  have n2: "unat (of_nat n + 2 :: size_t) = n + 2"
    using assms unat_of_nat_size[of "n + 2"] by (simp add: add.commute)
  have q: "(of_nat n + 2 :: size_t) div 3 = of_nat ?q"
    using n2 small by (simp add: word_unat_eq_iff unat_div)
  have p: "push_bit 2 (of_nat ?q :: size_t) = of_nat (4 * ?q)"
    by (simp add: push_bit_eq_mult mult.commute)
  have d: "drop_bit 2 (of_nat (4 * ?q) :: size_t) = of_nat ?q"
    using small by (simp add: word_unat_eq_iff unat_drop_bit_eq drop_bit_eq_div unat_div del: of_nat_mult)
  have "\<not> (of_nat n + 2 :: size_t) < of_nat n"
    using n2 assms by (simp add: word_less_nat)
  moreover have "\<not> (of_nat (4 * ?q) + 1 :: size_t) < of_nat (4 * ?q)"
    using small unat_of_nat_size[of "4 * ?q + 1"] by (simp add: word_less_nat add.commute del: of_nat_mult)
  ultimately show ?thesis
    unfolding EVP_EncodedLength_def q p Let_def d by (simp add: add.commute)
qed

text \<open>
  C24. For inputs shorter than \<open>2 ^ 63\<close> bytes, \<open>EVP_EncodedLength\<close> is exactly the number
  of characters \<open>EVP_EncodeBlock\<close> writes plus the terminating NUL, and
  \<open>EVP_DecodeBase64\<close> recovers the input from those characters whenever its output limit
  admits the rounded-up length.
\<close>

theorem base64_block_roundtrip:
  assumes "length bs < 2 ^ 63" and "3 * ((length bs + 2) div 3) \<le> unat max_out"
  shows "EVP_EncodedLength (of_nat (length bs)) = Some (of_nat (length (EVP_EncodeBlock bs) + 1)) \<and>
    EVP_DecodeBase64 max_out (EVP_EncodeBlock bs) = Some bs"
proof
  let ?q = "(length bs + 2) div 3"
  show "EVP_EncodedLength (of_nat (length bs)) = Some (of_nat (length (EVP_EncodeBlock bs) + 1))"
    by (simp only: EncodedLength_eq[OF assms(1)] length_EncodeBlock)
  have small: "4 * ?q < 2 ^ 64" using assms(1) by simp
  then have u: "unat (of_nat (4 * ?q) :: size_t) = 4 * ?q" by (rule unat_of_nat_size)
  have "(of_nat (4 * ?q) :: size_t) mod 4 = 0"
    using u by (simp add: word_unat_eq_iff unat_mod del: of_nat_mult)
  moreover have "(of_nat (4 * ?q) :: size_t) div 4 = of_nat ?q"
    using u small by (simp add: word_unat_eq_iff unat_div del: of_nat_mult)
  ultimately have "EVP_DecodedLength (of_nat (4 * ?q)) = Some (of_nat ?q * 3)"
    by (simp only: EVP_DecodedLength_def) simp
  moreover have "\<not> max_out < of_nat ?q * 3"
  proof -
    have "unat (of_nat (?q * 3) :: size_t) = ?q * 3" using small by (intro unat_of_nat_size) simp
    then show ?thesis using assms(2) by (simp add: word_less_nat)
  qed
  ultimately show "EVP_DecodeBase64 max_out (EVP_EncodeBlock bs) = Some bs"
    by (simp add: EVP_DecodeBase64_def length_EncodeBlock decode_quads_EncodeBlock del: of_nat_mult)
qed

theorem base64_block_roundtrip_witness:
  "EVP_DecodeBase64 6 (EVP_EncodeBlock [1, 2, 3, 250]) = Some [1, 2, 3, 250]"
  using base64_block_roundtrip[of "[1, 2, 3, 250]" 6] by simp

section \<open>Streaming encoding\<close>

text \<open>The reference: lines of 48 input bytes, the last one possibly shorter.\<close>

definition base64_line :: "byte list \<Rightarrow> byte list" where
  "base64_line b = EVP_EncodeBlock b @ [newline]"

definition base64_lines :: "byte list \<Rightarrow> byte list" where
  "base64_lines msg =
     concat (map base64_line (blocks 48 msg)) @
     (if leftover 48 msg = [] then [] else base64_line (leftover 48 msg))"

lemma encode_lines_eq:
  assumes "unat tot + 65 * (length inp div 48) < 2 ^ 64"
  shows "encode_lines inp out tot =
    Inr (leftover 48 inp, out @ concat (map base64_line (blocks 48 inp)), tot + 65 * of_nat (length inp div 48))"
  using assms
proof (induction inp out tot rule: encode_lines.induct)
  case (1 inp out tot)
  show ?case
  proof (cases "length inp \<ge> 48")
    case False
    then show ?thesis by (subst encode_lines.simps) simp
  next
    case True
    have d: "length inp div 48 = Suc (length (drop 48 inp) div 48)" using True by (simp add: le_div_geq)
    have e: "length (EVP_EncodeBlock (take 48 inp)) = 64" using True by (simp add: length_EncodeBlock)
    have t: "unat (tot + 65) = unat tot + 65"
      using 1(2) unfolding d by (simp add: unat_plus_if' )
    have g: "\<not> tot + of_nat 64 + 1 < tot" "tot + (of_nat 64 + 1) = tot + 65"
      using t by (simp_all add: word_less_nat add.assoc)
    have "encode_lines (drop 48 inp) (out @ EVP_EncodeBlock (take 48 inp) @ [newline]) (tot + 65) =
       Inr (leftover 48 (drop 48 inp), (out @ EVP_EncodeBlock (take 48 inp) @ [newline]) @
          concat (map base64_line (blocks 48 (drop 48 inp))),
          (tot + 65) + 65 * of_nat (length (drop 48 inp) div 48))"
      using 1(1)[OF True refl refl] g 1(2) t unfolding d e by simp
    then show ?thesis
      using True g
      by (subst encode_lines.simps)
         (simp add: e Let_def blocks_step[of 48 inp] leftover_step[of 48 inp] base64_line_def d algebra_simps)
  qed
qed

abbreviation enc_ok :: "byte list \<Rightarrow> bool" where
  "enc_ok xs \<equiv> length xs < 2 ^ 62"

text \<open>An update appended to the output written so far.\<close>

definition enc_upd :: "EVP_ENCODE_CTX \<times> byte list \<Rightarrow> byte list \<Rightarrow> EVP_ENCODE_CTX \<times> byte list" where
  "enc_upd s inp = (case EVP_EncodeUpdate (fst s) inp of (ctx, out, n) \<Rightarrow> (ctx, snd s @ out))"

lemma EncodeUpdate_laws:
  assumes "length (data ctx) < 48" and "enc_ok inp"
  shows "EVP_EncodeUpdate ctx inp =
    (let out = concat (map base64_line (blocks 48 (data ctx @ inp))) in
     (ctx\<lparr>data := leftover 48 (data ctx @ inp)\<rparr>, out,
      if length out \<le> 2147483647 then int (length out) else 0))"
proof -
  have len: "length (concat (map base64_line (blocks 48 xs))) = 65 * (length xs div 48)" for xs
  proof -
    have "length (base64_line b) = 65" if "b \<in> set (blocks 48 xs)" for b
      using length_of_block[OF that] by (simp add: base64_line_def length_EncodeBlock)
    then have "map length (map base64_line (blocks 48 xs)) = map (\<lambda>_. 65) (blocks 48 xs)" by simp
    then show ?thesis by (simp add: length_concat length_blocks sum_list_triv del: map_map)
  qed
  have num: "(if (of_nat k :: size_t) > 2147483647 then 0 else uint (of_nat k :: size_t)) =
      (if k \<le> 2147483647 then int k else 0)" if "k < 2 ^ 64" for k
  proof -
    have "unat (of_nat k :: size_t) = k" using that by (rule unat_of_nat_size)
    moreover from this have "uint (of_nat k :: size_t) = int k" by (metis uint_nat)
    ultimately show ?thesis by (simp add: word_less_nat not_le)
  qed
  consider "inp = []" | "inp \<noteq> []" "length (data ctx) + length inp < 48"
    | "inp \<noteq> []" "48 \<le> length (data ctx) + length inp" "data ctx = []"
    | "inp \<noteq> []" "48 \<le> length (data ctx) + length inp" "data ctx \<noteq> []" by linarith
  then show ?thesis
  proof cases
    case 3
    have "encode_lines inp [] 0 = Inr (leftover 48 inp, concat (map base64_line (blocks 48 inp)),
        of_nat (65 * (length inp div 48)))"
      using encode_lines_eq[of 0 inp "[]"] assms(2) by simp
    then show ?thesis
      using 3 num[of "65 * (length inp div 48)"] assms(2) by (simp add: EVP_EncodeUpdate_def Let_def len del: of_nat_mult)
  next
    case 4
    let ?t = "48 - length (data ctx)"
    let ?b = "data ctx @ take ?t inp" and ?r = "drop ?t inp"
    have b: "length ?b = 48" using 4 assms(1) by simp
    have split: "data ctx @ inp = ?b @ ?r" by simp
    have e: "length (EVP_EncodeBlock ?b) = 64" unfolding length_EncodeBlock b by simp
    have k: "length (data ctx @ inp) div 48 = Suc (length ?r div 48)" using 4 assms(1) by (simp add: le_div_geq)
    define K where "K = 65 * (length (data ctx @ inp) div 48)"
    have lines: "encode_lines ?r (EVP_EncodeBlock ?b @ [newline]) 65 =
        Inr (leftover 48 ?r, base64_line ?b @ concat (map base64_line (blocks 48 ?r)), of_nat K)"
      using encode_lines_eq[of 65 ?r "EVP_EncodeBlock ?b @ [newline]"] assms(2) unfolding K_def k
      by (simp add: base64_line_def)
    have bl: "blocks 48 (data ctx @ inp) = ?b # blocks 48 ?r" "leftover 48 (data ctx @ inp) = leftover 48 ?r"
      unfolding split using b by (simp_all add: blocks_Cons_block leftover_Cons_block del: append_assoc)
    have "\<not> 48 - length (data ctx) > length inp" using 4 by simp
    then have "EVP_EncodeUpdate ctx inp = (ctx\<lparr>data := leftover 48 ?r\<rparr>,
        base64_line ?b @ concat (map base64_line (blocks 48 ?r)),
        if (of_nat K :: size_t) > 2147483647 then 0 else uint (of_nat K :: size_t))"
      using 4 lines by (simp add: EVP_EncodeUpdate_def Let_def e)
    moreover have "K < 2 ^ 64" using assms by (simp add: K_def)
    moreover have "length (base64_line ?b @ concat (map base64_line (blocks 48 ?r))) = K"
      using len[of "data ctx @ inp"] by (simp add: K_def bl)
    ultimately show ?thesis unfolding Let_def bl list.map concat.simps num[OF \<open>K < 2 ^ 64\<close>] by simp
  next
    case 1
    then show ?thesis using assms by (simp add: EVP_EncodeUpdate_def)
  next
    case 2
    then have "48 - length (data ctx) > length inp" by simp
    then show ?thesis using 2 by (simp add: EVP_EncodeUpdate_def)
  qed
qed

interpretation base64_enc: block_stream 48 "\<lambda>b out. out @ base64_line b" enc_upd snd "\<lambda>s. data (fst s)"
    "\<lambda>s. length (data (fst s)) < 48" enc_ok
proof unfold_locales
  have fold_out: "fold (\<lambda>b out. out @ base64_line b) bs out = out @ concat (map base64_line bs)" for bs out
    by (induction bs arbitrary: out) simp_all
  fix c :: "EVP_ENCODE_CTX \<times> byte list" and xs :: "byte list"
  assume "length (data (fst c)) < 48" and "enc_ok xs"
  note u = EncodeUpdate_laws[OF this]
  show "length (data (fst (enc_upd c xs))) < 48"
    by (simp add: enc_upd_def u Let_def length_leftover_less)
  show "snd (enc_upd c xs) = fold (\<lambda>b out. out @ base64_line b) (blocks 48 (data (fst c) @ xs)) (snd c)"
    by (simp add: enc_upd_def u Let_def fold_out)
  show "data (fst (enc_upd c xs)) = leftover 48 (data (fst c) @ xs)"
    by (simp add: enc_upd_def u Let_def)
qed auto

text \<open>
  C23. Streaming encoding writes the line-wrapped reference, however the input is cut into
  updates: the outputs of the updates followed by that of \<open>EVP_EncodeFinal\<close> are the lines
  of the concatenated input (of less than \<open>2 ^ 62\<close> bytes), each of 48 input bytes but the
  last.
\<close>

theorem base64_stream_encode:
  assumes "length (concat xss) < 2 ^ 62"
  shows "(case fold (\<lambda>xs s. enc_upd s xs) xss (EVP_EncodeInit, []) of
      (ctx, out) \<Rightarrow> out @ fst (snd (EVP_EncodeFinal ctx))) = base64_lines (concat xss)"
proof -
  have fold_out: "fold (\<lambda>b out. out @ base64_line b) bs out = out @ concat (map base64_line bs)" for bs out
    by (induction bs arbitrary: out) simp_all
  obtain ctx out where s: "fold (\<lambda>xs s. enc_upd s xs) xss (EVP_EncodeInit, []) = (ctx, out)"
    by (cases "fold (\<lambda>xs s. enc_upd s xs) xss (EVP_EncodeInit, [])")
  have init: "data EVP_EncodeInit = []" by (simp add: EVP_EncodeInit_def)
  have "out = concat (map base64_line (blocks 48 (concat xss)))" "data ctx = leftover 48 (concat xss)"
    using base64_enc.fold_upd(2,3)[of "(EVP_EncodeInit, [])" xss, unfolded s] assms
    by (simp_all add: init fold_out del: length_concat)
  then show ?thesis
    by (simp add: s base64_lines_def EVP_EncodeFinal_def base64_line_def Let_def)
qed

theorem base64_stream_encode_witness:
  "(case fold (\<lambda>xs s. enc_upd s xs) [[1, 2], [3]] (EVP_EncodeInit, []) of
      (ctx, out) \<Rightarrow> out @ fst (snd (EVP_EncodeFinal ctx))) = base64_lines [1, 2, 3]"
  using base64_stream_encode[of "[[1, 2], [3]]"] by simp

section \<open>Streaming decoding\<close>

lemma decode_loop_append:
  "decode_loop ctx out (xs @ ys) =
     (case decode_loop ctx out xs of (True, ctx', out') \<Rightarrow> decode_loop ctx' out' ys | r \<Rightarrow> r)"
proof (induction xs arbitrary: ctx out)
  case (Cons x xs)
  then show ?case by (simp add: Let_def split: option.split)
qed simp

lemma decode_loop_out:
  "decode_loop ctx out xs = (case decode_loop ctx [] xs of (r, ctx', out') \<Rightarrow> (r, ctx', out @ out'))"
proof (induction xs arbitrary: ctx out)
  case (Cons x xs)
  show ?case
  proof (cases "\<not> is_b64_space x \<and> \<not> eof_seen ctx \<and> length (data ctx) = 3")
    case True
    let ?d = "data ctx @ [x]"
    show ?thesis
    proof (cases "base64_decode_quad (?d ! 0) (?d ! 1) (?d ! 2) (?d ! 3)")
      case (Some bs)
      let ?c = "ctx\<lparr>data := [], eof_seen := (length bs < 3 \<or> eof_seen ctx)\<rparr>"
      show ?thesis
        using True Some Cons[of ?c "out @ bs"] Cons[of ?c bs] by (simp add: Let_def split: prod.splits)
    qed (use True in \<open>simp add: Let_def\<close>)
  next
    case False
    then show ?thesis
      using Cons[of ctx out] Cons[of "ctx\<lparr>data := data ctx @ [x]\<rparr>" out] by (auto simp: Let_def)
  qed
qed simp

lemma decode_loop_no_error:
  "decode_loop ctx out xs = (r, ctx', out') \<Longrightarrow> \<not> error_encountered ctx \<Longrightarrow> error_encountered ctx' \<longleftrightarrow> \<not> r"
proof (induction xs arbitrary: ctx out)
  case (Cons x xs)
  then show ?case by (auto simp: Let_def split: if_splits option.splits)
qed auto

text \<open>
  The streaming decoder does not depend on how its input is cut: when a first update
  succeeds, feeding the rest afterwards gives the context and return value of a single
  update with everything, and the outputs concatenate (for outputs an \<open>int\<close> can count).
\<close>

theorem base64_stream_decode_append:
  assumes "EVP_DecodeUpdate ctx xs = (r1, ctx1, out1, n1)" and "r1 \<noteq> -1"
    and "EVP_DecodeUpdate ctx1 ys = (r2, ctx2, out2, n2)" and "length (out1 @ out2) \<le> 2147483647"
  shows "EVP_DecodeUpdate ctx (xs @ ys) = (r2, ctx2, out1 @ out2, if r2 = -1 then 0 else n1 + n2)"
proof -
  have e: "\<not> error_encountered ctx" using assms(1,2) by (auto simp: EVP_DecodeUpdate_def)
  obtain b1 c1 o1 where l1: "decode_loop ctx [] xs = (b1, c1, o1)" by (metis prod_cases3)
  have b1: "b1" "c1 = ctx1" "o1 = out1" "n1 = int (length out1)" "length out1 \<le> 2147483647"
    using assms(1,2) e l1 by (auto simp: EVP_DecodeUpdate_def split: if_splits bool.splits)
  obtain b2 c2 o2 where l2: "decode_loop ctx1 [] ys = (b2, c2, o2)" by (metis prod_cases3)
  have l2': "decode_loop ctx1 out1 ys = (b2, c2, out1 @ o2)" using decode_loop_out[of ctx1 out1 ys] l2 by simp
  have all: "decode_loop ctx [] (xs @ ys) = (b2, c2, out1 @ o2)"
    using decode_loop_append[of ctx "[]" xs ys] l1 b1(1-3) l2' by simp
  have e1: "\<not> error_encountered ctx1"
    using decode_loop_no_error[OF l1[unfolded b1(2)] e] b1(1) by simp
  show ?thesis
    using assms(3,4) e e1 l2 all b1(4) by (cases b2) (auto simp: EVP_DecodeUpdate_def split: if_splits)
qed

text \<open>
  Witness: the quad of \<open>[1, 2, 3]\<close> cut after its first character.
\<close>

theorem base64_stream_decode_append_witness:
  "EVP_DecodeUpdate EVP_DecodeInit ([65] @ [81, 73, 68]) =
     (1, \<lparr>data = [], eof_seen = False, error_encountered = False\<rparr>, [] @ [1, 2, 3], 0 + 3)"
proof -
  let ?c1 = "\<lparr>data = [65], eof_seen = False, error_encountered = False\<rparr>"
  have 1: "EVP_DecodeUpdate EVP_DecodeInit [65] = (1, ?c1, [], 0)"
    by (simp add: EVP_DecodeUpdate_def EVP_DecodeInit_def is_b64_space_eq)
  have q: "base64_decode_quad 65 81 73 68 = Some [1, 2, 3]"
    by (simp add: base64_decode_quad_def base64_ascii_to_bin_eq)
  have 2: "EVP_DecodeUpdate ?c1 [81, 73, 68] =
      (1, \<lparr>data = [], eof_seen = False, error_encountered = False\<rparr>, [1, 2, 3], 3)"
    by (simp add: EVP_DecodeUpdate_def is_b64_space_eq q)
  show ?thesis using base64_stream_decode_append[OF 1 _ 2] by simp
qed







end
