(* ===== verification/Crypto_Words.thy ===== *)
theory Crypto_Words
  imports Block_Buffer
begin

text \<open>
  Byte order and rotation helpers of \<^verbatim>\<open>BoringSSL-GRPC/src/crypto/internal.h\<close> on a
  little-endian target, with the facts that tie them to big-endian byte strings and to
  the rotations of the word library.
\<close>

section \<open>Byte order\<close>

definition CRYPTO_bswap2 :: "uint16 \<Rightarrow> uint16" where
  "CRYPTO_bswap2 x = le_word (rev (le_bytes 2 x))"

definition CRYPTO_bswap4 :: "uint32 \<Rightarrow> uint32" where
  "CRYPTO_bswap4 x = le_word (rev (le_bytes 4 x))"

definition CRYPTO_bswap8 :: "uint64 \<Rightarrow> uint64" where
  "CRYPTO_bswap8 x = le_word (rev (le_bytes 8 x))"

definition CRYPTO_load_u32_le :: "byte list \<Rightarrow> uint32" where
  "CRYPTO_load_u32_le bs = le_word (take 4 bs)"

definition CRYPTO_store_u32_le :: "uint32 \<Rightarrow> byte list" where
  "CRYPTO_store_u32_le v = le_bytes 4 v"

definition CRYPTO_load_u32_be :: "byte list \<Rightarrow> uint32" where
  "CRYPTO_load_u32_be bs = CRYPTO_bswap4 (le_word (take 4 bs))"

definition CRYPTO_store_u32_be :: "uint32 \<Rightarrow> byte list" where
  "CRYPTO_store_u32_be v = le_bytes 4 (CRYPTO_bswap4 v)"

definition CRYPTO_load_u64_be :: "byte list \<Rightarrow> uint64" where
  "CRYPTO_load_u64_be bs = CRYPTO_bswap8 (le_word (take 8 bs))"

definition CRYPTO_store_u64_be :: "uint64 \<Rightarrow> byte list" where
  "CRYPTO_store_u64_be v = le_bytes 8 (CRYPTO_bswap8 v)"

section \<open>Rotations\<close>

definition CRYPTO_rotl_u32 :: "uint32 \<Rightarrow> nat \<Rightarrow> uint32" where
  "CRYPTO_rotl_u32 v shift = push_bit shift v OR drop_bit (nat (- int shift AND 31)) v"

definition CRYPTO_rotr_u32 :: "uint32 \<Rightarrow> nat \<Rightarrow> uint32" where
  "CRYPTO_rotr_u32 v shift = drop_bit shift v OR push_bit (nat (- int shift AND 31)) v"

definition CRYPTO_rotl_u64 :: "uint64 \<Rightarrow> nat \<Rightarrow> uint64" where
  "CRYPTO_rotl_u64 v shift = push_bit shift v OR drop_bit (nat (- int shift AND 63)) v"

definition CRYPTO_rotr_u64 :: "uint64 \<Rightarrow> nat \<Rightarrow> uint64" where
  "CRYPTO_rotr_u64 v shift = drop_bit shift v OR push_bit (nat (- int shift AND 63)) v"

section \<open>Copies into an array\<close>

text \<open>\<open>OPENSSL_memcpy(d + n, bs, |bs|)\<close> inside the array \<open>d\<close>.\<close>

definition memcpy_at :: "byte list \<Rightarrow> nat \<Rightarrow> byte list \<Rightarrow> byte list" where
  "memcpy_at d n bs = take n d @ bs @ drop (n + length bs) d"

section \<open>Facts\<close>

lemma length_memcpy_at [simp]:
  "n + length bs \<le> length d \<Longrightarrow> length (memcpy_at d n bs) = length d"
  by (simp add: memcpy_at_def)

lemma take_memcpy_at: "n + length bs \<le> length d \<Longrightarrow> take (n + length bs) (memcpy_at d n bs) = take n d @ bs"
  by (simp add: memcpy_at_def)

lemma memcpy_at_full: "n + length bs = length d \<Longrightarrow> memcpy_at d n bs = take n d @ bs"
  by (simp add: memcpy_at_def)

lemma memcpy_at_zeros:
  "n + k \<le> length d \<Longrightarrow> take (n + k) (memcpy_at d n (replicate k b)) = take n d @ replicate k b"
  using take_memcpy_at[of n "replicate k b" d] by simp

lemma le_bytes_le_word: "length bs = n \<Longrightarrow> 8 * n \<le> LENGTH('a) \<Longrightarrow> le_bytes n (le_word bs :: 'a::len word) = bs"
proof (rule nth_equalityI)
  fix i assume a: "length bs = n" "8 * n \<le> LENGTH('a)" "i < length (le_bytes n (le_word bs :: 'a word))"
  then have i: "i < n" by simp
  show "le_bytes n (le_word bs :: 'a word) ! i = bs ! i"
  proof (rule bit_word_eqI)
    fix k assume "k < LENGTH(8)"
    then have k: "k < 8" by simp
    have "8 * i + k < 8 * n" using i k by simp
    moreover have "(8 * i + k) div 8 = i" "(8 * i + k) mod 8 = k" using k by simp_all
    ultimately show "bit (le_bytes n (le_word bs :: 'a word) ! i) k = bit (bs ! i) k"
      using i k a(1,2) by (simp add: le_bytes_def bit_simps bit_le_word)
  qed
qed simp

text \<open>Big-endian byte strings.\<close>

definition be_word :: "byte list \<Rightarrow> 'a::len word" where
  "be_word bs = le_word (rev bs)"

definition be_bytes :: "nat \<Rightarrow> 'a::len word \<Rightarrow> byte list" where
  "be_bytes n w = rev (le_bytes n w)"

lemma length_be_bytes [simp]: "length (be_bytes n w) = n"
  by (simp add: be_bytes_def)

lemma load_u32_be_eq: "4 \<le> length bs \<Longrightarrow> CRYPTO_load_u32_be bs = be_word (take 4 bs)"
  by (simp add: CRYPTO_load_u32_be_def CRYPTO_bswap4_def le_bytes_le_word be_word_def)

lemma load_u64_be_eq: "8 \<le> length bs \<Longrightarrow> CRYPTO_load_u64_be bs = be_word (take 8 bs)"
  by (simp add: CRYPTO_load_u64_be_def CRYPTO_bswap8_def le_bytes_le_word be_word_def)

lemma store_u32_be_eq: "CRYPTO_store_u32_be v = be_bytes 4 v"
  by (simp add: CRYPTO_store_u32_be_def CRYPTO_bswap4_def le_bytes_le_word be_bytes_def)

lemma store_u64_be_eq: "CRYPTO_store_u64_be v = be_bytes 8 v"
  by (simp add: CRYPTO_store_u64_be_def CRYPTO_bswap8_def le_bytes_le_word be_bytes_def)

lemma length_stores [simp]:
  "length (CRYPTO_store_u32_le v) = 4" "length (CRYPTO_store_u32_be v) = 4"
  "length (CRYPTO_store_u64_be w) = 8"
  by (simp_all add: CRYPTO_store_u32_le_def CRYPTO_store_u32_be_def CRYPTO_store_u64_be_def)

lemma be_bytes_append:
  fixes w :: "'a::len word"
  shows "be_bytes (m + n) w = be_bytes m (drop_bit (8 * n) w) @ be_bytes n w"
proof -
  have "le_bytes (n + m) w = le_bytes n w @ le_bytes m (drop_bit (8 * n) w)"
  proof (rule nth_equalityI)
    fix i assume i: "i < length (le_bytes (n + m) w)"
    then have "[0..<m] ! (i - n) = i - n \<and> 8 * (i - n) + 8 * n = 8 * i" if "\<not> i < n"
      using that by simp
    moreover have "i < n + m" using i by simp
    ultimately show "le_bytes (n + m) w ! i = (le_bytes n w @ le_bytes m (drop_bit (8 * n) w)) ! i"
      by (cases "i < n") (simp_all add: le_bytes_def nth_append)
  qed simp
  then show ?thesis by (simp add: be_bytes_def add.commute)
qed

lemma le_bytes_ucast:
  fixes w :: "'a::len word" and v :: "'b::len word"
  assumes "\<And>n. n < 8 * k \<Longrightarrow> bit w n = bit v n"
  shows "le_bytes k w = le_bytes k v"
proof (rule nth_equalityI)
  fix i assume "i < length (le_bytes k w)"
  then have i: "i < k" by simp
  show "le_bytes k w ! i = le_bytes k v ! i"
  proof (rule bit_word_eqI)
    fix n assume "n < LENGTH(8)"
    then have "n < 8" by simp
    then have "8 * i + n < 8 * k" using i by simp
    from assms[OF this] show "bit (le_bytes k w ! i) n = bit (le_bytes k v ! i) n"
      using i by (simp add: le_bytes_def bit_simps)
  qed
qed simp

lemma neg_and_31: "0 < s \<Longrightarrow> s < 32 \<Longrightarrow> nat (- int s AND 31) = 32 - s"
proof -
  assume s: "0 < s" "s < 32"
  have "- int s AND 31 = take_bit 5 (- int s)" by (simp add: take_bit_eq_mask mask_eq_exp_minus_1)
  also have "\<dots> = (- int s) mod 32" by (simp add: take_bit_eq_mod)
  also have "\<dots> = 32 - int s" using s by (simp add: zmod_zminus1_eq_if)
  finally show ?thesis using s by simp
qed

lemma neg_and_63: "0 < s \<Longrightarrow> s < 64 \<Longrightarrow> nat (- int s AND 63) = 64 - s"
proof -
  assume s: "0 < s" "s < 64"
  have "- int s AND 63 = take_bit 6 (- int s)" by (simp add: take_bit_eq_mask mask_eq_exp_minus_1)
  also have "\<dots> = (- int s) mod 64" by (simp add: take_bit_eq_mod)
  also have "\<dots> = 64 - int s" using s by (simp add: zmod_zminus1_eq_if)
  finally show ?thesis using s by simp
qed

lemma bit_rotl_u32:
  "0 < s \<Longrightarrow> s < 32 \<Longrightarrow> n < 32 \<Longrightarrow>
   bit (CRYPTO_rotl_u32 v s) n = bit v (if s \<le> n then n - s else n + 32 - s)"
  by (auto simp: CRYPTO_rotl_u32_def neg_and_31 bit_simps add.commute dest: bit_imp_le_length)

lemma bit_rotr_u32:
  "0 < s \<Longrightarrow> s < 32 \<Longrightarrow> n < 32 \<Longrightarrow>
   bit (CRYPTO_rotr_u32 v s) n = bit v (if n + s < 32 then n + s else n + s - 32)"
  by (auto simp: CRYPTO_rotr_u32_def neg_and_31 bit_or_iff bit_push_bit_iff bit_drop_bit_eq add.commute
      dest: bit_imp_le_length)

lemma bit_rotr_u64:
  "0 < s \<Longrightarrow> s < 64 \<Longrightarrow> n < 64 \<Longrightarrow>
   bit (CRYPTO_rotr_u64 v s) n = bit v (if n + s < 64 then n + s else n + s - 64)"
  by (auto simp: CRYPTO_rotr_u64_def neg_and_63 bit_or_iff bit_push_bit_iff bit_drop_bit_eq add.commute
      dest: bit_imp_le_length)

lemma rotl_u32_eq: "0 < s \<Longrightarrow> s < 32 \<Longrightarrow> CRYPTO_rotl_u32 v s = word_rotl s v"
  by (rule bit_word_eqI) (simp add: bit_rotl_u32 bit_word_rotl_iff mod_if)

lemma rotr_u32_eq: "0 < s \<Longrightarrow> s < 32 \<Longrightarrow> CRYPTO_rotr_u32 v s = word_rotr s v"
  by (rule bit_word_eqI) (simp add: bit_rotr_u32 bit_word_rotr_iff mod_if)

lemma rotr_u64_eq: "0 < s \<Longrightarrow> s < 64 \<Longrightarrow> CRYPTO_rotr_u64 v s = word_rotr s v"
  by (rule bit_word_eqI) (simp add: bit_rotr_u64 bit_word_rotr_iff mod_if)

text \<open>The sixteen big-endian words of a 64-byte block.\<close>

definition be_words32 :: "byte list \<Rightarrow> uint32 list" where
  "be_words32 bs = map (\<lambda>t. be_word (take 4 (drop (4 * t) bs))) [0..<16]"

lemma upt_0_16: "[0..<16] = [0, 1, 2, 3, 4, 5, 6, 7, 8, 9, 10, 11, 12, 13, 14, 15]"
  by code_simp

section \<open>Bit counters kept in two words\<close>

text \<open>
  The digests count message bits in two words \<open>hi\<close> and \<open>lo\<close>; adding \<open>m\<close> bytes with a
  detected carry is addition of \<open>8 * m\<close> to the double word.
\<close>

lemma carry_add_mod:
  fixes lo hi :: "'a::len word" and m :: nat
  defines "l \<equiv> lo + push_bit 3 (of_nat m)" and "N \<equiv> LENGTH('a)"
  assumes N: "3 < LENGTH('a)"
  shows "(unat ((if l < lo then hi + 1 else hi) + of_nat (m div 2 ^ (N - 3))) * 2 ^ N + unat l) mod 2 ^ (2 * N) =
    (unat hi * 2 ^ N + unat lo + 8 * m) mod 2 ^ (2 * N)"
proof -
  let ?x = "push_bit 3 (of_nat m) :: 'a word"
  have p8: "8 * 2 ^ (N - 3) = (2 ^ N :: nat)"
  proof -
    have "(8 :: nat) * 2 ^ (N - 3) = 2 ^ (3 + (N - 3))" unfolding power_add by simp
    then show ?thesis using N by (simp add: N_def)
  qed
  have x: "unat ?x = 8 * m mod 2 ^ N"
  proof -
    have "?x = of_nat (8 * m)" by (simp add: push_bit_eq_mult mult.commute)
    then show ?thesis by (simp only: N_def unsigned_of_nat take_bit_nat_def of_nat_id)
  qed
  have carry: "unat lo + unat ?x = (if l < lo then 2 ^ N else 0) + unat l"
  proof -
    have "unat lo < 2 ^ N" "unat ?x < 2 ^ N"
      using unsigned_less[of lo] unsigned_less[of ?x] by (simp_all add: N_def)
    moreover have "unat l = (unat lo + unat ?x) mod 2 ^ N" by (simp add: l_def unat_word_ariths N_def)
    ultimately show ?thesis by (auto simp: word_less_nat mod_if)
  qed
  let ?c = "if l < lo then 1 else 0 :: nat"
  have hi: "unat ((if l < lo then hi + 1 else hi) + of_nat (m div 2 ^ (N - 3))) =
      (unat hi + ?c + m div 2 ^ (N - 3)) mod 2 ^ N"
    unfolding N_def by (simp add: unat_word_ariths unsigned_of_nat take_bit_nat_def mod_simps)
  have m: "8 * m = m div 2 ^ (N - 3) * 2 ^ N + 8 * m mod 2 ^ N"
  proof -
    have "8 * m div 2 ^ N = m div 2 ^ (N - 3)"
      unfolding p8[symmetric] by simp
    then show ?thesis using div_mult_mod_eq[of "8 * m" "2 ^ N"] by simp
  qed
  have "((unat hi + ?c + m div 2 ^ (N - 3)) mod 2 ^ N * 2 ^ N + unat l) mod 2 ^ (2 * N) =
      ((unat hi + ?c + m div 2 ^ (N - 3)) * 2 ^ N + unat l) mod 2 ^ (2 * N)"
  proof -
    have "a mod 2 ^ N * 2 ^ N = (a * 2 ^ N) mod (2 ^ (2 * N) :: nat)" for a
      by (simp add: mult_2 power_add mod_mult_mult2)
    then show ?thesis by (simp add: mod_simps)
  qed
  also have "(unat hi + ?c + m div 2 ^ (N - 3)) * 2 ^ N + unat l = unat hi * 2 ^ N + unat lo + 8 * m"
    using carry x m by (simp add: algebra_simps split: if_splits)
  finally show ?thesis unfolding hi .
qed

end
