(* ===== verification/Md32.thy ===== *)
theory Md32
  imports Crypto_Words
begin

text \<open>
  The collector shared by the 32-bit digests,
  \<^verbatim>\<open>BoringSSL-GRPC/src/crypto/fipsmodule/digest/md32_common.h\<close>: buffering of partial
  blocks, the 64-bit message length kept in two 32-bit halves, and Merkle-Damgard
  padding. The block function is a parameter here; the locale \<open>md32_digest\<close> says what a
  digest has to provide and each digest theory interprets it.
\<close>

record md32_ctx =
  h :: "uint32 list"
  Nl :: uint32
  Nh :: uint32
  data :: "byte list"
  num :: nat

type_synonym block_func = "uint32 list \<Rightarrow> byte list \<Rightarrow> nat \<Rightarrow> uint32 list"

text \<open>The last part of the update: whole blocks from the input, then the rest to the buffer.\<close>

definition md32_blocks_and_rest ::
  "block_func \<Rightarrow> nat \<Rightarrow> 'a md32_ctx_scheme \<Rightarrow> byte list \<Rightarrow> 'a md32_ctx_scheme" where
  "md32_blocks_and_rest block_func block_size c inp =
     (let n = length inp div block_size;
          c' = (if n > 0 then c\<lparr>h := block_func (h c) inp n\<rparr> else c);
          inp' = (if n > 0 then drop (n * block_size) inp else inp)
      in if length inp' \<noteq> 0
         then c'\<lparr>num := length inp', data := memcpy_at (data c') 0 inp'\<rparr>
         else c')"

definition crypto_md32_update ::
  "block_func \<Rightarrow> nat \<Rightarrow> 'a md32_ctx_scheme \<Rightarrow> byte list \<Rightarrow> 'a md32_ctx_scheme" where
  "crypto_md32_update block_func block_size c0 inp =
     (let len = length inp in
      if len = 0 then c0
      else
        let l = Nl c0 + push_bit 3 (of_nat len);
            Nh1 = (if l < Nl c0 then Nh c0 + 1 else Nh c0);
            c = c0\<lparr>Nh := Nh1 + of_nat (drop_bit 29 len), Nl := l\<rparr>;
            n = num c
        in if n \<noteq> 0 then
             if len \<ge> block_size \<or> len + n \<ge> block_size then
               let full = memcpy_at (data c) n (take (block_size - n) inp);
                   c' = c\<lparr>h := block_func (h c) full 1, num := 0, data := replicate block_size 0\<rparr>
               in md32_blocks_and_rest block_func block_size c' (drop (block_size - n) inp)
             else c\<lparr>data := memcpy_at (data c) n inp, num := num c + len\<rparr>
           else md32_blocks_and_rest block_func block_size c inp)"

definition crypto_md32_final ::
  "block_func \<Rightarrow> nat \<Rightarrow> bool \<Rightarrow> 'a md32_ctx_scheme \<Rightarrow> 'a md32_ctx_scheme" where
  "crypto_md32_final block_func block_size is_big_endian c =
     (let d1 = memcpy_at (data c) (num c) [0x80];
          n = num c + 1;
          (d2, n2, h2) =
            (if n > block_size - 8
             then let d = memcpy_at d1 n (replicate (block_size - n) 0) in (d, 0, block_func (h c) d 1)
             else (d1, n, h c));
          d3 = memcpy_at d2 n2 (replicate (block_size - 8 - n2) 0);
          d4 = (if is_big_endian
                then memcpy_at (memcpy_at d3 (block_size - 8) (CRYPTO_store_u32_be (Nh c)))
                       (block_size - 4) (CRYPTO_store_u32_be (Nl c))
                else memcpy_at (memcpy_at d3 (block_size - 8) (CRYPTO_store_u32_le (Nl c)))
                       (block_size - 4) (CRYPTO_store_u32_le (Nh c)))
      in c\<lparr>h := block_func h2 d4 1, num := 0, data := replicate block_size 0\<rparr>)"

section \<open>Context invariant and abstraction\<close>

definition md32_inv :: "nat \<Rightarrow> 'a md32_ctx_scheme \<Rightarrow> bool" where
  "md32_inv block_size c \<longleftrightarrow> num c < block_size \<and> length (data c) = block_size"

definition md32_buf :: "'a md32_ctx_scheme \<Rightarrow> byte list" where
  "md32_buf c = take (num c) (data c)"

text \<open>The message length in bits, modulo \<open>2 ^ 64\<close>.\<close>

definition md32_bits :: "'a md32_ctx_scheme \<Rightarrow> uint64" where
  "md32_bits c = of_nat (unat (Nh c) * 2 ^ 32 + unat (Nl c))"

text \<open>Merkle-Damgard padding for a message of \<open>len\<close> bytes, as the standards state it.\<close>

definition md_length_bytes :: "bool \<Rightarrow> uint64 \<Rightarrow> byte list" where
  "md_length_bytes be bits = (if be then be_bytes 8 bits else le_bytes 8 bits)"

definition md_padding :: "bool \<Rightarrow> nat \<Rightarrow> nat \<Rightarrow> uint64 \<Rightarrow> byte list" where
  "md_padding be block_size len bits =
     0x80 # replicate ((2 * block_size - 9 - len mod block_size) mod block_size) 0 @ md_length_bytes be bits"

definition md_spec :: "(byte list \<Rightarrow> 's \<Rightarrow> 's) \<Rightarrow> bool \<Rightarrow> 's \<Rightarrow> byte list \<Rightarrow> 's" where
  "md_spec compress be iv msg =
     fold compress (blocks 64 (msg @ md_padding be 64 (length msg) (8 * of_nat (length msg)))) iv"

lemma carry_add:
  fixes lo hi :: uint32 and m :: nat
  defines "l \<equiv> lo + push_bit 3 (of_nat m)"
  shows "of_nat (unat ((if l < lo then hi + 1 else hi) + of_nat (drop_bit 29 m)) * 2 ^ 32 + unat l) =
    (of_nat (unat hi * 2 ^ 32 + unat lo) + 8 * of_nat m :: uint64)"
proof -
  have "(unat ((if l < lo then hi + 1 else hi) + of_nat (m div 2 ^ 29)) * 2 ^ 32 + unat l) mod 2 ^ 64 =
      (unat hi * 2 ^ 32 + unat lo + 8 * m) mod 2 ^ 64"
    using carry_add_mod[of lo m hi] by (simp add: l_def)
  then have "of_nat (unat ((if l < lo then hi + 1 else hi) + of_nat (m div 2 ^ 29)) * 2 ^ 32 + unat l) =
      (of_nat (unat hi * 2 ^ 32 + unat lo + 8 * m) :: uint64)"
    by (simp only: word_unat_eq_iff unat_of_nat take_bit_nat_def) simp
  then show ?thesis by (simp add: drop_bit_eq_div)
qed

lemma md32_bits_eq: "md32_bits c = push_bit 32 (ucast (Nh c)) OR ucast (Nl c)"
proof -
  have "md32_bits c = push_bit 32 (ucast (Nh c)) + ucast (Nl c)"
    by (simp add: md32_bits_def push_bit_eq_mult)
  also have "\<dots> = push_bit 32 (ucast (Nh c)) OR ucast (Nl c)"
    by (rule disjunctive_add) (auto simp: bit_simps dest: bit_imp_le_length)
  finally show ?thesis .
qed

lemma length_halves:
  shows "le_bytes 4 (drop_bit 32 (md32_bits c)) = le_bytes 4 (Nh c)"
    and "le_bytes 4 (md32_bits c) = le_bytes 4 (Nl c)"
  unfolding md32_bits_eq
  by (rule le_bytes_ucast, auto simp: bit_simps dest: bit_imp_le_length)+

lemma length_bytes_stores:
  "md_length_bytes be (md32_bits c) =
     (if be then CRYPTO_store_u32_be (Nh c) @ CRYPTO_store_u32_be (Nl c)
      else CRYPTO_store_u32_le (Nl c) @ CRYPTO_store_u32_le (Nh c))"
proof -
  have "be_bytes 8 (md32_bits c) = be_bytes 4 (drop_bit 32 (md32_bits c)) @ be_bytes 4 (md32_bits c)"
    using be_bytes_append[of 4 4 "md32_bits c"] by simp
  then have "be_bytes 8 (md32_bits c) = be_bytes 4 (Nh c) @ be_bytes 4 (Nl c)"
    by (simp add: be_bytes_def length_halves)
  moreover from this have "le_bytes 8 (md32_bits c) = le_bytes 4 (Nl c) @ le_bytes 4 (Nh c)"
    by (simp add: be_bytes_def flip: rev_append)
  ultimately show ?thesis
    by (simp add: md_length_bytes_def store_u32_be_eq CRYPTO_store_u32_le_def)
qed

text \<open>What the last block holds once the length has been stored.\<close>

lemma store_length:
  assumes "length d = 64"
  shows "(if be then memcpy_at (memcpy_at d 56 (CRYPTO_store_u32_be (Nh c))) 60 (CRYPTO_store_u32_be (Nl c))
      else memcpy_at (memcpy_at d 56 (CRYPTO_store_u32_le (Nl c))) 60 (CRYPTO_store_u32_le (Nh c))) =
    take 56 d @ md_length_bytes be (md32_bits c)"
  using assms by (simp add: memcpy_at_def length_bytes_stores)

section \<open>What a digest provides\<close>

locale md32_digest =
  fixes block_func :: block_func
    and compress :: "byte list \<Rightarrow> uint32 list \<Rightarrow> uint32 list"
  assumes block_func_eq: "0 < k \<Longrightarrow> 64 * k \<le> length bs \<Longrightarrow>
      block_func st bs k = fold compress (blocks 64 (take (64 * k) bs)) st"
begin

lemma block_func_1: "length bs = 64 \<Longrightarrow> block_func st bs 1 = compress bs st"
  using block_func_eq[of 1 bs st] by simp

lemma block_func_all:
  assumes "0 < length bs div 64"
  shows "block_func st bs (length bs div 64) = fold compress (blocks 64 bs) st"
proof -
  have "64 * (length bs div 64) \<le> length bs" by simp
  from block_func_eq[OF assms this] show ?thesis by (simp add: blocks_take)
qed

abbreviation upd :: "'a md32_ctx_scheme \<Rightarrow> byte list \<Rightarrow> 'a md32_ctx_scheme" where
  "upd \<equiv> crypto_md32_update block_func 64"

lemma blocks_and_rest:
  fixes c :: "'a md32_ctx_scheme" and inp :: "byte list"
  assumes "num c = 0" "length (data c) = 64"
  defines "r \<equiv> md32_blocks_and_rest block_func 64 c inp"
  shows "md32_inv 64 r" "h r = fold compress (blocks 64 inp) (h c)" "md32_buf r = leftover 64 inp"
    "Nl r = Nl c" "Nh r = Nh c"
proof -
  define n where "n = length inp div 64"
  define c' where "c' = (if n > 0 then c\<lparr>h := block_func (h c) inp n\<rparr> else c)"
  define inp' where "inp' = (if n > 0 then drop (n * 64) inp else inp)"
  have r: "r = (if length inp' \<noteq> 0 then c'\<lparr>num := length inp', data := memcpy_at (data c') 0 inp'\<rparr> else c')"
    by (simp only: r_def md32_blocks_and_rest_def Let_def n_def c'_def inp'_def)
  have i: "inp' = leftover 64 inp"
    by (simp add: inp'_def n_def leftover_def mult.commute)
  have less: "length inp' < 64" unfolding i by (rule length_leftover_less) simp
  have c': "num c' = 0" "length (data c') = 64" "Nl c' = Nl c" "Nh c' = Nh c"
    using assms(1,2) by (simp_all add: c'_def)
  have "h c' = fold compress (blocks 64 inp) (h c)"
  proof (cases "n > 0")
    case True
    then show ?thesis using block_func_all[of inp "h c"] by (simp add: c'_def n_def)
  next
    case False
    then have "length inp < 64" by (simp add: n_def div_eq_0_iff)
    then show ?thesis using False by (simp add: c'_def)
  qed
  then show "h r = fold compress (blocks 64 inp) (h c)" by (simp add: r)
  show "md32_inv 64 r" using less c' by (simp add: r md32_inv_def)
  show "Nl r = Nl c" "Nh r = Nh c" using c' by (simp_all add: r)
  show "md32_buf r = leftover 64 inp"
    using less c' take_memcpy_at[of 0 inp' "data c'"] unfolding i[symmetric]
    by (auto simp: r md32_buf_def)
qed

lemma upd_laws:
  fixes c :: "'a md32_ctx_scheme"
  assumes inv: "md32_inv 64 c"
  shows "md32_inv 64 (upd c xs)"
    and "h (upd c xs) = fold compress (blocks 64 (md32_buf c @ xs)) (h c)"
    and "md32_buf (upd c xs) = leftover 64 (md32_buf c @ xs)"
    and "md32_bits (upd c xs) = md32_bits c + 8 * of_nat (length xs)"
proof -
  define l where "l = Nl c + push_bit 3 (of_nat (length xs))"
  define c1 where "c1 = c\<lparr>Nh := (if l < Nl c then Nh c + 1 else Nh c) + of_nat (drop_bit 29 (length xs)), Nl := l\<rparr>"
  have c1: "num c1 = num c" "data c1 = data c" "h c1 = h c" by (simp_all add: c1_def)
  have bits: "md32_bits r = md32_bits c + 8 * of_nat (length xs)"
    if "Nl r = Nl c1" "Nh r = Nh c1" for r :: "'a md32_ctx_scheme"
    using that carry_add[of "Nl c" "length xs" "Nh c"] by (simp add: md32_bits_def c1_def l_def)
  have len: "num c < 64" "length (data c) = 64" using inv by (simp_all add: md32_inv_def)
  let ?goal = "\<lambda>r. md32_inv 64 r \<and> h r = fold compress (blocks 64 (md32_buf c @ xs)) (h c) \<and>
    md32_buf r = leftover 64 (md32_buf c @ xs) \<and> md32_bits r = md32_bits c + 8 * of_nat (length xs)"
  have "?goal (upd c xs)"
  proof -
    consider "xs = []" | "xs \<noteq> []" "num c = 0" | "xs \<noteq> []" "num c \<noteq> 0" "length xs + num c < 64"
      | "xs \<noteq> []" "num c \<noteq> 0" "64 \<le> length xs + num c" by linarith
    then show ?thesis
    proof cases
      case 1
      then show ?thesis using inv len by (simp add: crypto_md32_update_def md32_buf_def)
    next
      case 2
      then have "upd c xs = md32_blocks_and_rest block_func 64 c1 xs"
        by (simp add: crypto_md32_update_def Let_def c1_def l_def)
      then show ?thesis
        using blocks_and_rest[of c1 xs] 2 len c1 bits by (simp add: md32_buf_def)
    next
      case 3
      then have "upd c xs = c1\<lparr>data := memcpy_at (data c1) (num c1) xs, num := num c1 + length xs\<rparr>"
        by (simp add: crypto_md32_update_def Let_def c1_def l_def)
      then show ?thesis
        using 3 len c1 bits take_memcpy_at[of "num c" xs "data c"]
        by (simp add: md32_inv_def md32_buf_def add.commute)
    next
      case 4
      define c2 where "c2 = c1\<lparr>h := block_func (h c1) (memcpy_at (data c1) (num c1) (take (64 - num c1) xs)) 1,
        num := 0, data := replicate 64 0\<rparr>"
      let ?ys = "drop (64 - num c) xs"
      have u: "upd c xs = md32_blocks_and_rest block_func 64 c2 ?ys"
        using 4 by (simp add: crypto_md32_update_def Let_def c1_def l_def c2_def)
      have full: "memcpy_at (data c) (num c) (take (64 - num c) xs) = md32_buf c @ take (64 - num c) xs"
        using 4 len by (simp add: memcpy_at_full md32_buf_def)
      have L: "length (md32_buf c @ take (64 - num c) xs) = 64" using 4 len by (simp add: md32_buf_def)
      have split: "md32_buf c @ xs = (md32_buf c @ take (64 - num c) xs) @ ?ys" by simp
      have h2: "h c2 = compress (md32_buf c @ take (64 - num c) xs) (h c)"
        using block_func_1[OF L] by (simp add: c2_def c1 full)
      have "blocks 64 (md32_buf c @ xs) = (md32_buf c @ take (64 - num c) xs) # blocks 64 ?ys"
        unfolding split by (rule blocks_Cons_block[OF _ L]) simp
      moreover have "leftover 64 (md32_buf c @ xs) = leftover 64 ?ys"
        unfolding split by (rule leftover_Cons_block[OF _ L]) simp
      moreover have "num c2 = 0" "length (data c2) = 64" "Nl c2 = Nl c1" "Nh c2 = Nh c1"
        by (simp_all add: c2_def)
      ultimately show ?thesis
        unfolding u using blocks_and_rest[of c2 ?ys] bits h2 by simp
    qed
  qed
  then show "md32_inv 64 (upd c xs)"
    and "h (upd c xs) = fold compress (blocks 64 (md32_buf c @ xs)) (h c)"
    and "md32_buf (upd c xs) = leftover 64 (md32_buf c @ xs)"
    and "md32_bits (upd c xs) = md32_bits c + 8 * of_nat (length xs)" by auto
qed

lemma final_laws:
  fixes c :: "'a md32_ctx_scheme"
  assumes inv: "md32_inv 64 c"
  shows "h (crypto_md32_final block_func 64 be c) =
     fold compress (blocks 64 (md32_buf c @ md_padding be 64 (num c) (md32_bits c))) (h c)"
proof -
  have n: "num c < 64" "length (data c) = 64" using inv by (simp_all add: md32_inv_def)
  define d1 where "d1 = memcpy_at (data c) (num c) [0x80]"
  have d1: "length d1 = 64" "take (num c + 1) d1 = md32_buf c @ [0x80]"
    using n take_memcpy_at[of "num c" "[0x80]" "data c"] by (simp_all add: d1_def md32_buf_def)
  let ?len = "md_length_bytes be (md32_bits c)"
  have len: "length ?len = 8" by (simp add: md_length_bytes_def)
  show ?thesis
  proof (cases "num c + 1 > 56")
    case True
    define d2 where "d2 = memcpy_at d1 (num c + 1) (replicate (64 - (num c + 1)) 0)"
    have d2: "length d2 = 64" "d2 = md32_buf c @ 0x80 # replicate (63 - num c) 0"
      using n d1 by (simp_all add: d2_def memcpy_at_full md32_buf_def)
    define d3 where "d3 = memcpy_at d2 0 (replicate 56 0)"
    have d3: "length d3 = 64" "take 56 d3 = replicate 56 0"
      using d2(1) by (simp_all add: d3_def memcpy_at_def)
    have "md32_buf c @ md_padding be 64 (num c) (md32_bits c) = d2 @ replicate 56 0 @ ?len"
    proof -
      have "(119 - num c) mod 64 = (63 - num c) + 56" using True n by (simp add: mod_if)
      then have "replicate ((119 - num c) mod 64) 0 = replicate (63 - num c) 0 @ replicate 56 (0 :: byte)"
        by (metis replicate_add)
      then show ?thesis using n by (simp add: md_padding_def d2(2))
    qed
    moreover have "h (crypto_md32_final block_func 64 be c) =
        block_func (block_func (h c) d2 1) (take 56 d3 @ ?len) 1"
      using True unfolding store_length[OF d3(1), symmetric]
      by (simp add: crypto_md32_final_def Let_def d1_def d2_def d3_def)
    ultimately show ?thesis
      using block_func_1[OF d2(1)] block_func_1[of "replicate 56 0 @ ?len"] len d2(1) d3
      by (simp add: blocks_Cons_block)
  next
    case False
    define d3 where "d3 = memcpy_at d1 (num c + 1) (replicate (56 - (num c + 1)) 0)"
    have d3: "length d3 = 64" "take 56 d3 = md32_buf c @ 0x80 # replicate (55 - num c) 0"
      using False d1 memcpy_at_zeros[of "num c + 1" "56 - (num c + 1)" d1 0] by (simp_all add: d3_def)
    have "md32_buf c @ md_padding be 64 (num c) (md32_bits c) = take 56 d3 @ ?len"
      using False n by (simp add: md_padding_def d3(2) mod_if)
    moreover have "h (crypto_md32_final block_func 64 be c) = block_func (h c) (take 56 d3 @ ?len) 1"
      using False unfolding store_length[OF d3(1), symmetric]
      by (simp add: crypto_md32_final_def Let_def d1_def d3_def)
    ultimately show ?thesis
      using block_func_1[of "take 56 d3 @ ?len"] len d3(1) by simp
  qed
qed

end

sublocale md32_digest \<subseteq> stream: block_stream 64 compress "crypto_md32_update block_func 64" h md32_buf
    "md32_inv 64" "\<lambda>_. True"
  by unfold_locales (simp_all add: upd_laws, simp add: md32_inv_def md32_buf_def)

context md32_digest
begin

text \<open>
  A digest computed with any sequence of updates after an initialisation is the
  Merkle-Damgard iteration of \<open>compress\<close> over the padded message.
\<close>

lemma digest_eq_spec:
  fixes c :: "'a md32_ctx_scheme"
  assumes init: "md32_inv 64 c" "num c = 0" "md32_bits c = 0"
  shows "h (crypto_md32_final block_func 64 be (fold (\<lambda>xs c. crypto_md32_update block_func 64 c xs) xss c)) =
    md_spec compress be (h c) (concat xss)"
proof -
  let ?c = "fold (\<lambda>xs c. upd c xs) xss c"
  have buf0: "md32_buf c = []" using init(2) by (simp add: md32_buf_def)
  have c: "md32_inv 64 ?c" "h ?c = fold compress (blocks 64 (concat xss)) (h c)"
    "md32_buf ?c = leftover 64 (concat xss)"
    using stream.fold_upd[OF init(1), of xss] buf0 by simp_all
  have bits: "md32_bits (fold (\<lambda>xs c. upd c xs) xss c) = md32_bits c + 8 * of_nat (length (concat xss))"
    if "md32_inv 64 c" for c :: "'a md32_ctx_scheme"
    using that by (induction xss arbitrary: c) (simp_all add: upd_laws distrib_left add.assoc)
  have len: "num ?c = length (concat xss) mod 64"
    using c(1) arg_cong[OF c(3), of length]
    by (simp add: length_leftover md32_inv_def md32_buf_def del: length_concat)
  have "blocks 64 (concat xss @ md_padding be 64 (length (concat xss)) (md32_bits ?c)) =
      blocks 64 (concat xss) @ blocks 64 (md32_buf ?c @ md_padding be 64 (num ?c) (md32_bits ?c))"
    unfolding c(3) len by (subst blocks_append) (simp_all add: md_padding_def del: length_concat)
  then show ?thesis
    using final_laws[OF c(1), of be] c(2) bits[OF init(1)] init(3)
    by (simp add: md_spec_def del: length_concat)
qed

end

end
