(* ===== verification/Sha2.thy ===== *)
theory Sha2
  imports Crypto_Words
begin

text \<open>
  The round structure that \<^verbatim>\<open>sha256.c\<close> and \<^verbatim>\<open>sha512.c\<close> have in common. The C code keeps
  eight working variables whose roles move by one position per round and a window of
  sixteen schedule words that is overwritten cyclically; the reference is the
  formulation of FIPS 180-4 with a simultaneous assignment and an unbounded message
  schedule. The parameters of a variant are its round constants and the four sigma
  functions.
\<close>

record 'w sha2_params =
  pK :: "'w list"
  pSigma0 :: "'w \<Rightarrow> 'w"
  pSigma1 :: "'w \<Rightarrow> 'w"
  psigma0 :: "'w \<Rightarrow> 'w"
  psigma1 :: "'w \<Rightarrow> 'w"

definition Ch :: "'a::len word \<Rightarrow> 'a word \<Rightarrow> 'a word \<Rightarrow> 'a word" where
  "Ch x y z = (x AND y) XOR (NOT x AND z)"

definition Maj :: "'a::len word \<Rightarrow> 'a word \<Rightarrow> 'a word \<Rightarrow> 'a word" where
  "Maj x y z = (x AND y) XOR (x AND z) XOR (y AND z)"

text \<open>The names of the local variables \<open>a\<close> to \<open>h\<close>, and the local state.\<close>

datatype reg8 = Va | Vb | Vc | Vd | Ve | Vf | Vg | Vh

record 'w sha2_vars =
  R :: "reg8 \<Rightarrow> 'w"
  T1 :: 'w
  X :: "'w list"

text \<open>\<open>T1 = X[k] = w\<close>\<close>

definition STORE_X :: "nat \<Rightarrow> 'w \<Rightarrow> 'w sha2_vars \<Rightarrow> 'w sha2_vars" where
  "STORE_X k w s = s\<lparr>T1 := w, X := (X s)[k := w]\<rparr>"

definition ROUND_00_15 ::
  "'a::len word sha2_params \<Rightarrow> nat \<Rightarrow> reg8 \<Rightarrow> reg8 \<Rightarrow> reg8 \<Rightarrow> reg8 \<Rightarrow> reg8 \<Rightarrow> reg8 \<Rightarrow> reg8 \<Rightarrow> reg8 \<Rightarrow>
   'a word sha2_vars \<Rightarrow> 'a word sha2_vars" where
  "ROUND_00_15 P i a b c d e f g h s =
     (let t1 = T1 s + (R s h + pSigma1 P (R s e) + Ch (R s e) (R s f) (R s g) + pK P ! i);
          r = (R s)(h := pSigma0 P (R s a) + Maj (R s a) (R s b) (R s c));
          r = r(d := r d + t1);
          r = r(h := r h + t1)
      in s\<lparr>T1 := t1, R := r\<rparr>)"

definition ROUND_16_up ::
  "'a::len word sha2_params \<Rightarrow> nat \<Rightarrow> nat \<Rightarrow> reg8 \<Rightarrow> reg8 \<Rightarrow> reg8 \<Rightarrow> reg8 \<Rightarrow> reg8 \<Rightarrow> reg8 \<Rightarrow> reg8 \<Rightarrow> reg8 \<Rightarrow>
   'a word sha2_vars \<Rightarrow> 'a word sha2_vars" where
  "ROUND_16_up P i j a b c d e f g h s =
     (let s0 = psigma0 P (X s ! ((j + 1) AND 0x0f));
          s1 = psigma1 P (X s ! ((j + 14) AND 0x0f));
          t1 = X s ! (j AND 0x0f) + (s0 + s1 + X s ! ((j + 9) AND 0x0f))
      in ROUND_00_15 P i a b c d e f g h (s\<lparr>T1 := t1, X := (X s)[j AND 0x0f := t1]\<rparr>))"

section \<open>Reference\<close>

fun sha2_W :: "'a::len word sha2_params \<Rightarrow> 'a word list \<Rightarrow> nat \<Rightarrow> 'a word" where
  "sha2_W P M t =
     (if t < 16 then M ! t
      else psigma1 P (sha2_W P M (t - 2)) + sha2_W P M (t - 7) + psigma0 P (sha2_W P M (t - 15))
         + sha2_W P M (t - 16))"

declare sha2_W.simps [simp del]

fun sha2_step :: "'a::len word sha2_params \<Rightarrow> 'a word \<Rightarrow> nat \<Rightarrow> 'a word list \<Rightarrow> 'a word list" where
  "sha2_step P w t [a, b, c, d, e, f, g, h] =
     (let T1 = h + pSigma1 P e + ((e AND f) XOR (NOT e AND g)) + pK P ! t + w;
          T2 = pSigma0 P a + ((a AND b) XOR (a AND c) XOR (b AND c))
      in [T1 + T2, a, b, c, d + T1, e, f, g])"
| "sha2_step P w t vs = vs"

definition sha2_compress :: "'a::len word sha2_params \<Rightarrow> nat \<Rightarrow> 'a word list \<Rightarrow> 'a word list \<Rightarrow> 'a word list" where
  "sha2_compress P rounds M st = map2 (+) st (fold (\<lambda>t. sha2_step P (sha2_W P M t) t) [0..<rounds] st)"

section \<open>The roles of the variables\<close>

definition roles :: "nat \<Rightarrow> reg8 list" where
  "roles t =
     [[Va, Vb, Vc, Vd, Ve, Vf, Vg, Vh],
      [Vh, Va, Vb, Vc, Vd, Ve, Vf, Vg],
      [Vg, Vh, Va, Vb, Vc, Vd, Ve, Vf],
      [Vf, Vg, Vh, Va, Vb, Vc, Vd, Ve],
      [Ve, Vf, Vg, Vh, Va, Vb, Vc, Vd],
      [Vd, Ve, Vf, Vg, Vh, Va, Vb, Vc],
      [Vc, Vd, Ve, Vf, Vg, Vh, Va, Vb],
      [Vb, Vc, Vd, Ve, Vf, Vg, Vh, Va]] ! (t mod 8)"

lemma roles_cases:
  obtains a b c d e f g h where "roles t = [a, b, c, d, e, f, g, h]"
    "roles (Suc t) = [h, a, b, c, d, e, f, g]" "distinct [a, b, c, d, e, f, g, h]"
proof -
  have "t mod 8 < 8" by simp
  then consider "t mod 8 = 0" | "t mod 8 = 1" | "t mod 8 = 2" | "t mod 8 = 3"
    | "t mod 8 = 4" | "t mod 8 = 5" | "t mod 8 = 6" | "t mod 8 = 7" by linarith
  then have "roles t = [roles t ! 0, roles t ! 1, roles t ! 2, roles t ! 3, roles t ! 4, roles t ! 5,
      roles t ! 6, roles t ! 7] \<and>
    roles (Suc t) = [roles t ! 7, roles t ! 0, roles t ! 1, roles t ! 2, roles t ! 3, roles t ! 4,
      roles t ! 5, roles t ! 6] \<and> distinct (roles t)"
    by cases (simp_all add: roles_def mod_Suc)
  then show thesis by (metis that)
qed

definition view :: "nat \<Rightarrow> 'w sha2_vars \<Rightarrow> 'w list" where
  "view t s = map (R s) (roles t)"

fun with_roles :: "(reg8 \<Rightarrow> reg8 \<Rightarrow> reg8 \<Rightarrow> reg8 \<Rightarrow> reg8 \<Rightarrow> reg8 \<Rightarrow> reg8 \<Rightarrow> reg8 \<Rightarrow> 'v) \<Rightarrow> reg8 list \<Rightarrow> 'v" where
  "with_roles F [a, b, c, d, e, f, g, h] = F a b c d e f g h"
| "with_roles F _ = undefined"

lemma view_round:
  "view (Suc t) (with_roles (ROUND_00_15 P t) (roles t) s) = sha2_step P (T1 s) t (view t s)"
proof -
  obtain a b c d e f g h where r: "roles t = [a, b, c, d, e, f, g, h]"
    "roles (Suc t) = [h, a, b, c, d, e, f, g]" "distinct [a, b, c, d, e, f, g, h]"
    by (rule roles_cases)
  then show ?thesis
    by (auto simp: view_def ROUND_00_15_def Ch_def Maj_def Let_def add_ac)
qed

lemma X_round [simp]: "X (with_roles (ROUND_00_15 P t) (roles u) s) = X s"
  by (rule roles_cases[of u]) (simp add: ROUND_00_15_def Let_def)

text \<open>One iteration of the C code, whichever of the two macros it uses.\<close>

definition do_round :: "'a::len word sha2_params \<Rightarrow> 'a word list \<Rightarrow> nat \<Rightarrow> 'a word sha2_vars \<Rightarrow> 'a word sha2_vars" where
  "do_round P M t s =
     (if t < 16 then with_roles (ROUND_00_15 P t) (roles t) (STORE_X t (M ! t) s)
      else with_roles (ROUND_16_up P t t) (roles t) s)"

text \<open>The window holds the last sixteen schedule words.\<close>

definition window_ok :: "'a::len word sha2_params \<Rightarrow> 'a word list \<Rightarrow> nat \<Rightarrow> 'a word sha2_vars \<Rightarrow> bool" where
  "window_ok P M t s \<longleftrightarrow> length (X s) = 16 \<and> (\<forall>j < t. t \<le> j + 16 \<longrightarrow> X s ! (j mod 16) = sha2_W P M j)"

lemma and_0f: "(n :: nat) AND 0x0f = n mod 16"
  by (simp add: take_bit_eq_mask mask_eq_exp_minus_1 flip: take_bit_eq_mod[of 4, simplified])

lemma window_store:
  assumes "window_ok P M t s" and "w = sha2_W P M t"
  shows "window_ok P M (Suc t) (s\<lparr>T1 := v, X := (X s)[t mod 16 := w]\<rparr>)"
  unfolding window_ok_def
proof (intro conjI allI impI)
  fix j assume j: "j < Suc t" "Suc t \<le> j + 16"
  show "X (s\<lparr>T1 := v, X := (X s)[t mod 16 := w]\<rparr>) ! (j mod 16) = sha2_W P M j"
  proof (cases "j = t")
    case True
    then show ?thesis using assms by (simp add: window_ok_def)
  next
    case False
    have "j mod 16 \<noteq> t mod 16"
    proof
      assume "j mod 16 = t mod 16"
      then obtain k where "t = j + 16 * k" using False j(1) by (metis less_Suc_eq mod_eq_nat1E mod_eq_nat2E nat_less_le not_less_eq)
      with False j show False by (cases k) auto
    qed
    then show ?thesis using assms(1) j False by (simp add: window_ok_def)
  qed
qed (use assms in \<open>simp add: window_ok_def\<close>)

lemma window_ok_round:
  "window_ok P M t s \<Longrightarrow> window_ok P M t (with_roles (ROUND_00_15 P i) (roles u) s)"
  by (simp add: window_ok_def)

lemma do_round_simulates:
  assumes "window_ok P M t s" and "length M = 16"
  shows "window_ok P M (Suc t) (do_round P M t s)"
    and "view (Suc t) (do_round P M t s) = sha2_step P (sha2_W P M t) t (view t s)"
proof -
  define w where "w = sha2_W P M t"
  have "do_round P M t s = with_roles (ROUND_00_15 P t) (roles t) (s\<lparr>T1 := w, X := (X s)[t mod 16 := w]\<rparr>)"
  proof (cases "t < 16")
    case True
    then show ?thesis by (simp add: do_round_def STORE_X_def w_def sha2_W.simps)
  next
    case False
    have "X s ! (j mod 16) = sha2_W P M (j - 16)" if "16 \<le> j" "t \<le> j" "j < t + 16" for j
    proof -
      have "(j - 16) mod 16 = j mod 16" using that by (metis le_mod_geq)
      then show ?thesis using assms(1) that unfolding window_ok_def by (metis le_add_diff_inverse2 less_diff_conv2)
    qed
    from this[of t] this[of "t + 1"] this[of "t + 14"] this[of "t + 9"] False
    have x: "X s ! (t mod 16) = sha2_W P M (t - 16)" "X s ! ((t + 1) mod 16) = sha2_W P M (t - 15)"
      "X s ! ((t + 14) mod 16) = sha2_W P M (t - 2)" "X s ! ((t + 9) mod 16) = sha2_W P M (t - 7)"
      by simp_all
    have w: "w = psigma1 P (sha2_W P M (t - 2)) + sha2_W P M (t - 7) + psigma0 P (sha2_W P M (t - 15))
         + sha2_W P M (t - 16)"
      using False unfolding w_def by (subst sha2_W.simps) simp
    obtain a b c d e f g h where "roles t = [a, b, c, d, e, f, g, h]" by (rule roles_cases)
    then show ?thesis
      using False x by (simp add: do_round_def ROUND_16_up_def and_0f w Let_def add_ac)
  qed
  moreover have "window_ok P M (Suc t) (s\<lparr>T1 := w, X := (X s)[t mod 16 := w]\<rparr>)"
    using window_store[OF assms(1)] w_def by blast
  ultimately show "window_ok P M (Suc t) (do_round P M t s)"
    and "view (Suc t) (do_round P M t s) = sha2_step P (sha2_W P M t) t (view t s)"
    using window_ok_round view_round[of t P "s\<lparr>T1 := w, X := (X s)[t mod 16 := w]\<rparr>"]
    by (simp_all add: w_def view_def[of t])
qed

lemma upt_add_8: "[i..<i + 8] = [i, i + 1, i + 2, i + 3, i + 4, i + 5, i + 6, i + 7]"
  by (simp add: upt_rec)

lemma rounds_simulate:
  assumes "length (X s) = 16" and "length M = 16"
  shows "view n (fold (do_round P M) [0..<n] s) = fold (\<lambda>t. sha2_step P (sha2_W P M t) t) [0..<n] (view 0 s)"
proof -
  let ?R = "\<lambda>t s vs. window_ok P M t s \<and> view t s = vs"
  have "?R n (fold (do_round P M) [0..<n] s) (fold (\<lambda>t. sha2_step P (sha2_W P M t) t) [0..<n] (view 0 s))"
  proof (rule fold_upt_simulation[where R = ?R])
    show "?R 0 s (view 0 s)" using assms by (simp add: window_ok_def)
  next
    fix i s vs assume "?R i s vs"
    then show "?R (Suc i) (do_round P M i s) (sha2_step P (sha2_W P M i) i vs)"
      using do_round_simulates[of P M i s] assms(2) by auto
  qed
  then show ?thesis by simp
qed

end
