(* ===== verification/Fips_Constants.thy ===== *)
theory Fips_Constants
  imports Prelude
begin

text \<open>
  The constants of FIPS 180-4 as the standard describes them, independent of the tables in the source
  files: the first bits of the fractional parts of the square roots and cube roots of the first primes
  (sections 4.2.2, 4.2.3, 5.3.2 to 5.3.5). Only the initial value of SHA-512/256 is the list of section
  5.3.6.2.
\<close>

section \<open>Roots\<close>

text \<open>The largest number of \<open>b\<close> bits whose \<open>k\<close>-th power is at most \<open>n\<close>, found bit by bit from \<open>r\<close> on.\<close>

primrec iroot_from :: "nat \<Rightarrow> nat \<Rightarrow> nat \<Rightarrow> nat \<Rightarrow> nat" where
  "iroot_from k n 0 r = r"
| "iroot_from k n (Suc i) r = iroot_from k n i (if (r + 2 ^ i) ^ k \<le> n then r + 2 ^ i else r)"

definition iroot :: "nat \<Rightarrow> nat \<Rightarrow> nat \<Rightarrow> nat" where
  "iroot k b n = iroot_from k n b 0"

lemma iroot_from_eq:
  "s \<le> r \<Longrightarrow> r < s + 2 ^ i \<Longrightarrow> r ^ k \<le> n \<Longrightarrow> n < (r + 1) ^ k \<Longrightarrow> iroot_from k n i s = r"
proof (induction i arbitrary: s)
  case (Suc i)
  show ?case
  proof (cases "s + 2 ^ i \<le> r")
    case True
    then have "(s + 2 ^ i) ^ k \<le> n" using power_mono[of "s + 2 ^ i" r k] Suc.prems(3) by simp
    then show ?thesis using Suc.IH[of "s + 2 ^ i"] True Suc.prems by simp
  next
    case False
    then have "n < (s + 2 ^ i) ^ k" using power_mono[of "r + 1" "s + 2 ^ i" k] Suc.prems(4) by simp
    then show ?thesis using Suc.IH[of s] False Suc.prems by simp
  qed
qed simp

lemma iroot_eq: "r < 2 ^ b \<Longrightarrow> r ^ k \<le> n \<Longrightarrow> n < (r + 1) ^ k \<Longrightarrow> iroot k b n = r"
  unfolding iroot_def by (rule iroot_from_eq) simp_all

text \<open>The first \<open>w\<close> bits of the fractional part of the \<open>k\<close>-th root of \<open>p\<close>, which is below 16.\<close>

definition root_bits :: "nat \<Rightarrow> nat \<Rightarrow> nat \<Rightarrow> nat" where
  "root_bits k w p = iroot k (w + 4) (p * 2 ^ (k * w)) mod 2 ^ w"

section \<open>The constants\<close>

text \<open>The first eighty primes.\<close>

definition first_primes :: "nat list" where
  "first_primes =
     [2, 3, 5, 7, 11, 13, 17, 19, 23, 29, 31, 37, 41, 43, 47, 53, 59, 61, 67, 71,
      73, 79, 83, 89, 97, 101, 103, 107, 109, 113, 127, 131, 137, 139, 149, 151, 157, 163, 167, 173,
      179, 181, 191, 193, 197, 199, 211, 223, 227, 229, 233, 239, 241, 251, 257, 263, 269, 271, 277, 281,
      283, 293, 307, 311, 313, 317, 331, 337, 347, 349, 353, 359, 367, 373, 379, 383, 389, 397, 401, 409]"

definition fips_K256 :: "uint32 list" where
  "fips_K256 = map (\<lambda>p. of_nat (root_bits 3 32 p)) (take 64 first_primes)"

definition fips_K512 :: "uint64 list" where
  "fips_K512 = map (\<lambda>p. of_nat (root_bits 3 64 p)) first_primes"

definition fips_H256 :: "uint32 list" where
  "fips_H256 = map (\<lambda>p. of_nat (root_bits 2 32 p)) (take 8 first_primes)"

definition fips_H512 :: "uint64 list" where
  "fips_H512 = map (\<lambda>p. of_nat (root_bits 2 64 p)) (take 8 first_primes)"

text \<open>SHA-384 starts from the ninth to the sixteenth prime, SHA-224 from the second 32 bits of the same.\<close>

definition fips_H384 :: "uint64 list" where
  "fips_H384 = map (\<lambda>p. of_nat (root_bits 2 64 p)) (take 8 (drop 8 first_primes))"

definition fips_H224 :: "uint32 list" where
  "fips_H224 = map (\<lambda>p. of_nat (root_bits 2 64 p mod 2 ^ 32)) (take 8 (drop 8 first_primes))"

definition fips_H512_256 :: "uint64 list" where
  "fips_H512_256 =
     [0x22312194fc2bf72c, 0x9f555fa3c84c64c2, 0x2393b86b6f53b151, 0x963877195940eabd,
      0x96283ee2a88effe3, 0xbe5e1e2553863992, 0x2b0199fc2c85b8aa, 0x0eb72ddc81c52ca2]"

lemma length_fips [simp]:
  "length fips_H256 = 8" "length fips_H224 = 8" "length fips_H512 = 8" "length fips_H384 = 8" "length fips_H512_256 = 8"
  by (simp_all add: fips_H256_def fips_H224_def fips_H512_def fips_H384_def fips_H512_256_def first_primes_def)

section \<open>Recognising the constants\<close>

text \<open>
  A candidate for the root of \<open>p\<close>, of integer part \<open>q\<close> and first bits \<open>c\<close> after the point, is checked by
  two powers instead of being computed.
\<close>

fun is_root :: "nat \<Rightarrow> nat \<Rightarrow> nat \<Rightarrow> nat \<times> nat \<Rightarrow> bool" where
  "is_root k w p (q, c) \<longleftrightarrow>
     c < 2 ^ w \<and> q < 15 \<and> (q * 2 ^ w + c) ^ k \<le> p * 2 ^ (k * w) \<and> p * 2 ^ (k * w) < (q * 2 ^ w + c + 1) ^ k"

lemma root_bits_eq:
  assumes "is_root k w p (q, c)"
  shows "root_bits k w p = c"
proof -
  have "q * 2 ^ w + c < (q + 1) * 2 ^ w" using assms by simp
  also have "\<dots> \<le> 2 ^ 4 * 2 ^ w" using assms by (intro mult_right_mono) simp_all
  finally have "q * 2 ^ w + c < 2 ^ (w + 4)" by (simp add: power_add mult.commute)
  from iroot_eq[OF this, of k "p * 2 ^ (k * w)"] assms show ?thesis by (simp add: root_bits_def)
qed

lemma root_bits_list: "list_all2 (is_root k w) ps (zip qs cs) \<Longrightarrow> length qs = length cs \<Longrightarrow> map (root_bits k w) ps = cs"
proof (induction ps arbitrary: qs cs)
  case (Cons p ps)
  then obtain q qs' c cs' where "qs = q # qs'" "cs = c # cs'" by (cases qs; cases cs) auto
  then show ?case using Cons.prems Cons.IH[of qs' cs'] root_bits_eq[of k w p q c] by (simp del: is_root.simps)
qed (cases "zip qs cs"; auto)

lemma list_all2_split: "list_all2 P (take n xs) (take n ys) \<Longrightarrow> list_all2 P (drop n xs) (drop n ys) \<Longrightarrow> list_all2 P xs ys"
  by (metis append_take_drop_id list_all2_appendI)

lemma word_table_eq:
  assumes "map (root_bits k w) ps = map unat (cs :: 'a::len word list)"
  shows "map (\<lambda>p. of_nat (root_bits k w p)) ps = cs"
proof -
  have "map (\<lambda>p. of_nat (root_bits k w p)) ps = map (of_nat :: nat \<Rightarrow> 'a word) (map (root_bits k w) ps)" by simp
  then show ?thesis unfolding assms by (simp add: o_def)
qed

text \<open>The integer parts of the square roots of the first sixteen and of the cube roots of the first eighty.\<close>

definition sqrt_parts :: "nat list" where
  "sqrt_parts = [1, 1, 2, 2, 3, 3, 4, 4, 4, 5, 5, 6, 6, 6, 6, 7]"

definition cbrt_parts :: "nat list" where
  "cbrt_parts = concat
    [[1, 1, 1, 1],
     [2, 2, 2, 2, 2],
     [3, 3, 3, 3, 3, 3, 3, 3, 3],
     [4, 4, 4, 4, 4, 4, 4, 4, 4, 4, 4, 4],
     [5, 5, 5, 5, 5, 5, 5, 5, 5, 5, 5, 5, 5, 5, 5, 5, 5],
     [6, 6, 6, 6, 6, 6, 6, 6, 6, 6, 6, 6, 6, 6, 6, 6, 6, 6, 6, 6, 6],
     [7, 7, 7, 7, 7, 7, 7, 7, 7, 7, 7, 7]]"

end
