(* ===== verification/Sha256.thy ===== *)
theory Sha256
  imports Md32 Sha2 Fips_Constants
begin

text \<open>
  SHA-224 and SHA-256, \<^verbatim>\<open>BoringSSL-GRPC/src/crypto/fipsmodule/sha/sha256.c\<close> (the portable
  block function). The block function is translated statement by statement; it is shown
  to be the compression function of FIPS 180-4, and the streaming interface to compute
  the padded iteration of it.
\<close>

record SHA256_CTX = md32_ctx +
  md_len :: nat

text \<open>The rows are those of the table in the source file.\<close>

definition K256 :: "uint32 list" where
  "K256 = concat
     [[0x428a2f98, 0x71374491, 0xb5c0fbcf, 0xe9b5dba5, 0x3956c25b],
      [0x59f111f1, 0x923f82a4, 0xab1c5ed5, 0xd807aa98, 0x12835b01],
      [0x243185be, 0x550c7dc3, 0x72be5d74, 0x80deb1fe, 0x9bdc06a7],
      [0xc19bf174, 0xe49b69c1, 0xefbe4786, 0x0fc19dc6, 0x240ca1cc],
      [0x2de92c6f, 0x4a7484aa, 0x5cb0a9dc, 0x76f988da, 0x983e5152],
      [0xa831c66d, 0xb00327c8, 0xbf597fc7, 0xc6e00bf3, 0xd5a79147],
      [0x06ca6351, 0x14292967, 0x27b70a85, 0x2e1b2138, 0x4d2c6dfc],
      [0x53380d13, 0x650a7354, 0x766a0abb, 0x81c2c92e, 0x92722c85],
      [0xa2bfe8a1, 0xa81a664b, 0xc24b8b70, 0xc76c51a3, 0xd192e819],
      [0xd6990624, 0xf40e3585, 0x106aa070, 0x19a4c116, 0x1e376c08],
      [0x2748774c, 0x34b0bcb5, 0x391c0cb3, 0x4ed8aa4a, 0x5b9cca4f],
      [0x682e6ff3, 0x748f82ee, 0x78a5636f, 0x84c87814, 0x8cc70208],
      [0x90befffa, 0xa4506ceb, 0xbef9a3f7, 0xc67178f2]]"

definition Sigma0_256 :: "uint32 \<Rightarrow> uint32" where
  "Sigma0_256 x = CRYPTO_rotr_u32 x 2 XOR CRYPTO_rotr_u32 x 13 XOR CRYPTO_rotr_u32 x 22"

definition Sigma1_256 :: "uint32 \<Rightarrow> uint32" where
  "Sigma1_256 x = CRYPTO_rotr_u32 x 6 XOR CRYPTO_rotr_u32 x 11 XOR CRYPTO_rotr_u32 x 25"

definition sigma0_256 :: "uint32 \<Rightarrow> uint32" where
  "sigma0_256 x = CRYPTO_rotr_u32 x 7 XOR CRYPTO_rotr_u32 x 18 XOR drop_bit 3 x"

definition sigma1_256 :: "uint32 \<Rightarrow> uint32" where
  "sigma1_256 x = CRYPTO_rotr_u32 x 17 XOR CRYPTO_rotr_u32 x 19 XOR drop_bit 10 x"

definition P256 :: "uint32 sha2_params" where
  "P256 = \<lparr>pK = K256, pSigma0 = Sigma0_256, pSigma1 = Sigma1_256, psigma0 = sigma0_256, psigma1 = sigma1_256\<rparr>"

definition ROUND_16_63 ::
  "nat \<Rightarrow> reg8 \<Rightarrow> reg8 \<Rightarrow> reg8 \<Rightarrow> reg8 \<Rightarrow> reg8 \<Rightarrow> reg8 \<Rightarrow> reg8 \<Rightarrow> reg8 \<Rightarrow> uint32 sha2_vars \<Rightarrow> uint32 sha2_vars" where
  "ROUND_16_63 i = ROUND_16_up P256 i i"

text \<open>The first sixteen rounds, which read the block through the advancing \<open>data\<close> pointer.\<close>

definition sha256_rounds_00_15 :: "byte list \<Rightarrow> (uint32 sha2_vars \<Rightarrow> uint32 sha2_vars) list" where
  "sha256_rounds_00_15 inp =
     [STORE_X 0 (CRYPTO_load_u32_be inp), ROUND_00_15 P256 0 Va Vb Vc Vd Ve Vf Vg Vh,
      STORE_X 1 (CRYPTO_load_u32_be (drop 4 inp)), ROUND_00_15 P256 1 Vh Va Vb Vc Vd Ve Vf Vg,
      STORE_X 2 (CRYPTO_load_u32_be (drop 8 inp)), ROUND_00_15 P256 2 Vg Vh Va Vb Vc Vd Ve Vf,
      STORE_X 3 (CRYPTO_load_u32_be (drop 12 inp)), ROUND_00_15 P256 3 Vf Vg Vh Va Vb Vc Vd Ve,
      STORE_X 4 (CRYPTO_load_u32_be (drop 16 inp)), ROUND_00_15 P256 4 Ve Vf Vg Vh Va Vb Vc Vd,
      STORE_X 5 (CRYPTO_load_u32_be (drop 20 inp)), ROUND_00_15 P256 5 Vd Ve Vf Vg Vh Va Vb Vc,
      STORE_X 6 (CRYPTO_load_u32_be (drop 24 inp)), ROUND_00_15 P256 6 Vc Vd Ve Vf Vg Vh Va Vb,
      STORE_X 7 (CRYPTO_load_u32_be (drop 28 inp)), ROUND_00_15 P256 7 Vb Vc Vd Ve Vf Vg Vh Va,
      STORE_X 8 (CRYPTO_load_u32_be (drop 32 inp)), ROUND_00_15 P256 8 Va Vb Vc Vd Ve Vf Vg Vh,
      STORE_X 9 (CRYPTO_load_u32_be (drop 36 inp)), ROUND_00_15 P256 9 Vh Va Vb Vc Vd Ve Vf Vg,
      STORE_X 10 (CRYPTO_load_u32_be (drop 40 inp)), ROUND_00_15 P256 10 Vg Vh Va Vb Vc Vd Ve Vf,
      STORE_X 11 (CRYPTO_load_u32_be (drop 44 inp)), ROUND_00_15 P256 11 Vf Vg Vh Va Vb Vc Vd Ve,
      STORE_X 12 (CRYPTO_load_u32_be (drop 48 inp)), ROUND_00_15 P256 12 Ve Vf Vg Vh Va Vb Vc Vd,
      STORE_X 13 (CRYPTO_load_u32_be (drop 52 inp)), ROUND_00_15 P256 13 Vd Ve Vf Vg Vh Va Vb Vc,
      STORE_X 14 (CRYPTO_load_u32_be (drop 56 inp)), ROUND_00_15 P256 14 Vc Vd Ve Vf Vg Vh Va Vb,
      STORE_X 15 (CRYPTO_load_u32_be (drop 60 inp)), ROUND_00_15 P256 15 Vb Vc Vd Ve Vf Vg Vh Va]"

text \<open>The body of the loop \<open>for (i = 16; i < 64; i += 8)\<close>.\<close>

definition sha256_rounds_8 :: "nat \<Rightarrow> (uint32 sha2_vars \<Rightarrow> uint32 sha2_vars) list" where
  "sha256_rounds_8 i =
     [ROUND_16_63 (i + 0) Va Vb Vc Vd Ve Vf Vg Vh,
      ROUND_16_63 (i + 1) Vh Va Vb Vc Vd Ve Vf Vg,
      ROUND_16_63 (i + 2) Vg Vh Va Vb Vc Vd Ve Vf,
      ROUND_16_63 (i + 3) Vf Vg Vh Va Vb Vc Vd Ve,
      ROUND_16_63 (i + 4) Ve Vf Vg Vh Va Vb Vc Vd,
      ROUND_16_63 (i + 5) Vd Ve Vf Vg Vh Va Vb Vc,
      ROUND_16_63 (i + 6) Vc Vd Ve Vf Vg Vh Va Vb,
      ROUND_16_63 (i + 7) Vb Vc Vd Ve Vf Vg Vh Va]"

text \<open>One iteration of the loop over blocks. \<open>T1\<close> and \<open>X\<close> are stored to before they are read.\<close>

definition sha256_block :: "uint32 list \<Rightarrow> byte list \<Rightarrow> uint32 list" where
  "sha256_block state inp =
     (let s0 = \<lparr>R = (\<lambda>r. case r of Va \<Rightarrow> state ! 0 | Vb \<Rightarrow> state ! 1 | Vc \<Rightarrow> state ! 2 | Vd \<Rightarrow> state ! 3
                  | Ve \<Rightarrow> state ! 4 | Vf \<Rightarrow> state ! 5 | Vg \<Rightarrow> state ! 6 | Vh \<Rightarrow> state ! 7),
                T1 = 0, X = replicate 16 0\<rparr>;
          s1 = run (sha256_rounds_00_15 inp) s0;
          s2 = fold (\<lambda>i. run (sha256_rounds_8 i)) [16, 24, 32, 40, 48, 56] s1
      in [state ! 0 + R s2 Va, state ! 1 + R s2 Vb, state ! 2 + R s2 Vc, state ! 3 + R s2 Vd,
          state ! 4 + R s2 Ve, state ! 5 + R s2 Vf, state ! 6 + R s2 Vg, state ! 7 + R s2 Vh])"

primrec sha256_block_data_order :: "uint32 list \<Rightarrow> byte list \<Rightarrow> nat \<Rightarrow> uint32 list" where
  "sha256_block_data_order state inp 0 = state"
| "sha256_block_data_order state inp (Suc n) =
     sha256_block_data_order (sha256_block state (take 64 inp)) (drop 64 inp) n"

definition SHA256_Transform :: "SHA256_CTX \<Rightarrow> byte list \<Rightarrow> SHA256_CTX" where
  "SHA256_Transform c inp = c\<lparr>h := sha256_block_data_order (h c) inp 1\<rparr>"

definition SHA224_Init :: SHA256_CTX where
  "SHA224_Init =
     \<lparr>h = [0xc1059ed8, 0x367cd507, 0x3070dd17, 0xf70e5939, 0xffc00b31, 0x68581511, 0x64f98fa7, 0xbefa4fa4],
      Nl = 0, Nh = 0, data = replicate 64 0, num = 0, md_len = 28\<rparr>"

definition SHA256_Init :: SHA256_CTX where
  "SHA256_Init =
     \<lparr>h = [0x6a09e667, 0xbb67ae85, 0x3c6ef372, 0xa54ff53a, 0x510e527f, 0x9b05688c, 0x1f83d9ab, 0x5be0cd19],
      Nl = 0, Nh = 0, data = replicate 64 0, num = 0, md_len = 32\<rparr>"

definition SHA256_Update :: "SHA256_CTX \<Rightarrow> byte list \<Rightarrow> SHA256_CTX" where
  "SHA256_Update c inp = crypto_md32_update sha256_block_data_order 64 c inp"

definition SHA224_Update :: "SHA256_CTX \<Rightarrow> byte list \<Rightarrow> SHA256_CTX" where
  "SHA224_Update c inp = SHA256_Update c inp"

text \<open>\<open>None\<close> is the return value 0; the bytes are those stored to \<open>out\<close>.\<close>

definition sha256_final_impl :: "SHA256_CTX \<Rightarrow> byte list option \<times> SHA256_CTX" where
  "sha256_final_impl c0 =
     (let c = crypto_md32_final sha256_block_data_order 64 True c0 in
      if md_len c > 32 then (None, c)
      else (Some (concat (map (\<lambda>i. CRYPTO_store_u32_be (h c ! i)) [0..<md_len c div 4])), c))"

definition SHA256_Final :: "SHA256_CTX \<Rightarrow> byte list option \<times> SHA256_CTX" where
  "SHA256_Final c = sha256_final_impl c"

definition SHA224_Final :: "SHA256_CTX \<Rightarrow> byte list option \<times> SHA256_CTX" where
  "SHA224_Final c = sha256_final_impl c"

definition SHA224 :: "byte list \<Rightarrow> byte list option" where
  "SHA224 inp = fst (SHA224_Final (SHA224_Update SHA224_Init inp))"

definition SHA256 :: "byte list \<Rightarrow> byte list option" where
  "SHA256 inp = fst (SHA256_Final (SHA256_Update SHA256_Init inp))"

section \<open>The block function is the FIPS 180-4 compression\<close>

lemma sha256_rounds_00_15_eq:
  assumes "length bs = 64"
  shows "run (sha256_rounds_00_15 bs) s = fold (do_round P256 (be_words32 bs)) [0..<16] s"
proof -
  have l: "CRYPTO_load_u32_be (drop (4 * t) bs) = be_words32 bs ! t" if "t < 16" for t
    using that assms by (simp add: load_u32_be_eq be_words32_def)
  show ?thesis
    using l[of 0] l[of 1] l[of 2] l[of 3] l[of 4] l[of 5] l[of 6] l[of 7] l[of 8] l[of 9] l[of 10]
      l[of 11] l[of 12] l[of 13] l[of 14] l[of 15]
    by (simp add: sha256_rounds_00_15_def upt_0_16 do_round_def roles_def)
qed

lemma sha256_rounds_8_eq:
  assumes "16 \<le> i" "i mod 8 = 0"
  shows "run (sha256_rounds_8 i) s = fold (do_round P256 M) [i..<i + 8] s"
proof -
  have m: "(i + k) mod 8 = k mod 8" for k using assms(2) by (metis add_0 mod_add_left_eq)
  show ?thesis
    using assms m[of 1] m[of 2] m[of 3] m[of 4] m[of 5] m[of 6] m[of 7]
    by (simp add: upt_add_8 sha256_rounds_8_def do_round_def roles_def ROUND_16_63_def)
qed

lemma sha256_block_refines:
  assumes "length st = 8" and "length bs = 64"
  shows "sha256_block st bs = sha2_compress P256 64 (be_words32 bs) st"
proof -
  define s0 where "s0 = \<lparr>R = (\<lambda>r. case r of Va \<Rightarrow> st ! 0 | Vb \<Rightarrow> st ! 1 | Vc \<Rightarrow> st ! 2 | Vd \<Rightarrow> st ! 3
      | Ve \<Rightarrow> st ! 4 | Vf \<Rightarrow> st ! 5 | Vg \<Rightarrow> st ! 6 | Vh \<Rightarrow> st ! 7), T1 = 0, X = replicate 16 0\<rparr>"
  obtain v0 v1 v2 v3 v4 v5 v6 v7 where st: "st = [v0, v1, v2, v3, v4, v5, v6, v7]"
    using assms(1) by (auto simp: length_Suc_conv eval_nat_numeral)
  let ?f = "do_round P256 (be_words32 bs)"
  have split: "[0..<64] = [0..<16] @ [16..<16 + 8] @ [24..<24 + 8] @ [32..<32 + 8] @ [40..<40 + 8]
      @ [48..<48 + 8] @ [56..<56 + 8]"
    by code_simp
  define s2 where "s2 = fold (\<lambda>i. run (sha256_rounds_8 i)) [16, 24, 32, 40, 48, 56] (run (sha256_rounds_00_15 bs) s0)"
  have s2: "s2 = fold ?f [0..<64] s0"
    unfolding split s2_def using assms(2)
    by (simp add: sha256_rounds_00_15_eq sha256_rounds_8_eq[where M = "be_words32 bs"] del: upt_Suc)
  have "view 64 s2 = fold (\<lambda>t. sha2_step P256 (sha2_W P256 (be_words32 bs) t) t) [0..<64] (view 0 s0)"
    unfolding s2 by (rule rounds_simulate) (simp_all add: s0_def be_words32_def)
  moreover have "view 0 s0 = st" by (simp add: view_def roles_def s0_def st)
  moreover have "sha256_block st bs = map2 (+) st (view 64 s2)"
    unfolding sha256_block_def Let_def s0_def[symmetric] s2_def[symmetric]
    by (simp add: view_def roles_def st)
  ultimately show ?thesis by (simp add: sha2_compress_def)
qed

section \<open>Streaming\<close>

interpretation sha256: md32_digest sha256_block_data_order "\<lambda>bs st. sha256_block st bs"
proof unfold_locales
  fix k :: nat and bs :: "byte list" and st :: "uint32 list"
  assume "64 * k \<le> length bs"
  then show "sha256_block_data_order st bs k = fold (\<lambda>bs st. sha256_block st bs) (blocks 64 (take (64 * k) bs)) st"
    by (rule block_loop[rotated -1]) simp_all
qed

text \<open>SHA-256 as FIPS 180-4 states it, with its own constants and the rotations of the word library.\<close>

definition fips256 :: "uint32 sha2_params" where
  "fips256 = \<lparr>pK = fips_K256,
     pSigma0 = (\<lambda>x. word_rotr 2 x XOR word_rotr 13 x XOR word_rotr 22 x),
     pSigma1 = (\<lambda>x. word_rotr 6 x XOR word_rotr 11 x XOR word_rotr 25 x),
     psigma0 = (\<lambda>x. word_rotr 7 x XOR word_rotr 18 x XOR drop_bit 3 x),
     psigma1 = (\<lambda>x. word_rotr 17 x XOR word_rotr 19 x XOR drop_bit 10 x)\<rparr>"

definition sha256_spec :: "uint32 list \<Rightarrow> byte list \<Rightarrow> byte list" where
  "sha256_spec iv msg =
     concat (map (be_bytes 4) (md_spec (\<lambda>bs. sha2_compress fips256 64 (be_words32 bs)) True iv msg))"

lemma K256_fips: "K256 = fips_K256"
proof -
  have "list_all2 (is_root 3 32) (take 64 first_primes) (zip (take 64 cbrt_parts) (map unat K256))"
    by (simp add: K256_def first_primes_def cbrt_parts_def)
  from root_bits_list[OF this] have "map (root_bits 3 32) (take 64 first_primes) = map unat K256"
    by (simp add: K256_def cbrt_parts_def)
  from word_table_eq[OF this] show ?thesis by (simp add: fips_K256_def)
qed

lemma H256_fips: "h SHA256_Init = fips_H256"
proof -
  have "list_all2 (is_root 2 32) (take 8 first_primes) (zip (take 8 sqrt_parts) (map unat (h SHA256_Init)))"
    by (simp add: SHA256_Init_def first_primes_def sqrt_parts_def)
  from root_bits_list[OF this] have "map (root_bits 2 32) (take 8 first_primes) = map unat (h SHA256_Init)"
    by (simp add: SHA256_Init_def sqrt_parts_def)
  from word_table_eq[OF this] show ?thesis by (simp add: fips_H256_def)
qed

lemma H224_fips: "h SHA224_Init = fips_H224"
proof -
  have "list_all2 (is_root 2 64) (take 8 (drop 8 first_primes)) (zip (drop 8 sqrt_parts)
    [0xcbbb9d5dc1059ed8, 0x629a292a367cd507, 0x9159015a3070dd17, 0x152fecd8f70e5939,
     0x67332667ffc00b31, 0x8eb44a8768581511, 0xdb0c2e0d64f98fa7, 0x47b5481dbefa4fa4])"
    by (simp add: first_primes_def sqrt_parts_def)
  from root_bits_list[OF this]
  have "map (root_bits 2 64) (take 8 (drop 8 first_primes)) =
    [0xcbbb9d5dc1059ed8, 0x629a292a367cd507, 0x9159015a3070dd17, 0x152fecd8f70e5939,
     0x67332667ffc00b31, 0x8eb44a8768581511, 0xdb0c2e0d64f98fa7, 0x47b5481dbefa4fa4]"
    by (simp add: sqrt_parts_def)
  from arg_cong[OF this, of "map (\<lambda>r. of_nat (r mod 2 ^ 32) :: uint32)"] show ?thesis
    by (simp add: fips_H224_def SHA224_Init_def o_def)
qed

lemma P256_fips: "P256 = fips256"
  unfolding P256_def fips256_def K256_fips
  by (simp add: Sigma0_256_def Sigma1_256_def sigma0_256_def sigma1_256_def rotr_u32_eq fun_eq_iff)

lemma length_sha256_block [simp]: "length (sha256_block st bs) = 8"
  by (simp add: sha256_block_def Let_def)

lemma sha256_block_fips:
  assumes "length bs = 64" and "length st = 8"
  shows "sha256_block st bs = sha2_compress fips256 64 (be_words32 bs) st \<and>
    length (sha2_compress fips256 64 (be_words32 bs) st) = 8"
  using sha256_block_refines[OF assms(2,1)] length_sha256_block[of st bs] unfolding P256_fips by simp

lemma md_spec_sha256:
  assumes "length iv = 8"
  shows "md_spec (\<lambda>bs st. sha256_block st bs) be iv msg =
      md_spec (\<lambda>bs. sha2_compress fips256 64 (be_words32 bs)) be iv msg"
    and "length (md_spec (\<lambda>bs. sha2_compress fips256 64 (be_words32 bs)) be iv msg) = 8"
  unfolding md_spec_def
  by (rule fold_blocks_cong[where P = "\<lambda>st. length st = 8"], erule (1) sha256_block_fips, rule assms)+

lemma md_len_md32 [simp]:
  "md_len (crypto_md32_update bf n c inp) = md_len c" "md_len (crypto_md32_final bf n be c) = md_len c"
  by (simp_all add: crypto_md32_update_def crypto_md32_final_def md32_blocks_and_rest_def Let_def split: prod.split)

lemma sha256_md_len_fold [simp]: "md_len (fold (\<lambda>xs c. crypto_md32_update bf n c xs) xss c) = md_len c"
  by (induction xss arbitrary: c) simp_all

lemma store_words: "length ws = n \<Longrightarrow> map (\<lambda>i. CRYPTO_store_u32_be (ws ! i)) [0..<n] = map (be_bytes 4) ws"
  by (rule nth_equalityI) (simp_all add: store_u32_be_eq)

lemma take_stored_words:
  "take (4 * n) (concat (map (be_bytes 4) ws)) = concat (map (be_bytes 4) (take n (ws :: uint32 list)))"
proof (induction ws arbitrary: n)
  case (Cons w ws)
  then show ?case by (cases n) simp_all
qed simp

lemma sha256_final_fold:
  assumes "md32_inv 64 c" "num c = 0" "md32_bits c = 0" "length (h c) = 8" "md_len c \<le> 32"
  shows "fst (sha256_final_impl (fold (\<lambda>xs c. SHA256_Update c xs) xss c)) =
    Some (take (4 * (md_len c div 4)) (sha256_spec (h c) (concat xss)))"
proof -
  let ?ws = "md_spec (\<lambda>bs. sha2_compress fips256 64 (be_words32 bs)) True (h c) (concat xss)"
  have d: "h (crypto_md32_final sha256_block_data_order 64 True
      (fold (\<lambda>xs c. SHA256_Update c xs) xss c)) = ?ws"
    unfolding SHA256_Update_def using sha256.digest_eq_spec[OF assms(1-3)] md_spec_sha256(1)[OF assms(4)] by simp
  have "map (\<lambda>i. CRYPTO_store_u32_be (?ws ! i)) [0..<md_len c div 4] = map (be_bytes 4) (take (md_len c div 4) ?ws)"
    using assms(5) md_spec_sha256(2)[OF assms(4), of True "concat xss"]
    by (subst store_words[symmetric, of _ "md_len c div 4"]) (auto intro!: map_cong)
  then show ?thesis
    using assms(5) d by (simp add: sha256_final_impl_def Let_def sha256_spec_def take_stored_words)
       (simp add: SHA256_Update_def)
qed

text \<open>
  C4. For every sequence of updates after \<open>SHA256_Init\<close>, whatever the lengths of the
  pieces, \<open>SHA256_Final\<close> delivers the SHA-256 digest of FIPS 180-4 of the concatenated
  input, and the one-shot \<open>SHA256\<close> does too; after \<open>SHA224_Init\<close> the digest is that of
  SHA-224, the first 28 bytes of the iteration from its own initial value.
\<close>

theorem sha256_digest_correct:
  "fst (SHA256_Final (fold (\<lambda>xs c. SHA256_Update c xs) xss SHA256_Init)) =
     Some (sha256_spec fips_H256 (concat xss)) \<and>
   SHA256 msg = Some (sha256_spec fips_H256 msg) \<and>
   fst (SHA224_Final (fold (\<lambda>xs c. SHA224_Update c xs) xss SHA224_Init)) =
     Some (take 28 (sha256_spec fips_H224 (concat xss))) \<and>
   SHA224 msg = Some (take 28 (sha256_spec fips_H224 msg))"
proof -
  have i: "md32_inv 64 SHA256_Init" "num SHA256_Init = 0" "md32_bits SHA256_Init = 0"
      "length (h SHA256_Init) = 8" "md_len SHA256_Init = 32"
    and j: "md32_inv 64 SHA224_Init" "num SHA224_Init = 0" "md32_bits SHA224_Init = 0"
      "length (h SHA224_Init) = 8" "md_len SHA224_Init = 28"
    by (simp_all add: SHA256_Init_def SHA224_Init_def md32_inv_def md32_bits_def)
  have "length (sha256_spec fips_H256 m) = 32" for m
    using md_spec_sha256(2)[OF i(4), of True m] unfolding H256_fips
    by (simp add: sha256_spec_def length_concat o_def sum_list_triv)
  then show ?thesis
    using sha256_final_fold[OF i(1-4), of xss] sha256_final_fold[OF i(1-4), of "[msg]"]
      sha256_final_fold[OF j(1-4), of xss] sha256_final_fold[OF j(1-4), of "[msg]"] i(5) j(5)
    by (simp add: H256_fips H224_fips SHA256_Final_def SHA224_Final_def SHA224_Update_def SHA256_def SHA224_def)
qed

end
