(* ===== verification/Sha512.thy ===== *)
theory Sha512
  imports Sha2 Fips_Constants
begin

text \<open>
  SHA-384, SHA-512 and SHA-512/256,
  \<^verbatim>\<open>BoringSSL-GRPC/src/crypto/fipsmodule/sha/sha512.c\<close>, with its own collector (128-byte
  blocks and a 128-bit length in two halves) and both portable block functions: the
  unrolled one and the one for 32-bit x86, which keeps the working variables and the
  message schedule in one descending array.
\<close>

record SHA512_CTX =
  h :: "uint64 list"
  Nl :: uint64
  Nh :: uint64
  p :: "byte list"
  num :: nat
  md_len :: nat

text \<open>The rows are those of the table in the source file.\<close>

definition K512 :: "uint64 list" where
  "K512 = concat
     [[0x428a2f98d728ae22, 0x7137449123ef65cd],
      [0xb5c0fbcfec4d3b2f, 0xe9b5dba58189dbbc],
      [0x3956c25bf348b538, 0x59f111f1b605d019],
      [0x923f82a4af194f9b, 0xab1c5ed5da6d8118],
      [0xd807aa98a3030242, 0x12835b0145706fbe],
      [0x243185be4ee4b28c, 0x550c7dc3d5ffb4e2],
      [0x72be5d74f27b896f, 0x80deb1fe3b1696b1],
      [0x9bdc06a725c71235, 0xc19bf174cf692694],
      [0xe49b69c19ef14ad2, 0xefbe4786384f25e3],
      [0x0fc19dc68b8cd5b5, 0x240ca1cc77ac9c65],
      [0x2de92c6f592b0275, 0x4a7484aa6ea6e483],
      [0x5cb0a9dcbd41fbd4, 0x76f988da831153b5],
      [0x983e5152ee66dfab, 0xa831c66d2db43210],
      [0xb00327c898fb213f, 0xbf597fc7beef0ee4],
      [0xc6e00bf33da88fc2, 0xd5a79147930aa725],
      [0x06ca6351e003826f, 0x142929670a0e6e70],
      [0x27b70a8546d22ffc, 0x2e1b21385c26c926],
      [0x4d2c6dfc5ac42aed, 0x53380d139d95b3df],
      [0x650a73548baf63de, 0x766a0abb3c77b2a8],
      [0x81c2c92e47edaee6, 0x92722c851482353b],
      [0xa2bfe8a14cf10364, 0xa81a664bbc423001],
      [0xc24b8b70d0f89791, 0xc76c51a30654be30],
      [0xd192e819d6ef5218, 0xd69906245565a910],
      [0xf40e35855771202a, 0x106aa07032bbd1b8],
      [0x19a4c116b8d2d0c8, 0x1e376c085141ab53],
      [0x2748774cdf8eeb99, 0x34b0bcb5e19b48a8],
      [0x391c0cb3c5c95a63, 0x4ed8aa4ae3418acb],
      [0x5b9cca4f7763e373, 0x682e6ff3d6b2b8a3],
      [0x748f82ee5defb2fc, 0x78a5636f43172f60],
      [0x84c87814a1f0ab72, 0x8cc702081a6439ec],
      [0x90befffa23631e28, 0xa4506cebde82bde9],
      [0xbef9a3f7b2c67915, 0xc67178f2e372532b],
      [0xca273eceea26619c, 0xd186b8c721c0c207],
      [0xeada7dd6cde0eb1e, 0xf57d4f7fee6ed178],
      [0x06f067aa72176fba, 0x0a637dc5a2c898a6],
      [0x113f9804bef90dae, 0x1b710b35131c471b],
      [0x28db77f523047d84, 0x32caab7b40c72493],
      [0x3c9ebe0a15c9bebc, 0x431d67c49c100d4c],
      [0x4cc5d4becb3e42b6, 0x597f299cfc657e2a],
      [0x5fcb6fab3ad6faec, 0x6c44198c4a475817]]"

definition Sigma0_512 :: "uint64 \<Rightarrow> uint64" where
  "Sigma0_512 x = CRYPTO_rotr_u64 x 28 XOR CRYPTO_rotr_u64 x 34 XOR CRYPTO_rotr_u64 x 39"

definition Sigma1_512 :: "uint64 \<Rightarrow> uint64" where
  "Sigma1_512 x = CRYPTO_rotr_u64 x 14 XOR CRYPTO_rotr_u64 x 18 XOR CRYPTO_rotr_u64 x 41"

definition sigma0_512 :: "uint64 \<Rightarrow> uint64" where
  "sigma0_512 x = CRYPTO_rotr_u64 x 1 XOR CRYPTO_rotr_u64 x 8 XOR drop_bit 7 x"

definition sigma1_512 :: "uint64 \<Rightarrow> uint64" where
  "sigma1_512 x = CRYPTO_rotr_u64 x 19 XOR CRYPTO_rotr_u64 x 61 XOR drop_bit 6 x"

definition P512 :: "uint64 sha2_params" where
  "P512 = \<lparr>pK = K512, pSigma0 = Sigma0_512, pSigma1 = Sigma1_512, psigma0 = sigma0_512, psigma1 = sigma1_512\<rparr>"

section \<open>The unrolled block function\<close>

definition ROUND_16_80 ::
  "nat \<Rightarrow> nat \<Rightarrow> reg8 \<Rightarrow> reg8 \<Rightarrow> reg8 \<Rightarrow> reg8 \<Rightarrow> reg8 \<Rightarrow> reg8 \<Rightarrow> reg8 \<Rightarrow> reg8 \<Rightarrow> uint64 sha2_vars \<Rightarrow> uint64 sha2_vars" where
  "ROUND_16_80 i j = ROUND_16_up P512 (i + j) j"

definition sha512_rounds_00_15 :: "byte list \<Rightarrow> (uint64 sha2_vars \<Rightarrow> uint64 sha2_vars) list" where
  "sha512_rounds_00_15 inp =
     [STORE_X 0 (CRYPTO_load_u64_be inp), ROUND_00_15 P512 0 Va Vb Vc Vd Ve Vf Vg Vh,
      STORE_X 1 (CRYPTO_load_u64_be (drop 8 inp)), ROUND_00_15 P512 1 Vh Va Vb Vc Vd Ve Vf Vg,
      STORE_X 2 (CRYPTO_load_u64_be (drop (2 * 8) inp)), ROUND_00_15 P512 2 Vg Vh Va Vb Vc Vd Ve Vf,
      STORE_X 3 (CRYPTO_load_u64_be (drop (3 * 8) inp)), ROUND_00_15 P512 3 Vf Vg Vh Va Vb Vc Vd Ve,
      STORE_X 4 (CRYPTO_load_u64_be (drop (4 * 8) inp)), ROUND_00_15 P512 4 Ve Vf Vg Vh Va Vb Vc Vd,
      STORE_X 5 (CRYPTO_load_u64_be (drop (5 * 8) inp)), ROUND_00_15 P512 5 Vd Ve Vf Vg Vh Va Vb Vc,
      STORE_X 6 (CRYPTO_load_u64_be (drop (6 * 8) inp)), ROUND_00_15 P512 6 Vc Vd Ve Vf Vg Vh Va Vb,
      STORE_X 7 (CRYPTO_load_u64_be (drop (7 * 8) inp)), ROUND_00_15 P512 7 Vb Vc Vd Ve Vf Vg Vh Va,
      STORE_X 8 (CRYPTO_load_u64_be (drop (8 * 8) inp)), ROUND_00_15 P512 8 Va Vb Vc Vd Ve Vf Vg Vh,
      STORE_X 9 (CRYPTO_load_u64_be (drop (9 * 8) inp)), ROUND_00_15 P512 9 Vh Va Vb Vc Vd Ve Vf Vg,
      STORE_X 10 (CRYPTO_load_u64_be (drop (10 * 8) inp)), ROUND_00_15 P512 10 Vg Vh Va Vb Vc Vd Ve Vf,
      STORE_X 11 (CRYPTO_load_u64_be (drop (11 * 8) inp)), ROUND_00_15 P512 11 Vf Vg Vh Va Vb Vc Vd Ve,
      STORE_X 12 (CRYPTO_load_u64_be (drop (12 * 8) inp)), ROUND_00_15 P512 12 Ve Vf Vg Vh Va Vb Vc Vd,
      STORE_X 13 (CRYPTO_load_u64_be (drop (13 * 8) inp)), ROUND_00_15 P512 13 Vd Ve Vf Vg Vh Va Vb Vc,
      STORE_X 14 (CRYPTO_load_u64_be (drop (14 * 8) inp)), ROUND_00_15 P512 14 Vc Vd Ve Vf Vg Vh Va Vb,
      STORE_X 15 (CRYPTO_load_u64_be (drop (15 * 8) inp)), ROUND_00_15 P512 15 Vb Vc Vd Ve Vf Vg Vh Va]"

text \<open>The body of the loop \<open>for (i = 16; i < 80; i += 16)\<close>.\<close>

definition sha512_rounds_16 :: "nat \<Rightarrow> (uint64 sha2_vars \<Rightarrow> uint64 sha2_vars) list" where
  "sha512_rounds_16 i =
     [ROUND_16_80 i 0 Va Vb Vc Vd Ve Vf Vg Vh,
      ROUND_16_80 i 1 Vh Va Vb Vc Vd Ve Vf Vg,
      ROUND_16_80 i 2 Vg Vh Va Vb Vc Vd Ve Vf,
      ROUND_16_80 i 3 Vf Vg Vh Va Vb Vc Vd Ve,
      ROUND_16_80 i 4 Ve Vf Vg Vh Va Vb Vc Vd,
      ROUND_16_80 i 5 Vd Ve Vf Vg Vh Va Vb Vc,
      ROUND_16_80 i 6 Vc Vd Ve Vf Vg Vh Va Vb,
      ROUND_16_80 i 7 Vb Vc Vd Ve Vf Vg Vh Va,
      ROUND_16_80 i 8 Va Vb Vc Vd Ve Vf Vg Vh,
      ROUND_16_80 i 9 Vh Va Vb Vc Vd Ve Vf Vg,
      ROUND_16_80 i 10 Vg Vh Va Vb Vc Vd Ve Vf,
      ROUND_16_80 i 11 Vf Vg Vh Va Vb Vc Vd Ve,
      ROUND_16_80 i 12 Ve Vf Vg Vh Va Vb Vc Vd,
      ROUND_16_80 i 13 Vd Ve Vf Vg Vh Va Vb Vc,
      ROUND_16_80 i 14 Vc Vd Ve Vf Vg Vh Va Vb,
      ROUND_16_80 i 15 Vb Vc Vd Ve Vf Vg Vh Va]"

definition sha512_block :: "uint64 list \<Rightarrow> byte list \<Rightarrow> uint64 list" where
  "sha512_block state inp =
     (let s0 = \<lparr>R = (\<lambda>r. case r of Va \<Rightarrow> state ! 0 | Vb \<Rightarrow> state ! 1 | Vc \<Rightarrow> state ! 2 | Vd \<Rightarrow> state ! 3
                  | Ve \<Rightarrow> state ! 4 | Vf \<Rightarrow> state ! 5 | Vg \<Rightarrow> state ! 6 | Vh \<Rightarrow> state ! 7),
                T1 = 0, X = replicate 16 0\<rparr>;
          s1 = run (sha512_rounds_00_15 inp) s0;
          s2 = fold (\<lambda>i. run (sha512_rounds_16 i)) [16, 32, 48, 64] s1
      in [state ! 0 + R s2 Va, state ! 1 + R s2 Vb, state ! 2 + R s2 Vc, state ! 3 + R s2 Vd,
          state ! 4 + R s2 Ve, state ! 5 + R s2 Vf, state ! 6 + R s2 Vg, state ! 7 + R s2 Vh])"

primrec sha512_block_data_order :: "uint64 list \<Rightarrow> byte list \<Rightarrow> nat \<Rightarrow> uint64 list" where
  "sha512_block_data_order state inp 0 = state"
| "sha512_block_data_order state inp (Suc n) =
     sha512_block_data_order (sha512_block state (take 128 inp)) (drop 128 inp) n"

section \<open>The block function for 32-bit x86\<close>

record x86_vars =
  vA :: uint64
  vE :: uint64
  vX :: "uint64 list"
  vF :: nat

text \<open>The common end of both loops: from \<open>F[0] = A\<close> to \<open>F--\<close>.\<close>

definition x86_round :: "nat \<Rightarrow> uint64 \<Rightarrow> x86_vars \<Rightarrow> x86_vars" where
  "x86_round i T s =
     (let F = vF s;
          X = (vX s)[F := vA s, F + 4 := vE s, F + 8 := T];
          T' = T + (X ! (F + 7) + Sigma1_512 (vE s) + Ch (vE s) (X ! (F + 5)) (X ! (F + 6)) + K512 ! i)
      in s\<lparr>vX := X, vE := X ! (F + 3) + T',
           vA := T' + Sigma0_512 (vA s) + Maj (vA s) (X ! (F + 1)) (X ! (F + 2)), vF := F - 1\<rparr>)"

definition x86_round_load :: "byte list \<Rightarrow> nat \<Rightarrow> x86_vars \<Rightarrow> x86_vars" where
  "x86_round_load inp i s = x86_round i (CRYPTO_load_u64_be (drop (i * 8) inp)) s"

definition x86_round_schedule :: "nat \<Rightarrow> x86_vars \<Rightarrow> x86_vars" where
  "x86_round_schedule i s =
     (let F = vF s; X = vX s;
          T = sigma0_512 (X ! (F + (8 + 16 - 1)));
          T = T + sigma1_512 (X ! (F + (8 + 16 - 14)));
          T = T + (X ! (F + (8 + 16)) + X ! (F + (8 + 16 - 9)))
      in x86_round i T s)"

definition sha512_block_x86 :: "uint64 list \<Rightarrow> byte list \<Rightarrow> uint64 list" where
  "sha512_block_x86 state inp =
     (let s0 = \<lparr>vA = state ! 0, vE = state ! 4,
                vX = (replicate 89 0)[81 := state ! 1, 82 := state ! 2, 83 := state ! 3,
                       85 := state ! 5, 86 := state ! 6, 87 := state ! 7],
                vF = 80\<rparr>;
          s1 = fold (x86_round_load inp) [0..<16] s0;
          s2 = fold x86_round_schedule [16..<80] s1;
          F = vF s2; X = vX s2
      in [state ! 0 + vA s2, state ! 1 + X ! (F + 1), state ! 2 + X ! (F + 2), state ! 3 + X ! (F + 3),
          state ! 4 + vE s2, state ! 5 + X ! (F + 5), state ! 6 + X ! (F + 6), state ! 7 + X ! (F + 7)])"

primrec sha512_block_data_order_x86 :: "uint64 list \<Rightarrow> byte list \<Rightarrow> nat \<Rightarrow> uint64 list" where
  "sha512_block_data_order_x86 state inp 0 = state"
| "sha512_block_data_order_x86 state inp (Suc n) =
     sha512_block_data_order_x86 (sha512_block_x86 state (take 128 inp)) (drop 128 inp) n"

section \<open>The streaming interface\<close>

text \<open>The initialisers leave the buffer \<open>p\<close> as it is.\<close>

definition SHA384_Init :: "SHA512_CTX \<Rightarrow> SHA512_CTX" where
  "SHA384_Init sha = sha\<lparr>
     h := [0xcbbb9d5dc1059ed8, 0x629a292a367cd507, 0x9159015a3070dd17, 0x152fecd8f70e5939,
         0x67332667ffc00b31, 0x8eb44a8768581511, 0xdb0c2e0d64f98fa7, 0x47b5481dbefa4fa4],
     Nl := 0, Nh := 0, num := 0, md_len := 48\<rparr>"

definition SHA512_Init :: "SHA512_CTX \<Rightarrow> SHA512_CTX" where
  "SHA512_Init sha = sha\<lparr>
     h := [0x6a09e667f3bcc908, 0xbb67ae8584caa73b, 0x3c6ef372fe94f82b, 0xa54ff53a5f1d36f1,
         0x510e527fade682d1, 0x9b05688c2b3e6c1f, 0x1f83d9abfb41bd6b, 0x5be0cd19137e2179],
     Nl := 0, Nh := 0, num := 0, md_len := 64\<rparr>"

definition SHA512_256_Init :: "SHA512_CTX \<Rightarrow> SHA512_CTX" where
  "SHA512_256_Init sha = sha\<lparr>
     h := [0x22312194fc2bf72c, 0x9f555fa3c84c64c2, 0x2393b86b6f53b151, 0x963877195940eabd,
         0x96283ee2a88effe3, 0xbe5e1e2553863992, 0x2b0199fc2c85b8aa, 0x0eb72ddc81c52ca2],
     Nl := 0, Nh := 0, num := 0, md_len := 32\<rparr>"

definition SHA512_Transform :: "SHA512_CTX \<Rightarrow> byte list \<Rightarrow> SHA512_CTX" where
  "SHA512_Transform c inp = c\<lparr>h := sha512_block_data_order (h c) inp 1\<rparr>"

text \<open>The part of \<open>SHA512_Update\<close> after the buffer has been completed.\<close>

definition sha512_blocks_and_rest :: "SHA512_CTX \<Rightarrow> byte list \<Rightarrow> SHA512_CTX" where
  "sha512_blocks_and_rest c inp =
     (let c' = (if length inp \<ge> 128
                then c\<lparr>h := sha512_block_data_order (h c) inp (length inp div 128)\<rparr> else c);
          inp' = (if length inp \<ge> 128 then drop (length inp - length inp mod 128) inp else inp)
      in if length inp' \<noteq> 0 then c'\<lparr>p := memcpy_at (p c') 0 inp', num := length inp'\<rparr> else c')"

definition SHA512_Update :: "SHA512_CTX \<Rightarrow> byte list \<Rightarrow> SHA512_CTX" where
  "SHA512_Update c0 inp =
     (let len = length inp in
      if len = 0 then c0
      else
        let l = Nl c0 + push_bit 3 (of_nat len);
            Nh1 = (if l < Nl c0 then Nh c0 + 1 else Nh c0);
            c = c0\<lparr>Nh := Nh1 + drop_bit 61 (of_nat len), Nl := l\<rparr>
        in if num c \<noteq> 0 then
             let n = 128 - num c in
             if len < n then c\<lparr>p := memcpy_at (p c) (num c) inp, num := num c + len\<rparr>
             else
               let p' = memcpy_at (p c) (num c) (take n inp)
               in sha512_blocks_and_rest (c\<lparr>p := p', num := 0, h := sha512_block_data_order (h c) p' 1\<rparr>)
                    (drop n inp)
           else sha512_blocks_and_rest c inp)"

definition SHA384_Update :: "SHA512_CTX \<Rightarrow> byte list \<Rightarrow> SHA512_CTX" where
  "SHA384_Update c inp = SHA512_Update c inp"

definition SHA512_256_Update :: "SHA512_CTX \<Rightarrow> byte list \<Rightarrow> SHA512_CTX" where
  "SHA512_256_Update c inp = SHA512_Update c inp"

text \<open>The call with a non-null \<open>out\<close>; the bytes are those stored to it.\<close>

definition sha512_final_impl :: "SHA512_CTX \<Rightarrow> byte list \<times> SHA512_CTX" where
  "sha512_final_impl sha =
     (let p1 = memcpy_at (p sha) (num sha) [0x80];
          n = num sha + 1;
          (p2, n2, h2) =
            (if n > 128 - 16
             then let q = memcpy_at p1 n (replicate (128 - n) 0) in (q, 0, sha512_block_data_order (h sha) q 1)
             else (p1, n, h sha));
          p3 = memcpy_at p2 n2 (replicate (128 - 16 - n2) 0);
          p4 = memcpy_at p3 (128 - 16) (CRYPTO_store_u64_be (Nh sha));
          p5 = memcpy_at p4 (128 - 8) (CRYPTO_store_u64_be (Nl sha));
          h' = sha512_block_data_order h2 p5 1
      in (concat (map (\<lambda>i. CRYPTO_store_u64_be (h' ! i)) [0..<md_len sha div 8]), sha\<lparr>p := p5, h := h'\<rparr>))"

definition SHA512_Final :: "SHA512_CTX \<Rightarrow> byte list \<times> SHA512_CTX" where
  "SHA512_Final sha = sha512_final_impl sha"

definition SHA384_Final :: "SHA512_CTX \<Rightarrow> byte list \<times> SHA512_CTX" where
  "SHA384_Final sha = sha512_final_impl sha"

definition SHA512_256_Final :: "SHA512_CTX \<Rightarrow> byte list \<times> SHA512_CTX" where
  "SHA512_256_Final sha = sha512_final_impl sha"

text \<open>The one-shot functions work in a context whose buffer is uninitialised.\<close>

definition SHA384 :: "SHA512_CTX \<Rightarrow> byte list \<Rightarrow> byte list" where
  "SHA384 ctx inp = fst (SHA384_Final (SHA384_Update (SHA384_Init ctx) inp))"

definition SHA512 :: "SHA512_CTX \<Rightarrow> byte list \<Rightarrow> byte list" where
  "SHA512 ctx inp = fst (SHA512_Final (SHA512_Update (SHA512_Init ctx) inp))"

definition SHA512_256 :: "SHA512_CTX \<Rightarrow> byte list \<Rightarrow> byte list" where
  "SHA512_256 ctx inp = fst (SHA512_256_Final (SHA512_256_Update (SHA512_256_Init ctx) inp))"

section \<open>Both block functions are the FIPS 180-4 compression\<close>

definition be_words64 :: "byte list \<Rightarrow> uint64 list" where
  "be_words64 bs = map (\<lambda>t. be_word (take 8 (drop (8 * t) bs))) [0..<16]"

lemma load_word64:
  "length bs = 128 \<Longrightarrow> t < 16 \<Longrightarrow> CRYPTO_load_u64_be (drop (8 * t) bs) = be_words64 bs ! t"
  by (simp add: load_u64_be_eq be_words64_def)

lemma sha512_rounds_00_15_eq:
  assumes "length bs = 128"
  shows "run (sha512_rounds_00_15 bs) s = fold (do_round P512 (be_words64 bs)) [0..<16] s"
proof -
  note l = load_word64[OF assms]
  show ?thesis
    using l[of 0] l[of 1] l[of 2] l[of 3] l[of 4] l[of 5] l[of 6] l[of 7] l[of 8] l[of 9] l[of 10]
      l[of 11] l[of 12] l[of 13] l[of 14] l[of 15]
    by (simp add: sha512_rounds_00_15_def upt_0_16 do_round_def roles_def)
qed

lemma ROUND_16_up_mod: "i mod 16 = 0 \<Longrightarrow> ROUND_16_up P t (i + j) = ROUND_16_up P t j"
proof (intro ext)
  fix a b c d e f g v s
  assume "i mod 16 = 0"
  then have m: "(i + k) mod 16 = k mod 16" for k by (metis add_0 mod_add_left_eq)
  show "ROUND_16_up P t (i + j) a b c d e f g v s = ROUND_16_up P t j a b c d e f g v s"
    using m[of j] m[of "j + 1"] m[of "j + 14"] m[of "j + 9"]
    by (simp only: ROUND_16_up_def and_0f add.assoc)
qed

lemma upt_add_16: "[i..<i + 16] = map (\<lambda>j. i + j) [0..<16]"
  by (simp add: map_add_upt add.commute)

lemma sha512_rounds_16_eq:
  assumes "16 \<le> i" "i mod 16 = 0"
  shows "run (sha512_rounds_16 i) s = fold (do_round P512 M) [i..<i + 16] s"
proof -
  have m: "(i + k) mod 8 = k mod 8" for k
  proof -
    have "i mod 8 = 0" using assms(2) by presburger
    then show ?thesis by (metis add_0 mod_add_left_eq)
  qed
  have r: "do_round P512 M (i + j) = with_roles (ROUND_16_80 i j) (roles j)" for j
  proof -
    have "roles (i + j) = roles j" by (simp add: roles_def m)
    then show ?thesis
      using assms by (simp add: fun_eq_iff do_round_def ROUND_16_80_def ROUND_16_up_mod)
  qed
  show ?thesis
    unfolding upt_add_16 fold_map o_def r
    by (simp add: upt_0_16 sha512_rounds_16_def roles_def)
qed

lemma sha512_block_refines:
  assumes "length st = 8" and "length bs = 128"
  shows "sha512_block st bs = sha2_compress P512 80 (be_words64 bs) st"
proof -
  define s0 where "s0 = \<lparr>R = (\<lambda>r. case r of Va \<Rightarrow> st ! 0 | Vb \<Rightarrow> st ! 1 | Vc \<Rightarrow> st ! 2 | Vd \<Rightarrow> st ! 3
      | Ve \<Rightarrow> st ! 4 | Vf \<Rightarrow> st ! 5 | Vg \<Rightarrow> st ! 6 | Vh \<Rightarrow> st ! 7), T1 = 0, X = replicate 16 0\<rparr>"
  obtain v0 v1 v2 v3 v4 v5 v6 v7 where st: "st = [v0, v1, v2, v3, v4, v5, v6, v7]"
    using assms(1) by (auto simp: length_Suc_conv eval_nat_numeral)
  let ?f = "do_round P512 (be_words64 bs)"
  have split: "[0..<80] = [0..<16] @ [16..<16 + 16] @ [32..<32 + 16] @ [48..<48 + 16] @ [64..<64 + 16]"
    by code_simp
  define s2 where "s2 = fold (\<lambda>i. run (sha512_rounds_16 i)) [16, 32, 48, 64] (run (sha512_rounds_00_15 bs) s0)"
  have s2: "s2 = fold ?f [0..<80] s0"
    unfolding split s2_def using assms(2)
    by (simp add: sha512_rounds_00_15_eq sha512_rounds_16_eq[where M = "be_words64 bs"] del: upt_Suc)
  have "view 80 s2 = fold (\<lambda>t. sha2_step P512 (sha2_W P512 (be_words64 bs) t) t) [0..<80] (view 0 s0)"
    unfolding s2 by (rule rounds_simulate) (simp_all add: s0_def be_words64_def)
  moreover have "view 0 s0 = st" by (simp add: view_def roles_def s0_def st)
  moreover have "sha512_block st bs = map2 (+) st (view 80 s2)"
    unfolding sha512_block_def Let_def s0_def[symmetric] s2_def[symmetric]
    by (simp add: view_def roles_def st)
  ultimately show ?thesis by (simp add: sha2_compress_def)
qed

text \<open>
  The descending array: after \<open>i\<close> rounds \<open>F\<close> is \<open>80 - i\<close>, the six stored working
  variables sit above it and schedule word \<open>j\<close> is at \<open>88 - j\<close>.
\<close>

definition x86_view :: "x86_vars \<Rightarrow> uint64 list" where
  "x86_view s = (let F = vF s; X = vX s in
     [vA s, X ! (F + 1), X ! (F + 2), X ! (F + 3), vE s, X ! (F + 5), X ! (F + 6), X ! (F + 7)])"

definition x86_ok :: "uint64 list \<Rightarrow> nat \<Rightarrow> x86_vars \<Rightarrow> bool" where
  "x86_ok M i s \<longleftrightarrow> length (vX s) = 89 \<and> vF s = 80 - i \<and> (\<forall>j < i. vX s ! (88 - j) = sha2_W P512 M j)"

definition x86_step :: "byte list \<Rightarrow> nat \<Rightarrow> x86_vars \<Rightarrow> x86_vars" where
  "x86_step inp i = (if i < 16 then x86_round_load inp i else x86_round_schedule i)"

lemma x86_round_ok:
  assumes "x86_ok M i s" and "i < 80"
  shows "x86_ok M (Suc i) (x86_round i (sha2_W P512 M i) s)"
    and "x86_view (x86_round i (sha2_W P512 M i) s) = sha2_step P512 (sha2_W P512 M i) i (x86_view s)"
proof -
  have F: "vF s = 80 - i" "length (vX s) = 89" using assms(1) by (simp_all add: x86_ok_def)
  define F where "F = 79 - i"
  have vF: "vF s = Suc F" using F assms(2) by (simp add: F_def)
  show "x86_view (x86_round i (sha2_W P512 M i) s) = sha2_step P512 (sha2_W P512 M i) i (x86_view s)"
    using vF F by (simp add: x86_view_def x86_round_def Let_def nth_list_update P512_def Ch_def Maj_def add_ac)
      (simp add: numeral_3_eq_3)
  show "x86_ok M (Suc i) (x86_round i (sha2_W P512 M i) s)"
    unfolding x86_ok_def
  proof (intro conjI allI impI)
    fix j assume j: "j < Suc i"
    show "vX (x86_round i (sha2_W P512 M i) s) ! (88 - j) = sha2_W P512 M j"
    proof (cases "j = i")
      case True
      then show ?thesis using F assms(2) by (simp add: x86_round_def Let_def)
    next
      case False
      then have "88 - j \<noteq> 80 - i" "88 - j \<noteq> 80 - i + 4" "88 - j \<noteq> 80 - i + 8" using j assms(2) by auto
      then show ?thesis using False j F assms(1) by (simp add: x86_round_def Let_def x86_ok_def)
    qed
  qed (use F in \<open>simp_all add: x86_round_def Let_def\<close>)
qed

lemma x86_step_round:
  assumes "x86_ok (be_words64 bs) i s" and "i < 80" and "length bs = 128"
  shows "x86_step bs i s = x86_round i (sha2_W P512 (be_words64 bs) i) s"
proof (cases "i < 16")
  case True
  then show ?thesis
    using load_word64[OF assms(3) True]
    by (simp add: x86_step_def x86_round_load_def sha2_W.simps mult.commute)
next
  case False
  let ?W = "sha2_W P512 (be_words64 bs)"
  have ix: "vX s ! (vF s + k) = ?W (i + k' - 16)" if "k + k' = 24" "k' < 16" for k k'
  proof -
    have "vF s + k = 88 - (i + k' - 16)" using assms(1,2) that False by (simp add: x86_ok_def)
    moreover have "i + k' - 16 < i" using that False by simp
    ultimately show ?thesis using assms(1) unfolding x86_ok_def by metis
  qed
  have "vX s ! (vF s + 23) = ?W (i - 15)" "vX s ! (vF s + 10) = ?W (i - 2)"
    "vX s ! (vF s + 24) = ?W (i - 16)" "vX s ! (vF s + 15) = ?W (i - 7)"
    using ix[of 23 1] ix[of 10 14] ix[of 24 0] ix[of 15 9] by simp_all
  moreover have "?W i = psigma1 P512 (?W (i - 2)) + ?W (i - 7) + psigma0 P512 (?W (i - 15)) + ?W (i - 16)"
    using False by (subst sha2_W.simps) simp
  ultimately show ?thesis
    using False by (simp add: x86_step_def x86_round_schedule_def Let_def P512_def add_ac)
qed

lemma sha512_block_x86_refines:
  assumes "length st = 8" and "length bs = 128"
  shows "sha512_block_x86 st bs = sha2_compress P512 80 (be_words64 bs) st"
proof -
  obtain v0 v1 v2 v3 v4 v5 v6 v7 where st: "st = [v0, v1, v2, v3, v4, v5, v6, v7]"
    using assms(1) by (auto simp: length_Suc_conv eval_nat_numeral)
  define s0 where "s0 = \<lparr>vA = st ! 0, vE = st ! 4,
      vX = (replicate 89 0)[81 := st ! 1, 82 := st ! 2, 83 := st ! 3, 85 := st ! 5, 86 := st ! 6, 87 := st ! 7],
      vF = 80\<rparr>"
  let ?M = "be_words64 bs"
  let ?R = "\<lambda>t s vs. x86_ok ?M t s \<and> x86_view s = vs"
  define s2 where "s2 = fold x86_round_schedule [16..<80] (fold (x86_round_load bs) [0..<16] s0)"
  have "s2 = fold (x86_step bs) [0..<80] s0"
  proof -
    have "[0..<80] = [0..<16] @ [16..<80]" by (simp add: upt_add_eq_append[of 0 16 64, simplified])
    moreover have "fold (x86_step bs) [0..<16] s0 = fold (x86_round_load bs) [0..<16] s0"
      by (rule fold_cong[OF refl refl]) (simp add: x86_step_def set_upt del: upt_rec_numeral)
    moreover have "fold (x86_step bs) [16..<80] s = fold x86_round_schedule [16..<80] s" for s
      by (rule fold_cong[OF refl refl]) (simp add: x86_step_def set_upt del: upt_rec_numeral)
    ultimately show ?thesis by (simp only: s2_def fold_append comp_def)
  qed
  moreover have "?R 80 (fold (x86_step bs) [0..<80] s0)
      (fold (\<lambda>t. sha2_step P512 (sha2_W P512 ?M t) t) [0..<80] st)"
  proof (rule fold_upt_simulation[where R = ?R])
    show "?R 0 s0 st" by (simp add: x86_ok_def x86_view_def s0_def st nth_list_update)
  next
    fix i s vs assume "i < 80" "?R i s vs"
    then show "?R (Suc i) (x86_step bs i s) (sha2_step P512 (sha2_W P512 ?M i) i vs)"
      using x86_step_round[of bs i s] x86_round_ok[of ?M i s] assms(2) by auto
  qed
  moreover have "sha512_block_x86 st bs = map2 (+) st (x86_view s2)"
    unfolding sha512_block_x86_def Let_def s0_def[symmetric] s2_def[symmetric]
    by (simp add: x86_view_def Let_def st)
  ultimately show ?thesis by (simp add: sha2_compress_def)
qed

section \<open>Streaming\<close>

definition sha512_inv :: "SHA512_CTX \<Rightarrow> bool" where
  "sha512_inv c \<longleftrightarrow> num c < 128 \<and> length (p c) = 128"

definition sha512_buf :: "SHA512_CTX \<Rightarrow> byte list" where
  "sha512_buf c = take (num c) (p c)"

definition sha512_bits :: "SHA512_CTX \<Rightarrow> 128 word" where
  "sha512_bits c = of_nat (unat (Nh c) * 2 ^ 64 + unat (Nl c))"

abbreviation sha512_absorb :: "byte list \<Rightarrow> uint64 list \<Rightarrow> uint64 list" where
  "sha512_absorb bs st \<equiv> sha512_block st bs"

lemma sha512_block_func:
  "128 * k \<le> length bs \<Longrightarrow> sha512_block_data_order st bs k = fold sha512_absorb (blocks 128 (take (128 * k) bs)) st"
  by (rule block_loop) simp_all

lemma sha512_block_func_1: "length bs = 128 \<Longrightarrow> sha512_block_data_order st bs 1 = sha512_block st bs"
  using sha512_block_func[of 1 bs st] by simp

lemma sha512_block_func_all:
  "sha512_block_data_order st bs (length bs div 128) = fold sha512_absorb (blocks 128 bs) st"
  using sha512_block_func[of "length bs div 128" bs st] blocks_take[of 128 bs] by simp

lemma sha512_blocks_and_rest:
  fixes c :: SHA512_CTX and inp :: "byte list"
  assumes "num c = 0" "length (p c) = 128"
  defines "r \<equiv> sha512_blocks_and_rest c inp"
  shows "sha512_inv r" "h r = fold sha512_absorb (blocks 128 inp) (h c)" "sha512_buf r = leftover 128 inp"
    "Nl r = Nl c" "Nh r = Nh c"
proof -
  define c' where "c' = (if length inp \<ge> 128
      then c\<lparr>h := sha512_block_data_order (h c) inp (length inp div 128)\<rparr> else c)"
  define inp' where "inp' = (if length inp \<ge> 128 then drop (length inp - length inp mod 128) inp else inp)"
  have r: "r = (if length inp' \<noteq> 0 then c'\<lparr>p := memcpy_at (p c') 0 inp', num := length inp'\<rparr> else c')"
    by (simp only: r_def sha512_blocks_and_rest_def Let_def c'_def inp'_def)
  have i: "inp' = leftover 128 inp"
    by (simp add: inp'_def leftover_def minus_mod_eq_mult_div)
  have less: "length inp' < 128" unfolding i by (rule length_leftover_less) simp
  have c': "num c' = 0" "length (p c') = 128" "Nl c' = Nl c" "Nh c' = Nh c"
    using assms(1,2) by (simp_all add: c'_def)
  have "h c' = fold sha512_absorb (blocks 128 inp) (h c)"
    using sha512_block_func_all[of "h c" inp] by (simp add: c'_def)
  then show "h r = fold sha512_absorb (blocks 128 inp) (h c)" by (simp add: r)
  show "sha512_inv r" using less c' by (simp add: r sha512_inv_def)
  show "Nl r = Nl c" "Nh r = Nh c" using c' by (simp_all add: r)
  show "sha512_buf r = leftover 128 inp"
    using less c' take_memcpy_at[of 0 inp' "p c'"] unfolding i[symmetric]
    by (auto simp: r sha512_buf_def)
qed

lemma sha512_carry_add:
  fixes lo hi :: uint64 and m :: nat
  defines "l \<equiv> lo + push_bit 3 (of_nat m)"
  assumes "m < 2 ^ 64"
  shows "of_nat (unat ((if l < lo then hi + 1 else hi) + drop_bit 61 (of_nat m)) * 2 ^ 64 + unat l) =
    (of_nat (unat hi * 2 ^ 64 + unat lo) + 8 * of_nat m :: 128 word)"
proof -
  have d: "drop_bit 61 (of_nat m :: uint64) = of_nat (m div 2 ^ 61)"
    using assms(2) by (simp add: word_unat_eq_iff drop_bit_eq_div unat_div)
  have "(unat ((if l < lo then hi + 1 else hi) + of_nat (m div 2 ^ 61)) * 2 ^ 64 + unat l) mod 2 ^ 128 =
      (unat hi * 2 ^ 64 + unat lo + 8 * m) mod 2 ^ 128"
    using carry_add_mod[of lo m hi] by (simp add: l_def)
  then have "of_nat (unat ((if l < lo then hi + 1 else hi) + of_nat (m div 2 ^ 61)) * 2 ^ 64 + unat l) =
      (of_nat (unat hi * 2 ^ 64 + unat lo + 8 * m) :: 128 word)"
    by (simp only: word_unat_eq_iff unat_of_nat take_bit_nat_def) simp
  then show ?thesis by (simp add: d)
qed

lemma sha512_update_laws:
  assumes inv: "sha512_inv c"
  shows "sha512_inv (SHA512_Update c xs)"
    and "h (SHA512_Update c xs) = fold sha512_absorb (blocks 128 (sha512_buf c @ xs)) (h c)"
    and "sha512_buf (SHA512_Update c xs) = leftover 128 (sha512_buf c @ xs)"
    and "length xs < 2 ^ 64 \<Longrightarrow> sha512_bits (SHA512_Update c xs) = sha512_bits c + 8 * of_nat (length xs)"
proof -
  define l where "l = Nl c + push_bit 3 (of_nat (length xs))"
  define c1 where "c1 = c\<lparr>Nh := (if l < Nl c then Nh c + 1 else Nh c) + drop_bit 61 (of_nat (length xs)), Nl := l\<rparr>"
  have c1: "num c1 = num c" "p c1 = p c" "h c1 = h c" by (simp_all add: c1_def)
  have bits: "length xs < 2 ^ 64 \<longrightarrow> sha512_bits r = sha512_bits c + 8 * of_nat (length xs)"
    if "Nl r = Nl c1" "Nh r = Nh c1" for r :: SHA512_CTX
    using that sha512_carry_add[of "length xs" "Nl c" "Nh c"] by (simp add: sha512_bits_def c1_def l_def)
  have len: "num c < 128" "length (p c) = 128" using inv by (simp_all add: sha512_inv_def)
  let ?goal = "\<lambda>r. sha512_inv r \<and> h r = fold sha512_absorb (blocks 128 (sha512_buf c @ xs)) (h c) \<and>
    sha512_buf r = leftover 128 (sha512_buf c @ xs) \<and>
    (length xs < 2 ^ 64 \<longrightarrow> sha512_bits r = sha512_bits c + 8 * of_nat (length xs))"
  consider "xs = []" | "xs \<noteq> []" "num c = 0" | "xs \<noteq> []" "num c \<noteq> 0" "length xs + num c < 128"
    | "xs \<noteq> []" "num c \<noteq> 0" "128 \<le> length xs + num c" by linarith
  then have "?goal (SHA512_Update c xs)"
  proof cases
    case 1
    then show ?thesis using inv len by (simp add: SHA512_Update_def sha512_buf_def)
  next
    case 2
    then have "SHA512_Update c xs = sha512_blocks_and_rest c1 xs"
      by (simp add: SHA512_Update_def Let_def c1_def l_def)
    then show ?thesis
      using sha512_blocks_and_rest[of c1 xs] 2 len c1 bits by (simp add: sha512_buf_def)
  next
    case 3
    then have "length xs < 128 - num c" by simp
    then have "SHA512_Update c xs = c1\<lparr>p := memcpy_at (p c1) (num c1) xs, num := num c1 + length xs\<rparr>"
      using 3 by (simp add: SHA512_Update_def Let_def c1_def l_def)
    then show ?thesis
      using 3 len c1 bits take_memcpy_at[of "num c" xs "p c"]
      by (simp add: sha512_inv_def sha512_buf_def add.commute)
  next
    case 4
    let ?ys = "drop (128 - num c) xs"
    define q where "q = memcpy_at (p c1) (num c1) (take (128 - num c1) xs)"
    define c2 where "c2 = c1\<lparr>p := q, num := 0, h := sha512_block_data_order (h c1) q 1\<rparr>"
    have "\<not> length xs < 128 - num c" using 4 by simp
    then have u: "SHA512_Update c xs = sha512_blocks_and_rest c2 ?ys"
      using 4 by (simp add: SHA512_Update_def Let_def c1_def l_def c2_def q_def)
    have q: "q = sha512_buf c @ take (128 - num c) xs"
      using 4 len c1 by (simp add: q_def memcpy_at_full sha512_buf_def)
    have L: "length q = 128" using 4 len unfolding q by (simp add: sha512_buf_def)
    have split: "sha512_buf c @ xs = q @ ?ys" by (simp add: q)
    have "blocks 128 (sha512_buf c @ xs) = q # blocks 128 ?ys"
      unfolding split by (rule blocks_Cons_block[OF _ L]) simp
    moreover have "leftover 128 (sha512_buf c @ xs) = leftover 128 ?ys"
      unfolding split by (rule leftover_Cons_block[OF _ L]) simp
    moreover have "num c2 = 0" "length (p c2) = 128" "Nl c2 = Nl c1" "Nh c2 = Nh c1"
      "h c2 = sha512_block (h c) q"
      using L sha512_block_func_1[OF L] c1 by (simp_all add: c2_def)
    ultimately show ?thesis
      unfolding u using sha512_blocks_and_rest[of c2 ?ys] bits by simp
  qed
  then show "sha512_inv (SHA512_Update c xs)"
    and "h (SHA512_Update c xs) = fold sha512_absorb (blocks 128 (sha512_buf c @ xs)) (h c)"
    and "sha512_buf (SHA512_Update c xs) = leftover 128 (sha512_buf c @ xs)"
    and "length xs < 2 ^ 64 \<Longrightarrow> sha512_bits (SHA512_Update c xs) = sha512_bits c + 8 * of_nat (length xs)"
    by auto
qed

interpretation sha512: block_stream 128 sha512_absorb SHA512_Update h sha512_buf sha512_inv "\<lambda>_. True"
  by unfold_locales (simp_all add: sha512_update_laws, simp add: sha512_inv_def sha512_buf_def)

section \<open>Padding and digests\<close>

definition sha512_padding :: "nat \<Rightarrow> 128 word \<Rightarrow> byte list" where
  "sha512_padding len bits = 0x80 # replicate ((239 - len mod 128) mod 128) 0 @ be_bytes 16 bits"

text \<open>SHA-512 as FIPS 180-4 states it, with its own constants and the rotations of the word library.\<close>

definition fips512 :: "uint64 sha2_params" where
  "fips512 = \<lparr>pK = fips_K512,
     pSigma0 = (\<lambda>x. word_rotr 28 x XOR word_rotr 34 x XOR word_rotr 39 x),
     pSigma1 = (\<lambda>x. word_rotr 14 x XOR word_rotr 18 x XOR word_rotr 41 x),
     psigma0 = (\<lambda>x. word_rotr 1 x XOR word_rotr 8 x XOR drop_bit 7 x),
     psigma1 = (\<lambda>x. word_rotr 19 x XOR word_rotr 61 x XOR drop_bit 6 x)\<rparr>"

definition sha512_iterate :: "uint64 list \<Rightarrow> byte list \<Rightarrow> uint64 list" where
  "sha512_iterate iv msg =
     fold (\<lambda>bs. sha2_compress fips512 80 (be_words64 bs))
       (blocks 128 (msg @ sha512_padding (length msg) (8 * of_nat (length msg)))) iv"

definition sha512_spec :: "uint64 list \<Rightarrow> byte list \<Rightarrow> byte list" where
  "sha512_spec iv msg = concat (map (be_bytes 8) (sha512_iterate iv msg))"

text \<open>The table and the initial values of the source are those of the standard; the table in four parts.\<close>

lemma K512_roots_0:
  "list_all2 (is_root 3 64) (take 20 (drop 0 first_primes))
     (zip (take 20 (drop 0 cbrt_parts)) (take 20 (drop 0 (map unat K512))))"
  by (simp add: K512_def first_primes_def cbrt_parts_def)

lemma K512_roots_1:
  "list_all2 (is_root 3 64) (take 20 (drop 20 first_primes))
     (zip (take 20 (drop 20 cbrt_parts)) (take 20 (drop 20 (map unat K512))))"
  by (simp add: K512_def first_primes_def cbrt_parts_def)

lemma K512_roots_2:
  "list_all2 (is_root 3 64) (take 20 (drop 40 first_primes))
     (zip (take 20 (drop 40 cbrt_parts)) (take 20 (drop 40 (map unat K512))))"
  by (simp add: K512_def first_primes_def cbrt_parts_def)

lemma K512_roots_3:
  "list_all2 (is_root 3 64) (take 20 (drop 60 first_primes))
     (zip (take 20 (drop 60 cbrt_parts)) (take 20 (drop 60 (map unat K512))))"
  by (simp add: K512_def first_primes_def cbrt_parts_def)

lemma K512_roots: "list_all2 (is_root 3 64) first_primes (zip cbrt_parts (map unat K512))"
proof (rule list_all2_split[where n = 20])
  show "list_all2 (is_root 3 64) (drop 20 first_primes) (drop 20 (zip cbrt_parts (map unat K512)))"
  proof (rule list_all2_split[where n = 20])
    show "list_all2 (is_root 3 64) (drop 20 (drop 20 first_primes))
      (drop 20 (drop 20 (zip cbrt_parts (map unat K512))))"
    proof (rule list_all2_split[where n = 20])
      have "take 20 (drop 60 first_primes) = drop 60 first_primes" "take 20 (drop 60 cbrt_parts) = drop 60 cbrt_parts"
        "take 20 (drop 60 (map unat K512)) = drop 60 (map unat K512)"
        by (simp_all add: first_primes_def cbrt_parts_def K512_def)
      then show "list_all2 (is_root 3 64) (drop 20 (drop 20 (drop 20 first_primes)))
        (drop 20 (drop 20 (drop 20 (zip cbrt_parts (map unat K512)))))"
        using K512_roots_3 by (simp add: drop_zip take_zip)
    qed (use K512_roots_2 in \<open>simp add: drop_zip take_zip\<close>)
  qed (use K512_roots_1 in \<open>simp add: drop_zip take_zip\<close>)
qed (use K512_roots_0 in \<open>simp add: drop_zip take_zip\<close>)

lemma K512_fips: "K512 = fips_K512"
proof -
  from root_bits_list[OF K512_roots] have "map (root_bits 3 64) first_primes = map unat K512"
    by (simp add: K512_def cbrt_parts_def)
  from word_table_eq[OF this] show ?thesis by (simp add: fips_K512_def)
qed

lemma H512_fips: "h (SHA512_Init c) = fips_H512"
proof -
  have "list_all2 (is_root 2 64) (take 8 first_primes) (zip (take 8 sqrt_parts) (map unat (h (SHA512_Init c))))"
    by (simp add: SHA512_Init_def first_primes_def sqrt_parts_def)
  from root_bits_list[OF this] have "map (root_bits 2 64) (take 8 first_primes) = map unat (h (SHA512_Init c))"
    by (simp add: SHA512_Init_def sqrt_parts_def)
  from word_table_eq[OF this] show ?thesis by (simp add: fips_H512_def)
qed

lemma H384_fips: "h (SHA384_Init c) = fips_H384"
proof -
  have "list_all2 (is_root 2 64) (take 8 (drop 8 first_primes)) (zip (drop 8 sqrt_parts) (map unat (h (SHA384_Init c))))"
    by (simp add: SHA384_Init_def first_primes_def sqrt_parts_def)
  from root_bits_list[OF this]
  have "map (root_bits 2 64) (take 8 (drop 8 first_primes)) = map unat (h (SHA384_Init c))"
    by (simp add: SHA384_Init_def sqrt_parts_def)
  from word_table_eq[OF this] show ?thesis by (simp add: fips_H384_def)
qed

lemma H512_256_fips: "h (SHA512_256_Init c) = fips_H512_256"
  by (simp add: SHA512_256_Init_def fips_H512_256_def)

lemmas init_fips = H512_fips H384_fips H512_256_fips

lemma P512_fips: "P512 = fips512"
  unfolding P512_def fips512_def K512_fips
  by (simp add: Sigma0_512_def Sigma1_512_def sigma0_512_def sigma1_512_def rotr_u64_eq fun_eq_iff)

lemma length_sha512_block [simp]: "length (sha512_block st bs) = 8"
  by (simp add: sha512_block_def Let_def)

lemma sha512_block_fips:
  assumes "length bs = 128" and "length st = 8"
  shows "sha512_block st bs = sha2_compress fips512 80 (be_words64 bs) st \<and>
    length (sha2_compress fips512 80 (be_words64 bs) st) = 8"
  using sha512_block_refines[OF assms(2,1)] length_sha512_block[of st bs] unfolding P512_fips by simp

lemma sha512_bits_eq: "sha512_bits c = push_bit 64 (ucast (Nh c)) OR ucast (Nl c)"
proof -
  have "sha512_bits c = push_bit 64 (ucast (Nh c)) + ucast (Nl c)"
    by (simp add: sha512_bits_def push_bit_eq_mult)
  also have "\<dots> = push_bit 64 (ucast (Nh c)) OR ucast (Nl c)"
    by (rule disjunctive_add) (auto simp: bit_simps dest: bit_imp_le_length)
  finally show ?thesis .
qed

lemma sha512_length_stores:
  "CRYPTO_store_u64_be (Nh c) @ CRYPTO_store_u64_be (Nl c) = be_bytes 16 (sha512_bits c)"
proof -
  have "be_bytes 16 (sha512_bits c) = be_bytes 8 (drop_bit 64 (sha512_bits c)) @ be_bytes 8 (sha512_bits c)"
    using be_bytes_append[of 8 8 "sha512_bits c"] by simp
  moreover have "le_bytes 8 (drop_bit 64 (sha512_bits c)) = le_bytes 8 (Nh c)"
    "le_bytes 8 (sha512_bits c) = le_bytes 8 (Nl c)"
    unfolding sha512_bits_eq by (rule le_bytes_ucast, auto simp: bit_simps dest: bit_imp_le_length)+
  ultimately show ?thesis by (simp add: store_u64_be_eq be_bytes_def)
qed

lemma sha512_store_length:
  assumes "length d = 128"
  shows "memcpy_at (memcpy_at d 112 (CRYPTO_store_u64_be (Nh c))) 120 (CRYPTO_store_u64_be (Nl c)) =
    take 112 d @ be_bytes 16 (sha512_bits c)"
  using assms by (simp add: memcpy_at_def flip: sha512_length_stores)

lemma sha512_final_h:
  assumes inv: "sha512_inv c"
  shows "h (snd (sha512_final_impl c)) =
     fold sha512_absorb (blocks 128 (sha512_buf c @ sha512_padding (num c) (sha512_bits c))) (h c)"
proof -
  have n: "num c < 128" "length (p c) = 128" using inv by (simp_all add: sha512_inv_def)
  define d1 where "d1 = memcpy_at (p c) (num c) [0x80]"
  have d1: "length d1 = 128" "take (num c + 1) d1 = sha512_buf c @ [0x80]"
    using n take_memcpy_at[of "num c" "[0x80]" "p c"] by (simp_all add: d1_def sha512_buf_def)
  let ?len = "be_bytes 16 (sha512_bits c)"
  show ?thesis
  proof (cases "num c + 1 > 112")
    case True
    define d2 where "d2 = memcpy_at d1 (num c + 1) (replicate (128 - (num c + 1)) 0)"
    have d2: "length d2 = 128" "d2 = sha512_buf c @ 0x80 # replicate (127 - num c) 0"
      using n d1 by (simp_all add: d2_def memcpy_at_full sha512_buf_def)
    define d3 where "d3 = memcpy_at d2 0 (replicate 112 0)"
    have d3: "length d3 = 128" "take 112 d3 = replicate 112 0"
      using d2(1) by (simp_all add: d3_def memcpy_at_def)
    have "sha512_buf c @ sha512_padding (num c) (sha512_bits c) = d2 @ replicate 112 0 @ ?len"
    proof -
      have "(239 - num c) mod 128 = (127 - num c) + 112" using True n by (simp add: mod_if)
      then have "replicate ((239 - num c) mod 128) 0 = replicate (127 - num c) 0 @ replicate 112 (0 :: byte)"
        by (metis replicate_add)
      then show ?thesis using n by (simp add: sha512_padding_def d2(2))
    qed
    moreover have "h (snd (sha512_final_impl c)) =
        sha512_block_data_order (sha512_block_data_order (h c) d2 1) (take 112 d3 @ ?len) 1"
      using True unfolding sha512_store_length[OF d3(1), symmetric]
      by (simp add: sha512_final_impl_def Let_def d1_def d2_def d3_def)
    ultimately show ?thesis
      using sha512_block_func_1[OF d2(1)] sha512_block_func_1[of "replicate 112 0 @ ?len"] d2(1) d3
      by (simp add: blocks_Cons_block)
  next
    case False
    define d3 where "d3 = memcpy_at d1 (num c + 1) (replicate (112 - (num c + 1)) 0)"
    have d3: "length d3 = 128" "take 112 d3 = sha512_buf c @ 0x80 # replicate (111 - num c) 0"
      using False d1 memcpy_at_zeros[of "num c + 1" "112 - (num c + 1)" d1 0] by (simp_all add: d3_def)
    have "sha512_buf c @ sha512_padding (num c) (sha512_bits c) = take 112 d3 @ ?len"
      using False n by (simp add: sha512_padding_def d3(2) mod_if)
    moreover have "h (snd (sha512_final_impl c)) = sha512_block_data_order (h c) (take 112 d3 @ ?len) 1"
      using False unfolding sha512_store_length[OF d3(1), symmetric]
      by (simp add: sha512_final_impl_def Let_def d1_def d3_def)
    ultimately show ?thesis
      using sha512_block_func_1[of "take 112 d3 @ ?len"] d3(1) by simp
  qed
qed

lemma sha512_iterate_eq:
  assumes "length iv = 8"
  shows "fold sha512_absorb (blocks 128 (msg @ sha512_padding (length msg) (8 * of_nat (length msg)))) iv =
      sha512_iterate iv msg"
    and "length (sha512_iterate iv msg) = 8"
  unfolding sha512_iterate_def
  by (rule fold_blocks_cong[where P = "\<lambda>st. length st = 8"], erule (1) sha512_block_fips, rule assms)+

lemma md_len_update [simp]: "md_len (SHA512_Update c xs) = md_len c"
  by (simp add: SHA512_Update_def sha512_blocks_and_rest_def Let_def)

lemma sha512_md_len_fold [simp]: "md_len (fold (\<lambda>xs c. SHA512_Update c xs) xss c) = md_len c"
  by (induction xss arbitrary: c) simp_all

lemma store_words64:
  "n \<le> length ws \<Longrightarrow> map (\<lambda>i. CRYPTO_store_u64_be (ws ! i)) [0..<n] = map (be_bytes 8) (take n ws)"
  by (rule nth_equalityI) (simp_all add: store_u64_be_eq)

lemma take_stored_words64:
  "take (8 * n) (concat (map (be_bytes 8) ws)) = concat (map (be_bytes 8) (take n (ws :: uint64 list)))"
proof (induction ws arbitrary: n)
  case (Cons w ws)
  then show ?case by (cases n) simp_all
qed simp

lemma sha512_bits_fold:
  "sha512_inv c \<Longrightarrow> \<forall>xs \<in> set xss. length xs < 2 ^ 64 \<Longrightarrow>
   sha512_bits (fold (\<lambda>xs c. SHA512_Update c xs) xss c) = sha512_bits c + 8 * of_nat (length (concat xss))"
  by (induction xss arbitrary: c) (simp_all add: sha512_update_laws distrib_left add.assoc)

lemma sha512_final_fold:
  assumes init: "sha512_inv c" "num c = 0" "sha512_bits c = 0" "length (h c) = 8" "md_len c \<le> 64"
    and sizes: "\<forall>xs \<in> set xss. length xs < 2 ^ 64"
  shows "fst (sha512_final_impl (fold (\<lambda>xs c. SHA512_Update c xs) xss c)) =
    take (8 * (md_len c div 8)) (sha512_spec (h c) (concat xss))"
proof -
  let ?c = "fold (\<lambda>xs c. SHA512_Update c xs) xss c"
  have buf0: "sha512_buf c = []" using init(2) by (simp add: sha512_buf_def)
  have c: "sha512_inv ?c" "h ?c = fold sha512_absorb (blocks 128 (concat xss)) (h c)"
    "sha512_buf ?c = leftover 128 (concat xss)"
    using sha512.fold_upd[OF init(1), of xss] buf0 by simp_all
  have bits: "sha512_bits ?c = 8 * of_nat (length (concat xss))"
    using sha512_bits_fold[OF init(1) sizes] init(3) by simp
  have len: "num ?c = length (concat xss) mod 128"
    using c(1) arg_cong[OF c(3), of length]
    by (simp add: length_leftover sha512_inv_def sha512_buf_def del: length_concat)
  have "blocks 128 (concat xss @ sha512_padding (length (concat xss)) (sha512_bits ?c)) =
      blocks 128 (concat xss) @ blocks 128 (sha512_buf ?c @ sha512_padding (num ?c) (sha512_bits ?c))"
    unfolding c(3) len by (subst blocks_append) (simp_all add: sha512_padding_def del: length_concat)
  then have hf: "h (snd (sha512_final_impl ?c)) = sha512_iterate (h c) (concat xss)"
    using sha512_final_h[OF c(1)] c(2) bits sha512_iterate_eq(1)[OF init(4), of "concat xss"]
    by (simp del: length_concat)
  have "fst (sha512_final_impl ?c) =
      concat (map (\<lambda>i. CRYPTO_store_u64_be (h (snd (sha512_final_impl ?c)) ! i)) [0..<md_len c div 8])"
    by (simp add: sha512_final_impl_def Let_def split: prod.split)
  then show ?thesis
    using init(5) sha512_iterate_eq(2)[OF init(4), of "concat xss"]
    by (simp add: hf store_words64 sha512_spec_def take_stored_words64)
qed

lemma sha512_inits:
  assumes "length (p c) = 128"
  shows "sha512_inv (SHA512_Init c)" "num (SHA512_Init c) = 0" "sha512_bits (SHA512_Init c) = 0"
      "length (h (SHA512_Init c)) = 8" "md_len (SHA512_Init c) = 64"
    and "sha512_inv (SHA384_Init c)" "num (SHA384_Init c) = 0" "sha512_bits (SHA384_Init c) = 0"
      "length (h (SHA384_Init c)) = 8" "md_len (SHA384_Init c) = 48"
    and "sha512_inv (SHA512_256_Init c)" "num (SHA512_256_Init c) = 0" "sha512_bits (SHA512_256_Init c) = 0"
      "length (h (SHA512_256_Init c)) = 8" "md_len (SHA512_256_Init c) = 32"
  using assms by (simp_all add: SHA512_Init_def SHA384_Init_def SHA512_256_Init_def sha512_inv_def sha512_bits_def)

lemma length_sha512_spec: "length iv = 8 \<Longrightarrow> length (sha512_spec iv msg) = 64"
  using sha512_iterate_eq(2)[of iv msg] by (simp add: sha512_spec_def length_concat o_def sum_list_triv)

text \<open>
  C19. Whatever the context held before, and however the input is cut into updates (each
  of a size a \<open>size_t\<close> can express), the SHA-512, SHA-384 and SHA-512/256 interfaces
  deliver the digest of FIPS 180-4 of the concatenated input: the 64, 48 and 32 leading
  bytes of the padded iteration from the initial value that the standard gives the
  variant, under the round constants of the standard.
\<close>

theorem sha512_digest_correct:
  assumes "length (p ctx) = 128" and "\<forall>xs \<in> set xss. length xs < 2 ^ 64"
  shows "fst (SHA512_Final (fold (\<lambda>xs c. SHA512_Update c xs) xss (SHA512_Init ctx))) =
      sha512_spec fips_H512 (concat xss) \<and>
    fst (SHA384_Final (fold (\<lambda>xs c. SHA384_Update c xs) xss (SHA384_Init ctx))) =
      take 48 (sha512_spec fips_H384 (concat xss)) \<and>
    fst (SHA512_256_Final (fold (\<lambda>xs c. SHA512_256_Update c xs) xss (SHA512_256_Init ctx))) =
      take 32 (sha512_spec fips_H512_256 (concat xss))"
  using sha512_final_fold[OF sha512_inits(1-4)[OF assms(1)] _ assms(2)]
    sha512_final_fold[OF sha512_inits(6-9)[OF assms(1)] _ assms(2)]
    sha512_final_fold[OF sha512_inits(11-14)[OF assms(1)] _ assms(2)]
    length_sha512_spec[OF sha512_inits(4)[OF assms(1)], of "concat xss"]
  unfolding init_fips
  by (simp add: sha512_inits[OF assms(1)] SHA512_Final_def SHA384_Final_def SHA512_256_Final_def
      SHA384_Update_def SHA512_256_Update_def)

theorem sha512_digest_correct_witness:
  "fst (SHA512_Final (fold (\<lambda>xs c. SHA512_Update c xs) [[97, 98], [99]]
      (SHA512_Init \<lparr>h = [], Nl = 3, Nh = 4, p = replicate 128 7, num = 5, md_len = 6\<rparr>))) =
    sha512_spec fips_H512 [97, 98, 99]"
  using sha512_digest_correct[of "\<lparr>h = [], Nl = 3, Nh = 4, p = replicate 128 7, num = 5, md_len = 6\<rparr>"
      "[[97, 98], [99]]"]
  by simp

text \<open>
  C20. The two portable block functions of SHA-512, the unrolled one and the one for
  32-bit x86, compute the same function of the chaining state and any number of blocks.
\<close>

theorem sha512_block_variants_agree:
  assumes "length st = 8" and "128 * k \<le> length bs"
  shows "sha512_block_data_order_x86 st bs k = sha512_block_data_order st bs k"
proof -
  have "sha512_block_data_order_x86 st bs k = fold (\<lambda>b st. sha512_block_x86 st b) (blocks 128 (take (128 * k) bs)) st"
    by (rule block_loop[OF _ _ _ assms(2)]) simp_all
  also have "\<dots> = fold sha512_absorb (blocks 128 (take (128 * k) bs)) st"
    by (rule fold_blocks_cong[where P = "\<lambda>st. length st = 8"])
       (simp_all add: sha512_block_refines sha512_block_x86_refines assms flip: sha512_block_refines)
  also have "\<dots> = sha512_block_data_order st bs k" using sha512_block_func[OF assms(2)] by simp
  finally show ?thesis .
qed

theorem sha512_block_variants_agree_witness:
  "sha512_block_data_order_x86 (replicate 8 1) (replicate 256 2) 2 =
   sha512_block_data_order (replicate 8 1) (replicate 256 2) 2"
  by (rule sha512_block_variants_agree) simp_all

end
