(* ===== verification/Sha1.thy ===== *)
theory Sha1
  imports Md32
begin

text \<open>
  SHA-1, \<^verbatim>\<open>BoringSSL-GRPC/src/crypto/fipsmodule/sha/sha1.c\<close> (the portable block
  function): six variables whose roles move by one position per round, sixteen schedule
  words that are overwritten cyclically, and eighty macro calls. The reference is the
  formulation of FIPS 180-4.
\<close>

section \<open>Local state and macros\<close>

text \<open>The variables \<open>A\<close> to \<open>E\<close> and \<open>T\<close>, and \<open>XX0\<close> to \<open>XX15\<close>.\<close>

datatype reg6 = A1 | B1 | C1 | D1 | E1 | T1

record sha1_vars =
  V :: "reg6 \<Rightarrow> uint32"
  XX :: "uint32 list"

definition LOAD_XX :: "nat \<Rightarrow> uint32 \<Rightarrow> sha1_vars \<Rightarrow> sha1_vars" where
  "LOAD_XX k w s = s\<lparr>XX := (XX s)[k := w]\<rparr>"

definition F_00_19 :: "uint32 \<Rightarrow> uint32 \<Rightarrow> uint32 \<Rightarrow> uint32" where
  "F_00_19 b c d = ((c XOR d) AND b) XOR d"

definition F_20_39 :: "uint32 \<Rightarrow> uint32 \<Rightarrow> uint32 \<Rightarrow> uint32" where
  "F_20_39 b c d = b XOR c XOR d"

definition F_40_59 :: "uint32 \<Rightarrow> uint32 \<Rightarrow> uint32 \<Rightarrow> uint32" where
  "F_40_59 b c d = (b AND c) OR ((b OR c) AND d)"

definition F_60_79 :: "uint32 \<Rightarrow> uint32 \<Rightarrow> uint32 \<Rightarrow> uint32" where
  "F_60_79 b c d = F_20_39 b c d"

abbreviation K_00_19 :: uint32 where "K_00_19 \<equiv> 0x5a827999"
abbreviation K_20_39 :: uint32 where "K_20_39 \<equiv> 0x6ed9eba1"
abbreviation K_40_59 :: uint32 where "K_40_59 \<equiv> 0x8f1bbcdc"
abbreviation K_60_79 :: uint32 where "K_60_79 \<equiv> 0xca62c1d6"

text \<open>\<open>(a) = ia ^ ib ^ ic ^ id; (ix) = (a) = CRYPTO_rotl_u32((a), 1)\<close>\<close>

definition Xupdate :: "reg6 \<Rightarrow> nat \<Rightarrow> nat \<Rightarrow> nat \<Rightarrow> nat \<Rightarrow> nat \<Rightarrow> sha1_vars \<Rightarrow> sha1_vars" where
  "Xupdate a ix ia ib ic id' s =
     (let v = XX s ! ia XOR XX s ! ib XOR XX s ! ic XOR XX s ! id';
          v = CRYPTO_rotl_u32 v 1
      in s\<lparr>V := (V s)(a := v), XX := (XX s)[ix := v]\<rparr>)"

text \<open>The two statements that end every macro: an assignment to \<open>f\<close>, then the rotation of \<open>b\<close>.\<close>

definition set_f_rot_b :: "reg6 \<Rightarrow> uint32 \<Rightarrow> reg6 \<Rightarrow> sha1_vars \<Rightarrow> sha1_vars" where
  "set_f_rot_b f v b s =
     (let r = (V s)(f := v); r = r(b := CRYPTO_rotl_u32 (r b) 30) in s\<lparr>V := r\<rparr>)"

definition BODY_00_15 ::
  "nat \<Rightarrow> reg6 \<Rightarrow> reg6 \<Rightarrow> reg6 \<Rightarrow> reg6 \<Rightarrow> reg6 \<Rightarrow> reg6 \<Rightarrow> nat \<Rightarrow> sha1_vars \<Rightarrow> sha1_vars" where
  "BODY_00_15 i a b c d e f xi s =
     set_f_rot_b f (XX s ! xi + V s e + K_00_19 + CRYPTO_rotl_u32 (V s a) 5 + F_00_19 (V s b) (V s c) (V s d)) b s"

definition BODY_16_19 ::
  "nat \<Rightarrow> reg6 \<Rightarrow> reg6 \<Rightarrow> reg6 \<Rightarrow> reg6 \<Rightarrow> reg6 \<Rightarrow> reg6 \<Rightarrow> nat \<Rightarrow> nat \<Rightarrow> nat \<Rightarrow> nat \<Rightarrow> nat \<Rightarrow> sha1_vars \<Rightarrow> sha1_vars" where
  "BODY_16_19 i a b c d e f xi xa xb xc xd s0 =
     (let s = Xupdate f xi xa xb xc xd s0 in
      set_f_rot_b f (V s f + (V s e + K_00_19 + CRYPTO_rotl_u32 (V s a) 5 + F_00_19 (V s b) (V s c) (V s d))) b s)"

definition BODY_20_31 ::
  "nat \<Rightarrow> reg6 \<Rightarrow> reg6 \<Rightarrow> reg6 \<Rightarrow> reg6 \<Rightarrow> reg6 \<Rightarrow> reg6 \<Rightarrow> nat \<Rightarrow> nat \<Rightarrow> nat \<Rightarrow> nat \<Rightarrow> nat \<Rightarrow> sha1_vars \<Rightarrow> sha1_vars" where
  "BODY_20_31 i a b c d e f xi xa xb xc xd s0 =
     (let s = Xupdate f xi xa xb xc xd s0 in
      set_f_rot_b f (V s f + (V s e + K_20_39 + CRYPTO_rotl_u32 (V s a) 5 + F_20_39 (V s b) (V s c) (V s d))) b s)"

definition BODY_32_39 ::
  "nat \<Rightarrow> reg6 \<Rightarrow> reg6 \<Rightarrow> reg6 \<Rightarrow> reg6 \<Rightarrow> reg6 \<Rightarrow> reg6 \<Rightarrow> nat \<Rightarrow> nat \<Rightarrow> nat \<Rightarrow> nat \<Rightarrow> sha1_vars \<Rightarrow> sha1_vars" where
  "BODY_32_39 i a b c d e f xa xb xc xd s0 =
     (let s = Xupdate f xa xa xb xc xd s0 in
      set_f_rot_b f (V s f + (V s e + K_20_39 + CRYPTO_rotl_u32 (V s a) 5 + F_20_39 (V s b) (V s c) (V s d))) b s)"

definition BODY_40_59 ::
  "nat \<Rightarrow> reg6 \<Rightarrow> reg6 \<Rightarrow> reg6 \<Rightarrow> reg6 \<Rightarrow> reg6 \<Rightarrow> reg6 \<Rightarrow> nat \<Rightarrow> nat \<Rightarrow> nat \<Rightarrow> nat \<Rightarrow> sha1_vars \<Rightarrow> sha1_vars" where
  "BODY_40_59 i a b c d e f xa xb xc xd s0 =
     (let s = Xupdate f xa xa xb xc xd s0 in
      set_f_rot_b f (V s f + (V s e + K_40_59 + CRYPTO_rotl_u32 (V s a) 5 + F_40_59 (V s b) (V s c) (V s d))) b s)"

definition BODY_60_79 ::
  "nat \<Rightarrow> reg6 \<Rightarrow> reg6 \<Rightarrow> reg6 \<Rightarrow> reg6 \<Rightarrow> reg6 \<Rightarrow> reg6 \<Rightarrow> nat \<Rightarrow> nat \<Rightarrow> nat \<Rightarrow> nat \<Rightarrow> sha1_vars \<Rightarrow> sha1_vars" where
  "BODY_60_79 i a b c d e f xa xb xc xd s0 =
     (let s = Xupdate f xa xa xb xc xd s0 in
      set_f_rot_b f (XX s ! xa + V s e + K_60_79 + CRYPTO_rotl_u32 (V s a) 5 + F_60_79 (V s b) (V s c) (V s d)) b s)"

section \<open>The block function\<close>

definition sha1_rounds_00_15 :: "byte list \<Rightarrow> (sha1_vars \<Rightarrow> sha1_vars) list" where
  "sha1_rounds_00_15 inp =
     [LOAD_XX 0 (CRYPTO_load_u32_be inp), LOAD_XX 1 (CRYPTO_load_u32_be (drop 4 inp)),
      BODY_00_15 0 A1 B1 C1 D1 E1 T1 0, LOAD_XX 2 (CRYPTO_load_u32_be (drop 8 inp)),
      BODY_00_15 1 T1 A1 B1 C1 D1 E1 1, LOAD_XX 3 (CRYPTO_load_u32_be (drop 12 inp)),
      BODY_00_15 2 E1 T1 A1 B1 C1 D1 2, LOAD_XX 4 (CRYPTO_load_u32_be (drop 16 inp)),
      BODY_00_15 3 D1 E1 T1 A1 B1 C1 3, LOAD_XX 5 (CRYPTO_load_u32_be (drop 20 inp)),
      BODY_00_15 4 C1 D1 E1 T1 A1 B1 4, LOAD_XX 6 (CRYPTO_load_u32_be (drop 24 inp)),
      BODY_00_15 5 B1 C1 D1 E1 T1 A1 5, LOAD_XX 7 (CRYPTO_load_u32_be (drop 28 inp)),
      BODY_00_15 6 A1 B1 C1 D1 E1 T1 6, LOAD_XX 8 (CRYPTO_load_u32_be (drop 32 inp)),
      BODY_00_15 7 T1 A1 B1 C1 D1 E1 7, LOAD_XX 9 (CRYPTO_load_u32_be (drop 36 inp)),
      BODY_00_15 8 E1 T1 A1 B1 C1 D1 8, LOAD_XX 10 (CRYPTO_load_u32_be (drop 40 inp)),
      BODY_00_15 9 D1 E1 T1 A1 B1 C1 9, LOAD_XX 11 (CRYPTO_load_u32_be (drop 44 inp)),
      BODY_00_15 10 C1 D1 E1 T1 A1 B1 10, LOAD_XX 12 (CRYPTO_load_u32_be (drop 48 inp)),
      BODY_00_15 11 B1 C1 D1 E1 T1 A1 11, LOAD_XX 13 (CRYPTO_load_u32_be (drop 52 inp)),
      BODY_00_15 12 A1 B1 C1 D1 E1 T1 12, LOAD_XX 14 (CRYPTO_load_u32_be (drop 56 inp)),
      BODY_00_15 13 T1 A1 B1 C1 D1 E1 13, LOAD_XX 15 (CRYPTO_load_u32_be (drop 60 inp)),
      BODY_00_15 14 E1 T1 A1 B1 C1 D1 14, BODY_00_15 15 D1 E1 T1 A1 B1 C1 15]"

definition sha1_rounds_16_79 :: "(sha1_vars \<Rightarrow> sha1_vars) list" where
  "sha1_rounds_16_79 =
     [BODY_16_19 16 C1 D1 E1 T1 A1 B1 0 0 2 8 13, BODY_16_19 17 B1 C1 D1 E1 T1 A1 1 1 3 9 14,
      BODY_16_19 18 A1 B1 C1 D1 E1 T1 2 2 4 10 15, BODY_16_19 19 T1 A1 B1 C1 D1 E1 3 3 5 11 0,
      BODY_20_31 20 E1 T1 A1 B1 C1 D1 4 4 6 12 1, BODY_20_31 21 D1 E1 T1 A1 B1 C1 5 5 7 13 2,
      BODY_20_31 22 C1 D1 E1 T1 A1 B1 6 6 8 14 3, BODY_20_31 23 B1 C1 D1 E1 T1 A1 7 7 9 15 4,
      BODY_20_31 24 A1 B1 C1 D1 E1 T1 8 8 10 0 5, BODY_20_31 25 T1 A1 B1 C1 D1 E1 9 9 11 1 6,
      BODY_20_31 26 E1 T1 A1 B1 C1 D1 10 10 12 2 7, BODY_20_31 27 D1 E1 T1 A1 B1 C1 11 11 13 3 8,
      BODY_20_31 28 C1 D1 E1 T1 A1 B1 12 12 14 4 9, BODY_20_31 29 B1 C1 D1 E1 T1 A1 13 13 15 5 10,
      BODY_20_31 30 A1 B1 C1 D1 E1 T1 14 14 0 6 11, BODY_20_31 31 T1 A1 B1 C1 D1 E1 15 15 1 7 12,
      BODY_32_39 32 E1 T1 A1 B1 C1 D1 0 2 8 13, BODY_32_39 33 D1 E1 T1 A1 B1 C1 1 3 9 14,
      BODY_32_39 34 C1 D1 E1 T1 A1 B1 2 4 10 15, BODY_32_39 35 B1 C1 D1 E1 T1 A1 3 5 11 0,
      BODY_32_39 36 A1 B1 C1 D1 E1 T1 4 6 12 1, BODY_32_39 37 T1 A1 B1 C1 D1 E1 5 7 13 2,
      BODY_32_39 38 E1 T1 A1 B1 C1 D1 6 8 14 3, BODY_32_39 39 D1 E1 T1 A1 B1 C1 7 9 15 4,
      BODY_40_59 40 C1 D1 E1 T1 A1 B1 8 10 0 5, BODY_40_59 41 B1 C1 D1 E1 T1 A1 9 11 1 6,
      BODY_40_59 42 A1 B1 C1 D1 E1 T1 10 12 2 7, BODY_40_59 43 T1 A1 B1 C1 D1 E1 11 13 3 8,
      BODY_40_59 44 E1 T1 A1 B1 C1 D1 12 14 4 9, BODY_40_59 45 D1 E1 T1 A1 B1 C1 13 15 5 10,
      BODY_40_59 46 C1 D1 E1 T1 A1 B1 14 0 6 11, BODY_40_59 47 B1 C1 D1 E1 T1 A1 15 1 7 12,
      BODY_40_59 48 A1 B1 C1 D1 E1 T1 0 2 8 13, BODY_40_59 49 T1 A1 B1 C1 D1 E1 1 3 9 14,
      BODY_40_59 50 E1 T1 A1 B1 C1 D1 2 4 10 15, BODY_40_59 51 D1 E1 T1 A1 B1 C1 3 5 11 0,
      BODY_40_59 52 C1 D1 E1 T1 A1 B1 4 6 12 1, BODY_40_59 53 B1 C1 D1 E1 T1 A1 5 7 13 2,
      BODY_40_59 54 A1 B1 C1 D1 E1 T1 6 8 14 3, BODY_40_59 55 T1 A1 B1 C1 D1 E1 7 9 15 4,
      BODY_40_59 56 E1 T1 A1 B1 C1 D1 8 10 0 5, BODY_40_59 57 D1 E1 T1 A1 B1 C1 9 11 1 6,
      BODY_40_59 58 C1 D1 E1 T1 A1 B1 10 12 2 7, BODY_40_59 59 B1 C1 D1 E1 T1 A1 11 13 3 8,
      BODY_60_79 60 A1 B1 C1 D1 E1 T1 12 14 4 9, BODY_60_79 61 T1 A1 B1 C1 D1 E1 13 15 5 10,
      BODY_60_79 62 E1 T1 A1 B1 C1 D1 14 0 6 11, BODY_60_79 63 D1 E1 T1 A1 B1 C1 15 1 7 12,
      BODY_60_79 64 C1 D1 E1 T1 A1 B1 0 2 8 13, BODY_60_79 65 B1 C1 D1 E1 T1 A1 1 3 9 14,
      BODY_60_79 66 A1 B1 C1 D1 E1 T1 2 4 10 15, BODY_60_79 67 T1 A1 B1 C1 D1 E1 3 5 11 0,
      BODY_60_79 68 E1 T1 A1 B1 C1 D1 4 6 12 1, BODY_60_79 69 D1 E1 T1 A1 B1 C1 5 7 13 2,
      BODY_60_79 70 C1 D1 E1 T1 A1 B1 6 8 14 3, BODY_60_79 71 B1 C1 D1 E1 T1 A1 7 9 15 4,
      BODY_60_79 72 A1 B1 C1 D1 E1 T1 8 10 0 5, BODY_60_79 73 T1 A1 B1 C1 D1 E1 9 11 1 6,
      BODY_60_79 74 E1 T1 A1 B1 C1 D1 10 12 2 7, BODY_60_79 75 D1 E1 T1 A1 B1 C1 11 13 3 8,
      BODY_60_79 76 C1 D1 E1 T1 A1 B1 12 14 4 9, BODY_60_79 77 B1 C1 D1 E1 T1 A1 13 15 5 10,
      BODY_60_79 78 A1 B1 C1 D1 E1 T1 14 0 6 11, BODY_60_79 79 T1 A1 B1 C1 D1 E1 15 1 7 12]"

text \<open>One iteration of the loop; the schedule words are stored to before they are read.\<close>

definition sha1_init_vars :: "uint32 list \<Rightarrow> sha1_vars" where
  "sha1_init_vars state =
     \<lparr>V = (\<lambda>r. case r of A1 \<Rightarrow> state ! 0 | B1 \<Rightarrow> state ! 1 | C1 \<Rightarrow> state ! 2 | D1 \<Rightarrow> state ! 3
        | E1 \<Rightarrow> state ! 4 | T1 \<Rightarrow> 0),
      XX = replicate 16 0\<rparr>"

definition sha1_block :: "uint32 list \<Rightarrow> byte list \<Rightarrow> uint32 list" where
  "sha1_block state inp =
     (let s = run (sha1_rounds_00_15 inp @ sha1_rounds_16_79) (sha1_init_vars state)
      in [state ! 0 + V s E1, state ! 1 + V s T1, state ! 2 + V s A1, state ! 3 + V s B1, state ! 4 + V s C1])"

text \<open>
  The loop leaves when \<open>--num == 0\<close>; every caller passes at least one block, and the
  value for none is not used.
\<close>

primrec sha1_block_data_order :: "uint32 list \<Rightarrow> byte list \<Rightarrow> nat \<Rightarrow> uint32 list" where
  "sha1_block_data_order state inp 0 = state"
| "sha1_block_data_order state inp (Suc n) =
     sha1_block_data_order (sha1_block state (take 64 inp)) (drop 64 inp) n"

section \<open>The streaming interface\<close>

definition SHA1_Init :: md32_ctx where
  "SHA1_Init =
     \<lparr>h = [0x67452301, 0xefcdab89, 0x98badcfe, 0x10325476, 0xc3d2e1f0],
      Nl = 0, Nh = 0, data = replicate 64 0, num = 0\<rparr>"

definition SHA1_Transform :: "md32_ctx \<Rightarrow> byte list \<Rightarrow> md32_ctx" where
  "SHA1_Transform c inp = c\<lparr>h := sha1_block_data_order (h c) inp 1\<rparr>"

definition SHA1_Update :: "md32_ctx \<Rightarrow> byte list \<Rightarrow> md32_ctx" where
  "SHA1_Update c inp = crypto_md32_update sha1_block_data_order 64 c inp"

definition SHA1_Final :: "md32_ctx \<Rightarrow> byte list \<times> md32_ctx" where
  "SHA1_Final c0 =
     (let c = crypto_md32_final sha1_block_data_order 64 True c0
      in (CRYPTO_store_u32_be (h c ! 0) @ CRYPTO_store_u32_be (h c ! 1) @ CRYPTO_store_u32_be (h c ! 2) @
          CRYPTO_store_u32_be (h c ! 3) @ CRYPTO_store_u32_be (h c ! 4), c))"

definition SHA1 :: "byte list \<Rightarrow> byte list" where
  "SHA1 inp = fst (SHA1_Final (SHA1_Update SHA1_Init inp))"

section \<open>Reference\<close>

fun sha1_W :: "uint32 list \<Rightarrow> nat \<Rightarrow> uint32" where
  "sha1_W M t =
     (if t < 16 then M ! t
      else word_rotl 1 (sha1_W M (t - 3) XOR sha1_W M (t - 8) XOR sha1_W M (t - 14) XOR sha1_W M (t - 16)))"

declare sha1_W.simps [simp del]

definition sha1_f :: "nat \<Rightarrow> uint32 \<Rightarrow> uint32 \<Rightarrow> uint32 \<Rightarrow> uint32" where
  "sha1_f t x y z =
     (if t < 20 then (x AND y) XOR (NOT x AND z)
      else if 40 \<le> t \<and> t < 60 then (x AND y) XOR (x AND z) XOR (y AND z)
      else x XOR y XOR z)"

definition sha1_K :: "nat \<Rightarrow> uint32" where
  "sha1_K t = (if t < 20 then 0x5a827999 else if t < 40 then 0x6ed9eba1 else if t < 60 then 0x8f1bbcdc else 0xca62c1d6)"

fun sha1_step :: "uint32 list \<Rightarrow> nat \<Rightarrow> uint32 list \<Rightarrow> uint32 list" where
  "sha1_step M t [a, b, c, d, e] =
     [word_rotl 5 a + sha1_f t b c d + e + sha1_K t + sha1_W M t, a, word_rotl 30 b, c, d]"
| "sha1_step M t vs = vs"

definition sha1_compress :: "uint32 list \<Rightarrow> uint32 list \<Rightarrow> uint32 list" where
  "sha1_compress M st = map2 (+) st (fold (sha1_step M) [0..<80] st)"

section \<open>Simulation\<close>

definition sha1_roles :: "nat \<Rightarrow> reg6 list" where
  "sha1_roles t =
     [[A1, B1, C1, D1, E1, T1],
      [T1, A1, B1, C1, D1, E1],
      [E1, T1, A1, B1, C1, D1],
      [D1, E1, T1, A1, B1, C1],
      [C1, D1, E1, T1, A1, B1],
      [B1, C1, D1, E1, T1, A1]] ! (t mod 6)"

lemma sha1_roles_cases:
  obtains a b c d e f where "sha1_roles t = [a, b, c, d, e, f]" "sha1_roles (Suc t) = [f, a, b, c, d, e]"
    "distinct [a, b, c, d, e, f]"
proof -
  have "t mod 6 < 6" by simp
  then consider "t mod 6 = 0" | "t mod 6 = 1" | "t mod 6 = 2" | "t mod 6 = 3" | "t mod 6 = 4" | "t mod 6 = 5"
    by linarith
  then have "sha1_roles t = [sha1_roles t ! 0, sha1_roles t ! 1, sha1_roles t ! 2, sha1_roles t ! 3,
      sha1_roles t ! 4, sha1_roles t ! 5] \<and>
    sha1_roles (Suc t) = [sha1_roles t ! 5, sha1_roles t ! 0, sha1_roles t ! 1, sha1_roles t ! 2,
      sha1_roles t ! 3, sha1_roles t ! 4] \<and> distinct (sha1_roles t)"
    by cases (simp_all add: sha1_roles_def mod_Suc)
  then show thesis by (metis that)
qed

definition sha1_view :: "nat \<Rightarrow> sha1_vars \<Rightarrow> uint32 list" where
  "sha1_view t s = map (V s) (butlast (sha1_roles t))"

text \<open>The call of round \<open>t\<close> with its roles and schedule indices.\<close>

fun sha1_call :: "nat \<Rightarrow> reg6 list \<Rightarrow> sha1_vars \<Rightarrow> sha1_vars" where
  "sha1_call t [a, b, c, d, e, f] =
     (let x0 = t mod 16; x2 = (t + 2) mod 16; x8 = (t + 8) mod 16; x13 = (t + 13) mod 16 in
      if t < 16 then BODY_00_15 t a b c d e f t
      else if t < 20 then BODY_16_19 t a b c d e f x0 x0 x2 x8 x13
      else if t < 32 then BODY_20_31 t a b c d e f x0 x0 x2 x8 x13
      else if t < 40 then BODY_32_39 t a b c d e f x0 x2 x8 x13
      else if t < 60 then BODY_40_59 t a b c d e f x0 x2 x8 x13
      else BODY_60_79 t a b c d e f x0 x2 x8 x13)"
| "sha1_call t _ = id"

definition sha1_window :: "uint32 list \<Rightarrow> nat \<Rightarrow> sha1_vars \<Rightarrow> bool" where
  "sha1_window M t s \<longleftrightarrow>
     length (XX s) = 16 \<and> (\<forall>j. j < max t 16 \<longrightarrow> t \<le> j + 16 \<longrightarrow> XX s ! (j mod 16) = sha1_W M j)"

lemma F_eq:
  "F_00_19 x y z = (x AND y) XOR (NOT x AND z)"
  "F_40_59 x y z = (x AND y) XOR (x AND z) XOR (y AND z)"
  by (rule bit_word_eqI; auto simp: F_00_19_def F_40_59_def bit_simps)+

text \<open>What every macro amounts to, given the schedule word it uses.\<close>

definition sha1_round :: "nat \<Rightarrow> uint32 \<Rightarrow> reg6 list \<Rightarrow> (reg6 \<Rightarrow> uint32) \<Rightarrow> reg6 \<Rightarrow> uint32" where
  "sha1_round t w rs v =
     (case rs of [a, b, c, d, e, f] \<Rightarrow>
        v(f := w + v e + sha1_K t + word_rotl 5 (v a) + sha1_f t (v b) (v c) (v d), b := word_rotl 30 (v b))
      | _ \<Rightarrow> v)"

lemma sha1_call_early:
  assumes "t < 16"
  shows "sha1_call t (sha1_roles t) s = s\<lparr>V := sha1_round t (XX s ! t) (sha1_roles t) (V s)\<rparr>"
proof -
  obtain a b c d e f where r: "sha1_roles t = [a, b, c, d, e, f]" "distinct [a, b, c, d, e, f]"
    by (rule sha1_roles_cases)
  then show ?thesis
    using assms by (auto simp: BODY_00_15_def set_f_rot_b_def Let_def sha1_round_def sha1_K_def sha1_f_def
        F_eq rotl_u32_eq fun_eq_iff)
qed

lemma sha1_call_late:
  assumes "16 \<le> t" and "length (XX s) = 16"
  defines "w \<equiv> word_rotl 1 (XX s ! (t mod 16) XOR XX s ! ((t + 2) mod 16) XOR XX s ! ((t + 8) mod 16)
      XOR XX s ! ((t + 13) mod 16))"
  shows "sha1_call t (sha1_roles t) s =
    s\<lparr>V := sha1_round t w (sha1_roles t) (V s), XX := (XX s)[t mod 16 := w]\<rparr>"
proof -
  obtain a b c d e f where r: "sha1_roles t = [a, b, c, d, e, f]" "distinct [a, b, c, d, e, f]"
    by (rule sha1_roles_cases)
  have w: "CRYPTO_rotl_u32 (XX s ! (t mod 16) XOR XX s ! ((t + 2) mod 16) XOR XX s ! ((t + 8) mod 16)
      XOR XX s ! ((t + 13) mod 16)) 1 = w"
    by (simp add: w_def rotl_u32_eq)
  have X: "Xupdate f (t mod 16) (t mod 16) ((t + 2) mod 16) ((t + 8) mod 16) ((t + 13) mod 16) s =
      s\<lparr>V := (V s)(f := w), XX := (XX s)[t mod 16 := w]\<rparr>"
    by (simp only: Xupdate_def Let_def w)
  have "set_f_rot_b f (w + V s e + sha1_K t + CRYPTO_rotl_u32 (V s a) 5 + sha1_f t (V s b) (V s c) (V s d)) b
      (s\<lparr>V := (V s)(f := w), XX := (XX s)[t mod 16 := w]\<rparr>) =
    s\<lparr>V := sha1_round t w (sha1_roles t) (V s), XX := (XX s)[t mod 16 := w]\<rparr>"
    using r by (auto simp: set_f_rot_b_def Let_def sha1_round_def rotl_u32_eq fun_eq_iff)
  moreover have "sha1_call t (sha1_roles t) s =
    set_f_rot_b f (w + V s e + sha1_K t + CRYPTO_rotl_u32 (V s a) 5 + sha1_f t (V s b) (V s c) (V s d)) b
      (s\<lparr>V := (V s)(f := w), XX := (XX s)[t mod 16 := w]\<rparr>)"
    unfolding r(1) sha1_call.simps
    using assms(1,2) r(2)
    by (simp add: BODY_16_19_def BODY_20_31_def BODY_32_39_def BODY_40_59_def BODY_60_79_def Let_def X
        sha1_K_def sha1_f_def F_eq F_20_39_def F_60_79_def add_ac del: add_2_eq_Suc add_2_eq_Suc')
  ultimately show ?thesis by simp
qed

lemma sha1_round_view:
  "map (sha1_round t (sha1_W M t) (sha1_roles t) (V s)) (butlast (sha1_roles (Suc t))) =
   sha1_step M t (sha1_view t s)"
proof -
  obtain a b c d e f where "sha1_roles t = [a, b, c, d, e, f]" "sha1_roles (Suc t) = [f, a, b, c, d, e]"
    "distinct [a, b, c, d, e, f]"
    by (rule sha1_roles_cases)
  then show ?thesis by (auto simp: sha1_round_def sha1_view_def add_ac)
qed

lemma sha1_call_simulates:
  assumes win: "sha1_window M t s"
  shows "sha1_window M (Suc t) (sha1_call t (sha1_roles t) s)"
    and "sha1_view (Suc t) (sha1_call t (sha1_roles t) s) = sha1_step M t (sha1_view t s)"
proof -
  have len: "length (XX s) = 16" using win by (simp add: sha1_window_def)
  show "sha1_view (Suc t) (sha1_call t (sha1_roles t) s) = sha1_step M t (sha1_view t s)"
    and "sha1_window M (Suc t) (sha1_call t (sha1_roles t) s)"
  proof (atomize (full), cases "t < 16")
    case True
    then have "XX s ! t = sha1_W M t" using win unfolding sha1_window_def by (metis less_imp_le max.absorb2 mod_less trans_le_add2)
    then have c: "sha1_call t (sha1_roles t) s = s\<lparr>V := sha1_round t (sha1_W M t) (sha1_roles t) (V s)\<rparr>"
      using sha1_call_early[OF True, of s] by simp
    show "sha1_view (Suc t) (sha1_call t (sha1_roles t) s) = sha1_step M t (sha1_view t s) \<and>
        sha1_window M (Suc t) (sha1_call t (sha1_roles t) s)"
      unfolding c using win True sha1_round_view[of t M s] by (simp add: sha1_view_def[of "Suc t"] sha1_window_def)
  next
    case False
    have x: "XX s ! ((t + k) mod 16) = sha1_W M (t + k - 16)" if "k < 16" for k
    proof -
      have "(t + k) mod 16 = (t + k - 16) mod 16" using False by (metis le_mod_geq not_less trans_le_add1)
      then show ?thesis using win that False by (simp add: sha1_window_def)
    qed
    have W: "sha1_W M t = word_rotl 1 (sha1_W M (t - 3) XOR sha1_W M (t - 8) XOR sha1_W M (t - 14) XOR sha1_W M (t - 16))"
      using False by (subst sha1_W.simps) simp
    have w: "word_rotl 1 (XX s ! (t mod 16) XOR XX s ! ((t + 2) mod 16) XOR XX s ! ((t + 8) mod 16)
      XOR XX s ! ((t + 13) mod 16)) = sha1_W M t"
      using x[of 0] x[of 2] x[of 8] x[of 13] unfolding W by (simp add: ac_simps)
    have c: "sha1_call t (sha1_roles t) s =
        s\<lparr>V := sha1_round t (sha1_W M t) (sha1_roles t) (V s), XX := (XX s)[t mod 16 := sha1_W M t]\<rparr>"
      using sha1_call_late[of t s] False len unfolding w by simp
    have "(XX s)[t mod 16 := sha1_W M t] ! (j mod 16) = sha1_W M j" if j: "j < Suc t" "Suc t \<le> j + 16" for j
    proof (cases "j = t")
      case True
      then show ?thesis using len by simp
    next
      case ne: False
      then obtain k where k: "t = j + k" "0 < k" "k < 16" using j by (metis add_diff_inverse_nat add_le_cancel_left less_Suc_eq not_less not_less_eq_eq zero_less_diff less_imp_le_nat nat_add_left_cancel_less Suc_le_lessD)
      have "j mod 16 \<noteq> t mod 16"
      proof
        assume "j mod 16 = t mod 16"
        then have "16 dvd t - j" using k by (metis mod_eq_dvd_iff_nat le_add1)
        then show False using k by (auto dest: dvd_imp_le)
      qed
      then show ?thesis using win j ne False by (simp add: sha1_window_def)
    qed
    then show "sha1_view (Suc t) (sha1_call t (sha1_roles t) s) = sha1_step M t (sha1_view t s) \<and>
        sha1_window M (Suc t) (sha1_call t (sha1_roles t) s)"
      unfolding c using len False sha1_round_view[of t M s] by (simp add: sha1_view_def[of "Suc t"] sha1_window_def)
  qed
qed

section \<open>The block function is the FIPS 180-4 compression\<close>

lemma upt_16_80:
  "[16..<80] = [16, 17, 18, 19, 20, 21, 22, 23, 24, 25, 26, 27, 28, 29, 30, 31, 32, 33, 34, 35, 36, 37, 38, 39,
     40, 41, 42, 43, 44, 45, 46, 47, 48, 49, 50, 51, 52, 53, 54, 55, 56, 57, 58, 59, 60, 61, 62, 63, 64, 65, 66, 67,
     68, 69, 70, 71, 72, 73, 74, 75, 76, 77, 78, 79]"
  by code_simp

lemma LOAD_XX_BODY:
  "k \<noteq> xi \<Longrightarrow> LOAD_XX k w (BODY_00_15 i a b c d e f xi s) = BODY_00_15 i a b c d e f xi (LOAD_XX k w s)"
  by (simp add: LOAD_XX_def BODY_00_15_def set_f_rot_b_def Let_def)

lemma all_loads:
  assumes "length (XX s) = 16" "length M = 16"
  shows "fold (\<lambda>k. LOAD_XX k (M ! k)) [0..<16] s = s\<lparr>XX := M\<rparr>"
proof -
  have "fold (\<lambda>k. LOAD_XX k (M ! k)) [0..<n] s = s\<lparr>XX := take n M @ drop n (XX s)\<rparr>" if "n \<le> 16" for n
    using that
  proof (induction n)
    case (Suc n)
    then have "(take n M @ drop n (XX s))[n := M ! n] = take (Suc n) M @ drop (Suc n) (XX s)"
      using assms by (simp add: list_update_append take_Suc_conv_app_nth Cons_nth_drop_Suc[symmetric])
    then show ?case using Suc by (simp add: LOAD_XX_def)
  qed simp
  from this[of 16] show ?thesis using assms by simp
qed

lemma sha1_rounds_00_15_eq:
  assumes "length bs = 64"
  shows "run (sha1_rounds_00_15 bs) s =
    fold (\<lambda>t. sha1_call t (sha1_roles t)) [0..<16] (fold (\<lambda>k. LOAD_XX k (be_words32 bs ! k)) [0..<16] s)"
proof -
  have l: "CRYPTO_load_u32_be (drop (4 * t) bs) = be_words32 bs ! t" if "t < 16" for t
    using that assms by (simp add: load_u32_be_eq be_words32_def)
  show ?thesis
    using l[of 0] l[of 1] l[of 2] l[of 3] l[of 4] l[of 5] l[of 6] l[of 7] l[of 8] l[of 9] l[of 10]
      l[of 11] l[of 12] l[of 13] l[of 14] l[of 15]
    by (simp add: sha1_rounds_00_15_def upt_0_16 sha1_roles_def LOAD_XX_BODY)
qed

lemma sha1_rounds_16_79_eq:
  "run sha1_rounds_16_79 s = fold (\<lambda>t. sha1_call t (sha1_roles t)) [16..<80] s"
  unfolding upt_16_80 by (simp add: sha1_rounds_16_79_def sha1_roles_def)

lemma sha1_block_refines:
  assumes "length bs = 64" and "length st = 5"
  shows "sha1_block st bs = sha1_compress (be_words32 bs) st"
proof -
  obtain a b c d e where st: "st = [a, b, c, d, e]" using assms(2) by (auto simp: length_Suc_conv eval_nat_numeral)
  let ?M = "be_words32 bs" and ?call = "\<lambda>t. sha1_call t (sha1_roles t)"
  define s0 where "s0 = (sha1_init_vars st)\<lparr>XX := ?M\<rparr>"
  define s where "s = run (sha1_rounds_00_15 bs @ sha1_rounds_16_79) (sha1_init_vars st)"
  have "[0..<80] = [0..<16] @ [16..<80]" using upt_add_eq_append[of 0 16 64] by simp
  then have "s = fold ?call [0..<80] s0"
    using all_loads[of "sha1_init_vars st" ?M]
    by (simp only: s_def run_append sha1_rounds_00_15_eq[OF assms(1)] sha1_rounds_16_79_eq fold_append comp_def s0_def)
       (simp add: sha1_init_vars_def be_words32_def)
  moreover have "sha1_window ?M 80 (fold ?call [0..<80] s0) \<and>
      sha1_view 80 (fold ?call [0..<80] s0) = fold (sha1_step ?M) [0..<80] (sha1_view 0 s0)"
  proof (rule fold_upt_simulation[where R = "\<lambda>t s vs. sha1_window ?M t s \<and> sha1_view t s = vs"])
    show "sha1_window ?M 0 s0 \<and> sha1_view 0 s0 = sha1_view 0 s0"
      by (simp add: sha1_window_def s0_def sha1_W.simps be_words32_def)
  next
    fix i s vs assume "sha1_window ?M i s \<and> sha1_view i s = vs"
    then show "sha1_window ?M (Suc i) (?call i s) \<and> sha1_view (Suc i) (?call i s) = sha1_step ?M i vs"
      using sha1_call_simulates by blast
  qed
  moreover have "sha1_view 0 s0 = st" by (simp add: sha1_view_def sha1_roles_def s0_def sha1_init_vars_def st)
  moreover have "sha1_block st bs = map2 (+) st (sha1_view 80 s)"
    unfolding sha1_block_def Let_def s_def[symmetric] by (simp add: sha1_view_def sha1_roles_def st)
  ultimately show ?thesis by (simp add: sha1_compress_def)
qed

section \<open>Digests\<close>

interpretation sha1: md32_digest sha1_block_data_order "\<lambda>bs st. sha1_block st bs"
proof unfold_locales
  fix k :: nat and bs :: "byte list" and st :: "uint32 list"
  assume "64 * k \<le> length bs"
  then show "sha1_block_data_order st bs k = fold (\<lambda>bs st. sha1_block st bs) (blocks 64 (take (64 * k) bs)) st"
    by (rule block_loop[rotated -1]) simp_all
qed

definition sha1_spec :: "byte list \<Rightarrow> byte list" where
  "sha1_spec msg = concat (map (be_bytes 4)
     (md_spec (\<lambda>bs. sha1_compress (be_words32 bs)) True
        [0x67452301, 0xefcdab89, 0x98badcfe, 0x10325476, 0xc3d2e1f0] msg))"

lemma sha1_block_compress:
  assumes "length bs = 64" and "length st = 5"
  shows "sha1_block st bs = sha1_compress (be_words32 bs) st \<and> length (sha1_compress (be_words32 bs) st) = 5"
proof -
  have "length (sha1_block st bs) = 5" by (simp add: sha1_block_def Let_def)
  then show ?thesis using sha1_block_refines[OF assms] by simp
qed

lemma sha1_final_fold: "fst (SHA1_Final (fold (\<lambda>xs c. SHA1_Update c xs) xss SHA1_Init)) = sha1_spec (concat xss)"
proof -
  let ?f = "\<lambda>bs. sha1_compress (be_words32 bs)"
  have i: "md32_inv 64 SHA1_Init" "num SHA1_Init = 0" "md32_bits SHA1_Init = 0" "length (h SHA1_Init) = 5"
    by (simp_all add: SHA1_Init_def md32_inv_def md32_bits_def)
  have e: "md_spec (\<lambda>bs st. sha1_block st bs) True (h SHA1_Init) m = md_spec ?f True (h SHA1_Init) m"
    and len: "length (md_spec ?f True (h SHA1_Init) m) = 5" for m
    unfolding md_spec_def
    by (rule fold_blocks_cong[where P = "\<lambda>st. length st = 5"], erule (1) sha1_block_compress, rule i(4))+
  have out: "CRYPTO_store_u32_be (ws ! 0) @ CRYPTO_store_u32_be (ws ! 1) @ CRYPTO_store_u32_be (ws ! 2) @
      CRYPTO_store_u32_be (ws ! 3) @ CRYPTO_store_u32_be (ws ! 4) = concat (map (be_bytes 4) ws)"
    if "length ws = 5" for ws
    using that by (auto simp: length_Suc_conv eval_nat_numeral store_u32_be_eq)
  show ?thesis
    using sha1.digest_eq_spec[OF i(1-3), of True xss] out[OF len, of "concat xss"] e
    by (simp add: SHA1_Final_def SHA1_Update_def Let_def sha1_spec_def) (simp add: SHA1_Init_def)
qed

text \<open>
  C21. However the input is cut into updates after \<open>SHA1_Init\<close>, \<open>SHA1_Final\<close> delivers the
  SHA-1 digest of FIPS 180-4 of the concatenated input, and the one-shot \<open>SHA1\<close> does too.
\<close>

theorem sha1_digest_correct:
  "fst (SHA1_Final (fold (\<lambda>xs c. SHA1_Update c xs) xss SHA1_Init)) = sha1_spec (concat xss) \<and>
   SHA1 msg = sha1_spec msg"
  using sha1_final_fold[of xss] sha1_final_fold[of "[msg]"] by (simp add: SHA1_def)

end
