(* ===== verification/Md_Rounds.thy ===== *)
theory Md_Rounds
  imports Md32
begin

text \<open>
  The round structure common to \<^verbatim>\<open>md4.c\<close> and \<^verbatim>\<open>md5.c\<close>: four variables whose roles rotate,
  sixteen message words loaded one by one between the first rounds, and rounds that add
  a boolean function, a message word and a constant and rotate. The reference is the
  formulation of RFC 1320 and RFC 1321 with a table of word indices, shifts and
  constants.
\<close>

datatype reg4 = VA | VB | VC | VD

record md_vars =
  V :: "reg4 \<Rightarrow> uint32"
  XX :: "uint32 list"

text \<open>\<open>X(k) = CRYPTO_load_u32_le(data)\<close> with the value read\<close>

definition LOAD_X :: "nat \<Rightarrow> uint32 \<Rightarrow> md_vars \<Rightarrow> md_vars" where
  "LOAD_X k w s = s\<lparr>XX := (XX s)[k := w]\<rparr>"

text \<open>
  The body shared by the round macros: \<open>f\<close> is the boolean function and \<open>post\<close> what
  follows the rotation, given \<open>b\<close>.
\<close>

definition md_round ::
  "(uint32 \<Rightarrow> uint32 \<Rightarrow> uint32 \<Rightarrow> uint32) \<Rightarrow> (uint32 \<Rightarrow> uint32 \<Rightarrow> uint32) \<Rightarrow>
   reg4 \<Rightarrow> reg4 \<Rightarrow> reg4 \<Rightarrow> reg4 \<Rightarrow> nat \<Rightarrow> nat \<Rightarrow> uint32 \<Rightarrow> md_vars \<Rightarrow> md_vars" where
  "md_round f post a b c d k s t st =
     (let r = (V st)(a := V st a + (XX st ! k + t + f (V st b) (V st c) (V st d)));
          r = r(a := CRYPTO_rotl_u32 (r a) s);
          r = r(a := post (r b) (r a))
      in st\<lparr>V := r\<rparr>)"

definition md_init :: "uint32 list \<Rightarrow> md_vars" where
  "md_init state =
     \<lparr>V = (\<lambda>r. case r of VA \<Rightarrow> state ! 0 | VB \<Rightarrow> state ! 1 | VC \<Rightarrow> state ! 2 | VD \<Rightarrow> state ! 3),
      XX = replicate 16 0\<rparr>"

definition md_add_state :: "uint32 list \<Rightarrow> md_vars \<Rightarrow> uint32 list" where
  "md_add_state state s = [state ! 0 + V s VA, state ! 1 + V s VB, state ! 2 + V s VC, state ! 3 + V s VD]"

section \<open>Reference\<close>

type_synonym md_op = "(uint32 \<Rightarrow> uint32 \<Rightarrow> uint32 \<Rightarrow> uint32) \<times> nat \<times> nat \<times> uint32"

fun md_step :: "(uint32 \<Rightarrow> uint32 \<Rightarrow> uint32) \<Rightarrow> uint32 list \<Rightarrow> md_op \<Rightarrow> uint32 list \<Rightarrow> uint32 list" where
  "md_step post M (f, k, s, t) [a, b, c, d] =
     [d, post b (word_rotl s (a + f b c d + M ! k + t)), b, c]"
| "md_step post M _ vs = vs"

definition md_compress ::
  "(uint32 \<Rightarrow> uint32 \<Rightarrow> uint32) \<Rightarrow> md_op list \<Rightarrow> uint32 list \<Rightarrow> uint32 list \<Rightarrow> uint32 list" where
  "md_compress post ops M st = map2 (+) st (fold (md_step post M) ops st)"

definition le_words32 :: "byte list \<Rightarrow> uint32 list" where
  "le_words32 bs = map (\<lambda>t. le_word (take 4 (drop (4 * t) bs))) [0..<16]"

section \<open>Simulation\<close>

definition md_roles :: "nat \<Rightarrow> reg4 list" where
  "md_roles t = [[VA, VB, VC, VD], [VD, VA, VB, VC], [VC, VD, VA, VB], [VB, VC, VD, VA]] ! (t mod 4)"

lemma md_roles_cases:
  obtains a b c d where "md_roles t = [a, b, c, d]" "md_roles (Suc t) = [d, a, b, c]" "distinct [a, b, c, d]"
proof -
  have "t mod 4 < 4" by simp
  then consider "t mod 4 = 0" | "t mod 4 = 1" | "t mod 4 = 2" | "t mod 4 = 3" by linarith
  then have "md_roles t = [md_roles t ! 0, md_roles t ! 1, md_roles t ! 2, md_roles t ! 3] \<and>
    md_roles (Suc t) = [md_roles t ! 3, md_roles t ! 0, md_roles t ! 1, md_roles t ! 2] \<and> distinct (md_roles t)"
    by cases (simp_all add: md_roles_def mod_Suc)
  then show thesis by (metis that)
qed

fun do_op :: "(uint32 \<Rightarrow> uint32 \<Rightarrow> uint32) \<Rightarrow> md_op \<Rightarrow> reg4 list \<Rightarrow> md_vars \<Rightarrow> md_vars" where
  "do_op post (f, k, s, t) [a, b, c, d] = md_round f post a b c d k s t"
| "do_op post _ _ = id"

definition md_view :: "nat \<Rightarrow> md_vars \<Rightarrow> uint32 list" where
  "md_view t s = map (V s) (md_roles t)"

definition shift_ok :: "md_op \<Rightarrow> bool" where
  "shift_ok x = (case x of (f, k, s, t) \<Rightarrow> 0 < s \<and> s < 32)"

lemma do_op_simulates:
  assumes "shift_ok x"
  shows "md_view (Suc t) (do_op post x (md_roles t) st) = md_step post (XX st) x (md_view t st)"
    and "XX (do_op post x (md_roles t) st) = XX st"
proof -
  obtain a b c d where r: "md_roles t = [a, b, c, d]" "md_roles (Suc t) = [d, a, b, c]" "distinct [a, b, c, d]"
    by (rule md_roles_cases)
  obtain f k s u where x: "x = (f, k, s, u)" by (cases x)
  have s: "0 < s" "s < 32" using assms by (simp_all add: shift_ok_def x)
  show "md_view (Suc t) (do_op post x (md_roles t) st) = md_step post (XX st) x (md_view t st)"
    using r by (auto simp: x md_view_def md_round_def Let_def rotl_u32_eq[OF s] add_ac)
  show "XX (do_op post x (md_roles t) st) = XX st"
    by (simp add: x r(1) md_round_def Let_def)
qed

text \<open>The rounds in order, with the roles of each.\<close>

fun do_ops :: "(uint32 \<Rightarrow> uint32 \<Rightarrow> uint32) \<Rightarrow> nat \<Rightarrow> md_op list \<Rightarrow> (md_vars \<Rightarrow> md_vars) list" where
  "do_ops post t [] = []"
| "do_ops post t (x # xs) = do_op post x (md_roles t) # do_ops post (Suc t) xs"

lemma do_ops_simulate:
  "list_all shift_ok xs \<Longrightarrow>
   md_view (t + length xs) (run (do_ops post t xs) st) = fold (md_step post (XX st)) xs (md_view t st)"
proof (induction xs arbitrary: t st)
  case (Cons x xs)
  then show ?case
    using Cons.IH[of "Suc t" "do_op post x (md_roles t) st"] by (simp add: do_op_simulates)
qed simp

text \<open>The same with the roles rotated instead of counted.\<close>

fun rot4 :: "reg4 list \<Rightarrow> reg4 list" where
  "rot4 [a, b, c, d] = [d, a, b, c]"
| "rot4 rs = rs"

fun do_ops_from :: "(uint32 \<Rightarrow> uint32 \<Rightarrow> uint32) \<Rightarrow> reg4 list \<Rightarrow> md_op list \<Rightarrow> (md_vars \<Rightarrow> md_vars) list" where
  "do_ops_from post rs [] = []"
| "do_ops_from post rs (x # xs) = do_op post x rs # do_ops_from post (rot4 rs) xs"

lemma do_ops_eq_from: "do_ops post t xs = do_ops_from post (md_roles t) xs"
proof (induction xs arbitrary: t)
  case (Cons x xs)
  have "md_roles (Suc t) = rot4 (md_roles t)" by (rule md_roles_cases[of t]) simp
  then show ?case using Cons by simp
qed simp

lemma do_ops_0: "do_ops post 0 xs = do_ops_from post [VA, VB, VC, VD] xs"
  by (simp add: do_ops_eq_from md_roles_def)

text \<open>Loads between rounds commute with rounds that use another word.\<close>

lemma LOAD_X_md_round:
  "i \<noteq> k \<Longrightarrow> LOAD_X i w (md_round f post a b c d k s t st) = md_round f post a b c d k s t (LOAD_X i w st)"
  by (simp add: LOAD_X_def md_round_def Let_def)

definition loads :: "uint32 list \<Rightarrow> md_vars \<Rightarrow> md_vars" where
  "loads M s = run (map (\<lambda>k. LOAD_X k (M ! k)) [0..<16]) s"

lemma loads_unfold:
  "loads M s = run [LOAD_X 0 (M ! 0), LOAD_X 1 (M ! 1), LOAD_X 2 (M ! 2), LOAD_X 3 (M ! 3),
     LOAD_X 4 (M ! 4), LOAD_X 5 (M ! 5), LOAD_X 6 (M ! 6), LOAD_X 7 (M ! 7),
     LOAD_X 8 (M ! 8), LOAD_X 9 (M ! 9), LOAD_X 10 (M ! 10), LOAD_X 11 (M ! 11),
     LOAD_X 12 (M ! 12), LOAD_X 13 (M ! 13), LOAD_X 14 (M ! 14), LOAD_X 15 (M ! 15)] s"
proof -
  have "[0..<16] = [0, 1, 2, 3, 4, 5, 6, 7, 8, 9, 10, 11, 12, 13, 14, 15]" by code_simp
  then show ?thesis by (simp add: loads_def)
qed

lemma load_words32:
  "length bs = 64 \<Longrightarrow> t < 16 \<Longrightarrow> CRYPTO_load_u32_le (drop (4 * t) bs) = le_words32 bs ! t"
  by (simp add: CRYPTO_load_u32_le_def le_words32_def)

lemma loads_eq: "length (XX s) = 16 \<Longrightarrow> length M = 16 \<Longrightarrow> loads M s = s\<lparr>XX := M\<rparr>"
proof -
  assume len: "length (XX s) = 16" "length M = 16"
  have "run (map (\<lambda>k. LOAD_X k (M ! k)) [0..<n]) s = s\<lparr>XX := take n M @ drop n (XX s)\<rparr>" if "n \<le> 16" for n
    using that
  proof (induction n)
    case (Suc n)
    then have "(take n M @ drop n (XX s))[n := M ! n] = take (Suc n) M @ drop (Suc n) (XX s)"
      using len by (simp add: list_update_append take_Suc_conv_app_nth Cons_nth_drop_Suc[symmetric])
    then show ?case using Suc by (simp add: LOAD_X_def)
  qed simp
  from this[of 16] show "loads M s = s\<lparr>XX := M\<rparr>" using len by (simp add: loads_def)
qed

lemma md_block_refines:
  assumes "length st = 4" "length M = 16" and "list_all shift_ok xs" "length xs mod 4 = 0"
  shows "md_add_state st (run (do_ops post 0 xs) (loads M (md_init st))) = md_compress post xs M st"
proof -
  obtain a b c d where st: "st = [a, b, c, d]" using assms(1) by (auto simp: length_Suc_conv eval_nat_numeral)
  have "loads M (md_init st) = (md_init st)\<lparr>XX := M\<rparr>" using assms(2) by (simp add: loads_eq md_init_def)
  then have "md_view (length xs) (run (do_ops post 0 xs) (loads M (md_init st))) = fold (md_step post M) xs st"
    using do_ops_simulate[OF assms(3), of 0 post "loads M (md_init st)"]
    by (simp add: md_view_def md_roles_def md_init_def st)
  moreover have "md_roles (length xs) = [VA, VB, VC, VD]" using assms(4) by (simp add: md_roles_def)
  then have "md_add_state st s = map2 (+) st (md_view (length xs) s)" for s
    by (simp add: md_add_state_def md_view_def st)
  ultimately show ?thesis by (simp add: md_compress_def)
qed

end
