(* ===== verification/Md5.thy ===== *)
theory Md5
  imports Md_Rounds
begin

text \<open>
  MD5, \<^verbatim>\<open>BoringSSL-GRPC/src/crypto/fipsmodule/md5/md5.c\<close> (the portable block function),
  against the tables of RFC 1321.
\<close>

definition md5_F :: "uint32 \<Rightarrow> uint32 \<Rightarrow> uint32 \<Rightarrow> uint32" where
  "md5_F b c d = ((c XOR d) AND b) XOR d"

definition md5_G :: "uint32 \<Rightarrow> uint32 \<Rightarrow> uint32 \<Rightarrow> uint32" where
  "md5_G b c d = ((b XOR c) AND d) XOR c"

definition md5_H :: "uint32 \<Rightarrow> uint32 \<Rightarrow> uint32 \<Rightarrow> uint32" where
  "md5_H b c d = b XOR c XOR d"

definition md5_I :: "uint32 \<Rightarrow> uint32 \<Rightarrow> uint32 \<Rightarrow> uint32" where
  "md5_I b c d = (NOT d OR b) XOR c"

text \<open>\<open>(a) += (b)\<close>, the end of every round macro\<close>

definition md5_post :: "uint32 \<Rightarrow> uint32 \<Rightarrow> uint32" where
  "md5_post b a = a + b"

definition md5_R0 :: "reg4 \<Rightarrow> reg4 \<Rightarrow> reg4 \<Rightarrow> reg4 \<Rightarrow> nat \<Rightarrow> nat \<Rightarrow> uint32 \<Rightarrow> md_vars \<Rightarrow> md_vars" where
  "md5_R0 = md_round md5_F md5_post"

definition md5_R1 :: "reg4 \<Rightarrow> reg4 \<Rightarrow> reg4 \<Rightarrow> reg4 \<Rightarrow> nat \<Rightarrow> nat \<Rightarrow> uint32 \<Rightarrow> md_vars \<Rightarrow> md_vars" where
  "md5_R1 = md_round md5_G md5_post"

definition md5_R2 :: "reg4 \<Rightarrow> reg4 \<Rightarrow> reg4 \<Rightarrow> reg4 \<Rightarrow> nat \<Rightarrow> nat \<Rightarrow> uint32 \<Rightarrow> md_vars \<Rightarrow> md_vars" where
  "md5_R2 = md_round md5_H md5_post"

definition md5_R3 :: "reg4 \<Rightarrow> reg4 \<Rightarrow> reg4 \<Rightarrow> reg4 \<Rightarrow> nat \<Rightarrow> nat \<Rightarrow> uint32 \<Rightarrow> md_vars \<Rightarrow> md_vars" where
  "md5_R3 = md_round md5_I md5_post"

definition md5_program :: "byte list \<Rightarrow> (md_vars \<Rightarrow> md_vars) list" where
  "md5_program inp =
     [LOAD_X 0 (CRYPTO_load_u32_le inp), LOAD_X 1 (CRYPTO_load_u32_le (drop 4 inp)),
      md5_R0 VA VB VC VD 0 7 0xd76aa478, LOAD_X 2 (CRYPTO_load_u32_le (drop 8 inp)),
      md5_R0 VD VA VB VC 1 12 0xe8c7b756, LOAD_X 3 (CRYPTO_load_u32_le (drop 12 inp)),
      md5_R0 VC VD VA VB 2 17 0x242070db, LOAD_X 4 (CRYPTO_load_u32_le (drop 16 inp)),
      md5_R0 VB VC VD VA 3 22 0xc1bdceee, LOAD_X 5 (CRYPTO_load_u32_le (drop 20 inp)),
      md5_R0 VA VB VC VD 4 7 0xf57c0faf, LOAD_X 6 (CRYPTO_load_u32_le (drop 24 inp)),
      md5_R0 VD VA VB VC 5 12 0x4787c62a, LOAD_X 7 (CRYPTO_load_u32_le (drop 28 inp)),
      md5_R0 VC VD VA VB 6 17 0xa8304613, LOAD_X 8 (CRYPTO_load_u32_le (drop 32 inp)),
      md5_R0 VB VC VD VA 7 22 0xfd469501, LOAD_X 9 (CRYPTO_load_u32_le (drop 36 inp)),
      md5_R0 VA VB VC VD 8 7 0x698098d8, LOAD_X 10 (CRYPTO_load_u32_le (drop 40 inp)),
      md5_R0 VD VA VB VC 9 12 0x8b44f7af, LOAD_X 11 (CRYPTO_load_u32_le (drop 44 inp)),
      md5_R0 VC VD VA VB 10 17 0xffff5bb1, LOAD_X 12 (CRYPTO_load_u32_le (drop 48 inp)),
      md5_R0 VB VC VD VA 11 22 0x895cd7be, LOAD_X 13 (CRYPTO_load_u32_le (drop 52 inp)),
      md5_R0 VA VB VC VD 12 7 0x6b901122, LOAD_X 14 (CRYPTO_load_u32_le (drop 56 inp)),
      md5_R0 VD VA VB VC 13 12 0xfd987193, LOAD_X 15 (CRYPTO_load_u32_le (drop 60 inp)),
      md5_R0 VC VD VA VB 14 17 0xa679438e, md5_R0 VB VC VD VA 15 22 0x49b40821,
      md5_R1 VA VB VC VD 1 5 0xf61e2562, md5_R1 VD VA VB VC 6 9 0xc040b340,
      md5_R1 VC VD VA VB 11 14 0x265e5a51, md5_R1 VB VC VD VA 0 20 0xe9b6c7aa,
      md5_R1 VA VB VC VD 5 5 0xd62f105d, md5_R1 VD VA VB VC 10 9 0x02441453,
      md5_R1 VC VD VA VB 15 14 0xd8a1e681, md5_R1 VB VC VD VA 4 20 0xe7d3fbc8,
      md5_R1 VA VB VC VD 9 5 0x21e1cde6, md5_R1 VD VA VB VC 14 9 0xc33707d6,
      md5_R1 VC VD VA VB 3 14 0xf4d50d87, md5_R1 VB VC VD VA 8 20 0x455a14ed,
      md5_R1 VA VB VC VD 13 5 0xa9e3e905, md5_R1 VD VA VB VC 2 9 0xfcefa3f8,
      md5_R1 VC VD VA VB 7 14 0x676f02d9, md5_R1 VB VC VD VA 12 20 0x8d2a4c8a,
      md5_R2 VA VB VC VD 5 4 0xfffa3942, md5_R2 VD VA VB VC 8 11 0x8771f681,
      md5_R2 VC VD VA VB 11 16 0x6d9d6122, md5_R2 VB VC VD VA 14 23 0xfde5380c,
      md5_R2 VA VB VC VD 1 4 0xa4beea44, md5_R2 VD VA VB VC 4 11 0x4bdecfa9,
      md5_R2 VC VD VA VB 7 16 0xf6bb4b60, md5_R2 VB VC VD VA 10 23 0xbebfbc70,
      md5_R2 VA VB VC VD 13 4 0x289b7ec6, md5_R2 VD VA VB VC 0 11 0xeaa127fa,
      md5_R2 VC VD VA VB 3 16 0xd4ef3085, md5_R2 VB VC VD VA 6 23 0x04881d05,
      md5_R2 VA VB VC VD 9 4 0xd9d4d039, md5_R2 VD VA VB VC 12 11 0xe6db99e5,
      md5_R2 VC VD VA VB 15 16 0x1fa27cf8, md5_R2 VB VC VD VA 2 23 0xc4ac5665,
      md5_R3 VA VB VC VD 0 6 0xf4292244, md5_R3 VD VA VB VC 7 10 0x432aff97,
      md5_R3 VC VD VA VB 14 15 0xab9423a7, md5_R3 VB VC VD VA 5 21 0xfc93a039,
      md5_R3 VA VB VC VD 12 6 0x655b59c3, md5_R3 VD VA VB VC 3 10 0x8f0ccc92,
      md5_R3 VC VD VA VB 10 15 0xffeff47d, md5_R3 VB VC VD VA 1 21 0x85845dd1,
      md5_R3 VA VB VC VD 8 6 0x6fa87e4f, md5_R3 VD VA VB VC 15 10 0xfe2ce6e0,
      md5_R3 VC VD VA VB 6 15 0xa3014314, md5_R3 VB VC VD VA 13 21 0x4e0811a1,
      md5_R3 VA VB VC VD 4 6 0xf7537e82, md5_R3 VD VA VB VC 11 10 0xbd3af235,
      md5_R3 VC VD VA VB 2 15 0x2ad7d2bb, md5_R3 VB VC VD VA 9 21 0xeb86d391]"

text \<open>One iteration of the loop over blocks; the message words are stored to before they are read.\<close>

definition md5_block :: "uint32 list \<Rightarrow> byte list \<Rightarrow> uint32 list" where
  "md5_block state inp = md_add_state state (run (md5_program inp) (md_init state))"

primrec md5_block_data_order :: "uint32 list \<Rightarrow> byte list \<Rightarrow> nat \<Rightarrow> uint32 list" where
  "md5_block_data_order state inp 0 = state"
| "md5_block_data_order state inp (Suc n) =
     md5_block_data_order (md5_block state (take 64 inp)) (drop 64 inp) n"

definition MD5_Init :: md32_ctx where
  "MD5_Init =
     \<lparr>h = [0x67452301, 0xefcdab89, 0x98badcfe, 0x10325476],
      Nl = 0, Nh = 0, data = replicate 64 0, num = 0\<rparr>"

definition MD5_Transform :: "md32_ctx \<Rightarrow> byte list \<Rightarrow> md32_ctx" where
  "MD5_Transform c inp = c\<lparr>h := md5_block_data_order (h c) inp 1\<rparr>"

definition MD5_Update :: "md32_ctx \<Rightarrow> byte list \<Rightarrow> md32_ctx" where
  "MD5_Update c inp = crypto_md32_update md5_block_data_order 64 c inp"

definition MD5_Final :: "md32_ctx \<Rightarrow> byte list \<times> md32_ctx" where
  "MD5_Final c0 =
     (let c = crypto_md32_final md5_block_data_order 64 False c0
      in (CRYPTO_store_u32_le (h c ! 0) @ CRYPTO_store_u32_le (h c ! 1) @
          CRYPTO_store_u32_le (h c ! 2) @ CRYPTO_store_u32_le (h c ! 3), c))"

definition MD5 :: "byte list \<Rightarrow> byte list" where
  "MD5 inp = fst (MD5_Final (MD5_Update MD5_Init inp))"

section \<open>The block function is the compression of RFC 1321\<close>

definition md5_T :: "uint32 list" where
  "md5_T =
     [0xd76aa478, 0xe8c7b756, 0x242070db, 0xc1bdceee, 0xf57c0faf, 0x4787c62a, 0xa8304613, 0xfd469501,
      0x698098d8, 0x8b44f7af, 0xffff5bb1, 0x895cd7be, 0x6b901122, 0xfd987193, 0xa679438e, 0x49b40821,
      0xf61e2562, 0xc040b340, 0x265e5a51, 0xe9b6c7aa, 0xd62f105d, 0x02441453, 0xd8a1e681, 0xe7d3fbc8,
      0x21e1cde6, 0xc33707d6, 0xf4d50d87, 0x455a14ed, 0xa9e3e905, 0xfcefa3f8, 0x676f02d9, 0x8d2a4c8a,
      0xfffa3942, 0x8771f681, 0x6d9d6122, 0xfde5380c, 0xa4beea44, 0x4bdecfa9, 0xf6bb4b60, 0xbebfbc70,
      0x289b7ec6, 0xeaa127fa, 0xd4ef3085, 0x04881d05, 0xd9d4d039, 0xe6db99e5, 0x1fa27cf8, 0xc4ac5665,
      0xf4292244, 0x432aff97, 0xab9423a7, 0xfc93a039, 0x655b59c3, 0x8f0ccc92, 0xffeff47d, 0x85845dd1,
      0x6fa87e4f, 0xfe2ce6e0, 0xa3014314, 0x4e0811a1, 0xf7537e82, 0xbd3af235, 0x2ad7d2bb, 0xeb86d391]"

definition rfc1321_F :: "uint32 \<Rightarrow> uint32 \<Rightarrow> uint32 \<Rightarrow> uint32" where
  "rfc1321_F x y z = (x AND y) OR (NOT x AND z)"

definition rfc1321_G :: "uint32 \<Rightarrow> uint32 \<Rightarrow> uint32 \<Rightarrow> uint32" where
  "rfc1321_G x y z = (x AND z) OR (y AND NOT z)"

definition rfc1321_H :: "uint32 \<Rightarrow> uint32 \<Rightarrow> uint32 \<Rightarrow> uint32" where
  "rfc1321_H x y z = x XOR y XOR z"

definition rfc1321_I :: "uint32 \<Rightarrow> uint32 \<Rightarrow> uint32 \<Rightarrow> uint32" where
  "rfc1321_I x y z = y XOR (x OR NOT z)"

text \<open>Operation \<open>i\<close>: boolean function, word index, shift and constant.\<close>

definition md5_op :: "nat \<Rightarrow> md_op" where
  "md5_op i =
     (if i < 16 then (rfc1321_F, i, [7, 12, 17, 22] ! (i mod 4), md5_T ! i)
      else if i < 32 then (rfc1321_G, (5 * i + 1) mod 16, [5, 9, 14, 20] ! (i mod 4), md5_T ! i)
      else if i < 48 then (rfc1321_H, (3 * i + 5) mod 16, [4, 11, 16, 23] ! (i mod 4), md5_T ! i)
      else (rfc1321_I, 7 * i mod 16, [6, 10, 15, 21] ! (i mod 4), md5_T ! i))"

definition md5_ops :: "md_op list" where
  "md5_ops = map md5_op [0..<64]"

text \<open>The sum with the old value of \<open>b\<close> that ends an operation.\<close>

definition rfc1321_sum :: "uint32 \<Rightarrow> uint32 \<Rightarrow> uint32" where
  "rfc1321_sum b x = b + x"

lemma rfc1321_functions: "rfc1321_F = md5_F" "rfc1321_G = md5_G" "rfc1321_H = md5_H" "rfc1321_I = md5_I" "rfc1321_sum = md5_post"
  by (simp_all add: fun_eq_iff rfc1321_sum_def md5_post_def add.commute)
    (auto intro!: bit_word_eqI simp: rfc1321_F_def rfc1321_G_def rfc1321_H_def rfc1321_I_def md5_F_def md5_G_def
      md5_H_def md5_I_def bit_simps)

lemmas md5_macros = md5_R0_def md5_R1_def md5_R2_def md5_R3_def

lemma md5_ops_eval:
  "md5_ops =
     [(md5_F, 0, 7, 0xd76aa478), (md5_F, 1, 12, 0xe8c7b756), (md5_F, 2, 17, 0x242070db), (md5_F, 3, 22, 0xc1bdceee),
      (md5_F, 4, 7, 0xf57c0faf), (md5_F, 5, 12, 0x4787c62a), (md5_F, 6, 17, 0xa8304613), (md5_F, 7, 22, 0xfd469501),
      (md5_F, 8, 7, 0x698098d8), (md5_F, 9, 12, 0x8b44f7af), (md5_F, 10, 17, 0xffff5bb1), (md5_F, 11, 22, 0x895cd7be),
      (md5_F, 12, 7, 0x6b901122), (md5_F, 13, 12, 0xfd987193), (md5_F, 14, 17, 0xa679438e), (md5_F, 15, 22, 0x49b40821),
      (md5_G, 1, 5, 0xf61e2562), (md5_G, 6, 9, 0xc040b340), (md5_G, 11, 14, 0x265e5a51), (md5_G, 0, 20, 0xe9b6c7aa),
      (md5_G, 5, 5, 0xd62f105d), (md5_G, 10, 9, 0x02441453), (md5_G, 15, 14, 0xd8a1e681), (md5_G, 4, 20, 0xe7d3fbc8),
      (md5_G, 9, 5, 0x21e1cde6), (md5_G, 14, 9, 0xc33707d6), (md5_G, 3, 14, 0xf4d50d87), (md5_G, 8, 20, 0x455a14ed),
      (md5_G, 13, 5, 0xa9e3e905), (md5_G, 2, 9, 0xfcefa3f8), (md5_G, 7, 14, 0x676f02d9), (md5_G, 12, 20, 0x8d2a4c8a),
      (md5_H, 5, 4, 0xfffa3942), (md5_H, 8, 11, 0x8771f681), (md5_H, 11, 16, 0x6d9d6122), (md5_H, 14, 23, 0xfde5380c),
      (md5_H, 1, 4, 0xa4beea44), (md5_H, 4, 11, 0x4bdecfa9), (md5_H, 7, 16, 0xf6bb4b60), (md5_H, 10, 23, 0xbebfbc70),
      (md5_H, 13, 4, 0x289b7ec6), (md5_H, 0, 11, 0xeaa127fa), (md5_H, 3, 16, 0xd4ef3085), (md5_H, 6, 23, 0x04881d05),
      (md5_H, 9, 4, 0xd9d4d039), (md5_H, 12, 11, 0xe6db99e5), (md5_H, 15, 16, 0x1fa27cf8), (md5_H, 2, 23, 0xc4ac5665),
      (md5_I, 0, 6, 0xf4292244), (md5_I, 7, 10, 0x432aff97), (md5_I, 14, 15, 0xab9423a7), (md5_I, 5, 21, 0xfc93a039),
      (md5_I, 12, 6, 0x655b59c3), (md5_I, 3, 10, 0x8f0ccc92), (md5_I, 10, 15, 0xffeff47d), (md5_I, 1, 21, 0x85845dd1),
      (md5_I, 8, 6, 0x6fa87e4f), (md5_I, 15, 10, 0xfe2ce6e0), (md5_I, 6, 15, 0xa3014314), (md5_I, 13, 21, 0x4e0811a1),
      (md5_I, 4, 6, 0xf7537e82), (md5_I, 11, 10, 0xbd3af235), (md5_I, 2, 15, 0x2ad7d2bb), (md5_I, 9, 21, 0xeb86d391)]"
proof -
  have "[0..<64] = map (\<lambda>k. k) [0, 1, 2, 3, 4, 5, 6, 7, 8, 9, 10, 11, 12, 13, 14, 15, 16, 17, 18, 19, 20, 21,
      22, 23, 24, 25, 26, 27, 28, 29, 30, 31, 32, 33, 34, 35, 36, 37, 38, 39, 40, 41, 42, 43, 44, 45, 46, 47,
      48, 49, 50, 51, 52, 53, 54, 55, 56, 57, 58, 59, 60, 61, 62, 63]" by code_simp
  then show ?thesis by (simp add: md5_ops_def md5_op_def md5_T_def rfc1321_functions)
qed

lemma md5_ops_shifts: "list_all shift_ok md5_ops" "length md5_ops mod 4 = 0"
  by (simp_all add: md5_ops_eval shift_ok_def)

lemma md5_program_eq:
  assumes "length bs = 64"
  shows "run (md5_program bs) s = run (do_ops md5_post 0 md5_ops) (loads (le_words32 bs) s)"
proof -
  note l = load_words32[OF assms]
  show ?thesis
    using l[of 0] l[of 1] l[of 2] l[of 3] l[of 4] l[of 5] l[of 6] l[of 7] l[of 8] l[of 9] l[of 10]
      l[of 11] l[of 12] l[of 13] l[of 14] l[of 15]
    unfolding do_ops_0
    by (simp add: md5_program_def md5_ops_eval loads_unfold md5_macros LOAD_X_md_round)
qed

definition md5_spec :: "byte list \<Rightarrow> byte list" where
  "md5_spec msg = concat (map (le_bytes 4)
     (md_spec (\<lambda>bs. md_compress rfc1321_sum md5_ops (le_words32 bs)) False
        [0x67452301, 0xefcdab89, 0x98badcfe, 0x10325476] msg))"

lemma md5_block_compress:
  assumes "length bs = 64" and "length st = 4"
  shows "md5_block st bs = md_compress rfc1321_sum md5_ops (le_words32 bs) st \<and>
    length (md_compress rfc1321_sum md5_ops (le_words32 bs) st) = 4"
proof -
  have "md5_block st bs = md_compress rfc1321_sum md5_ops (le_words32 bs) st"
    using md_block_refines[OF assms(2) _ md5_ops_shifts, of "le_words32 bs" md5_post]
    unfolding rfc1321_functions(5)
    by (simp add: md5_block_def md5_program_eq[OF assms(1)] le_words32_def)
  moreover have "length (md5_block st bs) = 4" by (simp add: md5_block_def md_add_state_def)
  ultimately show ?thesis by simp
qed

interpretation md5: md32_digest md5_block_data_order "\<lambda>bs st. md5_block st bs"
proof unfold_locales
  fix k :: nat and bs :: "byte list" and st :: "uint32 list"
  assume "64 * k \<le> length bs"
  then show "md5_block_data_order st bs k = fold (\<lambda>bs st. md5_block st bs) (blocks 64 (take (64 * k) bs)) st"
    by (rule block_loop[rotated -1]) simp_all
qed

lemma md5_final_fold: "fst (MD5_Final (fold (\<lambda>xs c. MD5_Update c xs) xss MD5_Init)) = md5_spec (concat xss)"
proof -
  let ?f = "\<lambda>bs. md_compress rfc1321_sum md5_ops (le_words32 bs)"
  have i: "md32_inv 64 MD5_Init" "num MD5_Init = 0" "md32_bits MD5_Init = 0" "length (h MD5_Init) = 4"
    by (simp_all add: MD5_Init_def md32_inv_def md32_bits_def)
  have e: "md_spec (\<lambda>bs st. md5_block st bs) False (h MD5_Init) m = md_spec ?f False (h MD5_Init) m"
    and len: "length (md_spec ?f False (h MD5_Init) m) = 4" for m
    unfolding md_spec_def
    by (rule fold_blocks_cong[where P = "\<lambda>st. length st = 4"], erule (1) md5_block_compress, rule i(4))+
  have out: "CRYPTO_store_u32_le (ws ! 0) @ CRYPTO_store_u32_le (ws ! 1) @ CRYPTO_store_u32_le (ws ! 2) @
      CRYPTO_store_u32_le (ws ! 3) = concat (map (le_bytes 4) ws)" if "length ws = 4" for ws
    using that by (auto simp: length_Suc_conv eval_nat_numeral CRYPTO_store_u32_le_def)
  show ?thesis
    using md5.digest_eq_spec[OF i(1-3), of False xss] out[OF len, of "concat xss"] e
    by (simp add: MD5_Final_def MD5_Update_def Let_def md5_spec_def) (simp add: MD5_Init_def)
qed

text \<open>
  However the input is cut into updates after \<open>MD5_Init\<close>, \<open>MD5_Final\<close> delivers the MD5
  digest of the concatenated input (the little-endian words of the padded iteration of
  the compression of the RFC), and the one-shot \<open>MD5\<close> does too.
\<close>

theorem md5_digest_correct:
  "fst (MD5_Final (fold (\<lambda>xs c. MD5_Update c xs) xss MD5_Init)) = md5_spec (concat xss) \<and>
   MD5 msg = md5_spec msg"
  using md5_final_fold[of xss] md5_final_fold[of "[msg]"] by (simp add: MD5_def)

end
