(* ===== verification/Md4.thy ===== *)
theory Md4
  imports Md_Rounds
begin

text \<open>
  MD4, \<^verbatim>\<open>BoringSSL-GRPC/src/crypto/fipsmodule/md4/md4.c\<close>, against the tables of RFC 1320.
\<close>

definition md4_F :: "uint32 \<Rightarrow> uint32 \<Rightarrow> uint32 \<Rightarrow> uint32" where
  "md4_F b c d = ((c XOR d) AND b) XOR d"

definition md4_G :: "uint32 \<Rightarrow> uint32 \<Rightarrow> uint32 \<Rightarrow> uint32" where
  "md4_G b c d = (b AND c) OR (b AND d) OR (c AND d)"

definition md4_H :: "uint32 \<Rightarrow> uint32 \<Rightarrow> uint32 \<Rightarrow> uint32" where
  "md4_H b c d = b XOR c XOR d"

text \<open>The round macros end with the rotation.\<close>

definition md4_post :: "uint32 \<Rightarrow> uint32 \<Rightarrow> uint32" where
  "md4_post b a = a"

definition md4_R0 :: "reg4 \<Rightarrow> reg4 \<Rightarrow> reg4 \<Rightarrow> reg4 \<Rightarrow> nat \<Rightarrow> nat \<Rightarrow> uint32 \<Rightarrow> md_vars \<Rightarrow> md_vars" where
  "md4_R0 = md_round md4_F md4_post"

definition md4_R1 :: "reg4 \<Rightarrow> reg4 \<Rightarrow> reg4 \<Rightarrow> reg4 \<Rightarrow> nat \<Rightarrow> nat \<Rightarrow> uint32 \<Rightarrow> md_vars \<Rightarrow> md_vars" where
  "md4_R1 = md_round md4_G md4_post"

definition md4_R2 :: "reg4 \<Rightarrow> reg4 \<Rightarrow> reg4 \<Rightarrow> reg4 \<Rightarrow> nat \<Rightarrow> nat \<Rightarrow> uint32 \<Rightarrow> md_vars \<Rightarrow> md_vars" where
  "md4_R2 = md_round md4_H md4_post"

definition md4_program :: "byte list \<Rightarrow> (md_vars \<Rightarrow> md_vars) list" where
  "md4_program inp =
     [LOAD_X 0 (CRYPTO_load_u32_le inp), LOAD_X 1 (CRYPTO_load_u32_le (drop 4 inp)),
      md4_R0 VA VB VC VD 0 3 0, LOAD_X 2 (CRYPTO_load_u32_le (drop 8 inp)),
      md4_R0 VD VA VB VC 1 7 0, LOAD_X 3 (CRYPTO_load_u32_le (drop 12 inp)),
      md4_R0 VC VD VA VB 2 11 0, LOAD_X 4 (CRYPTO_load_u32_le (drop 16 inp)),
      md4_R0 VB VC VD VA 3 19 0, LOAD_X 5 (CRYPTO_load_u32_le (drop 20 inp)),
      md4_R0 VA VB VC VD 4 3 0, LOAD_X 6 (CRYPTO_load_u32_le (drop 24 inp)),
      md4_R0 VD VA VB VC 5 7 0, LOAD_X 7 (CRYPTO_load_u32_le (drop 28 inp)),
      md4_R0 VC VD VA VB 6 11 0, LOAD_X 8 (CRYPTO_load_u32_le (drop 32 inp)),
      md4_R0 VB VC VD VA 7 19 0, LOAD_X 9 (CRYPTO_load_u32_le (drop 36 inp)),
      md4_R0 VA VB VC VD 8 3 0, LOAD_X 10 (CRYPTO_load_u32_le (drop 40 inp)),
      md4_R0 VD VA VB VC 9 7 0, LOAD_X 11 (CRYPTO_load_u32_le (drop 44 inp)),
      md4_R0 VC VD VA VB 10 11 0, LOAD_X 12 (CRYPTO_load_u32_le (drop 48 inp)),
      md4_R0 VB VC VD VA 11 19 0, LOAD_X 13 (CRYPTO_load_u32_le (drop 52 inp)),
      md4_R0 VA VB VC VD 12 3 0, LOAD_X 14 (CRYPTO_load_u32_le (drop 56 inp)),
      md4_R0 VD VA VB VC 13 7 0, LOAD_X 15 (CRYPTO_load_u32_le (drop 60 inp)),
      md4_R0 VC VD VA VB 14 11 0, md4_R0 VB VC VD VA 15 19 0,
      md4_R1 VA VB VC VD 0 3 0x5a827999, md4_R1 VD VA VB VC 4 5 0x5a827999,
      md4_R1 VC VD VA VB 8 9 0x5a827999, md4_R1 VB VC VD VA 12 13 0x5a827999,
      md4_R1 VA VB VC VD 1 3 0x5a827999, md4_R1 VD VA VB VC 5 5 0x5a827999,
      md4_R1 VC VD VA VB 9 9 0x5a827999, md4_R1 VB VC VD VA 13 13 0x5a827999,
      md4_R1 VA VB VC VD 2 3 0x5a827999, md4_R1 VD VA VB VC 6 5 0x5a827999,
      md4_R1 VC VD VA VB 10 9 0x5a827999, md4_R1 VB VC VD VA 14 13 0x5a827999,
      md4_R1 VA VB VC VD 3 3 0x5a827999, md4_R1 VD VA VB VC 7 5 0x5a827999,
      md4_R1 VC VD VA VB 11 9 0x5a827999, md4_R1 VB VC VD VA 15 13 0x5a827999,
      md4_R2 VA VB VC VD 0 3 0x6ed9eba1, md4_R2 VD VA VB VC 8 9 0x6ed9eba1,
      md4_R2 VC VD VA VB 4 11 0x6ed9eba1, md4_R2 VB VC VD VA 12 15 0x6ed9eba1,
      md4_R2 VA VB VC VD 2 3 0x6ed9eba1, md4_R2 VD VA VB VC 10 9 0x6ed9eba1,
      md4_R2 VC VD VA VB 6 11 0x6ed9eba1, md4_R2 VB VC VD VA 14 15 0x6ed9eba1,
      md4_R2 VA VB VC VD 1 3 0x6ed9eba1, md4_R2 VD VA VB VC 9 9 0x6ed9eba1,
      md4_R2 VC VD VA VB 5 11 0x6ed9eba1, md4_R2 VB VC VD VA 13 15 0x6ed9eba1,
      md4_R2 VA VB VC VD 3 3 0x6ed9eba1, md4_R2 VD VA VB VC 11 9 0x6ed9eba1,
      md4_R2 VC VD VA VB 7 11 0x6ed9eba1, md4_R2 VB VC VD VA 15 15 0x6ed9eba1]"

text \<open>One iteration of the loop over blocks; the message words are stored to before they are read.\<close>

definition md4_block :: "uint32 list \<Rightarrow> byte list \<Rightarrow> uint32 list" where
  "md4_block state inp = md_add_state state (run (md4_program inp) (md_init state))"

primrec md4_block_data_order :: "uint32 list \<Rightarrow> byte list \<Rightarrow> nat \<Rightarrow> uint32 list" where
  "md4_block_data_order state inp 0 = state"
| "md4_block_data_order state inp (Suc n) =
     md4_block_data_order (md4_block state (take 64 inp)) (drop 64 inp) n"

definition MD4_Init :: md32_ctx where
  "MD4_Init =
     \<lparr>h = [0x67452301, 0xefcdab89, 0x98badcfe, 0x10325476],
      Nl = 0, Nh = 0, data = replicate 64 0, num = 0\<rparr>"

definition MD4_Transform :: "md32_ctx \<Rightarrow> byte list \<Rightarrow> md32_ctx" where
  "MD4_Transform c inp = c\<lparr>h := md4_block_data_order (h c) inp 1\<rparr>"

definition MD4_Update :: "md32_ctx \<Rightarrow> byte list \<Rightarrow> md32_ctx" where
  "MD4_Update c inp = crypto_md32_update md4_block_data_order 64 c inp"

definition MD4_Final :: "md32_ctx \<Rightarrow> byte list \<times> md32_ctx" where
  "MD4_Final c0 =
     (let c = crypto_md32_final md4_block_data_order 64 False c0
      in (CRYPTO_store_u32_le (h c ! 0) @ CRYPTO_store_u32_le (h c ! 1) @
          CRYPTO_store_u32_le (h c ! 2) @ CRYPTO_store_u32_le (h c ! 3), c))"

definition MD4 :: "byte list \<Rightarrow> byte list" where
  "MD4 inp = fst (MD4_Final (MD4_Update MD4_Init inp))"

section \<open>The block function is the compression of RFC 1320\<close>

definition rfc1320_F :: "uint32 \<Rightarrow> uint32 \<Rightarrow> uint32 \<Rightarrow> uint32" where
  "rfc1320_F x y z = (x AND y) OR (NOT x AND z)"

definition rfc1320_G :: "uint32 \<Rightarrow> uint32 \<Rightarrow> uint32 \<Rightarrow> uint32" where
  "rfc1320_G x y z = (x AND y) OR (x AND z) OR (y AND z)"

definition rfc1320_H :: "uint32 \<Rightarrow> uint32 \<Rightarrow> uint32 \<Rightarrow> uint32" where
  "rfc1320_H x y z = x XOR y XOR z"

text \<open>Operation \<open>i\<close>: boolean function, word index, shift and constant.\<close>

definition md4_op :: "nat \<Rightarrow> md_op" where
  "md4_op i =
     (if i < 16 then (rfc1320_F, i, [3, 7, 11, 19] ! (i mod 4), 0)
      else if i < 32 then (rfc1320_G, (4 * (i mod 4) + (i - 16) div 4), [3, 5, 9, 13] ! (i mod 4), 0x5a827999)
      else (rfc1320_H, [0, 8, 4, 12, 2, 10, 6, 14, 1, 9, 5, 13, 3, 11, 7, 15] ! (i - 32),
            [3, 9, 11, 15] ! (i mod 4), 0x6ed9eba1))"

definition md4_ops :: "md_op list" where
  "md4_ops = map md4_op [0..<48]"

text \<open>Nothing is added after the rotation.\<close>

definition rfc1320_end :: "uint32 \<Rightarrow> uint32 \<Rightarrow> uint32" where
  "rfc1320_end b x = x"

lemma rfc1320_functions: "rfc1320_F = md4_F" "rfc1320_G = md4_G" "rfc1320_H = md4_H" "rfc1320_end = md4_post"
  by (simp_all add: fun_eq_iff rfc1320_end_def md4_post_def)
    (auto intro!: bit_word_eqI simp: rfc1320_F_def rfc1320_G_def rfc1320_H_def md4_F_def md4_G_def md4_H_def bit_simps)

lemmas md4_macros = md4_R0_def md4_R1_def md4_R2_def

lemma md4_ops_eval:
  "md4_ops =
     [(md4_F, 0, 3, 0), (md4_F, 1, 7, 0), (md4_F, 2, 11, 0), (md4_F, 3, 19, 0),
      (md4_F, 4, 3, 0), (md4_F, 5, 7, 0), (md4_F, 6, 11, 0), (md4_F, 7, 19, 0),
      (md4_F, 8, 3, 0), (md4_F, 9, 7, 0), (md4_F, 10, 11, 0), (md4_F, 11, 19, 0),
      (md4_F, 12, 3, 0), (md4_F, 13, 7, 0), (md4_F, 14, 11, 0), (md4_F, 15, 19, 0),
      (md4_G, 0, 3, 0x5a827999), (md4_G, 4, 5, 0x5a827999), (md4_G, 8, 9, 0x5a827999), (md4_G, 12, 13, 0x5a827999),
      (md4_G, 1, 3, 0x5a827999), (md4_G, 5, 5, 0x5a827999), (md4_G, 9, 9, 0x5a827999), (md4_G, 13, 13, 0x5a827999),
      (md4_G, 2, 3, 0x5a827999), (md4_G, 6, 5, 0x5a827999), (md4_G, 10, 9, 0x5a827999), (md4_G, 14, 13, 0x5a827999),
      (md4_G, 3, 3, 0x5a827999), (md4_G, 7, 5, 0x5a827999), (md4_G, 11, 9, 0x5a827999), (md4_G, 15, 13, 0x5a827999),
      (md4_H, 0, 3, 0x6ed9eba1), (md4_H, 8, 9, 0x6ed9eba1), (md4_H, 4, 11, 0x6ed9eba1), (md4_H, 12, 15, 0x6ed9eba1),
      (md4_H, 2, 3, 0x6ed9eba1), (md4_H, 10, 9, 0x6ed9eba1), (md4_H, 6, 11, 0x6ed9eba1), (md4_H, 14, 15, 0x6ed9eba1),
      (md4_H, 1, 3, 0x6ed9eba1), (md4_H, 9, 9, 0x6ed9eba1), (md4_H, 5, 11, 0x6ed9eba1), (md4_H, 13, 15, 0x6ed9eba1),
      (md4_H, 3, 3, 0x6ed9eba1), (md4_H, 11, 9, 0x6ed9eba1), (md4_H, 7, 11, 0x6ed9eba1), (md4_H, 15, 15, 0x6ed9eba1)]"
proof -
  have "[0..<48] = map (\<lambda>k. k) [0, 1, 2, 3, 4, 5, 6, 7, 8, 9, 10, 11, 12, 13, 14, 15, 16, 17, 18, 19, 20, 21,
      22, 23, 24, 25, 26, 27, 28, 29, 30, 31, 32, 33, 34, 35, 36, 37, 38, 39, 40, 41, 42, 43, 44, 45, 46, 47]"
    by code_simp
  then show ?thesis by (simp add: md4_ops_def md4_op_def rfc1320_functions)
qed

lemma md4_ops_shifts: "list_all shift_ok md4_ops" "length md4_ops mod 4 = 0"
  by (simp_all add: md4_ops_eval shift_ok_def)

lemma md4_program_eq:
  assumes "length bs = 64"
  shows "run (md4_program bs) s = run (do_ops md4_post 0 md4_ops) (loads (le_words32 bs) s)"
proof -
  note l = load_words32[OF assms]
  show ?thesis
    using l[of 0] l[of 1] l[of 2] l[of 3] l[of 4] l[of 5] l[of 6] l[of 7] l[of 8] l[of 9] l[of 10]
      l[of 11] l[of 12] l[of 13] l[of 14] l[of 15]
    unfolding do_ops_0
    by (simp add: md4_program_def md4_ops_eval loads_unfold md4_macros LOAD_X_md_round)
qed

definition md4_spec :: "byte list \<Rightarrow> byte list" where
  "md4_spec msg = concat (map (le_bytes 4)
     (md_spec (\<lambda>bs. md_compress rfc1320_end md4_ops (le_words32 bs)) False
        [0x67452301, 0xefcdab89, 0x98badcfe, 0x10325476] msg))"

lemma md4_block_compress:
  assumes "length bs = 64" and "length st = 4"
  shows "md4_block st bs = md_compress rfc1320_end md4_ops (le_words32 bs) st \<and>
    length (md_compress rfc1320_end md4_ops (le_words32 bs) st) = 4"
proof -
  have "md4_block st bs = md_compress rfc1320_end md4_ops (le_words32 bs) st"
    using md_block_refines[OF assms(2) _ md4_ops_shifts, of "le_words32 bs" md4_post]
    unfolding rfc1320_functions(4)
    by (simp add: md4_block_def md4_program_eq[OF assms(1)] le_words32_def)
  moreover have "length (md4_block st bs) = 4" by (simp add: md4_block_def md_add_state_def)
  ultimately show ?thesis by simp
qed

interpretation md4: md32_digest md4_block_data_order "\<lambda>bs st. md4_block st bs"
proof unfold_locales
  fix k :: nat and bs :: "byte list" and st :: "uint32 list"
  assume "64 * k \<le> length bs"
  then show "md4_block_data_order st bs k = fold (\<lambda>bs st. md4_block st bs) (blocks 64 (take (64 * k) bs)) st"
    by (rule block_loop[rotated -1]) simp_all
qed

lemma md4_final_fold: "fst (MD4_Final (fold (\<lambda>xs c. MD4_Update c xs) xss MD4_Init)) = md4_spec (concat xss)"
proof -
  let ?f = "\<lambda>bs. md_compress rfc1320_end md4_ops (le_words32 bs)"
  have i: "md32_inv 64 MD4_Init" "num MD4_Init = 0" "md32_bits MD4_Init = 0" "length (h MD4_Init) = 4"
    by (simp_all add: MD4_Init_def md32_inv_def md32_bits_def)
  have e: "md_spec (\<lambda>bs st. md4_block st bs) False (h MD4_Init) m = md_spec ?f False (h MD4_Init) m"
    and len: "length (md_spec ?f False (h MD4_Init) m) = 4" for m
    unfolding md_spec_def
    by (rule fold_blocks_cong[where P = "\<lambda>st. length st = 4"], erule (1) md4_block_compress, rule i(4))+
  have out: "CRYPTO_store_u32_le (ws ! 0) @ CRYPTO_store_u32_le (ws ! 1) @ CRYPTO_store_u32_le (ws ! 2) @
      CRYPTO_store_u32_le (ws ! 3) = concat (map (le_bytes 4) ws)" if "length ws = 4" for ws
    using that by (auto simp: length_Suc_conv eval_nat_numeral CRYPTO_store_u32_le_def)
  show ?thesis
    using md4.digest_eq_spec[OF i(1-3), of False xss] out[OF len, of "concat xss"] e
    by (simp add: MD4_Final_def MD4_Update_def Let_def md4_spec_def) (simp add: MD4_Init_def)
qed

text \<open>
  However the input is cut into updates after \<open>MD4_Init\<close>, \<open>MD4_Final\<close> delivers the MD4
  digest of the concatenated input (the little-endian words of the padded iteration of
  the compression of the RFC), and the one-shot \<open>MD4\<close> does too.
\<close>

theorem md4_digest_correct:
  "fst (MD4_Final (fold (\<lambda>xs c. MD4_Update c xs) xss MD4_Init)) = md4_spec (concat xss) \<and>
   MD4 msg = md4_spec msg"
  using md4_final_fold[of xss] md4_final_fold[of "[msg]"] by (simp add: MD4_def)

end
