(* ===== verification/Cbs.thy ===== *)
theory Cbs
  imports Crypto_Words
begin

text \<open>
  The byte-string parser of BoringSSL,
  \<^verbatim>\<open>BoringSSL-GRPC/src/crypto/bytestring/cbs.c\<close>. A \<open>CBS\<close> is a pointer and a length into the
  byte memory \<open>m\<close>; a parsing function is a function of the memory and of the \<open>CBS\<close> it
  advances, returning \<open>None\<close> for the return value 0. Output parameters are the value
  delivered on success.
\<close>

record CBS =
  cb_data :: addr
  cb_len :: size_t

definition CBS_init :: "addr \<Rightarrow> size_t \<Rightarrow> CBS" where
  "CBS_init p n = \<lparr>cb_data = p, cb_len = n\<rparr>"

definition cbs_get :: "size_t \<Rightarrow> CBS \<Rightarrow> addr option \<times> CBS" where
  "cbs_get n cbs =
     (if cb_len cbs < n then (None, cbs)
      else (Some (cb_data cbs), cbs\<lparr>cb_data := cb_data cbs + unat n, cb_len := cb_len cbs - n\<rparr>))"

definition CBS_skip :: "size_t \<Rightarrow> CBS \<Rightarrow> unit option \<times> CBS" where
  "CBS_skip n = bindf (cbs_get n) (\<lambda>_. retf ())"

definition CBS_data :: "CBS \<Rightarrow> addr" where
  "CBS_data cbs = cb_data cbs"

definition CBS_len :: "CBS \<Rightarrow> size_t" where
  "CBS_len cbs = cb_len cbs"

section \<open>Copies and comparisons\<close>

text \<open>
  Allocation is a parameter: \<open>alloc n\<close> says whether a request for \<open>n\<close> bytes succeeds. The
  result is the return value, the new string (\<open>None\<close> for \<open>NULL\<close>) and its length.
\<close>

definition OPENSSL_memdup :: "(nat \<Rightarrow> bool) \<Rightarrow> heap \<Rightarrow> addr \<Rightarrow> size_t \<Rightarrow> byte list option" where
  "OPENSSL_memdup alloc m p n =
     (if n = 0 then None else if alloc (unat n) then Some (read_bytes m p (unat n)) else None)"

definition CBS_stow :: "(nat \<Rightarrow> bool) \<Rightarrow> heap \<Rightarrow> CBS \<Rightarrow> bool \<times> byte list option \<times> size_t" where
  "CBS_stow alloc m cbs =
     (if cb_len cbs = 0 then (True, None, 0)
      else case OPENSSL_memdup alloc m (cb_data cbs) (cb_len cbs) of
        None \<Rightarrow> (False, None, 0)
      | Some bs \<Rightarrow> (True, Some bs, cb_len cbs))"

definition OPENSSL_strnlen :: "heap \<Rightarrow> addr \<Rightarrow> size_t \<Rightarrow> nat" where
  "OPENSSL_strnlen m s n = length (takeWhile (\<lambda>b. b \<noteq> 0) (read_bytes m s (unat n)))"

definition OPENSSL_strndup :: "(nat \<Rightarrow> bool) \<Rightarrow> heap \<Rightarrow> addr \<Rightarrow> size_t \<Rightarrow> byte list option" where
  "OPENSSL_strndup alloc m str sz =
     (let size = OPENSSL_strnlen m str sz in
      if size + 1 \<ge> 2 ^ 64 then None
      else if alloc (size + 1) then Some (read_bytes m str size @ [0]) else None)"

definition CBS_strdup :: "(nat \<Rightarrow> bool) \<Rightarrow> heap \<Rightarrow> CBS \<Rightarrow> byte list option" where
  "CBS_strdup alloc m cbs = OPENSSL_strndup alloc m (cb_data cbs) (cb_len cbs)"

text \<open>The offset of the first occurrence of a byte.\<close>

definition OPENSSL_memchr :: "heap \<Rightarrow> addr \<Rightarrow> byte \<Rightarrow> size_t \<Rightarrow> addr option" where
  "OPENSSL_memchr m s c n =
     (if n = 0 then None
      else let k = length (takeWhile (\<lambda>b. b \<noteq> c) (read_bytes m s (unat n)))
           in if k < unat n then Some (s + k) else None)"

definition CBS_contains_zero_byte :: "heap \<Rightarrow> CBS \<Rightarrow> bool" where
  "CBS_contains_zero_byte m cbs \<longleftrightarrow> OPENSSL_memchr m (cb_data cbs) 0 (cb_len cbs) \<noteq> None"

definition CRYPTO_memcmp :: "heap \<Rightarrow> addr \<Rightarrow> addr \<Rightarrow> nat \<Rightarrow> byte" where
  "CRYPTO_memcmp m a b n = fold (\<lambda>i x. x OR (m (a + i) XOR m (b + i))) [0..<n] 0"

definition CBS_mem_equal :: "heap \<Rightarrow> CBS \<Rightarrow> addr \<Rightarrow> size_t \<Rightarrow> bool" where
  "CBS_mem_equal m cbs p n \<longleftrightarrow>
     (if n \<noteq> cb_len cbs then False else CRYPTO_memcmp m (cb_data cbs) p (unat n) = 0)"

section \<open>Integers and slices\<close>

definition cbs_get_u :: "heap \<Rightarrow> nat \<Rightarrow> CBS \<Rightarrow> uint64 option \<times> CBS" where
  "cbs_get_u m n =
     bindf (cbs_get (of_nat n)) (\<lambda>p. retf (fold (\<lambda>i r. push_bit 8 r OR ucast (m (p + i))) [0..<n] 0))"

definition CBS_get_u8 :: "heap \<Rightarrow> CBS \<Rightarrow> byte option \<times> CBS" where
  "CBS_get_u8 m = bindf (cbs_get 1) (\<lambda>v. retf (m v))"

definition CBS_get_u16 :: "heap \<Rightarrow> CBS \<Rightarrow> uint16 option \<times> CBS" where
  "CBS_get_u16 m = bindf (cbs_get_u m 2) (\<lambda>v. retf (ucast v))"

definition CBS_get_u16le :: "heap \<Rightarrow> CBS \<Rightarrow> uint16 option \<times> CBS" where
  "CBS_get_u16le m = bindf (CBS_get_u16 m) (\<lambda>v. retf (CRYPTO_bswap2 v))"

definition CBS_get_u24 :: "heap \<Rightarrow> CBS \<Rightarrow> uint32 option \<times> CBS" where
  "CBS_get_u24 m = bindf (cbs_get_u m 3) (\<lambda>v. retf (ucast v))"

definition CBS_get_u32 :: "heap \<Rightarrow> CBS \<Rightarrow> uint32 option \<times> CBS" where
  "CBS_get_u32 m = bindf (cbs_get_u m 4) (\<lambda>v. retf (ucast v))"

definition CBS_get_u32le :: "heap \<Rightarrow> CBS \<Rightarrow> uint32 option \<times> CBS" where
  "CBS_get_u32le m = bindf (CBS_get_u32 m) (\<lambda>v. retf (CRYPTO_bswap4 v))"

definition CBS_get_u64 :: "heap \<Rightarrow> CBS \<Rightarrow> uint64 option \<times> CBS" where
  "CBS_get_u64 m = cbs_get_u m 8"

definition CBS_get_u64le :: "heap \<Rightarrow> CBS \<Rightarrow> uint64 option \<times> CBS" where
  "CBS_get_u64le m = bindf (cbs_get_u m 8) (\<lambda>v. retf (CRYPTO_bswap8 v))"

definition CBS_get_last_u8 :: "heap \<Rightarrow> CBS \<Rightarrow> byte option \<times> CBS" where
  "CBS_get_last_u8 m cbs =
     (if cb_len cbs = 0 then (None, cbs)
      else (Some (m (cb_data cbs + unat (cb_len cbs - 1))), cbs\<lparr>cb_len := cb_len cbs - 1\<rparr>))"

definition CBS_get_bytes :: "size_t \<Rightarrow> CBS \<Rightarrow> CBS option \<times> CBS" where
  "CBS_get_bytes n = bindf (cbs_get n) (\<lambda>v. retf (CBS_init v n))"

text \<open>The bytes copied to \<open>out\<close>.\<close>

definition CBS_copy_bytes :: "heap \<Rightarrow> size_t \<Rightarrow> CBS \<Rightarrow> byte list option \<times> CBS" where
  "CBS_copy_bytes m n = bindf (cbs_get n) (\<lambda>v. retf (read_bytes m v (unat n)))"

definition cbs_get_length_prefixed :: "heap \<Rightarrow> nat \<Rightarrow> CBS \<Rightarrow> CBS option \<times> CBS" where
  "cbs_get_length_prefixed m len_len = bindf (cbs_get_u m len_len) (\<lambda>n. CBS_get_bytes n)"

definition CBS_get_u8_length_prefixed :: "heap \<Rightarrow> CBS \<Rightarrow> CBS option \<times> CBS" where
  "CBS_get_u8_length_prefixed m = cbs_get_length_prefixed m 1"

definition CBS_get_u16_length_prefixed :: "heap \<Rightarrow> CBS \<Rightarrow> CBS option \<times> CBS" where
  "CBS_get_u16_length_prefixed m = cbs_get_length_prefixed m 2"

definition CBS_get_u24_length_prefixed :: "heap \<Rightarrow> CBS \<Rightarrow> CBS option \<times> CBS" where
  "CBS_get_u24_length_prefixed m = cbs_get_length_prefixed m 3"

definition CBS_get_until_first :: "heap \<Rightarrow> byte \<Rightarrow> CBS \<Rightarrow> CBS option \<times> CBS" where
  "CBS_get_until_first m c cbs =
     (case OPENSSL_memchr m (CBS_data cbs) c (CBS_len cbs) of
        None \<Rightarrow> (None, cbs)
      | Some split \<Rightarrow> CBS_get_bytes (of_nat (split - CBS_data cbs)) cbs)"

section \<open>ASN.1 headers\<close>

abbreviation CBS_ASN1_TAG_SHIFT :: nat where "CBS_ASN1_TAG_SHIFT \<equiv> 24"
abbreviation CBS_ASN1_CONSTRUCTED :: uint32 where "CBS_ASN1_CONSTRUCTED \<equiv> push_bit CBS_ASN1_TAG_SHIFT 0x20"
abbreviation CBS_ASN1_TAG_NUMBER_MASK :: uint32 where "CBS_ASN1_TAG_NUMBER_MASK \<equiv> push_bit (5 + CBS_ASN1_TAG_SHIFT) 1 - 1"
abbreviation CBS_ASN1_BOOLEAN :: uint32 where "CBS_ASN1_BOOLEAN \<equiv> 0x1"
abbreviation CBS_ASN1_INTEGER :: uint32 where "CBS_ASN1_INTEGER \<equiv> 0x2"
abbreviation CBS_ASN1_OCTETSTRING :: uint32 where "CBS_ASN1_OCTETSTRING \<equiv> 0x4"

text \<open>The loop of \<open>parse_base128_integer\<close>, entered with the value read so far.\<close>

function base128_loop :: "heap \<Rightarrow> uint64 \<Rightarrow> CBS \<Rightarrow> uint64 option \<times> CBS" where
  "base128_loop m v cbs =
     (case CBS_get_u8 m cbs of
        (None, c) \<Rightarrow> (None, c)
      | (Some b, c) \<Rightarrow>
          if drop_bit (64 - 7) v \<noteq> 0 then (None, c)
          else if v = 0 \<and> b = 0x80 then (None, c)
          else
            let v' = push_bit 7 v OR ucast (b AND 0x7f)
            in if b AND 0x80 \<noteq> 0 then base128_loop m v' c else (Some v', c))"
  by pat_completeness auto
termination
  by (relation "measure (\<lambda>(m, v, cbs). unat (cb_len cbs))")
     (auto simp: CBS_get_u8_def bindf_def retf_def cbs_get_def unat_sub word_less_nat_alt word_le_nat_alt
       split: if_splits)

declare base128_loop.simps [simp del]

definition parse_base128_integer :: "heap \<Rightarrow> CBS \<Rightarrow> uint64 option \<times> CBS" where
  "parse_base128_integer m = base128_loop m 0"

definition parse_asn1_tag :: "heap \<Rightarrow> CBS \<Rightarrow> uint32 option \<times> CBS" where
  "parse_asn1_tag m =
     bindf (CBS_get_u8 m) (\<lambda>tag_byte.
       let tag = push_bit CBS_ASN1_TAG_SHIFT (ucast tag_byte AND 0xe0) :: uint32;
           tag_number = ucast (tag_byte AND 0x1f) :: uint32
       in if tag_number = 0x1f then
            bindf (parse_base128_integer m) (\<lambda>v cbs.
              if v > ucast CBS_ASN1_TAG_NUMBER_MASK \<or> v < 0x1f then (None, cbs)
              else (Some (tag OR ucast v), cbs))
          else retf (tag OR tag_number))"

text \<open>
  The value delivered is the element (header included), its tag, the length of the header
  and \<open>*out_ber_found\<close>; the header is parsed on a copy of \<open>cbs\<close>.
\<close>

definition cbs_get_any_asn1_element ::
  "heap \<Rightarrow> bool \<Rightarrow> CBS \<Rightarrow> (CBS \<times> uint32 \<times> size_t \<times> bool) option \<times> CBS" where
  "cbs_get_any_asn1_element m ber_ok cbs =
     (case parse_asn1_tag m cbs of (None, _) \<Rightarrow> (None, cbs) | (Some tag, header1) \<Rightarrow>
      case CBS_get_u8 m header1 of (None, _) \<Rightarrow> (None, cbs) | (Some length_byte, header) \<Rightarrow>
      let header_len = CBS_len cbs - CBS_len header in
      if length_byte AND 0x80 = 0 then
        bindf (CBS_get_bytes (ucast length_byte + header_len))
          (\<lambda>out. retf (out, tag, header_len, False)) cbs
      else
        let num_bytes = unat (length_byte AND 0x7f) in
        if ber_ok \<and> tag AND CBS_ASN1_CONSTRUCTED \<noteq> 0 \<and> num_bytes = 0 then
          bindf (CBS_get_bytes header_len) (\<lambda>out. retf (out, tag, header_len, True)) cbs
        else if num_bytes = 0 \<or> num_bytes > 4 then (None, cbs)
        else case cbs_get_u m num_bytes header of (None, _) \<Rightarrow> (None, cbs) | (Some len64, _) \<Rightarrow>
          let long_form = len64 < 128;
              padded = drop_bit ((num_bytes - 1) * 8) len64 = 0 in
          if (long_form \<or> padded) \<and> \<not> ber_ok then (None, cbs)
          else if len64 + header_len + of_nat num_bytes < len64 then (None, cbs)
          else
            bindf (CBS_get_bytes (len64 + (header_len + of_nat num_bytes)))
              (\<lambda>out. retf (out, tag, header_len + of_nat num_bytes, long_form \<or> padded)) cbs)"

definition CBS_get_any_asn1_element :: "heap \<Rightarrow> CBS \<Rightarrow> (CBS \<times> uint32 \<times> size_t) option \<times> CBS" where
  "CBS_get_any_asn1_element m =
     bindf (cbs_get_any_asn1_element m False) (\<lambda>(out, tag, header_len, _). retf (out, tag, header_len))"

definition CBS_get_any_ber_asn1_element ::
  "heap \<Rightarrow> CBS \<Rightarrow> (CBS \<times> uint32 \<times> size_t \<times> bool) option \<times> CBS" where
  "CBS_get_any_ber_asn1_element m = cbs_get_any_asn1_element m True"

definition CBS_get_any_asn1 :: "heap \<Rightarrow> CBS \<Rightarrow> (CBS \<times> uint32) option \<times> CBS" where
  "CBS_get_any_asn1 m =
     bindf (CBS_get_any_asn1_element m) (\<lambda>(out, tag, header_len) cbs.
       case CBS_skip header_len out of (None, _) \<Rightarrow> (None, cbs) | (Some _, out') \<Rightarrow> (Some (out', tag), cbs))"

definition cbs_get_asn1 :: "heap \<Rightarrow> uint32 \<Rightarrow> bool \<Rightarrow> CBS \<Rightarrow> CBS option \<times> CBS" where
  "cbs_get_asn1 m tag_value skip =
     bindf (CBS_get_any_asn1_element m) (\<lambda>(out, tag, header_len) cbs.
       if tag \<noteq> tag_value then (None, cbs)
       else if skip then
         case CBS_skip header_len out of (None, _) \<Rightarrow> (None, cbs) | (Some _, out') \<Rightarrow> (Some out', cbs)
       else (Some out, cbs))"

definition CBS_get_asn1 :: "heap \<Rightarrow> uint32 \<Rightarrow> CBS \<Rightarrow> CBS option \<times> CBS" where
  "CBS_get_asn1 m tag_value = cbs_get_asn1 m tag_value True"

definition CBS_get_asn1_element :: "heap \<Rightarrow> uint32 \<Rightarrow> CBS \<Rightarrow> CBS option \<times> CBS" where
  "CBS_get_asn1_element m tag_value = cbs_get_asn1 m tag_value False"

definition CBS_peek_asn1_tag :: "heap \<Rightarrow> uint32 \<Rightarrow> CBS \<Rightarrow> bool" where
  "CBS_peek_asn1_tag m tag_value cbs =
     (if CBS_len cbs < 1 then False
      else case parse_asn1_tag m cbs of (None, _) \<Rightarrow> False | (Some actual_tag, _) \<Rightarrow> tag_value = actual_tag)"

section \<open>ASN.1 values\<close>

text \<open>\<open>None\<close> when the contents are no INTEGER, otherwise whether it is negative.\<close>

definition CBS_is_valid_asn1_integer :: "heap \<Rightarrow> CBS \<Rightarrow> bool option" where
  "CBS_is_valid_asn1_integer m cbs =
     (case CBS_get_u8 m cbs of (None, _) \<Rightarrow> None | (Some first_byte, copy) \<Rightarrow>
      let is_negative = (first_byte AND 0x80 \<noteq> 0) in
      case CBS_get_u8 m copy of (None, _) \<Rightarrow> Some is_negative | (Some second_byte, _) \<Rightarrow>
      if (first_byte = 0x00 \<and> second_byte AND 0x80 = 0) \<or> (first_byte = 0xff \<and> second_byte AND 0x80 \<noteq> 0)
      then None else Some is_negative)"

definition CBS_is_unsigned_asn1_integer :: "heap \<Rightarrow> CBS \<Rightarrow> bool" where
  "CBS_is_unsigned_asn1_integer m cbs \<longleftrightarrow> CBS_is_valid_asn1_integer m cbs = Some False"

text \<open>The loop that shifts the contents in, failing before a bit is lost.\<close>

primrec uint64_loop :: "uint64 \<Rightarrow> byte list \<Rightarrow> uint64 option" where
  "uint64_loop out [] = Some out"
| "uint64_loop out (b # bs) =
     (if drop_bit 56 out \<noteq> 0 then None else uint64_loop (push_bit 8 out OR ucast b) bs)"

definition CBS_get_asn1_uint64 :: "heap \<Rightarrow> CBS \<Rightarrow> uint64 option \<times> CBS" where
  "CBS_get_asn1_uint64 m =
     bindf (CBS_get_asn1 m CBS_ASN1_INTEGER) (\<lambda>bytes cbs.
       if \<not> CBS_is_unsigned_asn1_integer m bytes then (None, cbs)
       else (uint64_loop 0 (read_bytes m (CBS_data bytes) (unat (CBS_len bytes))), cbs))"

definition CBS_get_asn1_int64 :: "heap \<Rightarrow> CBS \<Rightarrow> uint64 option \<times> CBS" where
  "CBS_get_asn1_int64 m =
     bindf (CBS_get_asn1 m CBS_ASN1_INTEGER) (\<lambda>bytes cbs.
       case CBS_is_valid_asn1_integer m bytes of None \<Rightarrow> (None, cbs) | Some is_negative \<Rightarrow>
       let len = unat (CBS_len bytes); p = CBS_data bytes in
       if len > 8 then (None, cbs)
       else
         let u = fold (\<lambda>i u. u[i := m (p + (len - i - 1))]) [0..<len]
                   (replicate 8 (if is_negative then 0xff else 0))
         in (Some (le_word u), cbs))"

definition CBS_get_asn1_bool :: "heap \<Rightarrow> CBS \<Rightarrow> bool option \<times> CBS" where
  "CBS_get_asn1_bool m =
     bindf (CBS_get_asn1 m CBS_ASN1_BOOLEAN) (\<lambda>bytes cbs.
       if CBS_len bytes \<noteq> 1 then (None, cbs)
       else let v = m (CBS_data bytes) in
         if v \<noteq> 0 \<and> v \<noteq> 0xff then (None, cbs) else (Some (v \<noteq> 0), cbs))"

text \<open>An absent element is \<open>Some None\<close>.\<close>

definition CBS_get_optional_asn1 :: "heap \<Rightarrow> uint32 \<Rightarrow> CBS \<Rightarrow> CBS option option \<times> CBS" where
  "CBS_get_optional_asn1 m tag cbs =
     (if CBS_peek_asn1_tag m tag cbs then bindf (CBS_get_asn1 m tag) (\<lambda>out. retf (Some out)) cbs
      else (Some None, cbs))"

definition CBS_get_optional_asn1_octet_string :: "heap \<Rightarrow> uint32 \<Rightarrow> CBS \<Rightarrow> (CBS \<times> bool) option \<times> CBS" where
  "CBS_get_optional_asn1_octet_string m tag =
     bindf (CBS_get_optional_asn1 m tag) (\<lambda>r cbs.
       case r of
         None \<Rightarrow> (Some (CBS_init 0 0, False), cbs)
       | Some child \<Rightarrow>
           (case CBS_get_asn1 m CBS_ASN1_OCTETSTRING child of
              (None, _) \<Rightarrow> (None, cbs)
            | (Some out, child') \<Rightarrow> if CBS_len child' \<noteq> 0 then (None, cbs) else (Some (out, True), cbs)))"

definition CBS_get_optional_asn1_uint64 :: "heap \<Rightarrow> uint32 \<Rightarrow> uint64 \<Rightarrow> CBS \<Rightarrow> uint64 option \<times> CBS" where
  "CBS_get_optional_asn1_uint64 m tag default_value =
     bindf (CBS_get_optional_asn1 m tag) (\<lambda>r cbs.
       case r of
         None \<Rightarrow> (Some default_value, cbs)
       | Some child \<Rightarrow>
           (case CBS_get_asn1_uint64 m child of
              (None, _) \<Rightarrow> (None, cbs)
            | (Some out, child') \<Rightarrow> if CBS_len child' \<noteq> 0 then (None, cbs) else (Some out, cbs)))"

definition CBS_get_optional_asn1_bool :: "heap \<Rightarrow> uint32 \<Rightarrow> bool \<Rightarrow> CBS \<Rightarrow> bool option \<times> CBS" where
  "CBS_get_optional_asn1_bool m tag default_value =
     bindf (CBS_get_optional_asn1 m tag) (\<lambda>r cbs.
       case r of
         None \<Rightarrow> (Some default_value, cbs)
       | Some child \<Rightarrow>
           (case CBS_get_asn1 m CBS_ASN1_BOOLEAN child of
              (None, _) \<Rightarrow> (None, cbs)
            | (Some child2, child') \<Rightarrow>
                if CBS_len child2 \<noteq> 1 \<or> CBS_len child' \<noteq> 0 then (None, cbs)
                else let boolean = m (CBS_data child2) in
                  if boolean = 0 then (Some False, cbs)
                  else if boolean = 0xff then (Some True, cbs)
                  else (None, cbs)))"

definition CBS_is_valid_asn1_bitstring :: "heap \<Rightarrow> CBS \<Rightarrow> bool" where
  "CBS_is_valid_asn1_bitstring m cbs =
     (case CBS_get_u8 m cbs of (None, _) \<Rightarrow> False | (Some num_unused_bits, inp) \<Rightarrow>
      if num_unused_bits > 7 then False
      else if num_unused_bits = 0 then True
      else case CBS_get_last_u8 m inp of (None, _) \<Rightarrow> False | (Some last_byte, _) \<Rightarrow>
        last_byte AND (push_bit (unat num_unused_bits) 1 - 1) = 0)"

definition CBS_asn1_bitstring_has_bit :: "heap \<Rightarrow> CBS \<Rightarrow> uint32 \<Rightarrow> bool" where
  "CBS_asn1_bitstring_has_bit m cbs k =
     (if \<not> CBS_is_valid_asn1_bitstring m cbs then False
      else let byte_num = drop_bit 3 k + 1; bit_num = unat (7 - (k AND 7)) in
        ucast byte_num < CBS_len cbs \<and> m (CBS_data cbs + unat byte_num) AND push_bit bit_num 1 \<noteq> 0)"

end
