(* ===== verification/Der.thy ===== *)
theory Der
  imports Cbs
begin

text \<open>
  What the ASN.1 part of \<^verbatim>\<open>cbs.c\<close> accepts: a reference encoder for DER identifier and
  length octets, and the theorems that the parser accepts exactly what the encoder
  produces. The first section describes every primitive reader by the bytes its \<open>CBS\<close>
  covers.
\<close>

section \<open>The bytes a CBS covers\<close>

definition cview :: "heap \<Rightarrow> CBS \<Rightarrow> byte list" where
  "cview m c = read_bytes m (cb_data c) (unat (cb_len c))"

definition cadv :: "nat \<Rightarrow> CBS \<Rightarrow> CBS" where
  "cadv k c = c\<lparr>cb_data := cb_data c + k, cb_len := cb_len c - of_nat k\<rparr>"

lemma length_cview [simp]: "length (cview m c) = unat (cb_len c)"
  by (simp add: cview_def)

lemma of_nat_le_len: "k \<le> unat (cb_len c) \<Longrightarrow> unat (of_nat k :: size_t) = k"
  using unat_lt_64[of "cb_len c"] by (intro unat_of_nat_size) simp

lemma unat_cadv [simp]: "k \<le> unat (cb_len c) \<Longrightarrow> unat (cb_len (cadv k c)) = unat (cb_len c) - k"
  by (simp add: cadv_def unat_sub word_le_nat_alt of_nat_le_len)

lemma cview_cadv [simp]: "k \<le> unat (cb_len c) \<Longrightarrow> cview m (cadv k c) = drop k (cview m c)"
proof -
  assume k: "k \<le> unat (cb_len c)"
  then have "unat (cb_len c - of_nat k) = unat (cb_len c) - k" using unat_cadv[OF k] by (simp add: cadv_def)
  then show ?thesis by (simp add: cview_def cadv_def)
qed

lemma cb_data_cadv: "cb_data (cadv k c) = cb_data c + k"
  by (simp add: cadv_def)

lemma cadv_0 [simp]: "cadv 0 c = c"
  by (simp add: cadv_def)

lemma cadv_cadv [simp]: "cadv j (cadv k c) = cadv (k + j) c"
  by (simp add: cadv_def algebra_simps)

lemma cbs_get_eq: "cbs_get n c = (if unat n \<le> unat (cb_len c) then (Some (cb_data c), cadv (unat n) c) else (None, c))"
  by (simp add: cbs_get_def cadv_def word_less_nat_alt)

lemma CBS_get_u8_eq:
  "CBS_get_u8 m c = (case cview m c of [] \<Rightarrow> (None, c) | b # _ \<Rightarrow> (Some b, cadv 1 c))"
proof (cases "unat (cb_len c)")
  case (Suc k)
  then show ?thesis by (simp add: CBS_get_u8_def bindf_def retf_def cbs_get_eq cview_def read_bytes_Suc)
qed (simp add: CBS_get_u8_def bindf_def cbs_get_eq cview_def)

lemma fold_shift_be_word:
  "fold (\<lambda>b r. push_bit 8 r OR ucast b) bs 0 = (be_word bs :: 'a::len word)"
  by (induction bs rule: rev_induct) (simp_all add: be_word_def or.commute)

lemma cbs_get_u_eq:
  assumes "n \<le> 8"
  shows "cbs_get_u m n c =
    (if n \<le> unat (cb_len c) then (Some (be_word (take n (cview m c))), cadv n c) else (None, c))"
proof -
  have "fold (\<lambda>i r. push_bit 8 r OR ucast (m (p + i))) [0..<n] 0 = (be_word (read_bytes m p n) :: uint64)" for p
    unfolding fold_shift_be_word[symmetric] read_bytes_map_shift[symmetric] by (simp add: fold_map o_def)
  moreover have "unat (of_nat n :: size_t) = n" using assms by (intro unat_of_nat_size) simp
  ultimately show ?thesis
    by (simp add: cbs_get_u_def bindf_def retf_def cbs_get_eq cview_def min_def)
qed

lemma CBS_get_bytes_eq:
  "CBS_get_bytes n c =
    (if unat n \<le> unat (cb_len c) then (Some \<lparr>cb_data = cb_data c, cb_len = n\<rparr>, cadv (unat n) c) else (None, c))"
  by (simp add: CBS_get_bytes_def CBS_init_def bindf_def retf_def cbs_get_eq)

lemma cview_prefix: "unat n \<le> unat (cb_len c) \<Longrightarrow> cview m \<lparr>cb_data = cb_data c, cb_len = n\<rparr> = take (unat n) (cview m c)"
  by (simp add: cview_def min_def)

section \<open>Reference encoding\<close>

text \<open>Base-128 groups, most significant first; all but the last carry the high bit.\<close>

function b128_high :: "nat \<Rightarrow> byte list" where
  "b128_high n = (if n = 0 then [] else b128_high (n div 128) @ [0x80 OR of_nat (n mod 128)])"
  by pat_completeness auto
termination by (relation "measure id") auto

declare b128_high.simps [simp del]

definition base128 :: "nat \<Rightarrow> byte list" where
  "base128 n = b128_high (n div 128) @ [of_nat (n mod 128)]"

definition tag_bits :: "uint32 \<Rightarrow> byte" where
  "tag_bits t = ucast (drop_bit 24 t AND 0xe0)"

definition tag_number :: "uint32 \<Rightarrow> uint32" where
  "tag_number t = t AND 0x1fffffff"

definition tag_bytes :: "uint32 \<Rightarrow> byte list" where
  "tag_bytes t =
     (if tag_number t \<ge> 0x1f then (tag_bits t OR 0x1f) # base128 (unat (tag_number t))
      else [tag_bits t OR ucast (tag_number t)])"

definition len_octets :: "nat \<Rightarrow> nat" where
  "len_octets n = (if n < 2 ^ 8 then 1 else if n < 2 ^ 16 then 2 else if n < 2 ^ 24 then 3 else 4)"

definition der_len :: "nat \<Rightarrow> byte list" where
  "der_len n =
     (if n < 128 then [of_nat n]
      else (0x80 OR of_nat (len_octets n)) # be_bytes (len_octets n) (of_nat n :: uint64))"

definition der_header :: "uint32 \<Rightarrow> nat \<Rightarrow> byte list" where
  "der_header t n = tag_bytes t @ der_len n"

section \<open>Base-128 integers\<close>

lemma b128_high_step: "n \<noteq> 0 \<Longrightarrow> b128_high n = b128_high (n div 128) @ [0x80 OR of_nat (n mod 128)]"
  by (subst b128_high.simps) simp

lemma b128_high_0 [simp]: "b128_high 0 = []"
  by (simp add: b128_high.simps)

lemma b128_high_shift:
  "r < 128 \<Longrightarrow> n * 128 + r \<noteq> 0 \<Longrightarrow> b128_high (n * 128 + r) = b128_high n @ [0x80 OR of_nat r]"
  using b128_high_step[of "n * 128 + r"] by simp

lemma byte_low7: "unat (b AND 0x7f :: byte) = unat b mod 128"
  using unat_and_7F[of b] by simp

lemma byte_high_split:
  shows "b AND 0x80 \<noteq> 0 \<Longrightarrow> 0x80 OR of_nat (unat b mod 128) = (b :: byte)"
    and "b AND 0x80 = 0 \<Longrightarrow> of_nat (unat b mod 128) = (b :: byte)"
proof -
  have "(b AND 0x80 \<noteq> 0 \<longrightarrow> 0x80 OR of_nat (unat b mod 128) = b) \<and> (b AND 0x80 = 0 \<longrightarrow> of_nat (unat b mod 128) = b)"
    by (rule byte_all) code_simp
  then show "b AND 0x80 \<noteq> 0 \<Longrightarrow> 0x80 OR of_nat (unat b mod 128) = b"
    and "b AND 0x80 = 0 \<Longrightarrow> of_nat (unat b mod 128) = b" by auto
qed

lemma shift7_or:
  fixes v :: uint64 and b :: byte
  assumes "drop_bit 57 v = 0"
  shows "unat (push_bit 7 v OR ucast (b AND 0x7f)) = unat v * 128 + unat b mod 128"
proof -
  have "unat v div 2 ^ 57 = 0" using arg_cong[OF assms, of unat] by (simp add: drop_bit_eq_div unat_div)
  then have v: "unat v < 2 ^ 57" by (simp add: div_eq_0_iff)
  have "push_bit 7 v OR ucast (b AND 0x7f) = push_bit 7 v + ucast (b AND 0x7f)"
    unfolding and_7F_eq by (rule disjunctive_add[symmetric]) (auto simp: bit_simps)
  moreover have "unat (push_bit 7 v) = unat v * 128"
    using v by (simp add: push_bit_eq_mult unat_word_ariths)
  ultimately show ?thesis
    using v byte_low7[of b] by (simp add: unat_word_ariths unat_ucast_mod)
qed

lemma base128_loop_sound:
  "base128_loop m v c = (Some r, c') \<Longrightarrow>
   \<exists>k \<le> unat (cb_len c). c' = cadv k c \<and> b128_high (unat v) @ take k (cview m c) = base128 (unat r)"
proof (induction m v c rule: base128_loop.induct)
  case (1 m v c)
  obtain b bs where vw: "cview m c = b # bs" and ok: "drop_bit 57 v = 0" "\<not> (v = 0 \<and> b = 0x80)"
    using 1(2) by (subst (asm) base128_loop.simps) (auto simp: CBS_get_u8_eq split: list.splits if_splits)
  have len: "1 \<le> unat (cb_len c)" using arg_cong[OF vw, of length] by simp
  define v' where "v' = push_bit 7 v OR ucast (b AND 0x7f :: byte)"
  have v': "unat v' = unat v * 128 + unat b mod 128" unfolding v'_def by (rule shift7_or[OF ok(1)])
  have step: "base128_loop m v c = (if b AND 0x80 \<noteq> 0 then base128_loop m v' (cadv 1 c) else (Some v', cadv 1 c))"
    using ok by (subst base128_loop.simps) (auto simp: CBS_get_u8_eq vw v'_def Let_def)
  show ?case
  proof (cases "b AND 0x80 = 0")
    case True
    then have "base128 (unat v') = b128_high (unat v) @ [b]"
      using byte_high_split(2)[of b] by (simp add: base128_def v')
    then show ?thesis using 1(2) True len step vw by (intro exI[of _ 1]) auto
  next
    case False
    have nz: "unat v * 128 + unat b mod 128 \<noteq> 0"
    proof
      assume "unat v * 128 + unat b mod 128 = 0"
      then have "v = 0" "unat b mod 128 = 0" by (simp_all add: unat_eq_0)
      then show False using byte_high_split(1)[OF False] ok(2) by simp
    qed
    have h: "b128_high (unat v') = b128_high (unat v) @ [b]"
      unfolding v' using byte_high_split(1)[OF False] nz by (simp add: b128_high_shift)
    have "base128_loop m v' (cadv 1 c) = (Some r, c')" using 1(2) step False by simp
    then obtain k where "k \<le> unat (cb_len (cadv 1 c))" "c' = cadv k (cadv 1 c)"
        "b128_high (unat v') @ take k (cview m (cadv 1 c)) = base128 (unat r)"
      using 1(1)[of "Some b" "cadv 1 c" b v'] ok False vw
      by (auto simp: CBS_get_u8_eq v'_def)
    then show ?thesis
      using len vw h by (intro exI[of _ "Suc k"]) auto
  qed
qed

text \<open>Conversely, the loop reads what the encoder writes.\<close>

lemma unat_or_80: "r < 128 \<Longrightarrow> unat (0x80 OR of_nat r :: byte) = 128 + r"
proof -
  have "list_all (\<lambda>r. unat (0x80 OR of_nat r :: byte) = 128 + r) [0..<128]" by code_simp
  moreover assume "r < 128"
  ultimately show ?thesis by (simp only: list_all_iff set_upt) simp
qed

lemma base128_loop_step:
  assumes "cview m c = b # bs" "unat v < 2 ^ 57" "v \<noteq> 0 \<or> b \<noteq> 0x80"
  shows "base128_loop m v c =
    (let v' = of_nat (unat v * 128 + unat b mod 128)
     in if unat b < 128 then (Some v', cadv 1 c) else base128_loop m v' (cadv 1 c))"
proof -
  have d: "drop_bit 57 v = 0"
    using assms(2) by (simp add: word_unat_eq_iff drop_bit_eq_div unat_div)
  have "push_bit 7 v OR ucast (b AND 0x7f :: byte) = of_nat (unat v * 128 + unat b mod 128)"
    using arg_cong[OF shift7_or[OF d, of b], of "of_nat :: nat \<Rightarrow> uint64"] by simp
  then show ?thesis
    using assms d byte_and_80_eq_0[of b]
    by (subst base128_loop.simps) (auto simp: CBS_get_u8_eq Let_def)
qed

lemma base128_loop_high:
  assumes "n < 2 ^ 64" and "cview m c = b128_high n @ rest"
  shows "base128_loop m 0 c = base128_loop m (of_nat n) (cadv (length (b128_high n)) c)"
  using assms
proof (induction n arbitrary: rest rule: b128_high.induct)
  case (1 n)
  show ?case
  proof (cases "n = 0")
    case False
    let ?x = "0x80 OR of_nat (n mod 128) :: byte" and ?k = "length (b128_high (n div 128))"
    have vw: "cview m c = b128_high (n div 128) @ ?x # rest" using 1(3) False by (simp add: b128_high_step)
    have "base128_loop m 0 c = base128_loop m (of_nat (n div 128)) (cadv ?k c)"
      using 1(1)[OF False _ vw] 1(2) by simp
    also have "\<dots> = base128_loop m (of_nat n) (cadv (Suc ?k) c)"
    proof -
      have k: "?k \<le> unat (cb_len c)" using arg_cong[OF vw, of length] by simp
      have u: "unat (of_nat (n div 128) :: uint64) = n div 128" using 1(2) by (intro unat_of_nat_size) simp
      have "(of_nat (n div 128) :: uint64) \<noteq> 0 \<or> ?x \<noteq> 0x80"
      proof (cases "n div 128 = 0")
        case True
        then have "n mod 128 \<noteq> 0" using False by auto
        then show ?thesis using unat_or_80[of "n mod 128"] by (auto simp: word_unat_eq_iff)
      qed (use u in \<open>simp add: word_unat_eq_iff\<close>)
      moreover have "cview m (cadv ?k c) = ?x # rest" using k by (simp add: vw)
      moreover have "unat (of_nat (n div 128) :: uint64) < 2 ^ 57" unfolding u using 1(2) by simp
      ultimately show ?thesis
        using base128_loop_step[of m "cadv ?k c" ?x rest "of_nat (n div 128)"] unat_or_80[of "n mod 128"] u
        by (simp add: Let_def del: of_nat_add of_nat_mult)
    qed
    finally show ?thesis using False by (simp add: b128_high_step)
  qed simp
qed

lemma base128_loop_complete:
  assumes "n < 2 ^ 64" and "cview m c = base128 n @ rest"
  shows "base128_loop m 0 c = (Some (of_nat n), cadv (length (base128 n)) c)"
proof -
  let ?x = "of_nat (n mod 128) :: byte" and ?k = "length (b128_high (n div 128))"
  have vw: "cview m c = b128_high (n div 128) @ ?x # rest" using assms(2) by (simp add: base128_def)
  have k: "?k \<le> unat (cb_len c)" using arg_cong[OF vw, of length] by simp
  have u: "unat (of_nat (n div 128) :: uint64) = n div 128" using assms(1) by (intro unat_of_nat_size) simp
  have x: "unat ?x = n mod 128" by (simp add: unat_of_nat_byte)
  have "base128_loop m 0 c = base128_loop m (of_nat (n div 128)) (cadv ?k c)"
    using base128_loop_high[OF _ vw] assms(1) by simp
  also have "\<dots> = (Some (of_nat n), cadv (Suc ?k) c)"
  proof -
    have "?x \<noteq> 0x80" using x by (auto simp: word_unat_eq_iff)
    moreover have "cview m (cadv ?k c) = ?x # rest" using k by (simp add: vw)
    moreover have "unat (of_nat (n div 128) :: uint64) < 2 ^ 57" unfolding u using assms(1) by simp
    ultimately show ?thesis
      using base128_loop_step[of m "cadv ?k c" ?x rest "of_nat (n div 128)"] x u
      by (simp add: Let_def del: of_nat_add of_nat_mult)
  qed
  finally show ?thesis by (simp add: base128_def)
qed

section \<open>Identifier octets\<close>

lemma masks: "(0xe0 :: 'a::len word) = push_bit 5 (mask 3)" "(0x1f :: 'a::len word) = mask 5"
    "(0x1fffffff :: 'a::len word) = mask 29" "(0x7f :: 'a::len word) = mask 7"
  by (simp_all add: mask_eq_exp_minus_1)

lemma tag_join: "push_bit 24 (ucast (tag_bits t)) OR tag_number t = t"
  unfolding tag_bits_def tag_number_def masks
  by (rule bit_word_eqI) (auto simp: bit_simps)

lemma tag_split:
  assumes "unat n < 2 ^ 29"
  shows "tag_bits (push_bit 24 (ucast (b :: byte) AND 0xe0) OR n) = b AND 0xe0"
    and "tag_number (push_bit 24 (ucast (b :: byte) AND 0xe0) OR n) = n"
proof -
  have n: "k < 29" if "bit n k" for k using not_bit_unat_less[OF assms, of k] that by (meson not_less)
  have lt: "k < 8" if "bit b k" for k using that bit_imp_le_length[of b k] by simp
  show "tag_bits (push_bit 24 (ucast b AND 0xe0) OR n) = b AND 0xe0"
    unfolding tag_bits_def masks by (rule bit_word_eqI) (auto simp: bit_simps dest: n)
  show "tag_number (push_bit 24 (ucast b AND 0xe0) OR n) = n"
    unfolding tag_number_def masks by (rule bit_word_eqI) (auto simp: bit_simps dest: lt n)
qed

lemma tag_byte_join:
  shows "(b AND 0xe0) OR (b AND 0x1f) = (b :: byte)"
    and "b AND 0x1f = 0x1f \<Longrightarrow> (b AND 0xe0) OR 0x1f = b"
proof -
  show j: "(b AND 0xe0) OR (b AND 0x1f) = b"
    unfolding masks by (rule bit_word_eqI) (auto simp: bit_simps)
  then show "b AND 0x1f = 0x1f \<Longrightarrow> (b AND 0xe0) OR 0x1f = b" by simp
qed

lemma tag_byte_parts:
  assumes "unat k < 2 ^ 5"
  shows "(tag_bits t OR k) AND 0x1f = k" and "(tag_bits t OR k) AND 0xe0 = tag_bits t"
proof -
  have k: "n < 5" if "bit k n" for n using not_bit_unat_less[OF assms, of n] that by (meson not_less)
  show "(tag_bits t OR k) AND 0x1f = k" "(tag_bits t OR k) AND 0xe0 = tag_bits t"
    unfolding tag_bits_def masks by (rule bit_word_eqI; auto simp: bit_simps dest: k)+
qed

lemma ucast_and_e0: "(ucast (b :: byte) :: uint32) AND 0xe0 = ucast (b AND 0xe0)"
  unfolding masks by (rule bit_word_eqI) (auto simp: bit_simps)

lemma unat_tag_number: "unat (tag_number t) < 2 ^ 29"
  using word_and_le1[of t "0x1fffffff"] by (simp add: tag_number_def word_le_nat_alt)

lemma and_1f_less: "unat (b AND 0x1f :: byte) < 2 ^ 5"
  using word_and_le1[of b "0x1f"] by (simp add: word_le_nat_alt)

lemma unat_byte_less: "unat (b :: byte) < 256"
  using unsigned_less[of b] by simp

lemma ucast_eq_1f: "(ucast (k :: byte) :: uint32) = 0x1f \<longleftrightarrow> k = 0x1f"
  using unat_byte_less[of k] by (simp add: word_unat_eq_iff unat_ucast_mod)

lemma parse_asn1_tag_sound:
  assumes "parse_asn1_tag m c = (Some t, c')"
  shows "\<exists>k \<le> unat (cb_len c). c' = cadv k c \<and> take k (cview m c) = tag_bytes t"
proof -
  obtain b bs where vw: "cview m c = b # bs"
    using assms by (auto simp: parse_asn1_tag_def bindf_def CBS_get_u8_eq split: list.splits)
  have len: "1 \<le> unat (cb_len c)" using arg_cong[OF vw, of length] by simp
  show ?thesis
  proof (cases "b AND 0x1f = 0x1f")
    case True
    obtain v where v: "base128_loop m 0 (cadv 1 c) = (Some v, c')" "\<not> v > 0x1fffffff" "\<not> v < 0x1f"
        and t: "t = push_bit 24 (ucast b AND 0xe0) OR ucast v"
      using assms True
      by (auto simp: parse_asn1_tag_def bindf_def CBS_get_u8_eq vw parse_base128_integer_def Let_def
          split: if_splits option.splits prod.splits)
    obtain k where k: "k \<le> unat (cb_len (cadv 1 c))" "c' = cadv k (cadv 1 c)" "take k (drop 1 (cview m c)) = base128 (unat v)"
      using base128_loop_sound[OF v(1)] len by auto
    have uv: "unat (ucast v :: uint32) = unat v" "unat v < 2 ^ 29" "31 \<le> unat v"
      using v(2,3) by (simp_all add: word_less_nat_alt unat_ucast_mod)
    have "tag_bits t = b AND 0xe0" "tag_number t = ucast v"
      unfolding t by (rule tag_split, use uv in simp)+
    then have "tag_bytes t = b # base128 (unat v)"
      using True uv by (simp add: tag_bytes_def tag_byte_join(2) word_le_nat_alt)
    then show ?thesis using k len vw by (intro exI[of _ "Suc k"]) simp
  next
    case False
    have c': "c' = cadv 1 c" and t: "t = push_bit 24 (ucast b AND 0xe0) OR ucast (b AND 0x1f)"
      using assms False
      by (auto simp: parse_asn1_tag_def bindf_def retf_def CBS_get_u8_eq vw Let_def ucast_eq_1f split: if_splits)
    have u: "unat (ucast (b AND 0x1f) :: uint32) = unat (b AND 0x1f)"
      using and_1f_less[of b] by (simp add: unat_ucast_mod)
    have "tag_bits t = b AND 0xe0" "tag_number t = ucast (b AND 0x1f)"
      unfolding t by (rule tag_split, use u and_1f_less[of b] in simp)+
    moreover have "unat (b AND 0x1f) \<noteq> 31" using False by (auto simp: word_unat_eq_iff)
    moreover have "ucast (ucast (b AND 0x1f) :: uint32) = b AND 0x1f"
      using and_1f_less[of b] by (simp add: word_unat_eq_iff unat_ucast_mod)
    ultimately have "tag_bytes t = [b]"
      using u and_1f_less[of b] by (simp add: tag_bytes_def word_le_nat_alt tag_byte_join(1))
    then show ?thesis using c' len vw by (intro exI[of _ 1]) simp
  qed
qed

lemma parse_asn1_tag_complete:
  assumes "cview m c = tag_bytes t @ rest"
  shows "parse_asn1_tag m c = (Some t, cadv (length (tag_bytes t)) c)"
proof (cases "tag_number t \<ge> 0x1f")
  case True
  let ?b = "tag_bits t OR 0x1f" and ?n = "unat (tag_number t)"
  have vw: "cview m c = ?b # base128 ?n @ rest" using assms True by (simp add: tag_bytes_def)
  have len: "1 \<le> unat (cb_len c)" using arg_cong[OF vw, of length] by simp
  have parts: "?b AND 0x1f = 0x1f" "?b AND 0xe0 = tag_bits t" by (rule tag_byte_parts, simp)+
  have n: "?n < 2 ^ 64" using unat_tag_number[of t] by simp
  have "base128_loop m 0 (cadv 1 c) = (Some (of_nat ?n), cadv (Suc (length (base128 ?n))) c)"
    using base128_loop_complete[OF n, of m "cadv 1 c" rest] len by (simp add: vw)
  moreover have "unat (of_nat ?n :: uint64) = ?n" using n by (rule unat_of_nat_size)
  moreover have "ucast (of_nat ?n :: uint64) = tag_number t"
    using unat_tag_number[of t] calculation(2) by (simp add: word_unat_eq_iff unat_ucast_mod del: of_nat_unat)
  moreover have "31 \<le> ?n" "?n < 2 ^ 29" using True unat_tag_number[of t] by (simp_all add: word_le_nat_alt)
  ultimately show ?thesis
    using parts tag_join[of t]
    by (simp add: parse_asn1_tag_def bindf_def CBS_get_u8_eq vw Let_def parse_base128_integer_def
        tag_bytes_def True word_less_nat_alt ucast_and_e0 del: of_nat_unat)
next
  case False
  let ?k = "ucast (tag_number t) :: byte"
  let ?b = "tag_bits t OR ?k"
  have vw: "cview m c = ?b # rest" using assms False by (simp add: tag_bytes_def)
  have n: "unat (tag_number t) < 31" using False by (simp add: word_le_nat_alt)
  have k: "unat ?k = unat (tag_number t)" using n by (simp add: unat_ucast_mod)
  have parts: "?b AND 0x1f = ?k" "?b AND 0xe0 = tag_bits t"
    using n k by (auto intro: tag_byte_parts)
  have "?k \<noteq> 0x1f" using k n by (auto simp: word_unat_eq_iff)
  moreover have "ucast ?k = tag_number t" using k n by (simp add: word_unat_eq_iff unat_ucast_mod)
  ultimately show ?thesis
    using parts tag_join[of t] False
    by (simp add: parse_asn1_tag_def bindf_def retf_def CBS_get_u8_eq vw Let_def tag_bytes_def ucast_and_e0 ucast_eq_1f)
qed

section \<open>Elements\<close>

lemma be_word_bytes: "length bs = k \<Longrightarrow> 8 * k \<le> LENGTH('a) \<Longrightarrow> be_bytes k (be_word bs :: 'a::len word) = bs"
  by (simp add: be_bytes_def be_word_def le_bytes_le_word)

lemma unat_be_word_less:
  assumes "length bs = k" and "k \<le> 8"
  shows "unat (be_word bs :: uint64) < 2 ^ (8 * k)"
proof -
  have "take_bit (8 * k) (be_word bs :: uint64) = be_word bs"
    using assms by (intro bit_word_eqI) (auto simp: bit_simps be_word_def bit_le_word less_mult_imp_div_less
        intro: ccontr[of "_ < _"] dest!: less_mult_imp_div_less)
  then have "take_bit (8 * k) (unat (be_word bs :: uint64)) = unat (be_word bs :: uint64)"
    by (metis unsigned_take_bit_eq)
  then show ?thesis by (metis take_bit_nat_less_exp)
qed

lemma len_octets_unique:
  assumes "1 \<le> k" "k \<le> 4" "n < 2 ^ (8 * k)" "n div 2 ^ (8 * (k - 1)) \<noteq> 0"
  shows "len_octets n = k"
proof -
  have lo: "2 ^ (8 * (k - 1)) \<le> n" using assms(4) by (metis div_less not_less)
  consider "k = 1" | "k = 2" | "k = 3" | "k = 4" using assms(1,2) by linarith
  then show ?thesis using assms(3) lo by cases (simp_all add: len_octets_def)
qed

lemma der_len_long:
  assumes "length bs = k" "1 \<le> k" "k \<le> 4" "unat (b AND 0x7f :: byte) = k" "b AND 0x80 \<noteq> 0"
    and "128 \<le> unat (be_word bs :: uint64)" "drop_bit ((k - 1) * 8) (be_word bs :: uint64) \<noteq> 0"
  shows "der_len (unat (be_word bs :: uint64)) = b # bs"
proof -
  have "unat (be_word bs :: uint64) div 2 ^ (8 * (k - 1)) \<noteq> 0"
    using assms(7) unat_drop_bit_eq[of "(k - 1) * 8" "be_word bs :: uint64"]
    by (simp add: drop_bit_eq_div word_unat_eq_iff mult.commute)
  then have "len_octets (unat (be_word bs :: uint64)) = k"
    using assms(1-3) unat_be_word_less[of bs k] by (intro len_octets_unique) auto
  moreover have "0x80 OR of_nat k = b"
    using byte_high_split(1)[OF assms(5)] assms(4) byte_low7[of b] by simp
  ultimately show ?thesis
    using assms(1,3,6) be_word_bytes[of bs k, where ?'a = 64] by (simp add: der_len_def)
qed

text \<open>
  The parser accepts only what the encoder writes: the element is the canonical header
  for its tag and length, followed by that many bytes.
\<close>

lemma CBS_get_any_asn1_element_def2:
  "CBS_get_any_asn1_element m c = (Some (out, t, hl), c') \<longleftrightarrow>
   (\<exists>f. cbs_get_any_asn1_element m False c = (Some (out, t, hl, f), c'))"
  by (auto simp: CBS_get_any_asn1_element_def bindf_def retf_def split: option.splits prod.splits)

lemma length_b128_high: "n < 128 ^ j \<Longrightarrow> length (b128_high n) \<le> j"
proof (induction j arbitrary: n)
  case (Suc j)
  show ?case
  proof (cases "n = 0")
    case False
    then show ?thesis using Suc.IH[of "n div 128"] Suc.prems by (simp add: b128_high_step less_mult_imp_div_less mult.commute)
  qed simp
qed simp

lemma length_tag_bytes: "length (tag_bytes t) \<le> 6"
  using unat_tag_number[of t] length_b128_high[of "unat (tag_number t) div 128" 4]
  by (auto simp: tag_bytes_def base128_def)

text \<open>An element at the front of a \<open>CBS\<close>: a canonical header of \<open>hl\<close> bytes announcing \<open>n\<close> bytes of contents, all inside.\<close>

definition der_element :: "heap \<Rightarrow> CBS \<Rightarrow> uint32 \<Rightarrow> nat \<Rightarrow> nat \<Rightarrow> bool" where
  "der_element m c t hl n \<longleftrightarrow>
     hl = length (der_header t n) \<and> take hl (cview m c) = der_header t n \<and> hl + n \<le> unat (cb_len c) \<and> n < 2 ^ 32"

lemma cview_Cons_len: "cview m c = b # bs \<Longrightarrow> Suc 0 \<le> unat (cb_len c)"
  using length_cview[of m c] by simp

lemma cb_len_diff: "cb_len c - cb_len (cadv k c) = of_nat k"
  by (simp add: cadv_def)

lemma take_Suc_drop: "drop k xs = b # ys \<Longrightarrow> take (Suc k) xs = take k xs @ [b]"
  using take_add[of k 1 xs] by simp

lemma no_wrap_add: "\<not> x + y < x \<Longrightarrow> unat (x + y :: 'a::len word) = unat x + unat y"
  by (meson le_no_overflow not_less unat_plus_simple word_le_less_eq)

lemma of_nat_of_unat: "unat x = k \<Longrightarrow> of_nat k = (x :: 'a::len word)"
  by auto

lemma short_element_sound:
  assumes "take k (cview m c) = tag_bytes t" "k \<le> unat (cb_len c)" "drop k (cview m c) = b # bs" "b AND 0x80 = 0"
    and "Suc k + unat b \<le> unat (cb_len c)"
  shows "der_element m c t (Suc k) (unat b)"
proof -
  have "unat b < 128" using assms(4) byte_and_80_eq_0[of b] by simp
  moreover have "length (tag_bytes t) = k" using arg_cong[OF assms(1), of length] assms(2) by simp
  ultimately show ?thesis
    using assms take_Suc_drop[OF assms(3)] by (simp add: der_element_def der_header_def der_len_def)
qed

lemma long_element_sound:
  fixes b :: byte
  assumes tag: "take k (cview m c) = tag_bytes t" "drop k (cview m c) = b # bs" and b: "b AND 0x80 \<noteq> 0"
    and j: "j = unat (b AND 0x7f)" "1 \<le> j" "j \<le> 4" "Suc k + j \<le> unat (cb_len c)"
    and n: "n = unat (be_word (take j bs) :: uint64)" "128 \<le> n" "drop_bit ((j - 1) * 8) (be_word (take j bs) :: uint64) \<noteq> 0"
    and fits: "Suc k + j + n \<le> unat (cb_len c)"
  shows "der_element m c t (Suc k + j) n"
proof -
  have k: "length (tag_bytes t) = k" using arg_cong[OF tag(1), of length] j(4) by simp
  have jl: "length (take j bs) = j" using arg_cong[OF tag(2), of length] j(4) by simp
  have len: "der_len n = b # take j bs"
    unfolding n(1) using jl j(1-3) b n by (intro der_len_long) auto
  have "take (Suc k + j) (cview m c) = take k (cview m c) @ take (Suc j) (drop k (cview m c))"
    by (simp add: take_add[symmetric])
  also have "\<dots> = der_header t n" using tag len by (simp add: der_header_def)
  finally have "take (Suc k + j) (cview m c) = der_header t n" .
  moreover have "n < 2 ^ 32"
  proof -
    have "n < 2 ^ (8 * j)" unfolding n(1) using jl j(3) by (intro unat_be_word_less) auto
    also have "(2::nat) ^ (8 * j) \<le> 2 ^ 32" using j(3) by (intro power_increasing) auto
    finally show ?thesis .
  qed
  ultimately show ?thesis using fits k jl len by (simp add: der_element_def der_header_def)
qed

text \<open>The header of an accepted element up to its first length octet.\<close>

definition tag_then :: "heap \<Rightarrow> CBS \<Rightarrow> uint32 \<Rightarrow> nat \<Rightarrow> byte \<Rightarrow> byte list \<Rightarrow> bool" where
  "tag_then m c t k b bs \<longleftrightarrow>
     parse_asn1_tag m c = (Some t, cadv k c) \<and> k \<le> unat (cb_len c) \<and> take k (cview m c) = tag_bytes t \<and>
     drop k (cview m c) = b # bs"

lemma tag_then_facts:
  assumes "tag_then m c t k b bs"
  shows "parse_asn1_tag m c = (Some t, cadv k c)" "k \<le> unat (cb_len c)" "Suc k \<le> unat (cb_len c)"
    "length bs = unat (cb_len c) - Suc k" "take k (cview m c) = tag_bytes t" "drop k (cview m c) = b # bs"
    "drop (Suc k) (cview m c) = bs" "k \<le> 6" "unat (of_nat (Suc k) :: size_t) = Suc k"
proof -
  note t = assms[unfolded tag_then_def]
  show "parse_asn1_tag m c = (Some t, cadv k c)" "k \<le> unat (cb_len c)" "take k (cview m c) = tag_bytes t"
    and b: "drop k (cview m c) = b # bs" using t by auto
  show "drop (Suc k) (cview m c) = bs" using arg_cong[OF b, of tl] by (simp add: drop_Suc tl_drop)
  have "length (cview m c) - k = Suc (length bs)" using arg_cong[OF b, of length] by simp
  then show s: "Suc k \<le> unat (cb_len c)" and "length bs = unat (cb_len c) - Suc k" using t by auto
  show "unat (of_nat (Suc k) :: size_t) = Suc k" using s by (rule of_nat_le_len)
  have "length (take k (cview m c)) = k" using s by simp
  then show "k \<le> 6" using t length_tag_bytes[of t] by simp
qed

lemmas element_unfold = cbs_get_any_asn1_element_def CBS_get_u8_eq Let_def CBS_len_def cb_len_diff
  bindf_def retf_def CBS_get_bytes_eq

lemma cbs_element_short:
  assumes "tag_then m c t k b bs" and b: "b AND 0x80 = 0"
    and "cbs_get_any_asn1_element m False c = (Some (out, t', hl, f), c')"
  shows "t' = t \<and> der_element m c t (unat hl) (unat b) \<and> c' = cadv (unat hl + unat b) c \<and>
    out = \<lparr>cb_data = cb_data c, cb_len = of_nat (unat hl + unat b)\<rparr> \<and> \<not> f"
proof -
  note t = tag_then_facts[OF assms(1)]
  let ?n = "ucast b + of_nat (Suc k) :: size_t"
  have res: "hl = of_nat (Suc k)" "unat ?n \<le> unat (cb_len c)" "out = \<lparr>cb_data = cb_data c, cb_len = ?n\<rparr>"
    "c' = cadv (unat ?n) c" "\<not> f" "t' = t"
    using assms(3) b t by (auto simp: element_unfold split: if_splits)
  have sum: "unat ?n = Suc k + unat b"
    using t(8,9) unat_byte_less[of b] by (simp add: unat_word_ariths del: of_nat_Suc)
  then have "der_element m c t (Suc k) (unat b)"
    using short_element_sound[OF t(5,2,6) b] res(2) by simp
  then show ?thesis
    using res(1,3-6) t(9) by (simp only: of_nat_of_unat[OF sum] sum, simp)
qed

lemma cbs_element_long:
  assumes "tag_then m c t k b bs" and b: "b AND 0x80 \<noteq> 0"
    and "cbs_get_any_asn1_element m False c = (Some (out, t', hl, f), c')"
  shows "\<exists>n. t' = t \<and> der_element m c t (unat hl) n \<and> c' = cadv (unat hl + n) c \<and>
    out = \<lparr>cb_data = cb_data c, cb_len = of_nat (unat hl + n)\<rparr> \<and> \<not> f"
proof -
  note t = tag_then_facts[OF assms(1)]
  let ?j = "unat (b AND 0x7f)"
  let ?w = "be_word (take ?j bs) :: uint64" and ?h = "of_nat (Suc k) + of_nat ?j :: size_t"
  have j: "1 \<le> ?j" "?j \<le> 4" "Suc k + ?j \<le> unat (cb_len c)"
    using assms(3) b t by (auto simp: element_unfold cbs_get_u_eq split: if_splits)
  have res: "hl = ?h" "out = \<lparr>cb_data = cb_data c, cb_len = ?w + ?h\<rparr>" "c' = cadv (unat (?w + ?h)) c" "\<not> f" "t' = t"
    "\<not> ?w < 128" "drop_bit ((?j - 1) * 8) ?w \<noteq> 0" "\<not> ?w + ?h < ?w" "unat (?w + ?h) \<le> unat (cb_len c)"
    using assms(3) b j t by (auto simp: element_unfold cbs_get_u_eq add.assoc split: if_splits)
  have h: "unat ?h = Suc k + ?j" using of_nat_le_len[OF j(3)] by (simp add: add.assoc)
  have sum: "unat (?w + ?h) = Suc k + ?j + unat ?w" using no_wrap_add[OF res(8)] h by simp
  have "der_element m c t (Suc k + ?j) (unat ?w)"
    using long_element_sound[OF t(5,6) b refl j refl] res(6,7,9) sum by (simp add: word_less_nat_alt)
  then show ?thesis
    using res(1-5) h by (intro exI[of _ "unat ?w"]) (simp only: of_nat_of_unat[OF sum] sum, simp)
qed

lemma cbs_element_sound:
  assumes "cbs_get_any_asn1_element m False c = (Some (out, t, hl, f), c')"
  shows "\<exists>n. der_element m c t (unat hl) n \<and> c' = cadv (unat hl + n) c \<and>
    out = \<lparr>cb_data = cb_data c, cb_len = of_nat (unat hl + n)\<rparr> \<and> \<not> f"
proof -
  obtain c1 t1 where "parse_asn1_tag m c = (Some t1, c1)"
    using assms by (auto simp: cbs_get_any_asn1_element_def split: option.splits prod.splits)
  then obtain k where k: "parse_asn1_tag m c = (Some t1, cadv k c)" "k \<le> unat (cb_len c)" "take k (cview m c) = tag_bytes t1"
    using parse_asn1_tag_sound by blast
  obtain b bs where "drop k (cview m c) = b # bs"
    using assms k by (auto simp: cbs_get_any_asn1_element_def CBS_get_u8_eq split: list.splits)
  then have "tag_then m c t1 k b bs" using k by (simp add: tag_then_def)
  then show ?thesis
    using cbs_element_short[of m c t1 k b bs] cbs_element_long[of m c t1 k b bs] assms by (cases "b AND 0x80 = 0") blast+
qed

text \<open>Conversely, every canonical element is accepted.\<close>

lemma len_octets_props:
  assumes "128 \<le> n" "n < 2 ^ 32"
  shows "1 \<le> len_octets n" "len_octets n \<le> 4" "n < 2 ^ (8 * len_octets n)" "n div 2 ^ (8 * (len_octets n - 1)) \<noteq> 0"
  using assms by (auto simp: len_octets_def div_eq_0_iff)

lemma der_len_octet:
  assumes "1 \<le> k" "k \<le> 4"
  shows "(0x80 OR of_nat k :: byte) AND 0x80 \<noteq> 0" "unat ((0x80 OR of_nat k :: byte) AND 0x7f) = k"
proof -
  consider "k = 1" | "k = 2" | "k = 3" | "k = 4" using assms by linarith
  then show "(0x80 OR of_nat k :: byte) AND 0x80 \<noteq> 0" "unat ((0x80 OR of_nat k :: byte) AND 0x7f) = k"
    by (cases, simp_all)+
qed

lemma be_word_be_bytes_nat:
  assumes "n < 2 ^ (8 * k)" "k \<le> 8"
  shows "be_word (be_bytes k (of_nat n :: uint64)) = (of_nat n :: uint64)"
proof -
  have "be_word (be_bytes k (of_nat n :: uint64)) = take_bit (8 * k) (of_nat n :: uint64)"
    by (simp add: be_word_def be_bytes_def le_word_le_bytes)
  also have "\<dots> = of_nat (take_bit (8 * k) n)" by (simp add: take_bit_of_nat)
  also have "take_bit (8 * k) n = n" using assms(1) by (rule take_bit_nat_eq_self)
  finally show ?thesis .
qed

lemma tag_then_complete:
  assumes "cview m c = tag_bytes t @ b # bs"
  shows "tag_then m c t (length (tag_bytes t)) b bs"
proof -
  have "length (tag_bytes t) \<le> unat (cb_len c)" using arg_cong[OF assms, of length] by simp
  then show ?thesis
    using parse_asn1_tag_complete[of m c t "b # bs"] assms by (simp add: tag_then_def)
qed

lemma cbs_element_complete_long:
  assumes "tag_then m c t k (0x80 OR of_nat (len_octets n)) (be_bytes (len_octets n) (of_nat n :: uint64) @ rest)"
    and n: "128 \<le> n" "n < 2 ^ 32" and h: "h = Suc k + len_octets n" and fits: "h + n \<le> unat (cb_len c)"
  shows "cbs_get_any_asn1_element m ber c =
    (Some (\<lparr>cb_data = cb_data c, cb_len = of_nat (h + n)\<rparr>, t, of_nat h, False), cadv (h + n) c)"
proof -
  let ?j = "len_octets n" and ?w = "of_nat n :: uint64"
  note t = tag_then_facts[OF assms(1)] and j = len_octets_props[OF n]
  note b = der_len_octet[OF j(1,2)]
  have u: "unat (of_nat (h + n) :: size_t) = h + n" using fits by (rule of_nat_le_len)
  have w: "unat ?w = n" using n by (intro unat_of_nat_size) simp
  have rd: "cbs_get_u m ?j (cadv (Suc k) c) = (Some ?w, cadv h c)"
    using t(2-7) j fits h be_word_be_bytes_nat[of n ?j] by (simp add: cbs_get_u_eq)
  have eq: "?w + of_nat (Suc k) + of_nat ?j = of_nat (h + n)" "?w + of_nat h = of_nat (h + n)"
    "of_nat (Suc k) + of_nat ?j = (of_nat h :: size_t)"
    by (simp_all add: h)
  have "\<not> ?w < 128" "\<not> of_nat (h + n) < ?w" using n w u by (simp_all add: word_less_nat_alt del: of_nat_add)
  moreover have "drop_bit ((?j - 1) * 8) ?w \<noteq> 0"
  proof -
    have "unat (drop_bit ((?j - 1) * 8) ?w) = n div 2 ^ (8 * (?j - 1))"
      by (simp only: unat_drop_bit_eq w) (simp only: drop_bit_eq_div mult.commute)
    then show ?thesis using j(4) by (metis unsigned_0)
  qed
  ultimately show ?thesis
    using b t j fits u rd by (simp add: element_unfold eq del: of_nat_add of_nat_Suc)
qed

lemma cbs_element_complete_short:
  assumes "tag_then m c t k (of_nat n) rest" and n: "n < 128" and fits: "Suc k + n \<le> unat (cb_len c)"
  shows "cbs_get_any_asn1_element m ber c =
    (Some (\<lparr>cb_data = cb_data c, cb_len = of_nat (Suc k + n)\<rparr>, t, of_nat (Suc k), False), cadv (Suc k + n) c)"
proof -
  let ?b = "of_nat n :: byte"
  have b: "unat ?b = n" using n by (simp add: unat_of_nat_byte)
  then have "?b AND 0x80 = 0" using n byte_and_80_eq_0[of ?b] by simp
  moreover have "(ucast ?b :: size_t) = of_nat n" using b n by (simp add: word_unat_eq_iff)
  moreover have "of_nat n + of_nat (Suc k) = (of_nat (Suc k + n) :: size_t)" by simp
  ultimately show ?thesis
    using tag_then_facts[OF assms(1)] fits of_nat_le_len[OF fits]
    by (simp add: element_unfold del: of_nat_add of_nat_Suc)
qed

lemma cbs_element_complete:
  assumes "der_element m c t h n"
  shows "cbs_get_any_asn1_element m ber c =
    (Some (\<lparr>cb_data = cb_data c, cb_len = of_nat (h + n)\<rparr>, t, of_nat h, False), cadv (h + n) c)"
proof -
  let ?k = "length (tag_bytes t)"
  have e: "h = ?k + length (der_len n)" "h + n \<le> unat (cb_len c)" "n < 2 ^ 32" "take h (cview m c) = tag_bytes t @ der_len n"
    using assms by (auto simp: der_element_def der_header_def)
  then have vw: "cview m c = tag_bytes t @ der_len n @ drop h (cview m c)"
    by (metis append.assoc append_take_drop_id)
  show ?thesis
  proof (cases "n < 128")
    case True
    then have "tag_then m c t ?k (of_nat n) (drop h (cview m c))"
      using vw by (intro tag_then_complete) (simp add: der_len_def)
    moreover have "h = Suc ?k" using e(1) True by (simp add: der_len_def)
    ultimately show ?thesis using cbs_element_complete_short e(2) True by blast
  next
    case False
    then have "tag_then m c t ?k (0x80 OR of_nat (len_octets n))
        (be_bytes (len_octets n) (of_nat n :: uint64) @ drop h (cview m c))"
      using vw by (intro tag_then_complete) (simp add: der_len_def)
    moreover have "h = Suc ?k + len_octets n" using e(1) False by (simp add: der_len_def)
    ultimately show ?thesis using cbs_element_complete_long e(2,3) False by (meson not_less)
  qed
qed

text \<open>
  The parser is the inverse of the encoder: it returns an element exactly when the bytes
  start with the canonical header for that tag and some length, with all announced
  contents present.
\<close>

lemma asn1_element_iff:
  "CBS_get_any_asn1_element m c = (Some (out, t, hl), c') \<longleftrightarrow>
   (\<exists>n. der_element m c t (unat hl) n \<and> c' = cadv (unat hl + n) c \<and>
        out = \<lparr>cb_data = cb_data c, cb_len = of_nat (unat hl + n)\<rparr>)"
  (is "?L \<longleftrightarrow> ?R")
proof
  assume ?L
  then obtain f where "cbs_get_any_asn1_element m False c = (Some (out, t, hl, f), c')"
    unfolding CBS_get_any_asn1_element_def2 by blast
  from cbs_element_sound[OF this] show ?R by blast
next
  assume ?R
  then obtain n where n: "der_element m c t (unat hl) n" "c' = cadv (unat hl + n) c"
      "out = \<lparr>cb_data = cb_data c, cb_len = of_nat (unat hl + n)\<rparr>" by blast
  have "of_nat (unat hl) = hl" by simp
  with cbs_element_complete[OF n(1), of False] show ?L
    unfolding CBS_get_any_asn1_element_def2 n(2,3) by auto
qed

lemma get_bytes_then: "bindf (CBS_get_bytes k) (\<lambda>out. retf (g out)) c = (Some r, c') \<longleftrightarrow>
    unat k \<le> unat (cb_len c) \<and> r = g \<lparr>cb_data = cb_data c, cb_len = k\<rparr> \<and> c' = cadv (unat k) c"
  by (auto simp: bindf_def retf_def CBS_get_bytes_eq)

lemma ber_flag_element:
  "cbs_get_any_asn1_element m True c = (Some (out, t, hl, False), c') \<longleftrightarrow>
   cbs_get_any_asn1_element m False c = (Some (out, t, hl, False), c')"
proof (cases "parse_asn1_tag m c")
  case tag: (Pair a c1)
  show ?thesis
  proof (cases a)
    case (Some t1)
    show ?thesis
    proof (cases "CBS_get_u8 m c1")
      case u8: (Pair b c2)
      show ?thesis
      proof (cases b)
        case (Some b1)
        then show ?thesis
          using \<open>a = Some t1\<close> tag u8
          by (cases "cbs_get_u m (unat (b1 AND 0x7f)) c2"; cases "fst (cbs_get_u m (unat (b1 AND 0x7f)) c2)")
             (simp_all add: cbs_get_any_asn1_element_def Let_def get_bytes_then)
      qed (use tag u8 Some in \<open>simp add: cbs_get_any_asn1_element_def\<close>)
    qed
  qed (simp add: cbs_get_any_asn1_element_def tag)
qed

text \<open>
  The BER flag is exact: an element that the lenient parser returns without raising it is
  one that the strict parser returns.
\<close>

lemma ber_flag_iff:
  "CBS_get_any_ber_asn1_element m c = (Some (out, t, hl, False), c') \<longleftrightarrow>
   CBS_get_any_asn1_element m c = (Some (out, t, hl), c')"
proof -
  have "cbs_get_any_asn1_element m False c = (Some (out, t, hl, f), c') \<longrightarrow> \<not> f" for f
    using cbs_element_sound[of m c out t hl f c'] by auto
  moreover note ber_flag_element[of m c out t hl c']
  ultimately show ?thesis
    unfolding CBS_get_any_asn1_element_def2 CBS_get_any_ber_asn1_element_def ex_bool_eq by metis
qed

section \<open>Bounds\<close>

lemma base128_loop_local:
  "cview m c = cview m' c \<Longrightarrow> base128_loop m v c = base128_loop m' v c"
proof (induction m v c rule: base128_loop.induct)
  case (1 m v c)
  show ?case
  proof (cases "cview m c")
    case (Cons b bs)
    have k: "1 \<le> unat (cb_len c)" using cview_Cons_len[OF Cons] by simp
    then have "cview m (cadv 1 c) = cview m' (cadv 1 c)" using 1(2) by simp
    then show ?thesis
      using 1(1)[of "Some b" "cadv 1 c" b] Cons 1(2)
      by (simp add: base128_loop.simps[of m v c] base128_loop.simps[of m' v c] CBS_get_u8_eq Let_def)
  qed (use 1(2) in \<open>simp add: base128_loop.simps[of m v c] base128_loop.simps[of m' v c] CBS_get_u8_eq\<close>)
qed

lemma base128_loop_suffix: "\<exists>k \<le> unat (cb_len c). snd (base128_loop m v c) = cadv k c"
proof (induction m v c rule: base128_loop.induct)
  case (1 m v c)
  show ?case
  proof (cases "cview m c")
    case Nil
    then show ?thesis by (intro exI[of _ 0]) (simp add: base128_loop.simps[of m v c] CBS_get_u8_eq)
  next
    case (Cons b bs)
    have k: "1 \<le> unat (cb_len c)" using cview_Cons_len[OF Cons] by simp
    let ?v = "push_bit 7 v OR ucast (b AND 0x7f)"
    show ?thesis
    proof (cases "drop_bit 57 v \<noteq> 0 \<or> (v = 0 \<and> b = 0x80) \<or> b AND 0x80 = 0")
      case True
      then show ?thesis using Cons k
        by (intro exI[of _ 1]) (auto simp add: base128_loop.simps[of m v c] CBS_get_u8_eq Let_def)
    next
      case False
      then have "snd (base128_loop m v c) = snd (base128_loop m ?v (cadv 1 c))"
        using Cons by (auto simp: base128_loop.simps[of m v c] CBS_get_u8_eq Let_def)
      moreover obtain j where "j \<le> unat (cb_len (cadv 1 c))" "snd (base128_loop m ?v (cadv 1 c)) = cadv j (cadv 1 c)"
        using 1[of "Some b" "cadv 1 c" b ?v] False Cons by (auto simp: CBS_get_u8_eq)
      ultimately show ?thesis using k by (intro exI[of _ "Suc j"]) simp
    qed
  qed
qed

lemma parse_asn1_tag_local:
  assumes "cview m c = cview m' c"
  shows "parse_asn1_tag m c = parse_asn1_tag m' c"
proof (cases "cview m c")
  case Nil
  then have "cview m' c = []" using assms by simp
  with Nil show ?thesis by (simp add: parse_asn1_tag_def bindf_def CBS_get_u8_eq)
next
  case (Cons b bs)
  then have "cview m' c = b # bs" using assms by simp
  moreover have "cview m (cadv 1 c) = cview m' (cadv 1 c)" using assms cview_Cons_len[OF Cons] by simp
  ultimately show ?thesis
    using Cons base128_loop_local[of m "cadv 1 c" m' 0]
    by (simp add: parse_asn1_tag_def bindf_def CBS_get_u8_eq parse_base128_integer_def Let_def)
qed

lemma parse_asn1_tag_suffix: "\<exists>k \<le> unat (cb_len c). snd (parse_asn1_tag m c) = cadv k c"
proof (cases "cview m c")
  case Nil
  then show ?thesis by (intro exI[of _ 0]) (simp add: parse_asn1_tag_def bindf_def CBS_get_u8_eq)
next
  case (Cons b bs)
  have k: "1 \<le> unat (cb_len c)" using cview_Cons_len[OF Cons] by simp
  obtain j where j: "j \<le> unat (cb_len (cadv 1 c))" "snd (base128_loop m 0 (cadv 1 c)) = cadv j (cadv 1 c)"
    using base128_loop_suffix by blast
  show ?thesis
  proof (cases "b AND 0x1f = 0x1f")
    case True
    then show ?thesis using Cons j k
      by (intro exI[of _ "Suc j"]) (auto simp: parse_asn1_tag_def bindf_def CBS_get_u8_eq parse_base128_integer_def
          Let_def split: prod.splits option.splits)
  next
    case False
    then show ?thesis using Cons k
      by (intro exI[of _ 1]) (auto simp: parse_asn1_tag_def bindf_def retf_def CBS_get_u8_eq Let_def ucast_eq_1f)
  qed
qed

lemma cbs_get_u_local:
  "cview m c = cview m' c \<Longrightarrow> n \<le> 8 \<Longrightarrow> cbs_get_u m n c = cbs_get_u m' n c"
  by (simp add: cbs_get_u_eq)

text \<open>
  The parser reads no byte outside its \<open>CBS\<close>: two memories that agree on the bytes covered
  give the same result.
\<close>

lemma asn1_element_local:
  assumes "read_bytes m (cb_data c) (unat (cb_len c)) = read_bytes m' (cb_data c) (unat (cb_len c))"
  shows "cbs_get_any_asn1_element m ber c = cbs_get_any_asn1_element m' ber c"
proof -
  have eq: "cview m c = cview m' c" using assms by (simp add: cview_def)
  obtain k where k: "k \<le> unat (cb_len c)" "snd (parse_asn1_tag m c) = cadv k c"
    using parse_asn1_tag_suffix by blast
  obtain a where a: "parse_asn1_tag m c = (a, cadv k c)" "parse_asn1_tag m' c = (a, cadv k c)"
    using k(2) parse_asn1_tag_local[OF eq] by (metis prod.collapse)
  show ?thesis
  proof (cases "drop k (cview m c)")
    case Nil
    then have "drop k (cview m' c) = []" using eq by simp
    then show ?thesis using a Nil k by (cases a) (simp_all add: cbs_get_any_asn1_element_def CBS_get_u8_eq)
  next
    case (Cons b bs)
    then have "drop k (cview m' c) = b # bs" using eq by simp
    moreover have "cbs_get_u m n (cadv (Suc k) c) = cbs_get_u m' n (cadv (Suc k) c)" if "n \<le> 4" for n
      using that eq k cview_Cons_len[of m "cadv k c" b bs] Cons by (intro cbs_get_u_local) auto
    ultimately show ?thesis
      using a Cons k
      by (cases a; cases "unat (b AND 0x7f) \<le> 4") (simp_all add: cbs_get_any_asn1_element_def CBS_get_u8_eq Let_def)
  qed
qed

text \<open>
  The element returned is a prefix of the input, contains its own header, and the rest of
  the input starts right after it, in strict and in lenient mode.
\<close>

lemma element_tag_then:
  assumes "cbs_get_any_asn1_element m ber c = (Some r, c')"
  shows "\<exists>t k b bs. tag_then m c t k b bs"
proof -
  obtain c1 t1 where "parse_asn1_tag m c = (Some t1, c1)"
    using assms by (auto simp: cbs_get_any_asn1_element_def split: option.splits prod.splits)
  then obtain k where k: "parse_asn1_tag m c = (Some t1, cadv k c)" "k \<le> unat (cb_len c)" "take k (cview m c) = tag_bytes t1"
    using parse_asn1_tag_sound by blast
  then obtain b bs where "drop k (cview m c) = b # bs"
    using assms by (auto simp: cbs_get_any_asn1_element_def CBS_get_u8_eq split: list.splits)
  then show ?thesis using k by (auto simp: tag_then_def)
qed

lemma element_prefix:
  assumes "cbs_get_any_asn1_element m ber c = (Some (out, t, hl, f), c')"
  shows "unat (cb_len out) \<le> unat (cb_len c) \<and> c' = cadv (unat (cb_len out)) c \<and>
    cb_data out = cb_data c \<and> unat hl \<le> unat (cb_len out)"
proof -
  obtain t1 k b bs where "tag_then m c t1 k b bs" using element_tag_then[OF assms] by blast
  note t = tag_then_facts[OF this]
  let ?h = "of_nat (Suc k) :: size_t"
  have short: "unat ?h \<le> unat (ucast b + ?h)"
    using t(8,9) unat_byte_less[of b] by (simp add: unat_word_ariths del: of_nat_Suc)
  have long: "unat x \<le> unat (y + x)" if "\<not> y + x < y" for x y :: size_t
    using no_wrap_add[OF that] by simp
  show ?thesis
    using assms t(1,2,6) short long
    by (auto simp: cbs_get_any_asn1_element_def CBS_get_u8_eq Let_def CBS_len_def cb_len_diff get_bytes_then add.assoc
        simp del: of_nat_Suc split: if_splits option.splits prod.splits)
qed

lemma asn1_element_bounds:
  assumes "cbs_get_any_asn1_element m ber c = (Some (out, t, hl, f), c')"
  shows "cb_data out = cb_data c \<and> unat hl \<le> unat (cb_len out) \<and> unat (cb_len out) \<le> unat (cb_len c) \<and>
    cb_data c' = cb_data out + unat (cb_len out) \<and> unat (cb_len c') = unat (cb_len c) - unat (cb_len out)"
  using element_prefix[OF assms] by (auto simp: cb_data_cadv)

section \<open>Theorems\<close>

text \<open>
  C7. The strict ASN.1 parser accepts DER and nothing else: \<open>CBS_get_any_asn1_element\<close> returns
  an element with tag \<open>t\<close> and header length \<open>hl\<close> exactly when the input starts with the
  canonical identifier and length octets for \<open>t\<close> and some length, followed by that many
  bytes; the element is that prefix and the rest of the input is left.
\<close>

theorem asn1_element_is_der:
  "CBS_get_any_asn1_element m c = (Some (out, t, hl), c') \<longleftrightarrow>
   (\<exists>n. der_element m c t (unat hl) n \<and> c' = cadv (unat hl + n) c \<and>
        out = \<lparr>cb_data = cb_data c, cb_len = of_nat (unat hl + n)\<rparr>)"
  by (rule asn1_element_iff)

text \<open>
  The BER flag is exact: the lenient parser returns an element with \<open>*out_ber_found\<close> clear
  exactly when the strict parser returns the same element.
\<close>

theorem ber_flag_exact:
  "CBS_get_any_ber_asn1_element m c = (Some (out, t, hl, False), c') \<longleftrightarrow>
   CBS_get_any_asn1_element m c = (Some (out, t, hl), c')"
  by (rule ber_flag_iff)

text \<open>
  C34. The parser reads no byte outside its \<open>CBS\<close>, in strict and in lenient mode: memories that
  agree on the bytes covered give the same result.
\<close>

theorem asn1_element_reads_inside:
  assumes "read_bytes m (cb_data c) (unat (cb_len c)) = read_bytes m' (cb_data c) (unat (cb_len c))"
  shows "cbs_get_any_asn1_element m ber c = cbs_get_any_asn1_element m' ber c"
  using assms by (rule asn1_element_local)

theorem asn1_element_reads_inside_witness:
  "cbs_get_any_asn1_element (\<lambda>i. if i < 3 then [4, 1, 7] ! i else 0) True \<lparr>cb_data = 0, cb_len = 3\<rparr> =
   cbs_get_any_asn1_element (\<lambda>i. if i < 3 then [4, 1, 7] ! i else 9) True \<lparr>cb_data = 0, cb_len = 3\<rparr>"
  by (rule asn1_element_reads_inside, code_simp)

text \<open>
  C33. The element returned is a prefix of the input that contains its own header, and the
  input continues right behind it: no length in a header, however large, makes the parser
  hand out bytes it was not given.
\<close>

theorem asn1_element_in_bounds:
  assumes "cbs_get_any_asn1_element m ber c = (Some (out, t, hl, f), c')"
  shows "cb_data out = cb_data c \<and> unat hl \<le> unat (cb_len out) \<and> unat (cb_len out) \<le> unat (cb_len c) \<and>
    cb_data c' = cb_data out + unat (cb_len out) \<and> unat (cb_len c') = unat (cb_len c) - unat (cb_len out)"
  using assms by (rule asn1_element_bounds)

theorem asn1_element_in_bounds_witness:
  "unat (2 :: size_t) \<le> unat (3 :: size_t) \<and> unat (3 :: size_t) \<le> unat (5 :: size_t) \<and> unat (2 :: size_t) = unat (5 :: size_t) - unat (3 :: size_t)"
proof -
  have "cbs_get_any_asn1_element (\<lambda>i. if i < 5 then [4, 1, 7, 9, 9] ! i else 0) False \<lparr>cb_data = 0, cb_len = 5\<rparr> =
      (Some (\<lparr>cb_data = 0, cb_len = 3\<rparr>, 4, 2, False), \<lparr>cb_data = 3, cb_len = 2\<rparr>)" by code_simp
  from asn1_element_in_bounds[OF this] show ?thesis by simp
qed

end
