(* ===== verification/Cbb.thy ===== *)
theory Cbb
  imports Der
begin

text \<open>
  The byte-string builder of BoringSSL, \<^verbatim>\<open>BoringSSL-GRPC/src/crypto/bytestring/cbb.c\<close>, with the
  allocation functions of \<^verbatim>\<open>crypto/mem.c\<close> it uses. The shared \<open>struct cbb_buffer_st\<close> is a
  record; a \<open>CBB\<close> is the node of a chain of pending children, each with its own offset and
  pending length prefix, as the \<open>child\<close> pointers form it. An operation is a function of the
  node it is called on and of the buffer; \<open>on_child\<close> is a call through a pointer to the
  child. The NULL buffer is the empty list.
\<close>

section \<open>Allocation\<close>

text \<open>
  \<open>malloc\<close> is a parameter: for a size, failure or the initial contents of the block. The
  library stores the size in front of a block, so it asks for 8 bytes more.
\<close>

type_synonym alloc = "nat \<Rightarrow> (nat \<Rightarrow> byte) option"

definition OPENSSL_malloc :: "alloc \<Rightarrow> size_t \<Rightarrow> byte list option" where
  "OPENSSL_malloc malloc n =
     (if n + 8 < n then None
      else map_option (\<lambda>f. map f [0..<unat n]) (malloc (unat (n + 8))))"

definition OPENSSL_realloc :: "alloc \<Rightarrow> byte list \<Rightarrow> size_t \<Rightarrow> byte list option" where
  "OPENSSL_realloc malloc orig new_size =
     map_option (\<lambda>ret. memcpy_at ret 0 (take (min (unat new_size) (length orig)) orig))
       (OPENSSL_malloc malloc new_size)"

section \<open>The buffer\<close>

record cbb_buffer =
  buf :: "byte list"
  blen :: size_t
  bcap :: size_t
  can_resize :: bool
  berror :: bool

definition cbb_buffer_reserve :: "alloc \<Rightarrow> size_t \<Rightarrow> cbb_buffer \<Rightarrow> nat option \<times> cbb_buffer" where
  "cbb_buffer_reserve malloc n base =
     (let newlen = blen base + n; err = (None, base\<lparr>berror := True\<rparr>) in
      if newlen < blen base then err
      else if newlen > bcap base then
        if \<not> can_resize base then err
        else
          let dbl = bcap base * 2;
              newcap = (if dbl < bcap base \<or> dbl < newlen then newlen else dbl)
          in case OPENSSL_realloc malloc (buf base) newcap of
               None \<Rightarrow> err
             | Some newbuf \<Rightarrow> (Some (unat (blen base)), base\<lparr>buf := newbuf, bcap := newcap\<rparr>)
      else (Some (unat (blen base)), base))"

definition cbb_buffer_add :: "alloc \<Rightarrow> size_t \<Rightarrow> cbb_buffer \<Rightarrow> nat option \<times> cbb_buffer" where
  "cbb_buffer_add malloc n =
     bindf (cbb_buffer_reserve malloc n) (\<lambda>out base. (Some out, base\<lparr>blen := blen base + n\<rparr>))"

text \<open>
  The loop that writes the low \<open>n\<close> bytes of \<open>v\<close> at \<open>pos\<close>, least significant byte last; it
  leaves what remains of \<open>v\<close>.
\<close>

definition put_be :: "nat \<Rightarrow> nat \<Rightarrow> uint64 \<Rightarrow> byte list \<Rightarrow> uint64 \<times> byte list" where
  "put_be n pos v bs = fold (\<lambda>i (v, bs). (drop_bit 8 v, bs[pos + i := ucast v])) (rev [0..<n]) (v, bs)"

definition cbb_buffer_add_u :: "alloc \<Rightarrow> uint64 \<Rightarrow> nat \<Rightarrow> cbb_buffer \<Rightarrow> unit option \<times> cbb_buffer" where
  "cbb_buffer_add_u malloc v len_len base =
     (if len_len = 0 then (Some (), base)
      else bindf (cbb_buffer_add malloc (of_nat len_len)) (\<lambda>pos base.
        let (v', bs) = put_be len_len pos v (buf base); base' = base\<lparr>buf := bs\<rparr>
        in if v' \<noteq> 0 then (None, base'\<lparr>berror := True\<rparr>) else (Some (), base')) base)"

section \<open>Builders and their pending children\<close>

datatype CBB = CBB (off: size_t) (pending_len_len: byte) (pending_is_asn1: bool) (is_child: bool) (child: "CBB option")

type_synonym cbb_state = "CBB \<times> cbb_buffer"

primrec set_child :: "CBB \<Rightarrow> CBB option \<Rightarrow> CBB" where
  "set_child (CBB f p a i k) k' = CBB f p a i k'"

definition cbb_init :: "alloc \<Rightarrow> byte list \<Rightarrow> size_t \<Rightarrow> cbb_state option" where
  "cbb_init malloc bs cap =
     (case OPENSSL_malloc malloc 32 of None \<Rightarrow> None
      | Some _ \<Rightarrow> Some (CBB 0 0 False False None, \<lparr>buf = bs, blen = 0, bcap = cap, can_resize = True, berror = False\<rparr>))"

definition CBB_init :: "alloc \<Rightarrow> size_t \<Rightarrow> cbb_state option" where
  "CBB_init malloc initial_capacity =
     (case OPENSSL_malloc malloc initial_capacity of
        None \<Rightarrow> if initial_capacity > 0 then None else cbb_init malloc [] initial_capacity
      | Some bs \<Rightarrow> cbb_init malloc bs initial_capacity)"

definition CBB_init_fixed :: "alloc \<Rightarrow> byte list \<Rightarrow> size_t \<Rightarrow> cbb_state option" where
  "CBB_init_fixed malloc bs n =
     (case cbb_init malloc bs n of None \<Rightarrow> None
      | Some (cbb, base) \<Rightarrow> Some (cbb, base\<lparr>can_resize := False\<rparr>))"

text \<open>
  The DER length prefix chosen for \<open>len\<close> bytes: the number of length octets, the first of
  them, and the value written into the others.
\<close>

definition asn1_len_len :: "size_t \<Rightarrow> nat \<times> byte \<times> size_t" where
  "asn1_len_len len =
     (if len > 0xffffff then (5, 0x80 OR 4, len)
      else if len > 0xffff then (4, 0x80 OR 3, len)
      else if len > 0xff then (3, 0x80 OR 2, len)
      else if len > 0x7f then (2, 0x80 OR 1, len)
      else (1, ucast len, 0))"

text \<open>
  Writing the pending prefix of the child \<open>k\<close>, whose contents start at \<open>child_start\<close>. An
  ASN.1 prefix of more than one octet first makes room by moving the contents.
\<close>

definition make_room :: "alloc \<Rightarrow> size_t \<Rightarrow> size_t \<Rightarrow> nat \<Rightarrow> cbb_buffer \<Rightarrow> unit option \<times> cbb_buffer" where
  "make_room malloc child_start len len_len base =
     (if len_len \<noteq> 1 then
        bindf (cbb_buffer_add malloc (of_nat (len_len - 1))) (\<lambda>_ base.
          (Some (), base\<lparr>buf := memcpy_at (buf base) (unat child_start + (len_len - 1))
                                   (take (unat len) (drop (unat child_start) (buf base)))\<rparr>)) base
      else (Some (), base))"

definition put_prefix :: "nat \<Rightarrow> size_t \<Rightarrow> size_t \<Rightarrow> cbb_buffer \<Rightarrow> unit option \<times> cbb_buffer" where
  "put_prefix n offset len base =
     (let (rest, bs) = put_be n (unat offset) len (buf base); base' = base\<lparr>buf := bs\<rparr>
      in if rest \<noteq> 0 then (None, base') else (Some (), base'))"

definition flush_prefix :: "alloc \<Rightarrow> CBB \<Rightarrow> size_t \<Rightarrow> cbb_buffer \<Rightarrow> unit option \<times> cbb_buffer" where
  "flush_prefix malloc k child_start base =
     (let len = blen base - child_start in
      if pending_is_asn1 k then
        if len > 0xfffffffe then (None, base)
        else
          let (len_len, initial_length_byte, len') = asn1_len_len len in
          bindf (make_room malloc child_start len len_len) (\<lambda>_ base.
            put_prefix (len_len - 1) (off k + 1) len'
              (base\<lparr>buf := (buf base)[unat (off k) := initial_length_byte]\<rparr>)) base
      else put_prefix (unat (pending_len_len k)) (off k) len base)"

text \<open>The recursion of \<open>CBB_flush\<close>; every failure after the first test sets \<open>error\<close>.\<close>

fun CBB_flush :: "alloc \<Rightarrow> cbb_state \<Rightarrow> unit option \<times> cbb_state" where
  "CBB_flush malloc (CBB f p a i kid, base) =
     (if berror base then (None, (CBB f p a i kid, base))
      else case kid of None \<Rightarrow> (Some (), (CBB f p a i kid, base))
      | Some k \<Rightarrow>
          if pending_len_len k = 0 then (Some (), (CBB f p a i kid, base))
          else
            let child_start = off k + ucast (pending_len_len k) in
            case CBB_flush malloc (k, base) of
              (None, k', base) \<Rightarrow> (None, (CBB f p a i (Some k'), base\<lparr>berror := True\<rparr>))
            | (Some _, k', base) \<Rightarrow>
                if child_start < off k \<or> blen base < child_start
                then (None, (CBB f p a i (Some k'), base\<lparr>berror := True\<rparr>))
                else case flush_prefix malloc k' child_start base of
                  (None, base) \<Rightarrow> (None, (CBB f p a i (Some k'), base\<lparr>berror := True\<rparr>))
                | (Some _, base) \<Rightarrow> (Some (), (CBB f p a i None, base)))"

declare CBB_flush.simps [simp del]

text \<open>
  Lifting of the buffer operations to builders, and calls on the pending child. A child
  that has been flushed has a NULL \<open>base\<close>, on which every operation returns 0.
\<close>

definition on_base :: "(cbb_buffer \<Rightarrow> 'a option \<times> cbb_buffer) \<Rightarrow> cbb_state \<Rightarrow> 'a option \<times> cbb_state" where
  "on_base f = (\<lambda>(c, base). case f base of (r, base') \<Rightarrow> (r, (c, base')))"

definition on_child :: "(cbb_state \<Rightarrow> 'a option \<times> cbb_state) \<Rightarrow> cbb_state \<Rightarrow> 'a option \<times> cbb_state" where
  "on_child f = (\<lambda>(c, base). case child c of None \<Rightarrow> (None, (c, base))
     | Some k \<Rightarrow> case f (k, base) of (r, (k', base')) \<Rightarrow> (r, (set_child c (Some k'), base')))"

text \<open>\<open>CBB_finish\<close> hands out the buffer and its length; \<open>no_data\<close> and \<open>no_len\<close> are NULL output pointers.\<close>

definition CBB_finish :: "alloc \<Rightarrow> bool \<Rightarrow> bool \<Rightarrow> cbb_state \<Rightarrow> (byte list \<times> size_t) option" where
  "CBB_finish malloc no_data no_len st =
     (if is_child (fst st) then None
      else case CBB_flush malloc st of (None, _) \<Rightarrow> None
      | (Some _, (_, base)) \<Rightarrow>
          if can_resize base \<and> (no_data \<or> no_len) then None else Some (buf base, blen base))"

definition CBB_data :: "cbb_state \<Rightarrow> nat" where
  "CBB_data = (\<lambda>(c, base). unat (off c) + unat (pending_len_len c))"

definition CBB_len :: "cbb_state \<Rightarrow> size_t" where
  "CBB_len = (\<lambda>(c, base). blen base - off c - ucast (pending_len_len c))"

definition cbb_add_length_prefixed :: "alloc \<Rightarrow> nat \<Rightarrow> cbb_state \<Rightarrow> unit option \<times> cbb_state" where
  "cbb_add_length_prefixed malloc len_len =
     bindf (CBB_flush malloc) (\<lambda>_ (c, base).
       let offset = blen base in
       case cbb_buffer_add malloc (of_nat len_len) base of
         (None, base) \<Rightarrow> (None, (c, base))
       | (Some pos, base) \<Rightarrow>
           (Some (), (set_child c (Some (CBB offset (of_nat len_len) False True None)),
                      base\<lparr>buf := memcpy_at (buf base) pos (replicate len_len 0)\<rparr>)))"

definition CBB_add_u8_length_prefixed :: "alloc \<Rightarrow> cbb_state \<Rightarrow> unit option \<times> cbb_state" where
  "CBB_add_u8_length_prefixed malloc = cbb_add_length_prefixed malloc 1"

definition CBB_add_u16_length_prefixed :: "alloc \<Rightarrow> cbb_state \<Rightarrow> unit option \<times> cbb_state" where
  "CBB_add_u16_length_prefixed malloc = cbb_add_length_prefixed malloc 2"

definition CBB_add_u24_length_prefixed :: "alloc \<Rightarrow> cbb_state \<Rightarrow> unit option \<times> cbb_state" where
  "CBB_add_u24_length_prefixed malloc = cbb_add_length_prefixed malloc 3"

definition cbb_add_u :: "alloc \<Rightarrow> uint64 \<Rightarrow> nat \<Rightarrow> cbb_state \<Rightarrow> unit option \<times> cbb_state" where
  "cbb_add_u malloc v len_len = bindf (CBB_flush malloc) (\<lambda>_. on_base (cbb_buffer_add_u malloc v len_len))"

definition CBB_add_u8 :: "alloc \<Rightarrow> byte \<Rightarrow> cbb_state \<Rightarrow> unit option \<times> cbb_state" where
  "CBB_add_u8 malloc v = cbb_add_u malloc (ucast v) 1"

definition CBB_add_u16 :: "alloc \<Rightarrow> uint16 \<Rightarrow> cbb_state \<Rightarrow> unit option \<times> cbb_state" where
  "CBB_add_u16 malloc v = cbb_add_u malloc (ucast v) 2"

definition CBB_add_u16le :: "alloc \<Rightarrow> uint16 \<Rightarrow> cbb_state \<Rightarrow> unit option \<times> cbb_state" where
  "CBB_add_u16le malloc v = CBB_add_u16 malloc (CRYPTO_bswap2 v)"

definition CBB_add_u24 :: "alloc \<Rightarrow> uint32 \<Rightarrow> cbb_state \<Rightarrow> unit option \<times> cbb_state" where
  "CBB_add_u24 malloc v = cbb_add_u malloc (ucast v) 3"

definition CBB_add_u32 :: "alloc \<Rightarrow> uint32 \<Rightarrow> cbb_state \<Rightarrow> unit option \<times> cbb_state" where
  "CBB_add_u32 malloc v = cbb_add_u malloc (ucast v) 4"

definition CBB_add_u32le :: "alloc \<Rightarrow> uint32 \<Rightarrow> cbb_state \<Rightarrow> unit option \<times> cbb_state" where
  "CBB_add_u32le malloc v = CBB_add_u32 malloc (CRYPTO_bswap4 v)"

definition CBB_add_u64 :: "alloc \<Rightarrow> uint64 \<Rightarrow> cbb_state \<Rightarrow> unit option \<times> cbb_state" where
  "CBB_add_u64 malloc v = cbb_add_u malloc v 8"

definition CBB_add_u64le :: "alloc \<Rightarrow> uint64 \<Rightarrow> cbb_state \<Rightarrow> unit option \<times> cbb_state" where
  "CBB_add_u64le malloc v = CBB_add_u64 malloc (CRYPTO_bswap8 v)"

text \<open>Space and bytes. The value delivered is the offset of the space in the buffer.\<close>

definition CBB_add_space :: "alloc \<Rightarrow> size_t \<Rightarrow> cbb_state \<Rightarrow> nat option \<times> cbb_state" where
  "CBB_add_space malloc n = bindf (CBB_flush malloc) (\<lambda>_. on_base (cbb_buffer_add malloc n))"

definition CBB_reserve :: "alloc \<Rightarrow> size_t \<Rightarrow> cbb_state \<Rightarrow> nat option \<times> cbb_state" where
  "CBB_reserve malloc n = bindf (CBB_flush malloc) (\<lambda>_. on_base (cbb_buffer_reserve malloc n))"

definition put_bytes :: "byte list \<Rightarrow> nat \<Rightarrow> cbb_buffer \<Rightarrow> unit option \<times> cbb_buffer" where
  "put_bytes bs pos base = (Some (), base\<lparr>buf := memcpy_at (buf base) pos bs\<rparr>)"

definition CBB_add_bytes :: "alloc \<Rightarrow> byte list \<Rightarrow> cbb_state \<Rightarrow> unit option \<times> cbb_state" where
  "CBB_add_bytes malloc bs =
     bindf (CBB_flush malloc) (\<lambda>_. on_base (bindf (cbb_buffer_add malloc (of_nat (length bs))) (put_bytes bs)))"

definition CBB_add_zeros :: "alloc \<Rightarrow> size_t \<Rightarrow> cbb_state \<Rightarrow> unit option \<times> cbb_state" where
  "CBB_add_zeros malloc n =
     bindf (CBB_add_space malloc n) (\<lambda>pos. on_base (put_bytes (replicate (unat n) 0) pos))"

definition CBB_did_write :: "size_t \<Rightarrow> cbb_state \<Rightarrow> unit option \<times> cbb_state" where
  "CBB_did_write n = (\<lambda>(c, base).
     let newlen = blen base + n in
     if child c \<noteq> None \<or> newlen < blen base \<or> newlen > bcap base then (None, (c, base))
     else (Some (), (c, base\<lparr>blen := newlen\<rparr>)))"

definition CBB_discard_child :: "cbb_state \<Rightarrow> cbb_state" where
  "CBB_discard_child = (\<lambda>(c, base).
     case child c of None \<Rightarrow> (c, base)
     | Some k \<Rightarrow> (set_child c None, base\<lparr>blen := off k\<rparr>))"

section \<open>ASN.1\<close>

text \<open>The number of base-128 digits of \<open>v\<close>, the loop of \<open>add_base128_integer\<close> that counts them.\<close>

function base128_len :: "uint64 \<Rightarrow> nat" where
  "base128_len v = (if v > 0 then Suc (base128_len (drop_bit 7 v)) else 0)"
  by pat_completeness auto
termination
proof (relation "measure unat")
  fix v :: uint64 assume "v > 0"
  then have "unat v > 0" by (simp add: word_less_nat_alt)
  then show "(drop_bit 7 v, v) \<in> measure unat" by (simp add: drop_bit_eq_div unat_div)
qed simp

declare base128_len.simps [simp del]

definition base128_digit :: "uint64 \<Rightarrow> nat \<Rightarrow> byte" where
  "base128_digit v i =
     (let digit = ucast (drop_bit (7 * i) v AND 0x7f) :: byte in if i \<noteq> 0 then digit OR 0x80 else digit)"

text \<open>A loop of calls, ended by the first that fails.\<close>

primrec each :: "('a \<Rightarrow> 's \<Rightarrow> unit option \<times> 's) \<Rightarrow> 'a list \<Rightarrow> 's \<Rightarrow> unit option \<times> 's" where
  "each f [] = retf ()"
| "each f (x # xs) = bindf (f x) (\<lambda>_. each f xs)"

definition add_base128_integer :: "alloc \<Rightarrow> uint64 \<Rightarrow> cbb_state \<Rightarrow> unit option \<times> cbb_state" where
  "add_base128_integer malloc v =
     (let len_len = (if base128_len v = 0 then 1 else base128_len v)
      in each (\<lambda>i. CBB_add_u8 malloc (base128_digit v i)) (rev [0..<len_len]))"

definition CBB_add_asn1 :: "alloc \<Rightarrow> uint32 \<Rightarrow> cbb_state \<Rightarrow> unit option \<times> cbb_state" where
  "CBB_add_asn1 malloc tag =
     bindf (CBB_flush malloc) (\<lambda>_.
       let tag_bits = ucast (drop_bit CBS_ASN1_TAG_SHIFT tag AND 0xe0) :: byte;
           tag_number = tag AND CBS_ASN1_TAG_NUMBER_MASK in
       bindf
         (if tag_number \<ge> 0x1f then
            bindf (CBB_add_u8 malloc (tag_bits OR 0x1f)) (\<lambda>_. add_base128_integer malloc (ucast tag_number))
          else CBB_add_u8 malloc (tag_bits OR ucast tag_number))
         (\<lambda>_ st. let offset = blen (snd st) in
            bindf (CBB_add_u8 malloc 0) (\<lambda>_ (c, base).
              (Some (), (set_child c (Some (CBB offset 1 True True None)), base))) st))"

text \<open>The digits that \<open>CBB_add_asn1_uint64\<close> writes, from the most significant byte.\<close>

primrec uint64_digits :: "alloc \<Rightarrow> uint64 \<Rightarrow> bool \<Rightarrow> nat list \<Rightarrow> cbb_state \<Rightarrow> bool option \<times> cbb_state" where
  "uint64_digits malloc v started [] = retf started"
| "uint64_digits malloc v started (i # is) =
     (let digit = ucast (drop_bit (8 * (7 - i)) v AND 0xff) :: byte in
      if \<not> started \<and> digit = 0 then uint64_digits malloc v started is
      else
        bindf (if \<not> started \<and> digit AND 0x80 \<noteq> 0 then on_child (CBB_add_u8 malloc 0) else retf ()) (\<lambda>_.
        bindf (on_child (CBB_add_u8 malloc digit)) (\<lambda>_. uint64_digits malloc v True is)))"

definition CBB_add_asn1_uint64 :: "alloc \<Rightarrow> uint64 \<Rightarrow> cbb_state \<Rightarrow> unit option \<times> cbb_state" where
  "CBB_add_asn1_uint64 malloc v =
     bindf (CBB_add_asn1 malloc CBS_ASN1_INTEGER) (\<lambda>_.
     bindf (uint64_digits malloc v False [0..<8]) (\<lambda>started.
     bindf (if \<not> started then on_child (CBB_add_u8 malloc 0) else retf ()) (\<lambda>_.
     CBB_flush malloc)))"

text \<open>The loop that skips sign-extension bytes, from the top byte \<open>start\<close> down.\<close>

primrec int64_start :: "byte list \<Rightarrow> nat \<Rightarrow> nat" where
  "int64_start bs 0 = 0"
| "int64_start bs (Suc n) = (if bs ! Suc n = 0xff \<and> bs ! n AND 0x80 \<noteq> 0 then int64_start bs n else Suc n)"

definition CBB_add_asn1_int64 :: "alloc \<Rightarrow> uint64 \<Rightarrow> cbb_state \<Rightarrow> unit option \<times> cbb_state" where
  "CBB_add_asn1_int64 malloc v =
     (if 0 \<le> sint v then CBB_add_asn1_uint64 malloc v
      else let bytes = le_bytes 8 v; start = int64_start bytes 7 in
        bindf (CBB_add_asn1 malloc CBS_ASN1_INTEGER) (\<lambda>_.
        bindf (each (\<lambda>i. on_child (CBB_add_u8 malloc (bytes ! i))) (rev [0..<Suc start])) (\<lambda>_.
        CBB_flush malloc)))"

definition CBB_add_asn1_octet_string :: "alloc \<Rightarrow> byte list \<Rightarrow> cbb_state \<Rightarrow> unit option \<times> cbb_state" where
  "CBB_add_asn1_octet_string malloc bs =
     bindf (CBB_add_asn1 malloc CBS_ASN1_OCTETSTRING) (\<lambda>_.
     bindf (on_child (CBB_add_bytes malloc bs)) (\<lambda>_. CBB_flush malloc))"

definition CBB_add_asn1_bool :: "alloc \<Rightarrow> bool \<Rightarrow> cbb_state \<Rightarrow> unit option \<times> cbb_state" where
  "CBB_add_asn1_bool malloc v =
     bindf (CBB_add_asn1 malloc CBS_ASN1_BOOLEAN) (\<lambda>_.
     bindf (on_child (CBB_add_u8 malloc (if v then 0xff else 0))) (\<lambda>_. CBB_flush malloc))"

end
