(* ===== verification/Cbb_Spec.thy ===== *)
theory Cbb_Spec
  imports Cbb
begin

text \<open>
  What the builder of \<^verbatim>\<open>cbb.c\<close> promises. The abstract builder is a byte string with at most
  one open child, which is again a builder; closing a child puts the length prefix of its
  contents in front of them. The concrete operations, which reserve space for the prefix
  and back-patch it, refine the abstract ones.
\<close>

section \<open>The buffer\<close>

definition buf_ok :: "cbb_buffer \<Rightarrow> bool" where
  "buf_ok b \<longleftrightarrow> length (buf b) = unat (bcap b) \<and> blen b \<le> bcap b"

definition used :: "cbb_buffer \<Rightarrow> byte list" where
  "used b = take (unat (blen b)) (buf b)"

lemma length_used [simp]: "buf_ok b \<Longrightarrow> length (used b) = unat (blen b)"
  by (simp add: used_def buf_ok_def word_le_nat_alt)

lemma length_malloc: "OPENSSL_malloc malloc n = Some bs \<Longrightarrow> length bs = unat n"
  by (auto simp: OPENSSL_malloc_def split: if_splits)

lemma realloc_facts:
  assumes "OPENSSL_realloc malloc old n = Some new" and "length old \<le> unat n"
  shows "length new = unat n" and "take (length old) new = old"
  using assms length_malloc[of malloc n] by (auto simp: OPENSSL_realloc_def memcpy_at_def)

lemma reserve_cases:
  assumes ok: "buf_ok b" and r: "cbb_buffer_reserve malloc n b = (r, b')"
  shows "buf_ok b' \<and> used b' = used b \<and> blen b' = blen b \<and> can_resize b' = can_resize b \<and>
    (case r of None \<Rightarrow> berror b'
     | Some p \<Rightarrow> p = unat (blen b) \<and> berror b' = berror b \<and> unat (blen b) + unat n \<le> unat (bcap b'))"
proof -
  let ?n = "blen b + n" and ?d = "bcap b * 2"
  define cap where "cap = (if ?d < bcap b \<or> ?d < ?n then ?n else ?d)"
  have sum: "unat ?n = unat (blen b) + unat n" if "\<not> ?n < blen b" using no_wrap_add[OF that] .
  show ?thesis
  proof (cases "?n < blen b \<or> (?n > bcap b \<and> (\<not> can_resize b \<or> OPENSSL_realloc malloc (buf b) cap = None))")
    case True
    then have "r = None \<and> b' = b\<lparr>berror := True\<rparr>"
      using r by (auto simp: cbb_buffer_reserve_def Let_def cap_def split: if_splits)
    then show ?thesis using ok by (simp add: buf_ok_def used_def)
  next
    case False
    show ?thesis
    proof (cases "?n > bcap b")
      case True
      then obtain new where new: "OPENSSL_realloc malloc (buf b) cap = Some new" using False by auto
      have res: "r = Some (unat (blen b))" "b' = b\<lparr>buf := new, bcap := cap\<rparr>"
        using r False True new by (auto simp: cbb_buffer_reserve_def Let_def cap_def split: if_splits)
      have cap: "unat ?n \<le> unat cap" by (auto simp: cap_def word_less_nat_alt)
      have old: "length (buf b) = unat (bcap b)" "blen b \<le> bcap b" "unat (blen b) \<le> unat (bcap b)"
        using ok by (simp_all add: buf_ok_def word_le_nat_alt)
      have "unat (bcap b) < unat ?n" using True by (simp add: word_less_nat_alt)
      then have le: "length (buf b) \<le> unat cap" using old cap by simp
      have "take (unat (blen b)) new = take (unat (blen b)) (buf b)"
        using realloc_facts(2)[OF new le] old by (metis min.absorb2 min.commute take_take)
      then show ?thesis
        using res realloc_facts(1)[OF new le] cap sum False old
        by (auto simp: buf_ok_def used_def word_le_nat_alt)
    next
      case False2: False
      then have "r = Some (unat (blen b)) \<and> b' = b"
        using r False by (auto simp: cbb_buffer_reserve_def Let_def)
      then show ?thesis using ok sum False False2 by (auto simp: word_less_nat_alt not_less)
    qed
  qed
qed

lemma add_cases:
  assumes ok: "buf_ok b" and r: "cbb_buffer_add malloc n b = (r, b')"
  shows "buf_ok b' \<and> take (unat (blen b)) (used b') = used b \<and> can_resize b' = can_resize b \<and>
    (case r of None \<Rightarrow> berror b' \<and> blen b' = blen b \<and> used b' = used b
     | Some p \<Rightarrow> p = unat (blen b) \<and> berror b' = berror b \<and> unat (blen b') = unat (blen b) + unat n)"
proof -
  obtain r1 b1 where b1: "cbb_buffer_reserve malloc n b = (r1, b1)" by fastforce
  note c = reserve_cases[OF ok b1]
  show ?thesis
  proof (cases r1)
    case None
    then have "r = None" "b' = b1" using r b1 by (auto simp: cbb_buffer_add_def bindf_def)
    then show ?thesis using c None length_used[OF ok] by auto
  next
    case (Some p)
    have res: "r = Some p" "b' = b1\<lparr>blen := blen b1 + n\<rparr>"
      using r b1 Some by (auto simp: cbb_buffer_add_def bindf_def)
    have fit: "unat (blen b) + unat n \<le> unat (bcap b1)" "blen b1 = blen b" using c Some by auto
    then have sum: "unat (blen b + n) = unat (blen b) + unat n"
      using unat_lt_64[of "bcap b1"] by (simp add: unat_word_ariths)
    then have "take (unat (blen b)) (used b') = used b1"
      using res fit by (simp add: used_def)
    then show ?thesis
      using c Some res fit sum by (auto simp: buf_ok_def word_le_nat_alt)
  qed
qed

section \<open>Big-endian stores\<close>

lemma be_bytes_Suc: "be_bytes (Suc n) v = be_bytes n (drop_bit 8 v) @ [ucast v]"
  by (simp add: be_bytes_def le_bytes_Suc)

lemma put_be_eq:
  "pos + n \<le> length bs \<Longrightarrow> put_be n pos v bs = (drop_bit (8 * n) v, memcpy_at bs pos (be_bytes n v))"
proof (induction n arbitrary: v bs)
  case 0
  then show ?case by (simp add: put_be_def memcpy_at_def be_bytes_def le_bytes_def)
next
  case (Suc n)
  let ?bs = "bs[pos + n := ucast v]"
  have "put_be (Suc n) pos v bs = put_be n pos (drop_bit 8 v) ?bs" by (simp add: put_be_def)
  also have "\<dots> = (drop_bit (8 * n) (drop_bit 8 v), memcpy_at ?bs pos (be_bytes n (drop_bit 8 v)))"
    using Suc by simp
  also have "memcpy_at ?bs pos (be_bytes n (drop_bit 8 v)) = memcpy_at bs pos (be_bytes (Suc n) v)"
  proof -
    have "drop (pos + n) ?bs = ucast v # drop (Suc (pos + n)) bs"
      using Suc.prems by (simp add: Cons_nth_drop_Suc[symmetric] drop_update_cancel)
    then show ?thesis using Suc.prems by (simp add: memcpy_at_def be_bytes_Suc)
  qed
  finally show ?case by (simp add: add.commute)
qed

section \<open>Length prefixes\<close>

datatype len_prefix = Fixed nat | Asn1

primrec prefix_bytes :: "len_prefix \<Rightarrow> nat \<Rightarrow> byte list" where
  "prefix_bytes (Fixed n) l = be_bytes n (of_nat l :: uint64)"
| "prefix_bytes Asn1 l = der_len l"

primrec prefix_fits :: "len_prefix \<Rightarrow> nat \<Rightarrow> bool" where
  "prefix_fits (Fixed n) l = (l < 2 ^ (8 * n))"
| "prefix_fits Asn1 l = (l \<le> 0xfffffffe)"

definition prefix_of :: "CBB \<Rightarrow> len_prefix" where
  "prefix_of k = (if pending_is_asn1 k then Asn1 else Fixed (unat (pending_len_len k)))"

lemma drop_bit_0_iff: "drop_bit n (v :: 'a::len word) = 0 \<longleftrightarrow> unat v < 2 ^ n"
proof -
  have "unat (drop_bit n v) = unat v div 2 ^ n" by (simp only: unat_drop_bit_eq) (simp only: drop_bit_eq_div)
  then show ?thesis by (metis div_eq_0_iff power_eq_0_iff unat_eq_0 zero_neq_numeral)
qed

lemma asn1_len_len_eq:
  assumes "len \<le> 0xfffffffe"
  shows "asn1_len_len len =
    (if unat len < 128 then (1, of_nat (unat len), 0)
     else (Suc (len_octets (unat len)), 0x80 OR of_nat (len_octets (unat len)), len))"
  using assms by (auto simp: asn1_len_len_def len_octets_def word_less_nat_alt word_le_nat_alt)

lemma put_prefix_cases:
  assumes ok: "buf_ok b" and n: "unat q + n \<le> unat (blen b)" and r: "put_prefix n q len b = (r, b')"
  shows "buf_ok b' \<and> blen b' = blen b \<and> berror b' = berror b \<and> can_resize b' = can_resize b \<and>
    buf b' = memcpy_at (buf b) (unat q) (be_bytes n len) \<and> (r = Some () \<longleftrightarrow> unat len < 2 ^ (8 * n))"
proof -
  have "unat q + n \<le> length (buf b)" using ok n by (simp add: buf_ok_def word_le_nat_alt)
  then show ?thesis
    using r ok by (auto simp: put_prefix_def Let_def put_be_eq drop_bit_0_iff buf_ok_def split: if_splits)
qed

lemma used_memcpy_at:
  assumes "buf_ok b" "q + length y \<le> unat (blen b)"
  shows "take (unat (blen b)) (memcpy_at (buf b) q y) = take q (used b) @ y @ drop (q + length y) (used b)"
proof -
  have "q \<le> unat (blen b)" "length y \<le> unat (blen b) - q" using assms(2) by auto
  then show ?thesis
    using assms by (simp add: used_def memcpy_at_def buf_ok_def word_le_nat_alt drop_take)
qed

text \<open>What writing the prefix of \<open>k\<close>, whose contents start at \<open>start\<close>, does to the buffer.\<close>

definition prefix_done :: "CBB \<Rightarrow> nat \<Rightarrow> cbb_buffer \<Rightarrow> unit option \<Rightarrow> cbb_buffer \<Rightarrow> bool" where
  "prefix_done k start b r b' \<longleftrightarrow>
     buf_ok b' \<and> take (unat (off k)) (used b') = take (unat (off k)) (used b) \<and> can_resize b' = can_resize b \<and>
     (r = Some () \<longrightarrow> berror b' = berror b \<and> prefix_fits (prefix_of k) (unat (blen b) - start) \<and>
        used b' = take (unat (off k)) (used b) @ prefix_bytes (prefix_of k) (unat (blen b) - start) @ drop start (used b))"

lemma flush_fixed_cases:
  assumes ok: "buf_ok b" and k: "\<not> pending_is_asn1 k" "unat (off k) + unat (pending_len_len k) \<le> unat (blen b)"
    and s: "unat start = unat (off k) + unat (pending_len_len k)"
    and r: "flush_prefix malloc k start b = (r, b')"
  shows "prefix_done k (unat start) b r b'"
proof -
  let ?n = "unat (pending_len_len k)" and ?len = "blen b - start"
  have len: "unat ?len = unat (blen b) - unat start"
    using k s by (simp add: unat_sub word_le_nat_alt)
  have "put_prefix ?n (off k) ?len b = (r, b')" using r k(1) by (simp add: flush_prefix_def Let_def)
  from put_prefix_cases[OF ok k(2) this]
  have c: "buf_ok b'" "blen b' = blen b" "berror b' = berror b" "can_resize b' = can_resize b"
      "buf b' = memcpy_at (buf b) (unat (off k)) (be_bytes ?n ?len)" "r = Some () \<longleftrightarrow> unat ?len < 2 ^ (8 * ?n)" by auto
  have "used b' = take (unat (off k)) (used b) @ be_bytes ?n ?len @ drop (unat start) (used b)"
    using used_memcpy_at[OF ok, of "unat (off k)" "be_bytes ?n ?len"] k(2) s c(2,5) by (simp add: used_def)
  moreover have "?len = of_nat (unat (blen b) - unat start)" using len by (metis of_nat_of_unat)
  ultimately show ?thesis using c len k ok s by (auto simp: prefix_done_def prefix_of_def)
qed

lemma make_room_cases:
  assumes ok: "buf_ok b" and c: "unat start + unat len = unat (blen b)" and n: "1 \<le> n" "n \<le> 5"
    and r: "make_room malloc start len n b = (r, b')"
  shows "buf_ok b' \<and> can_resize b' = can_resize b \<and> take (unat start) (used b') = take (unat start) (used b) \<and>
    (r = Some () \<longrightarrow> berror b' = berror b \<and> unat (blen b') = unat (blen b) + (n - 1) \<and>
       drop (unat start + (n - 1)) (used b') = drop (unat start) (used b))"
proof (cases "n = 1")
  case True
  then show ?thesis using r ok by (simp add: make_room_def)
next
  case False
  let ?e = "n - 1"
  have e: "unat (of_nat ?e :: size_t) = ?e" using n by (intro unat_of_nat_size) simp
  obtain r1 b1 where b1: "cbb_buffer_add malloc (of_nat ?e) b = (r1, b1)" by fastforce
  note a = add_cases[OF ok b1]
  show ?thesis
  proof (cases r1)
    case None
    then have "r = None" "b' = b1" using r b1 False by (auto simp: make_room_def bindf_def)
    then show ?thesis using a None ok by auto
  next
    case (Some p)
    let ?x = "take (unat len) (drop (unat start) (buf b1))"
    have res: "r = Some ()" "b' = b1\<lparr>buf := memcpy_at (buf b1) (unat start + ?e) ?x\<rparr>"
      using r b1 Some False by (auto simp: make_room_def bindf_def)
    have b1: "buf_ok b1" "unat (blen b1) = unat (blen b) + ?e" "berror b1 = berror b" "can_resize b1 = can_resize b"
        "take (unat (blen b)) (used b1) = used b"
      using a Some e by auto
    have cap: "unat (blen b) + ?e \<le> length (buf b1)" using b1 by (simp add: buf_ok_def word_le_nat_alt)
    have "used b = take (unat (blen b)) (buf b1)" using b1(2,5) by (simp add: used_def)
    moreover have "unat (blen b) - unat start = unat len" using c by simp
    ultimately have x: "?x = drop (unat start) (used b)" by (simp add: drop_take)
    have lx: "length ?x = unat len" using c cap by simp
    have "used b' = take (unat start + ?e) (used b1) @ ?x"
      using used_memcpy_at[OF b1(1), of "unat start + ?e" ?x] res(2) b1(1,2) c lx by (simp add: used_def)
    moreover have "take (unat start) (used b1) = take (unat start) (used b)"
      using b1(5) c by (metis le_add1 min.absorb1 take_take)
    ultimately show ?thesis
      using res b1 x lx c cap length_used[OF b1(1)] by (auto simp: buf_ok_def word_le_nat_alt)
  qed
qed

lemma used_update: "q < unat (blen b) \<Longrightarrow> used (b\<lparr>buf := (buf b)[q := i]\<rparr>) = (used b)[q := i]"
  by (simp add: used_def take_update_swap)

lemma put_initial_and_length:
  assumes ok: "buf_ok b" and q: "Suc (unat q) + n \<le> unat (blen b)"
    and r: "put_prefix n (q + 1) len (b\<lparr>buf := (buf b)[unat q := i]\<rparr>) = (r, b')"
  shows "buf_ok b' \<and> berror b' = berror b \<and> can_resize b' = can_resize b \<and> (r = Some () \<longleftrightarrow> unat len < 2 ^ (8 * n)) \<and>
    used b' = take (unat q) (used b) @ i # be_bytes n len @ drop (Suc (unat q) + n) (used b)"
proof -
  let ?b = "b\<lparr>buf := (buf b)[unat q := i]\<rparr>"
  have q1: "unat (q + 1) = Suc (unat q)" using q unat_lt_64[of "blen b"] by (simp add: unat_word_ariths)
  have ok': "buf_ok ?b" using ok by (simp add: buf_ok_def)
  note c = put_prefix_cases[OF ok' _ r, unfolded q1]
  have lt: "unat q < unat (blen b)" using q by simp
  have "take (Suc (unat q)) (used ?b) = take (unat q) (used b) @ [i]"
    using lt length_used[OF ok] by (simp add: used_update take_Suc_conv_app_nth)
  moreover have "drop (Suc (unat q) + n) (used ?b) = drop (Suc (unat q) + n) (used b)"
    using lt by (simp add: used_update)
  moreover have "used b' = take (Suc (unat q)) (used ?b) @ be_bytes n len @ drop (Suc (unat q) + n) (used ?b)"
    using used_memcpy_at[OF ok', of "Suc (unat q)" "be_bytes n len"] c q by (simp add: used_def)
  ultimately show ?thesis using c q by simp
qed

lemma len_octets_bounds: "1 \<le> len_octets n \<and> len_octets n \<le> 4"
  by (simp add: len_octets_def)

lemma flush_asn1_cases:
  assumes ok: "buf_ok b" and k: "pending_is_asn1 k" "unat start \<le> unat (blen b)"
    and s: "unat start = Suc (unat (off k))"
    and r: "flush_prefix malloc k start b = (r, b')"
  shows "prefix_done k (unat start) b r b'"
proof (cases "blen b - start > 0xfffffffe")
  case True
  then show ?thesis using r k ok by (simp add: prefix_done_def flush_prefix_def Let_def)
next
  case False
  define len where "len = blen b - start"
  define L where "L = unat (blen b) - unat start"
  have len: "unat len = L" using k(2) by (simp add: L_def len_def unat_sub word_le_nat_alt)
  obtain n i len' where a: "asn1_len_len len = (n, i, len')" by (metis prod_cases3)
  have L: "L \<le> 0xfffffffe" using False len by (simp add: len_def word_less_nat_alt)
  have n: "1 \<le> n" "n \<le> 5" and pre: "i # be_bytes (n - 1) len' = der_len L" and fit: "unat len' < 2 ^ (8 * (n - 1))"
    using asn1_len_len_eq[of len] a len L len_octets_bounds[of L] len_octets_props[of L]
    by (auto simp: der_len_def word_le_nat_alt be_bytes_def le_bytes_def split: if_splits)
  obtain r1 b1 where b1: "make_room malloc start len n b = (r1, b1)" by fastforce
  have "unat start + unat len = unat (blen b)" using len k(2) by (simp add: L_def)
  note m = make_room_cases[OF ok this n b1]
  have res: "(r, b') = (case r1 of None \<Rightarrow> (None, b1)
      | Some _ \<Rightarrow> put_prefix (n - 1) (off k + 1) len' (b1\<lparr>buf := (buf b1)[unat (off k) := i]\<rparr>))"
    using r k(1) False a b1 by (auto simp: flush_prefix_def Let_def len_def bindf_def split: option.splits)
  have pre_take: "take (unat (off k)) (used b1) = take (unat (off k)) (used b)"
    using m s by (metis Suc_n_not_le_n le_cases min.absorb1 take_take)
  show ?thesis
  proof (cases r1)
    case None
    then show ?thesis using res m pre_take by (auto simp: prefix_done_def)
  next
    case (Some u)
    then have b1': "buf_ok b1" "unat (blen b1) = unat (blen b) + (n - 1)" using m by auto
    have "put_prefix (n - 1) (off k + 1) len' (b1\<lparr>buf := (buf b1)[unat (off k) := i]\<rparr>) = (r, b')" using res Some by simp
    from put_initial_and_length[OF b1'(1) _ this] b1'(2) k(2) s
    have "buf_ok b'" "berror b' = berror b1" "can_resize b' = can_resize b1"
        "used b' = take (unat (off k)) (used b1) @ i # be_bytes (n - 1) len' @ drop (unat start + (n - 1)) (used b1)" by auto
    then show ?thesis
      using m Some pre_take pre L k length_used[OF ok] s by (auto simp: prefix_done_def prefix_of_def L_def)
  qed
qed

section \<open>The abstract builder\<close>

datatype builder = Builder (bytes: "byte list") (open_child: "(len_prefix \<times> builder) option")

fun flat :: "builder \<Rightarrow> byte list" where
  "flat (Builder bs None) = bs"
| "flat (Builder bs (Some (p, k))) = bs @ prefix_bytes p (length (flat k)) @ flat k"

fun fits :: "builder \<Rightarrow> bool" where
  "fits (Builder bs None) = True"
| "fits (Builder bs (Some (p, k))) = (fits k \<and> prefix_fits p (length (flat k)))"

text \<open>The builder that the chain below a node stands for, when its contents start at \<open>s\<close> in the bytes \<open>d\<close>.\<close>

fun cbb_abs :: "CBB \<Rightarrow> nat \<Rightarrow> byte list \<Rightarrow> builder" where
  "cbb_abs (CBB f p a i None) s d = Builder (drop s d) None"
| "cbb_abs (CBB f p a i (Some k)) s d =
     Builder (drop s (take (unat (off k)) d))
       (Some (prefix_of k, cbb_abs k (unat (off k) + unat (pending_len_len k)) d))"

fun cbb_ok :: "CBB \<Rightarrow> nat \<Rightarrow> nat \<Rightarrow> bool" where
  "cbb_ok (CBB f p a i None) s n \<longleftrightarrow> s \<le> n"
| "cbb_ok (CBB f p a i (Some k)) s n \<longleftrightarrow>
     s \<le> unat (off k) \<and> pending_len_len k \<noteq> 0 \<and> (pending_is_asn1 k \<longrightarrow> pending_len_len k = 1) \<and> is_child k \<and>
     cbb_ok k (unat (off k) + unat (pending_len_len k)) n"

text \<open>The state invariant of a node whose contents start at \<open>s\<close>, and its abstraction.\<close>

definition st_ok :: "nat \<Rightarrow> cbb_state \<Rightarrow> bool" where
  "st_ok s st \<longleftrightarrow> buf_ok (snd st) \<and> cbb_ok (fst st) s (unat (blen (snd st)))"

definition st_abs :: "nat \<Rightarrow> cbb_state \<Rightarrow> builder" where
  "st_abs s st = cbb_abs (fst st) s (used (snd st))"

definition st_frame :: "nat \<Rightarrow> cbb_state \<Rightarrow> cbb_state \<Rightarrow> bool" where
  "st_frame s st st' \<longleftrightarrow> take s (used (snd st')) = take s (used (snd st)) \<and> can_resize (snd st') = can_resize (snd st) \<and>
     off (fst st') = off (fst st) \<and> pending_len_len (fst st') = pending_len_len (fst st) \<and>
     pending_is_asn1 (fst st') = pending_is_asn1 (fst st) \<and> is_child (fst st') = is_child (fst st)"

lemma cbb_ok_le: "cbb_ok c s n \<Longrightarrow> s \<le> n"
  by (induction c s n rule: cbb_ok.induct) auto

lemma set_child_sel [simp]:
  "off (set_child c k) = off c" "pending_len_len (set_child c k) = pending_len_len c"
  "pending_is_asn1 (set_child c k) = pending_is_asn1 c" "is_child (set_child c k) = is_child c"
  "child (set_child c k) = k"
  by (cases c; simp)+

lemma cbb_ok_leaf [simp]: "child c = None \<Longrightarrow> cbb_ok c s n \<longleftrightarrow> s \<le> n"
  by (cases c) auto

lemma cbb_abs_leaf [simp]: "child c = None \<Longrightarrow> cbb_abs c s d = Builder (drop s d) None"
  by (cases c) auto

text \<open>
  Flushing. On success the bytes of the node are those of the flattened builder and no
  child is left; on failure the buffer is marked. Bytes before the node do not change.
\<close>

lemma take_le: "q \<le> p \<Longrightarrow> take p xs = take p ys \<Longrightarrow> take q xs = take q ys"
  by (metis min.absorb1 take_take)

lemma flush_prefix_cases:
  assumes "buf_ok b" "unat start = unat (off k) + unat (pending_len_len k)" "unat start \<le> unat (blen b)"
    and "pending_is_asn1 k \<longrightarrow> pending_len_len k = 1" and "flush_prefix malloc k start b = (r, b')"
  shows "prefix_done k (unat start) b r b'"
proof (cases "pending_is_asn1 k")
  case True
  then show ?thesis using assms by (intro flush_asn1_cases) auto
next
  case False
  then show ?thesis using assms by (intro flush_fixed_cases) auto
qed

definition flushed :: "nat \<Rightarrow> cbb_state \<Rightarrow> unit option \<Rightarrow> cbb_state \<Rightarrow> bool" where
  "flushed s st r st' \<longleftrightarrow> buf_ok (snd st') \<and> st_frame s st st' \<and>
     (case r of None \<Rightarrow> berror (snd st')
      | Some _ \<Rightarrow> \<not> berror (snd st) \<and> \<not> berror (snd st') \<and> child (fst st') = None \<and> s \<le> unat (blen (snd st')) \<and>
          fits (st_abs s st) \<and> drop s (used (snd st')) = flat (st_abs s st))"

lemma flush_error: "berror b \<Longrightarrow> CBB_flush malloc (c, b) = (None, (c, b))"
  by (cases c) (simp add: CBB_flush.simps)

lemma flush_leaf: "\<not> berror b \<Longrightarrow> child c = None \<Longrightarrow> CBB_flush malloc (c, b) = (Some (), (c, b))"
  by (cases c) (simp add: CBB_flush.simps)

lemma flush_node:
  assumes "\<not> berror b" "child c = Some k" "pending_len_len k \<noteq> 0"
    and "CBB_flush malloc (k, b) = (r, (k', b'))" and "start = off k + ucast (pending_len_len k)"
  shows "CBB_flush malloc (c, b) =
    (if r = None \<or> start < off k \<or> blen b' < start then (None, (set_child c (Some k'), b'\<lparr>berror := True\<rparr>))
     else case flush_prefix malloc k' start b' of
            (None, b'') \<Rightarrow> (None, (set_child c (Some k'), b''\<lparr>berror := True\<rparr>))
          | (Some _, b'') \<Rightarrow> (Some (), (set_child c None, b'')))"
  using assms by (cases c; cases r) (auto simp: CBB_flush.simps Let_def split: option.split prod.split)

lemma buf_ok_error [simp]: "buf_ok (b\<lparr>berror := e\<rparr>) = buf_ok b" "used (b\<lparr>berror := e\<rparr>) = used b"
  by (simp_all add: buf_ok_def used_def)

lemma flushed_error:
  assumes "buf_ok b'" "take s (used b') = take s (used b)" "can_resize b' = can_resize b"
  shows "flushed s (c, b) None (set_child c k, b'\<lparr>berror := True\<rparr>)"
  using assms by (simp add: flushed_def st_frame_def)

text \<open>One step of the recursion: the child has been flushed, its prefix is written.\<close>

lemma flushed_node:
  assumes e: "\<not> berror b" and k: "child c = Some k" "s \<le> unat (off k)"
    and sub: "flushed (unat (off k) + unat (pending_len_len k)) (k, b) (Some u) (k', b')"
    and pre: "prefix_done k' (unat (off k) + unat (pending_len_len k)) b' (Some ()) b''"
  shows "flushed s (c, b) (Some ()) (set_child c None, b'')"
proof -
  let ?t = "unat (off k) + unat (pending_len_len k)"
  have b': "buf_ok b'" "\<not> berror b'" "take ?t (used b') = take ?t (used b)" "can_resize b' = can_resize b" "?t \<le> unat (blen b')"
      "drop ?t (used b') = flat (cbb_abs k ?t (used b))" "fits (cbb_abs k ?t (used b))" "off k' = off k" "prefix_of k' = prefix_of k"
    using sub by (auto simp: flushed_def st_frame_def st_abs_def prefix_of_def)
  let ?K = "cbb_abs k ?t (used b)"
  have len: "unat (blen b') - ?t = length (flat ?K)"
    using b'(6) length_used[OF b'(1)] by (metis length_drop)
  have tk: "take (unat (off k)) (used b') = take (unat (off k)) (used b)"
    using b'(3) by (rule take_le[rotated]) simp
  have b'': "buf_ok b''" "\<not> berror b''" "can_resize b'' = can_resize b" "prefix_fits (prefix_of k) (length (flat ?K))"
      "used b'' = take (unat (off k)) (used b) @ prefix_bytes (prefix_of k) (length (flat ?K)) @ flat ?K"
    using pre b' tk len by (auto simp: prefix_done_def)
  have abs: "cbb_abs c s (used b) = Builder (drop s (take (unat (off k)) (used b))) (Some (prefix_of k, ?K))"
    using k by (cases c) auto
  have offb: "unat (off k) \<le> length (used b')" using b'(1,5) by simp
  then have l: "length (take (unat (off k)) (used b)) = unat (off k)" using tk by (metis length_take min.absorb2)
  have "s \<le> unat (blen b'')" using l k(2) length_used[OF b''(1)] b''(5) by simp
  moreover have "drop s (used b'') = flat (cbb_abs c s (used b))"
    unfolding abs b''(5) using l k(2) by simp
  moreover have "take s (used b'') = take s (used b)"
    unfolding b''(5) using l k(2) by simp
  ultimately show ?thesis
    using e b'' b'(7) abs by (simp add: flushed_def st_frame_def st_abs_def)
qed

lemma flush_cases: "st_ok s st \<Longrightarrow> CBB_flush malloc st = (r, st') \<Longrightarrow> flushed s st r st'"
proof (induction "fst st" arbitrary: s st r st')
  case (CBB f p a i kid)
  obtain c b where st: "st = (c, b)" by fastforce
  then have c: "c = CBB f p a i kid" using CBB(2) by simp
  show ?case
  proof (cases "berror b \<or> child c = None")
    case True
    then show ?thesis
      using CBB(3,4) st flush_error[of b malloc c] flush_leaf[of b c malloc]
      by (cases "berror b") (auto simp: flushed_def st_ok_def st_frame_def st_abs_def)
  next
    case False
    then obtain k where kid: "child c = Some k" "kid = Some k" and e: "\<not> berror b" using c by auto
    let ?t = "unat (off k) + unat (pending_len_len k)"
    define start where "start = off k + ucast (pending_len_len k)"
    have k: "s \<le> unat (off k)" "pending_len_len k \<noteq> 0" "pending_is_asn1 k \<longrightarrow> pending_len_len k = 1" "st_ok ?t (k, b)"
      using CBB(3) kid c st by (auto simp: st_ok_def)
    obtain r1 k' b' where fl: "CBB_flush malloc (k, b) = (r1, (k', b'))" by (metis prod_cases3)
    have sub: "flushed ?t (k, b) r1 (k', b')" using CBB(1) kid(2) k(4) fl by (metis elem_set fst_conv)
    show ?thesis
    proof (cases "r1 = None \<or> start < off k \<or> blen b' < start")
      case True
      have "take s (used b') = take s (used b)"
        using sub k(1) by (intro take_le[of s ?t]) (auto simp: flushed_def st_frame_def)
      then show ?thesis
        using flush_node[OF e kid(1) k(2) fl start_def] True CBB(4) st sub
        by (auto intro!: flushed_error simp: flushed_def[of ?t] st_frame_def)
    next
      case False
      then obtain u where u: "r1 = Some u" by auto
      have b': "buf_ok b'" "off k' = off k" "pending_len_len k' = pending_len_len k" "pending_is_asn1 k' = pending_is_asn1 k"
          "take ?t (used b') = take ?t (used b)" "can_resize b' = can_resize b"
        using sub by (auto simp: flushed_def st_frame_def)
      have t: "unat start = ?t" using no_wrap_add[of "off k" "ucast (pending_len_len k)"] False by (simp add: start_def)
      have t': "unat start \<le> unat (blen b')" using False by (simp add: word_less_nat_alt)
      obtain r2 b'' where fp: "flush_prefix malloc k' start b' = (r2, b'')" by fastforce
      have pd: "prefix_done k' ?t b' r2 b''"
        using flush_prefix_cases[OF b'(1) _ t' _ fp] b' t k(3) by simp
      have "take s (used b'') = take s (used b)"
        using pd b' k(1) take_le[of s "unat (off k)" "used b''" "used b'"] take_le[of s ?t "used b'" "used b"]
        by (auto simp: prefix_done_def)
      then show ?thesis
        using flush_node[OF e kid(1) k(2) fl start_def] False CBB(4) st fp pd b' u sub flushed_node[OF e kid(1) k(1), of u k' b' b'']
        by (cases r2) (auto intro!: flushed_error simp: prefix_done_def)
    qed
  qed
qed

section \<open>Theorems\<close>

text \<open>
  C31. \<open>CBB_flush\<close> implements the nested-prefix contract: when it succeeds, the used bytes of the
  buffer are the flattening of the builder it was called on, every pending prefix holding
  the length of what follows it (in DER form for ASN.1, the contents having been moved
  when one length octet was not enough), every length fitted its prefix, and no child is
  left open.
\<close>

theorem cbb_flush_backpatches:
  assumes "st_ok 0 (c, b)" and "CBB_flush malloc (c, b) = (Some u, (c', b'))"
  shows "used b' = flat (cbb_abs c 0 (used b)) \<and> fits (cbb_abs c 0 (used b)) \<and> child c' = None \<and>
    unat (blen b') = length (flat (cbb_abs c 0 (used b)))"
proof -
  have "flushed 0 (c, b) (Some u) (c', b')" using flush_cases[OF assms] .
  then have "buf_ok b'" "used b' = flat (cbb_abs c 0 (used b))" "fits (cbb_abs c 0 (used b))" "child c' = None"
    by (auto simp: flushed_def st_abs_def)
  then show ?thesis using length_used[of b'] by simp
qed

theorem cbb_flush_backpatches_witness:
  "used \<lparr>buf = [7, 2, 5, 6], blen = 4, bcap = 4, can_resize = False, berror = False\<rparr> =
   flat (cbb_abs (CBB 0 0 False False (Some (CBB 1 1 True True None))) 0 [7, 0, 5, 6])"
proof -
  let ?b = "\<lparr>buf = [7, 0, 5, 6], blen = 4, bcap = 4, can_resize = False, berror = False\<rparr>"
  let ?c = "CBB 0 0 False False (Some (CBB 1 1 True True None))"
  have "st_ok 0 (?c, ?b)" by (simp add: st_ok_def buf_ok_def)
  moreover have "CBB_flush (\<lambda>_. None) (?c, ?b) =
      (Some (), (CBB 0 0 False False None, \<lparr>buf = [7, 2, 5, 6], blen = 4, bcap = 4, can_resize = False, berror = False\<rparr>))"
    by code_simp
  ultimately show ?thesis using cbb_flush_backpatches[of ?c ?b "\<lambda>_. None" "()"] by (simp add: used_def)
qed

end
