(* ===== verification/Der_Int.thy ===== *)
theory Der_Int
  imports Der
begin

text \<open>
  The contents of ASN.1 values that \<^verbatim>\<open>cbs.c\<close> reads: INTEGER in its shortest two's
  complement form, BOOLEAN, and the functions that take one element off a \<open>CBS\<close>.
\<close>

section \<open>Taking an element\<close>

definition element :: "uint32 \<Rightarrow> byte list \<Rightarrow> byte list" where
  "element t xs = der_header t (length xs) @ xs"

lemma get_asn1_complete:
  assumes vw: "cview m c = element t xs @ rest" and n: "length xs < 2 ^ 32"
  shows "CBS_get_asn1 m t c =
    (Some \<lparr>cb_data = cb_data c + length (der_header t (length xs)), cb_len = of_nat (length xs)\<rparr>, cadv (length (element t xs)) c)"
proof -
  let ?h = "length (der_header t (length xs))" and ?n = "length xs"
  have len: "unat (cb_len c) = ?h + ?n + length rest" using arg_cong[OF vw, of length] by (simp add: element_def)
  have u: "unat (of_nat (?h + ?n) :: size_t) = ?h + ?n" "unat (of_nat ?h :: size_t) = ?h"
    using len by (intro of_nat_le_len[of _ c], simp)+
  have "der_element m c t ?h ?n" using vw n len by (simp add: der_element_def element_def)
  from cbs_element_complete[OF this, of False] u show ?thesis
    by (simp add: CBS_get_asn1_def cbs_get_asn1_def CBS_get_any_asn1_element_def bindf_def retf_def CBS_skip_def cbs_get_eq
        cadv_def[of ?h] element_def del: of_nat_add) (simp add: of_nat_add)
qed

lemma cview_contents:
  assumes "cview m c = element t xs @ rest"
  shows "cview m \<lparr>cb_data = cb_data c + length (der_header t (length xs)), cb_len = of_nat (length xs)\<rparr> = xs"
proof -
  let ?h = "length (der_header t (length xs))"
  have len: "unat (cb_len c) = ?h + length xs + length rest" using arg_cong[OF assms, of length] by (simp add: element_def)
  have u: "unat (of_nat (length xs) :: size_t) = length xs" using len by (intro of_nat_le_len[of _ c]) simp
  have "take (length xs) (drop ?h (cview m c)) = xs" using assms by (simp add: element_def)
  then show ?thesis using u len by (simp add: cview_def)
qed

lemma get_asn1_sound:
  assumes "CBS_get_asn1 m t c = (Some out, c')"
  shows "\<exists>rest. cview m c = element t (cview m out) @ rest \<and> c' = cadv (length (element t (cview m out))) c"
proof -
  obtain el t' hl where el: "CBS_get_any_asn1_element m c = (Some (el, t', hl), c')" and t: "t' = t"
      and sk: "CBS_skip hl el = (Some (), out)"
    using assms by (auto simp: CBS_get_asn1_def cbs_get_asn1_def bindf_def split: option.splits prod.splits if_splits)
  obtain n where n: "der_element m c t (unat hl) n" "c' = cadv (unat hl + n) c"
      "el = \<lparr>cb_data = cb_data c, cb_len = of_nat (unat hl + n)\<rparr>"
    using el t unfolding asn1_element_iff by blast
  note d = n(1)[unfolded der_element_def]
  have u: "unat (of_nat (unat hl + n) :: size_t) = unat hl + n" using d by (intro of_nat_le_len[of _ c]) simp
  have out: "out = cadv (unat hl) el" using sk by (auto simp: CBS_skip_def bindf_def retf_def cbs_get_eq split: if_splits)
  have ve: "cview m el = take (unat hl + n) (cview m c)"
    using cview_prefix[of "of_nat (unat hl + n)" c m] u d n(3) by simp
  have "unat hl \<le> unat (cb_len el)" using n(3) u by simp
  then have vo: "cview m out = take n (drop (unat hl) (cview m c))"
    unfolding out by (simp add: ve drop_take)
  then have lo: "length (cview m out) = n" using arg_cong[OF vo, of length] d by (auto simp: min_def)
  have "cview m c = take (unat hl) (cview m c) @ take n (drop (unat hl) (cview m c)) @ drop (unat hl + n) (cview m c)"
    by (metis append_assoc append_take_drop_id take_add)
  then have "cview m c = der_header t n @ cview m out @ drop (unat hl + n) (cview m c)"
    unfolding vo using d by metis
  moreover have "length (der_header t n) = unat hl" using d by simp
  ultimately show ?thesis using lo n(2) by (metis append_assoc element_def length_append)
qed

section \<open>Shortest two's complement\<close>

definition sign_ext :: "byte \<Rightarrow> byte" where
  "sign_ext b = (if b AND 0x80 \<noteq> 0 then 0xff else 0)"

definition redundant :: "byte \<Rightarrow> byte \<Rightarrow> bool" where
  "redundant a b \<longleftrightarrow> a = sign_ext b"

fun trim_int :: "byte list \<Rightarrow> byte list" where
  "trim_int (a # b # bs) = (if redundant a b then trim_int (b # bs) else a # b # bs)"
| "trim_int bs = bs"

lemma sign_ext_idem [simp]: "sign_ext (sign_ext b) = sign_ext b"
  by (simp add: sign_ext_def)

lemma trim_int_nonempty [simp]: "bs \<noteq> [] \<Longrightarrow> trim_int bs \<noteq> []"
  by (induction bs rule: trim_int.induct) auto

lemma trim_int_ext:
  "bs \<noteq> [] \<Longrightarrow> sign_ext (hd (trim_int bs)) = sign_ext (hd bs)"
  by (induction bs rule: trim_int.induct) (auto simp: redundant_def)

lemma trim_int_pad:
  "bs \<noteq> [] \<Longrightarrow> bs = replicate (length bs - length (trim_int bs)) (sign_ext (hd bs)) @ trim_int bs"
proof (induction bs rule: trim_int.induct)
  case (1 a b bs)
  show ?case
  proof (cases "redundant a b")
    case True
    then have "length (trim_int (b # bs)) \<le> length (b # bs)" using 1(1) by (metis append_eq_conv_conj le_add2 length_append list.discI)
    then show ?thesis using 1(1)[OF True] True by (simp add: Suc_diff_le redundant_def)
  qed simp
qed simp_all

lemma length_trim_int: "length (trim_int bs) \<le> length bs"
  by (induction bs rule: trim_int.induct) auto

lemma trim_int_replicate:
  "bs \<noteq> [] \<Longrightarrow> trim_int (replicate k (sign_ext (hd bs)) @ bs) = trim_int bs"
proof (induction k)
  case (Suc k)
  have "trim_int (sign_ext (hd bs) # replicate k (sign_ext (hd bs)) @ bs) = trim_int (replicate k (sign_ext (hd bs)) @ bs)"
    using Suc.prems by (cases k; cases bs) (auto simp: redundant_def)
  then show ?case using Suc by simp
qed simp

lemma valid_integer_iff:
  "CBS_is_valid_asn1_integer m c = Some neg \<longleftrightarrow>
   (cview m c \<noteq> [] \<and> trim_int (cview m c) = cview m c \<and> (neg \<longleftrightarrow> hd (cview m c) AND 0x80 \<noteq> 0))"
proof (cases "cview m c")
  case Nil
  then show ?thesis by (simp add: CBS_is_valid_asn1_integer_def CBS_get_u8_eq)
next
  case (Cons a bs)
  have len: "Suc 0 \<le> unat (cb_len c)" using cview_Cons_len[OF Cons] .
  show ?thesis
  proof (cases bs)
    case Nil
    then show ?thesis using Cons len by (auto simp: CBS_is_valid_asn1_integer_def CBS_get_u8_eq Let_def)
  next
    case (Cons b bs')
    have "trim_int (b # bs') \<noteq> a # b # bs'" using length_trim_int[of "b # bs'"] by (metis Suc_n_not_le_n length_Cons)
    then have "trim_int (a # b # bs') = a # b # bs' \<longleftrightarrow> \<not> redundant a b" by simp
    then show ?thesis using \<open>cview m c = a # bs\<close> Cons len
      by (auto simp: CBS_is_valid_asn1_integer_def CBS_get_u8_eq Let_def redundant_def sign_ext_def simp del: trim_int.simps)
  qed
qed

section \<open>64-bit integers\<close>

lemma be_word_bytes8: "length bs = 8 \<Longrightarrow> be_bytes 8 (be_word bs :: uint64) = bs"
  by (rule be_word_bytes) simp_all

lemma be_word_be_bytes8: "be_word (be_bytes 8 v) = (v :: uint64)"
proof -
  have "take_bit 64 v = v" by (rule bit_word_eqI) (simp add: bit_simps)
  then show ?thesis by (simp add: be_word_def be_bytes_def le_word_le_bytes)
qed

lemma fold_updates:
  "k \<le> length u \<Longrightarrow> fold (\<lambda>i u. u[i := f i]) [0..<k] u = map f [0..<k] @ drop k u"
proof (induction k)
  case (Suc k)
  then have "(map f [0..<k] @ drop k u)[k := f k] = map f [0..<k] @ f k # drop (Suc k) u"
    by (simp add: list_update_append Cons_nth_drop_Suc[symmetric])
  then show ?case using Suc by simp
qed simp

lemma map_rev_nth: "map (\<lambda>i. xs ! (length xs - i - 1)) [0..<length xs] = rev xs"
  by (rule nth_equalityI) (simp_all add: rev_nth)

text \<open>The two's complement reader: the contents, sign-extended to eight bytes.\<close>

definition pad8 :: "byte list \<Rightarrow> byte list" where
  "pad8 xs = replicate (8 - length xs) (sign_ext (hd xs)) @ xs"

lemma get_int64_contents:
  assumes "cview m out = xs" "xs \<noteq> []" "length xs \<le> 8"
  shows "fold (\<lambda>i u. u[i := m (cb_data out + (length xs - i - 1))]) [0..<length xs]
      (replicate 8 (if hd xs AND 0x80 \<noteq> 0 then 0xff else 0)) = rev (pad8 xs)"
proof -
  have "unat (cb_len out) = length xs" using assms(1) by auto
  then have "m (cb_data out + (length xs - i - 1)) = xs ! (length xs - i - 1)" if "i < length xs" for i
    using assms(1)[symmetric] that by (simp add: cview_def)
  then have "map (\<lambda>i. m (cb_data out + (length xs - i - 1))) [0..<length xs] = rev xs"
    unfolding map_rev_nth[symmetric] by (intro map_cong) auto
  then show ?thesis
    using assms(3) fold_updates[of "length xs" "replicate 8 (sign_ext (hd xs))" "\<lambda>i. m (cb_data out + (length xs - i - 1))"]
    by (simp add: pad8_def sign_ext_def)
qed

lemma trim_int_pad8: "xs \<noteq> [] \<Longrightarrow> trim_int (pad8 xs) = trim_int xs"
  by (simp add: pad8_def trim_int_replicate)

lemma pad8_trim_int:
  assumes "length bs = 8"
  shows "pad8 (trim_int bs) = bs"
proof -
  have ne: "bs \<noteq> []" using assms by auto
  show ?thesis
    using trim_int_pad[OF ne] trim_int_ext[OF ne] assms by (simp add: pad8_def)
qed

lemma length_pad8: "length xs \<le> 8 \<Longrightarrow> length (pad8 xs) = 8"
  by (simp add: pad8_def)

lemma int64_contents_iff:
  "(xs \<noteq> [] \<and> trim_int xs = xs \<and> length xs \<le> 8 \<and> le_word (rev (pad8 xs)) = (v :: uint64)) \<longleftrightarrow>
   xs = trim_int (be_bytes 8 v)"
proof
  assume a: "xs \<noteq> [] \<and> trim_int xs = xs \<and> length xs \<le> 8 \<and> le_word (rev (pad8 xs)) = v"
  then have "v = be_word (pad8 xs)" by (simp add: be_word_def)
  then have "be_bytes 8 v = pad8 xs" using a be_word_bytes8[OF length_pad8] by simp
  then show "xs = trim_int (be_bytes 8 v)" using a trim_int_pad8 by simp
next
  assume xs: "xs = trim_int (be_bytes 8 v)"
  let ?bs = "be_bytes 8 v"
  have ne: "?bs \<noteq> []" by (metis length_be_bytes list.size(3) zero_neq_numeral)
  have p: "pad8 xs = ?bs" unfolding xs by (rule pad8_trim_int) simp
  have "trim_int xs = xs" using trim_int_pad8[of xs] trim_int_nonempty[OF ne] xs p by simp
  then show "xs \<noteq> [] \<and> trim_int xs = xs \<and> length xs \<le> 8 \<and> le_word (rev (pad8 xs)) = v"
    using trim_int_nonempty[OF ne] length_trim_int[of ?bs] p be_word_be_bytes8[of v] xs by (simp add: be_word_def)
qed

text \<open>The unsigned reader shifts the contents in and stops before a bit is lost.\<close>

lemma shift8_or:
  fixes v :: uint64 and b :: byte
  assumes "unat v < 2 ^ 56"
  shows "unat (push_bit 8 v OR ucast b) = unat v * 256 + unat b"
proof -
  have "push_bit 8 v OR ucast b = push_bit 8 v + ucast b"
    by (rule disjunctive_add[symmetric]) (auto simp: bit_simps dest: bit_imp_le_length)
  moreover have "unat (push_bit 8 v) = unat v * 256" using assms by (simp add: push_bit_eq_mult unat_word_ariths)
  ultimately show ?thesis using assms unat_byte_less[of b] by (simp add: unat_word_ariths unat_ucast_mod)
qed

lemma drop_bit_56: "drop_bit 56 (v :: uint64) \<noteq> 0 \<longleftrightarrow> 2 ^ 56 \<le> unat v"
proof -
  have "unat (drop_bit 56 v) = unat v div 2 ^ 56" by (simp only: unat_drop_bit_eq) (simp only: drop_bit_eq_div)
  then show ?thesis by (metis div_eq_0_iff not_less power_eq_0_iff unat_eq_0 zero_neq_numeral)
qed

lemma uint64_loop_short:
  "k + length bs \<le> 8 \<Longrightarrow> unat v < 256 ^ k \<Longrightarrow>
   uint64_loop v bs = Some (fold (\<lambda>b r. push_bit 8 r OR ucast b) bs v)"
proof (induction bs arbitrary: v k)
  case (Cons b bs)
  have "(256::nat) ^ k \<le> 256 ^ 7" using Cons.prems(1) by (intro power_increasing) auto
  then have v: "unat v < 2 ^ 56" using Cons.prems(2) by simp
  have "unat (push_bit 8 v OR ucast b) < 256 ^ Suc k"
    using shift8_or[OF v, of b] Cons.prems(2) unat_byte_less[of b] by simp
  then have "uint64_loop (push_bit 8 v OR ucast b) bs = Some (fold (\<lambda>b r. push_bit 8 r OR ucast b) bs (push_bit 8 v OR ucast b))"
    using Cons.prems(1) by (intro Cons.IH[of "Suc k"]) auto
  moreover have "drop_bit 56 v = 0" using drop_bit_56[of v] v by simp
  ultimately show ?case by simp
qed simp

lemma uint64_loop_long:
  "bs \<noteq> [] \<Longrightarrow> 8 \<le> k + length bs \<Longrightarrow> 256 ^ k \<le> unat v \<Longrightarrow> uint64_loop v bs = None"
proof (induction bs arbitrary: v k)
  case (Cons b bs)
  show ?case
  proof (cases "2 ^ 56 \<le> unat v")
    case True
    then show ?thesis using drop_bit_56[of v] by simp
  next
    case False
    have "k < 7" using Cons.prems(3) False power_increasing[of 7 k "256 :: nat"] by (rule_tac ccontr) simp
    then have "bs \<noteq> []" using Cons.prems(2) by auto
    moreover have "256 ^ Suc k \<le> unat (push_bit 8 v OR ucast b)" using shift8_or[of v b] False Cons.prems(3) by simp
    ultimately show ?thesis using Cons.IH[of "Suc k"] Cons.prems(2) by simp
  qed
qed simp

lemma uint64_loop_zero: "uint64_loop 0 (0 # bs) = uint64_loop 0 bs"
  by simp

lemma uint64_loop_zeros: "uint64_loop 0 (replicate k 0 @ bs) = uint64_loop 0 bs"
  by (induction k) simp_all

lemma uint64_loop_8: "length bs \<le> 8 \<Longrightarrow> uint64_loop 0 bs = Some (be_word bs)"
  using uint64_loop_short[of 0 bs 0] fold_shift_be_word[of bs, where ?'a = 64] by simp

lemma uint64_loop_9:
  assumes "9 \<le> length (b # bs)" "b \<noteq> 0"
  shows "uint64_loop 0 (b # bs) = None"
proof -
  have "1 \<le> unat b" using assms(2) by (simp add: Suc_le_eq unat_gt_0)
  then have "256 ^ 0 \<le> unat (push_bit 8 0 OR ucast b :: uint64)" by simp
  moreover have "bs \<noteq> []" using assms(1) by auto
  ultimately have "uint64_loop (push_bit 8 0 OR ucast b) bs = None"
    using assms(1) by (intro uint64_loop_long[of bs 0]) auto
  then show ?thesis by simp
qed

lemma trim_int_fix: "trim_int (a # b # bs) = a # b # bs \<longleftrightarrow> \<not> redundant a b"
  using length_trim_int[of "b # bs"] by (auto dest: arg_cong[of _ _ length])

lemma trim_int_tail: "trim_int (0 # ys) = 0 # ys \<Longrightarrow> ys = [] \<or> hd ys \<noteq> 0"
  by (cases ys) (auto simp: trim_int_fix redundant_def sign_ext_def simp del: trim_int.simps(1))

lemma uint64_loop_valid:
  assumes "xs \<noteq> []" "trim_int xs = xs" "uint64_loop 0 xs = Some v"
  shows "length xs \<le> 9 \<and> 0 # be_bytes 8 v = replicate (9 - length xs) 0 @ xs"
proof -
  obtain x xs' where xs: "xs = x # xs'" using assms(1) by (cases xs) auto
  obtain ys k where ys: "xs = replicate k 0 @ ys" "k \<le> 1" "length ys \<le> 8" "uint64_loop 0 ys = Some v"
  proof (cases "x = 0")
    case True
    then have "\<not> 9 \<le> length xs'"
      using trim_int_tail[of xs'] assms xs uint64_loop_9[of "hd xs'" "tl xs'"] by (cases xs') auto
    then show ?thesis using that[of 1 xs'] True xs assms(3) by simp
  next
    case False
    then have "\<not> 9 \<le> length xs" using uint64_loop_9[of x xs'] xs assms(3) by auto
    then show ?thesis using that[of 0 xs] assms(3) by simp
  qed
  let ?p = "replicate (8 - length ys) 0 @ ys"
  have "v = be_word ?p"
    using ys(3,4) uint64_loop_8[of ?p] uint64_loop_zeros[of "8 - length ys" ys] by simp
  then have "be_bytes 8 v = ?p" using ys(3) by (simp add: be_word_bytes8)
  moreover have "9 - length xs + k = Suc (8 - length ys)" using ys by simp
  ultimately have "0 # be_bytes 8 v = replicate (9 - length xs) 0 @ xs"
    using ys(1) by (metis append_Cons append_assoc replicate_Suc replicate_add)
  then show ?thesis using ys by simp
qed

lemma sign_ext_0 [simp]: "sign_ext 0 = 0" "sign_ext b = 0 \<longleftrightarrow> b AND 0x80 = 0"
  by (simp_all add: sign_ext_def)

lemma uint64_contents_iff:
  "(xs \<noteq> [] \<and> trim_int xs = xs \<and> hd xs AND 0x80 = 0 \<and> uint64_loop 0 xs = Some v) \<longleftrightarrow>
   xs = trim_int (0 # be_bytes 8 v)"
proof
  assume a: "xs \<noteq> [] \<and> trim_int xs = xs \<and> hd xs AND 0x80 = 0 \<and> uint64_loop 0 xs = Some v"
  then have "trim_int (0 # be_bytes 8 v) = trim_int (replicate (9 - length xs) (sign_ext (hd xs)) @ xs)"
    using uint64_loop_valid[of xs v] sign_ext_0(2)[of "hd xs"] by metis
  then show "xs = trim_int (0 # be_bytes 8 v)" using a trim_int_replicate[of xs] by simp
next
  assume xs: "xs = trim_int (0 # be_bytes 8 v)"
  let ?bs = "0 # be_bytes 8 v"
  have ne: "xs \<noteq> []" unfolding xs by (rule trim_int_nonempty) simp
  have e: "sign_ext (hd xs) = 0" unfolding xs using trim_int_ext[of ?bs] by simp
  have p: "?bs = replicate (length ?bs - length xs) 0 @ xs" unfolding xs using trim_int_pad[of ?bs] by simp
  have "trim_int xs = xs" using trim_int_replicate[OF ne, of "length ?bs - length xs"] e p xs by metis
  moreover have "uint64_loop 0 xs = Some v"
    using uint64_loop_zeros[of "length ?bs - length xs" xs] p uint64_loop_zero[of "be_bytes 8 v"]
      uint64_loop_8[of "be_bytes 8 v"] be_word_be_bytes8[of v] by (metis length_be_bytes order_refl)
  ultimately show "xs \<noteq> [] \<and> trim_int xs = xs \<and> hd xs AND 0x80 = 0 \<and> uint64_loop 0 xs = Some v" using ne e by simp
qed

section \<open>The readers of values\<close>

text \<open>A reader that takes the element with tag \<open>t\<close> and accepts exactly the contents \<open>enc v\<close>.\<close>

lemma value_reader_iff:
  assumes run: "\<And>c'. f c = (Some v, c') \<longleftrightarrow> (\<exists>out. CBS_get_asn1 m t c = (Some out, c') \<and> cview m out = xs)"
    and n: "length xs < 2 ^ 32"
  shows "f c = (Some v, c') \<longleftrightarrow>
    (\<exists>rest. cview m c = element t xs @ rest \<and> c' = cadv (length (element t xs)) c)"
proof
  assume "f c = (Some v, c')"
  then obtain out where "CBS_get_asn1 m t c = (Some out, c')" "cview m out = xs" unfolding run by blast
  then show "\<exists>rest. cview m c = element t xs @ rest \<and> c' = cadv (length (element t xs)) c"
    using get_asn1_sound[of m t c out c'] by auto
next
  assume "\<exists>rest. cview m c = element t xs @ rest \<and> c' = cadv (length (element t xs)) c"
  then obtain rest where r: "cview m c = element t xs @ rest" "c' = cadv (length (element t xs)) c" by blast
  show "f c = (Some v, c')"
    unfolding run using get_asn1_complete[OF r(1) n] cview_contents[OF r(1)] r(2) by auto
qed

lemma length_trim_9: "length (trim_int (0 # be_bytes 8 v)) < 2 ^ 32" "length (trim_int (be_bytes 8 v)) < 2 ^ 32"
  using length_trim_int[of "0 # be_bytes 8 v"] length_trim_int[of "be_bytes 8 v"] by simp_all

lemma uint64_run:
  "CBS_get_asn1_uint64 m c = (Some v, c') \<longleftrightarrow>
   (\<exists>out. CBS_get_asn1 m CBS_ASN1_INTEGER c = (Some out, c') \<and> cview m out = trim_int (0 # be_bytes 8 v))"
proof -
  have "CBS_is_unsigned_asn1_integer m out \<and> uint64_loop 0 (cview m out) = Some v \<longleftrightarrow> cview m out = trim_int (0 # be_bytes 8 v)" for out
    unfolding CBS_is_unsigned_asn1_integer_def valid_integer_iff uint64_contents_iff[symmetric] by auto
  then show ?thesis
    by (auto simp: CBS_get_asn1_uint64_def bindf_def CBS_data_def CBS_len_def cview_def[symmetric]
        split: option.splits prod.splits if_splits)
qed

lemma int64_run:
  "CBS_get_asn1_int64 m c = (Some v, c') \<longleftrightarrow>
   (\<exists>out. CBS_get_asn1 m CBS_ASN1_INTEGER c = (Some out, c') \<and> cview m out = trim_int (be_bytes 8 v))"
proof -
  let ?u = "\<lambda>out neg. fold (\<lambda>i u. u[i := m (cb_data out + (unat (cb_len out) - i - 1))]) [0..<unat (cb_len out)]
      (replicate 8 (if neg then 0xff else 0))"
  have "CBS_get_asn1_int64 m c = (Some v, c') \<longleftrightarrow> (\<exists>out. CBS_get_asn1 m CBS_ASN1_INTEGER c = (Some out, c') \<and>
      (\<exists>neg. CBS_is_valid_asn1_integer m out = Some neg \<and> unat (cb_len out) \<le> 8 \<and> le_word (?u out neg) = v))"
    by (auto simp: CBS_get_asn1_int64_def bindf_def CBS_data_def CBS_len_def Let_def not_less
        split: option.splits prod.splits)
  moreover have "(\<exists>neg. CBS_is_valid_asn1_integer m out = Some neg \<and> unat (cb_len out) \<le> 8 \<and> le_word (?u out neg) = v) \<longleftrightarrow>
      cview m out = trim_int (be_bytes 8 v)" for out
    unfolding valid_integer_iff int64_contents_iff[symmetric]
    using get_int64_contents[of m out "cview m out"] by auto
  ultimately show ?thesis by simp
qed

text \<open>
  The unsigned reader returns \<open>v\<close> exactly on the DER encoding of \<open>v\<close>.
\<close>

lemma asn1_uint64_iff:
  "CBS_get_asn1_uint64 m c = (Some v, c') \<longleftrightarrow>
   (\<exists>rest. cview m c = element CBS_ASN1_INTEGER (trim_int (0 # be_bytes 8 v)) @ rest \<and>
      c' = cadv (length (element CBS_ASN1_INTEGER (trim_int (0 # be_bytes 8 v)))) c)"
  by (rule value_reader_iff[OF uint64_run length_trim_9(1)])

lemma asn1_int64_iff:
  "CBS_get_asn1_int64 m c = (Some v, c') \<longleftrightarrow>
   (\<exists>rest. cview m c = element CBS_ASN1_INTEGER (trim_int (be_bytes 8 v)) @ rest \<and>
      c' = cadv (length (element CBS_ASN1_INTEGER (trim_int (be_bytes 8 v)))) c)"
  by (rule value_reader_iff[OF int64_run length_trim_9(2)])

lemma bool_run:
  "CBS_get_asn1_bool m c = (Some v, c') \<longleftrightarrow>
   (\<exists>out. CBS_get_asn1 m CBS_ASN1_BOOLEAN c = (Some out, c') \<and> cview m out = [if v then 0xff else 0])"
proof -
  have "CBS_get_asn1_bool m c = (Some v, c') \<longleftrightarrow> (\<exists>out. CBS_get_asn1 m CBS_ASN1_BOOLEAN c = (Some out, c') \<and>
      cb_len out = 1 \<and> (m (cb_data out) = 0 \<or> m (cb_data out) = 0xff) \<and> v = (m (cb_data out) \<noteq> 0))"
    by (auto simp: CBS_get_asn1_bool_def bindf_def CBS_data_def CBS_len_def Let_def split: option.splits prod.splits)
  moreover have "cb_len out = 1 \<and> (m (cb_data out) = 0 \<or> m (cb_data out) = 0xff) \<and> v = (m (cb_data out) \<noteq> 0) \<longleftrightarrow>
      cview m out = [if v then 0xff else 0]" for out
  proof (cases "cb_len out = 1")
    case True
    then show ?thesis by (auto simp: cview_def read_bytes_Suc)
  next
    case False
    have "cview m out \<noteq> [x]" for x
    proof
      assume "cview m out = [x]"
      from arg_cong[OF this, of length] False show False by (simp add: word_unat_eq_iff)
    qed
    then show ?thesis using False by simp
  qed
  ultimately show ?thesis by simp
qed

lemma asn1_bool_is_der:
  "CBS_get_asn1_bool m c = (Some v, c') \<longleftrightarrow>
   (\<exists>rest. cview m c = element CBS_ASN1_BOOLEAN [if v then 0xff else 0] @ rest \<and>
      c' = cadv (length (element CBS_ASN1_BOOLEAN [if v then 0xff else 0])) c)"
  by (rule value_reader_iff[OF bool_run]) simp

section \<open>Theorems\<close>

text \<open>
  C38. \<open>CBS_get_asn1_uint64\<close> returns \<open>v\<close> exactly on the DER encoding of \<open>v\<close> as an INTEGER: the
  shortest two's complement form of the non-negative number. Padded, negative and
  overlong contents are all refused.
\<close>

theorem asn1_uint64_is_der:
  "CBS_get_asn1_uint64 m c = (Some v, c') \<longleftrightarrow>
   (\<exists>rest. cview m c = element CBS_ASN1_INTEGER (trim_int (0 # be_bytes 8 v)) @ rest \<and>
      c' = cadv (length (element CBS_ASN1_INTEGER (trim_int (0 # be_bytes 8 v)))) c)"
  by (rule asn1_uint64_iff)

text \<open>
  \<open>CBS_get_asn1_int64\<close> returns the 64-bit pattern \<open>v\<close> exactly on the DER encoding of the
  signed number it represents.
\<close>

theorem asn1_int64_is_der:
  "CBS_get_asn1_int64 m c = (Some v, c') \<longleftrightarrow>
   (\<exists>rest. cview m c = element CBS_ASN1_INTEGER (trim_int (be_bytes 8 v)) @ rest \<and>
      c' = cadv (length (element CBS_ASN1_INTEGER (trim_int (be_bytes 8 v)))) c)"
  by (rule asn1_int64_iff)

end
