(* ===== verification/Cbb_Refine.thy ===== *)
theory Cbb_Refine
  imports Cbb_Spec Der_Int
begin

text \<open>
  The operations of \<^verbatim>\<open>cbb.c\<close> refine operations of the abstract builder. An abstract operation
  is a relation on builders; the relations compose as the calls do, and lift to calls on
  the open child.
\<close>

section \<open>Refinement of an operation\<close>

definition refines :: "(cbb_state \<Rightarrow> 'a option \<times> cbb_state) \<Rightarrow> (builder \<Rightarrow> builder \<Rightarrow> bool) \<Rightarrow> bool" where
  "refines f R \<longleftrightarrow> (\<forall>s st r st'. st_ok s st \<longrightarrow> f st = (r, st') \<longrightarrow>
     buf_ok (snd st') \<and> st_frame s st st' \<and>
     (r \<noteq> None \<longrightarrow> st_ok s st' \<and> berror (snd st') = berror (snd st) \<and> R (st_abs s st) (st_abs s st')))"

lemma refinesI:
  assumes "\<And>s st r st'. st_ok s st \<Longrightarrow> f st = (r, st') \<Longrightarrow> buf_ok (snd st') \<and> st_frame s st st'"
    and "\<And>s st x st'. st_ok s st \<Longrightarrow> f st = (Some x, st') \<Longrightarrow>
      st_ok s st' \<and> berror (snd st') = berror (snd st) \<and> R (st_abs s st) (st_abs s st')"
  shows "refines f R"
  unfolding refines_def using assms by blast

lemma refinesD:
  assumes "refines f R" "st_ok s st" "f st = (r, st')"
  shows "buf_ok (snd st')" "st_frame s st st'"
    "r \<noteq> None \<Longrightarrow> st_ok s st' \<and> berror (snd st') = berror (snd st) \<and> R (st_abs s st) (st_abs s st')"
  using assms unfolding refines_def by blast+

lemma st_frame_trans: "st_frame s a b \<Longrightarrow> st_frame s b c \<Longrightarrow> st_frame s a c"
  by (simp add: st_frame_def)

lemma st_frame_refl [simp]: "st_frame s a a"
  by (simp add: st_frame_def)

named_theorems refine_intros

lemma refines_bind [refine_intros]:
  assumes f: "refines f R" and h: "\<And>x. refines (h x) S"
  shows "refines (bindf f h) (R OO S)"
  unfolding refines_def
proof (intro allI impI)
  fix s st r st'
  assume ok: "st_ok s st" and run: "bindf f h st = (r, st')"
  obtain r1 st1 where f1: "f st = (r1, st1)" by (cases "f st")
  note a = refinesD[OF f ok f1]
  show "buf_ok (snd st') \<and> st_frame s st st' \<and>
    (r \<noteq> None \<longrightarrow> st_ok s st' \<and> berror (snd st') = berror (snd st) \<and> (R OO S) (st_abs s st) (st_abs s st'))"
  proof (cases r1)
    case None
    then show ?thesis using run f1 a by (auto simp: bindf_def)
  next
    case (Some x)
    then have "h x st1 = (r, st')" using run f1 by (simp add: bindf_def)
    with Some a h[of x] show ?thesis
      using refinesD[OF h[of x], of s st1 r st'] st_frame_trans[of s st st1 st'] by auto
  qed
qed

lemma refines_ret [refine_intros]: "refines (retf x) (=)"
  by (auto simp: refines_def retf_def st_ok_def)

lemma refines_weaken: "refines f R \<Longrightarrow> (\<And>B B'. R B B' \<Longrightarrow> S B B') \<Longrightarrow> refines f S"
  unfolding refines_def by blast

text \<open>Calls on the open child.\<close>

definition in_child :: "(builder \<Rightarrow> builder \<Rightarrow> bool) \<Rightarrow> builder \<Rightarrow> builder \<Rightarrow> bool" where
  "in_child R B B' \<longleftrightarrow> (\<exists>bs p K K'. B = Builder bs (Some (p, K)) \<and> R K K' \<and> B' = Builder bs (Some (p, K')))"

lemma refines_on_child [refine_intros]:
  assumes f: "refines f R"
  shows "refines (on_child f) (in_child R)"
  unfolding refines_def
proof (intro allI impI)
  fix s st r st'
  assume ok: "st_ok s st" and run: "on_child f st = (r, st')"
  obtain c b where st: "st = (c, b)" by fastforce
  show "buf_ok (snd st') \<and> st_frame s st st' \<and>
    (r \<noteq> None \<longrightarrow> st_ok s st' \<and> berror (snd st') = berror (snd st) \<and> in_child R (st_abs s st) (st_abs s st'))"
  proof (cases "child c")
    case None
    then show ?thesis using run st ok by (auto simp: on_child_def st_ok_def)
  next
    case (Some k)
    then obtain f0 p0 a0 i0 where c: "c = CBB f0 p0 a0 i0 (Some k)" by (cases c) auto
    let ?t = "unat (off k) + unat (pending_len_len k)"
    obtain k' b' where fk: "f (k, b) = (r, (k', b'))" and st': "st' = (set_child c (Some k'), b')"
      using run st Some by (auto simp: on_child_def split: prod.splits)
    have okk: "st_ok ?t (k, b)" and s: "s \<le> unat (off k)" using ok st c by (auto simp: st_ok_def)
    note a = refinesD[OF f okk fk]
    have eq: "off k' = off k" "pending_len_len k' = pending_len_len k" "prefix_of k' = prefix_of k"
        "pending_is_asn1 k' = pending_is_asn1 k" "is_child k' = is_child k" "can_resize b' = can_resize b"
      using a(2) by (auto simp: st_frame_def prefix_of_def)
    have t: "take q (used b') = take q (used b)" if "q \<le> ?t" for q
      using a(2) that take_le[of q ?t] by (auto simp: st_frame_def)
    have "st_frame s st st'" using t[of s] s eq st st' by (simp add: st_frame_def)
    moreover have "in_child R (st_abs s st) (st_abs s st')" if "r \<noteq> None"
      using a(3)[OF that] t[of "unat (off k)"] eq c st st' by (auto simp: st_abs_def in_child_def)
    ultimately show ?thesis using a(1,3) ok c st st' eq by (auto simp: st_ok_def)
  qed
qed

lemma refines_each [refine_intros]:
  assumes "\<And>x. x \<in> set xs \<Longrightarrow> refines (f x) (R x)"
  shows "refines (each f xs) (foldr (\<lambda>x S. R x OO S) xs (=))"
  using assms by (induction xs) (auto intro!: refines_bind refines_ret)

section \<open>Primitive operations\<close>

definition closes :: "builder \<Rightarrow> builder \<Rightarrow> bool" where
  "closes B B' \<longleftrightarrow> fits B \<and> B' = Builder (flat B) None"

definition appends :: "byte list \<Rightarrow> builder \<Rightarrow> builder \<Rightarrow> bool" where
  "appends xs B B' \<longleftrightarrow> fits B \<and> B' = Builder (flat B @ xs) None"

definition opens :: "len_prefix \<Rightarrow> byte list \<Rightarrow> builder \<Rightarrow> builder \<Rightarrow> bool" where
  "opens p xs B B' \<longleftrightarrow> fits B \<and> B' = Builder (flat B @ xs) (Some (p, Builder [] None))"

lemma refines_flush [refine_intros]: "refines (CBB_flush malloc) closes"
proof (rule refinesI)
  fix s st r st' assume "st_ok s st" "CBB_flush malloc st = (r, st')"
  from flush_cases[OF this] show "buf_ok (snd st') \<and> st_frame s st st'" by (simp add: flushed_def)
next
  fix s st x st' assume "st_ok s st" "CBB_flush malloc st = (Some x, st')"
  from flush_cases[OF this]
  show "st_ok s st' \<and> berror (snd st') = berror (snd st) \<and> closes (st_abs s st) (st_abs s st')"
    by (auto simp: flushed_def st_ok_def st_abs_def[of s st'] closes_def)
qed

text \<open>An operation on the buffer that only adds bytes at its end.\<close>

definition extends :: "(cbb_buffer \<Rightarrow> 'a option \<times> cbb_buffer) \<Rightarrow> byte list \<Rightarrow> bool" where
  "extends h xs \<longleftrightarrow> (\<forall>b r b'. buf_ok b \<longrightarrow> h b = (r, b') \<longrightarrow>
     buf_ok b' \<and> take (unat (blen b)) (used b') = used b \<and> can_resize b' = can_resize b \<and>
     (r \<noteq> None \<longrightarrow> used b' = used b @ xs \<and> berror b' = berror b))"

lemma extendsD:
  "extends h xs \<Longrightarrow> buf_ok b \<Longrightarrow> h b = (r, b') \<Longrightarrow>
   buf_ok b' \<and> take (unat (blen b)) (used b') = used b \<and> can_resize b' = can_resize b \<and>
   (r \<noteq> None \<longrightarrow> used b' = used b @ xs \<and> berror b' = berror b)"
  unfolding extends_def by blast

lemma refines_extend:
  assumes h: "extends h xs"
  shows "refines (bindf (CBB_flush malloc) (\<lambda>_. on_base h)) (appends xs)"
  unfolding refines_def
proof (intro allI impI)
  fix s st r st'
  assume ok: "st_ok s st" and run: "bindf (CBB_flush malloc) (\<lambda>_. on_base h) st = (r, st')"
  obtain r1 c b where fl: "CBB_flush malloc st = (r1, (c, b))" by (metis prod_cases3)
  note f = flush_cases[OF ok fl]
  show "buf_ok (snd st') \<and> st_frame s st st' \<and>
    (r \<noteq> None \<longrightarrow> st_ok s st' \<and> berror (snd st') = berror (snd st) \<and> appends xs (st_abs s st) (st_abs s st'))"
  proof (cases r1)
    case None
    then show ?thesis using run fl f by (auto simp: bindf_def flushed_def)
  next
    case (Some u)
    then obtain b' where hb: "h b = (r, b')" and st': "st' = (c, b')"
      using run fl by (auto simp: bindf_def on_base_def split: prod.splits)
    have b: "buf_ok b" "child c = None" "s \<le> unat (blen b)" "\<not> berror b" "\<not> berror (snd st)" "fits (st_abs s st)"
        "drop s (used b) = flat (st_abs s st)" "st_frame s st (c, b)"
      using f Some by (auto simp: flushed_def)
    have e: "buf_ok b'" "take (unat (blen b)) (used b') = used b" "can_resize b' = can_resize b"
        "r \<noteq> None \<Longrightarrow> used b' = used b @ xs \<and> berror b' = berror b"
      using extendsD[OF h b(1) hb] by auto
    have "take s (used b') = take s (used b)" using e(2) b(3) by (metis min.absorb1 take_take)
    then have fr: "st_frame s st st'" using b(8) e(3) st' by (simp add: st_frame_def)
    have "st_ok s st' \<and> berror (snd st') = berror (snd st) \<and> appends xs (st_abs s st) (st_abs s st')" if "r \<noteq> None"
      using e(4)[OF that] b e(1) st' length_used[OF b(1)] length_used[OF e(1)]
      by (auto simp: st_ok_def st_abs_def[of s "(c, b')"] appends_def)
    then show ?thesis using fr e(1) st' by simp
  qed
qed

lemma extends_add: "n < 2 ^ 64 \<Longrightarrow> length xs = n \<Longrightarrow> extends (bindf (cbb_buffer_add malloc (of_nat n)) (put_bytes xs)) xs"
  unfolding extends_def
proof (intro allI impI)
  fix b r b' assume n: "n < 2 ^ 64" "length xs = n" and ok: "buf_ok b" and run: "bindf (cbb_buffer_add malloc (of_nat n)) (put_bytes xs) b = (r, b')"
  obtain r1 b1 where ad: "cbb_buffer_add malloc (of_nat n) b = (r1, b1)" by fastforce
  note a = add_cases[OF ok ad]
  show "buf_ok b' \<and> take (unat (blen b)) (used b') = used b \<and> can_resize b' = can_resize b \<and>
     (r \<noteq> None \<longrightarrow> used b' = used b @ xs \<and> berror b' = berror b)"
  proof (cases r1)
    case None
    then show ?thesis using run ad a by (auto simp: bindf_def)
  next
    case (Some p)
    have res: "r = Some ()" "b' = b1\<lparr>buf := memcpy_at (buf b1) (unat (blen b)) xs\<rparr>"
      using run ad Some a by (auto simp: bindf_def put_bytes_def)
    have b1: "buf_ok b1" "take (unat (blen b)) (used b1) = used b" "can_resize b1 = can_resize b" "berror b1 = berror b"
        "unat (blen b1) = unat (blen b) + n"
      using a Some n by auto
    have "used b' = used b @ xs"
      using used_memcpy_at[OF b1(1), of "unat (blen b)" xs] res(2) b1 n by (simp add: used_def)
    moreover have "buf_ok b'" using b1 res(2) n by (auto simp: buf_ok_def word_le_nat_alt)
    ultimately show ?thesis using res b1 length_used[OF ok] by simp
  qed
qed

lemma extends_add_u:
  assumes "n \<le> 8"
  shows "extends (cbb_buffer_add_u malloc v n) (be_bytes n v)"
proof (cases "n = 0")
  case True
  then show ?thesis by (auto simp: extends_def cbb_buffer_add_u_def be_bytes_def le_bytes_def)
next
  case False
  have n: "n < 2 ^ 64" using assms by simp
  show ?thesis
    unfolding extends_def
  proof (intro allI impI)
    fix b r b' assume ok: "buf_ok b" and run: "cbb_buffer_add_u malloc v n b = (r, b')"
    let ?w = "be_bytes n v"
    obtain r1 b1 where ad: "cbb_buffer_add malloc (of_nat n) b = (r1, b1)" by fastforce
    note a = add_cases[OF ok ad]
    obtain r2 b2 where w: "bindf (cbb_buffer_add malloc (of_nat n)) (put_bytes ?w) b = (r2, b2)" by fastforce
    have e: "buf_ok b2 \<and> take (unat (blen b)) (used b2) = used b \<and> can_resize b2 = can_resize b \<and>
       (r2 \<noteq> None \<longrightarrow> used b2 = used b @ ?w \<and> berror b2 = berror b)"
      using extendsD[OF extends_add[OF n, of ?w malloc] ok w] by simp
    show "buf_ok b' \<and> take (unat (blen b)) (used b') = used b \<and> can_resize b' = can_resize b \<and>
       (r \<noteq> None \<longrightarrow> used b' = used b @ ?w \<and> berror b' = berror b)"
    proof (cases r1)
      case None
      then show ?thesis using run ad False a by (auto simp: cbb_buffer_add_u_def bindf_def)
    next
      case (Some p)
      then have "p + n \<le> length (buf b1)" using a n by (auto simp: buf_ok_def word_le_nat_alt)
      then have "b2 = b1\<lparr>buf := memcpy_at (buf b1) p ?w\<rparr>" "r2 = Some ()"
          "b' = (if drop_bit (8 * n) v \<noteq> 0 then b2\<lparr>berror := True\<rparr> else b2)" "r \<noteq> None \<longleftrightarrow> drop_bit (8 * n) v = 0"
        using run w ad Some False
        by (auto simp: cbb_buffer_add_u_def bindf_def put_be_eq put_bytes_def Let_def split: if_splits)
      then show ?thesis using e by auto
    qed
  qed
qed

lemma refines_add_u: "n \<le> 8 \<Longrightarrow> refines (cbb_add_u malloc v n) (appends (be_bytes n v))"
  unfolding cbb_add_u_def by (intro refines_extend extends_add_u)

lemma ucast_up_down_byte: "ucast (ucast (v :: byte) :: uint64) = v"
  by (rule bit_word_eqI) (auto simp: bit_simps)

lemma refines_add_u8 [refine_intros]: "refines (CBB_add_u8 malloc v) (appends [v])"
  using refines_add_u[of 1 malloc "ucast v"] by (simp add: CBB_add_u8_def be_bytes_Suc be_bytes_def le_bytes_def ucast_up_down_byte)

lemma refines_add_bytes [refine_intros]:
  "length bs < 2 ^ 64 \<Longrightarrow> refines (CBB_add_bytes malloc bs) (appends bs)"
  unfolding CBB_add_bytes_def by (intro refines_extend extends_add) auto

section \<open>Opening a child\<close>

definition open_with :: "(cbb_state \<Rightarrow> unit option \<times> cbb_state) \<Rightarrow> nat \<Rightarrow> bool \<Rightarrow> cbb_state \<Rightarrow> unit option \<times> cbb_state" where
  "open_with f n a st =
     bindf f (\<lambda>_ (c, b). (Some (), (set_child c (Some (CBB (blen (snd st)) (of_nat n) a True None)), b))) st"

definition opens_leaf :: "len_prefix \<Rightarrow> builder \<Rightarrow> builder \<Rightarrow> bool" where
  "opens_leaf p B B' \<longleftrightarrow> open_child B = None \<and> B' = Builder (bytes B) (Some (p, Builder [] None))"

lemma cbb_abs_None: "open_child (cbb_abs c s d) = None \<longleftrightarrow> child c = None"
  by (cases c; cases "child c") auto

lemma leaf_bytes: "child c = None \<Longrightarrow> flat (st_abs s (c, b)) = drop s (used b) \<and> bytes (st_abs s (c, b)) = drop s (used b) \<and>
    open_child (st_abs s (c, b)) = None"
  by (simp add: st_abs_def)

lemma open_child_state:
  assumes "buf_ok b'" "used b' = used b @ zs" "buf_ok b" "length zs = n" "1 \<le> n" "n < 256" "s \<le> unat (blen b)" "a \<longrightarrow> n = 1"
    and "c' = set_child c (Some (CBB (blen b) (of_nat n) a True None))"
  shows "st_ok s (c', b')"
    and "st_abs s (c', b') = Builder (drop s (used b)) (Some (if a then Asn1 else Fixed n, Builder [] None))"
proof -
  have n: "unat (of_nat n :: byte) = n" using assms(6) by (simp add: unat_of_nat_byte)
  then have nz: "(of_nat n :: byte) \<noteq> 0" using assms(5) by (auto simp: word_unat_eq_iff)
  have len: "length (used b) = unat (blen b)" "unat (blen b') = unat (blen b) + n"
    using length_used[OF assms(3)] length_used[OF assms(1)] assms(2,4) by simp_all
  obtain x y z w where c': "c' = CBB x y z w (Some (CBB (blen b) (of_nat n) a True None))"
    using assms(9) by (cases c) auto
  show "st_ok s (c', b')" using c' n nz len assms by (simp add: st_ok_def)
  show "st_abs s (c', b') = Builder (drop s (used b)) (Some (if a then Asn1 else Fixed n, Builder [] None))"
    using c' n len assms(2,4) by (simp add: st_abs_def prefix_of_def)
qed

lemma open_with_leaf:
  assumes f: "refines f (appends zs)" and n: "length zs = n" "1 \<le> n" "n < 256" "a \<longrightarrow> n = 1"
    and leaf: "child (fst st) = None" and ok: "st_ok s st" and run: "open_with f n a st = (r, st')"
  shows "buf_ok (snd st') \<and> st_frame s st st' \<and> (r \<noteq> None \<longrightarrow>
     st_ok s st' \<and> berror (snd st') = berror (snd st) \<and> opens_leaf (if a then Asn1 else Fixed n) (st_abs s st) (st_abs s st'))"
proof -
  obtain r1 c1 b1 where f1: "f st = (r1, (c1, b1))" by (metis prod_cases3)
  note d = refinesD[OF f ok f1]
  show ?thesis
  proof (cases r1)
    case None
    then show ?thesis using run f1 d by (auto simp: open_with_def bindf_def)
  next
    case (Some u)
    obtain c b where st: "st = (c, b)" by fastforce
    have cn: "child c = None" using leaf st by simp
    let ?c' = "set_child c1 (Some (CBB (blen b) (of_nat n) a True None))"
    have st': "st' = (?c', b1)" using run f1 Some st by (auto simp: open_with_def bindf_def)
    have b1: "buf_ok b1" "buf_ok b" "s \<le> unat (blen b)" using d(1) ok st cn by (simp_all add: st_ok_def)
    have ap: "appends zs (st_abs s st) (st_abs s (c1, b1))" using d(3) Some by simp
    then have "child c1 = None" using cbb_abs_None[of c1 s "used b1"] by (simp add: appends_def st_abs_def)
    then have "drop s (used b1) = drop s (used b) @ zs"
      using ap leaf_bytes[OF cn, of s b] leaf_bytes[of c1 s b1] st by (auto simp: appends_def)
    moreover have "take s (used b1) = take s (used b)" using d(2) st by (simp add: st_frame_def)
    ultimately have u: "used b1 = used b @ zs" by (metis append.assoc append_take_drop_id)
    note o = open_child_state[OF b1(1) u b1(2) n(1,2,3) b1(3) n(4) refl, of c1]
    show ?thesis
      using o d st st' Some leaf_bytes[OF cn, of s b] by (auto simp: opens_leaf_def st_frame_def)
  qed
qed

lemma refines_then_open:
  assumes g: "refines g G" and G: "\<And>B B'. G B B' \<Longrightarrow> open_child B' = None"
    and f: "refines f (appends zs)" and n: "length zs = n" "1 \<le> n" "n < 256" "a \<longrightarrow> n = 1"
  shows "refines (bindf g (\<lambda>_. open_with f n a)) (G OO opens_leaf (if a then Asn1 else Fixed n))"
  unfolding refines_def
proof (intro allI impI)
  fix s st r st'
  assume ok: "st_ok s st" and run: "bindf g (\<lambda>_. open_with f n a) st = (r, st')"
  let ?R = "opens_leaf (if a then Asn1 else Fixed n)"
  obtain r1 st1 where g1: "g st = (r1, st1)" by (cases "g st")
  note d = refinesD[OF g ok g1]
  show "buf_ok (snd st') \<and> st_frame s st st' \<and> (r \<noteq> None \<longrightarrow>
     st_ok s st' \<and> berror (snd st') = berror (snd st) \<and> (G OO ?R) (st_abs s st) (st_abs s st'))"
  proof (cases r1)
    case None
    then show ?thesis using run g1 d by (auto simp: bindf_def)
  next
    case (Some u)
    then have 1: "st_ok s st1" "berror (snd st1) = berror (snd st)" "G (st_abs s st) (st_abs s st1)" using d(3) by auto
    have leaf: "child (fst st1) = None" using G[OF 1(3)] by (simp add: st_abs_def cbb_abs_None)
    have "open_with f n a st1 = (r, st')" using run g1 Some by (simp add: bindf_def)
    note o = open_with_leaf[OF f n leaf 1(1) this]
    have "st_frame s st st'" using o d(2) st_frame_trans by blast
    then show ?thesis using o 1 by auto
  qed
qed

lemma refines_cong:
  assumes "\<And>s st. st_ok s st \<Longrightarrow> f st = g st" and "refines g R"
  shows "refines f R"
  unfolding refines_def
proof (intro allI impI)
  fix s st r st' assume ok: "st_ok s st" and "f st = (r, st')"
  then have "g st = (r, st')" using assms(1) by metis
  from refinesD[OF assms(2) ok this]
  show "buf_ok (snd st') \<and> st_frame s st st' \<and>
    (r \<noteq> None \<longrightarrow> st_ok s st' \<and> berror (snd st') = berror (snd st) \<and> R (st_abs s st) (st_abs s st'))" by blast
qed

lemma refines_add_length_prefixed:
  assumes "1 \<le> n" "n < 256"
  shows "refines (cbb_add_length_prefixed malloc n) (opens (Fixed n) [])"
proof (rule refines_weaken, rule refines_cong)
  let ?z = "replicate n 0 :: byte list"
  show "refines (bindf (CBB_flush malloc) (\<lambda>_. open_with (CBB_add_bytes malloc ?z) n False)) (closes OO opens_leaf (Fixed n))"
    using refines_then_open[OF refines_flush _ refines_add_bytes[of ?z malloc], of n False malloc] assms
    by (simp add: closes_def)
  fix s st assume ok: "st_ok s st"
  obtain r c b where fl: "CBB_flush malloc st = (r, (c, b))" by (metis prod_cases3)
  show "cbb_add_length_prefixed malloc n st = bindf (CBB_flush malloc) (\<lambda>_. open_with (CBB_add_bytes malloc ?z) n False) st"
  proof (cases r)
    case (Some u)
    then have "child c = None" "\<not> berror b" using flush_cases[OF ok fl] by (simp_all add: flushed_def)
    then have "CBB_flush malloc (c, b) = (Some (), (c, b))" by (simp add: flush_leaf)
    then show ?thesis
      using fl Some by (auto simp: cbb_add_length_prefixed_def open_with_def bindf_def CBB_add_bytes_def on_base_def
          put_bytes_def Let_def split: option.splits prod.splits)
  qed (use fl in \<open>simp add: cbb_add_length_prefixed_def bindf_def\<close>)
next
  fix B B' assume "(closes OO opens_leaf (Fixed n)) B B'"
  then show "opens (Fixed n) [] B B'" by (auto simp: closes_def opens_leaf_def opens_def)
qed

section \<open>Sequences of bytes\<close>

lemma appends_appends: "appends xs OO appends ys = appends (xs @ ys)"
  by (auto simp: appends_def OO_def fun_eq_iff)

lemma closes_appends: "closes OO appends xs = appends xs"
  by (auto simp: appends_def closes_def OO_def fun_eq_iff)

lemma appends_closes: "appends xs OO closes = appends xs"
  by (auto simp: appends_def closes_def OO_def fun_eq_iff)

lemma refines_bind_appends:
  "refines f (appends xs) \<Longrightarrow> (\<And>u. refines (g u) (appends ys)) \<Longrightarrow> refines (bindf f g) (appends (xs @ ys))"
  using refines_bind[of f "appends xs" g "appends ys"] by (simp add: appends_appends)

lemma refines_each_appends:
  assumes "xs \<noteq> []" "\<And>x. x \<in> set xs \<Longrightarrow> refines (f x) (appends (g x))"
  shows "refines (each f xs) (appends (concat (map g xs)))"
  using assms
proof (induction xs)
  case (Cons x xs)
  show ?case
  proof (cases "xs = []")
    case True
    then show ?thesis using refines_bind[OF Cons.prems(2)[of x], of "\<lambda>u. retf ()" "(=)"] refines_ret[of "()"] by (simp add: OO_eq)
  next
    case False
    then show ?thesis using Cons by (auto intro!: refines_bind_appends)
  qed
qed simp

text \<open>The digits that \<open>add_base128_integer\<close> computes are the base-128 encoding.\<close>

lemma base128_len_0 [simp]: "base128_len 0 = 0"
  by (simp add: base128_len.simps)

lemma base128_len_pos: "v \<noteq> 0 \<Longrightarrow> base128_len v = Suc (base128_len (drop_bit 7 v))"
  by (subst base128_len.simps) (simp add: word_greater_zero_iff)

lemma low7_digit: "ucast (w AND 0x7f :: uint64) = (of_nat (unat w mod 128) :: byte)"
  using unat_and_7F[of w] by (simp add: word_unat_eq_iff unat_ucast_mod unat_of_nat_byte)

lemma high_digits: "map (\<lambda>i. base128_digit v (Suc i)) (rev [0..<base128_len (drop_bit 7 v)]) = b128_high (unat v div 128)"
proof (induction "unat v" arbitrary: v rule: less_induct)
  case less
  have u: "unat (drop_bit 7 v) = unat v div 128" by (simp add: drop_bit_eq_div unat_div)
  show ?case
  proof (cases "drop_bit 7 v = 0")
    case True
    then show ?thesis using u by (metis b128_high_0 base128_len_0 list.simps(8) rev.simps(1) unsigned_0 upt_0)
  next
    case False
    let ?w = "drop_bit 7 v"
    have lt: "unat ?w < unat v" using u False by (metis div_less_dividend div_0 gr0I numeral_One numeral_less_iff unat_eq_0 semiring_norm(76))
    have nz: "unat v div 128 \<noteq> 0" using False u by (metis unat_eq_0)
    have sh: "base128_digit v (Suc (Suc i)) = base128_digit ?w (Suc i)" for i
      by (simp add: base128_digit_def Let_def add.commute)
    have "[0..<base128_len ?w] = 0 # map Suc [0..<base128_len (drop_bit 7 ?w)]"
      using False by (simp add: base128_len_pos map_Suc_upt upt_conv_Cons)
    then have "map (\<lambda>i. base128_digit v (Suc i)) (rev [0..<base128_len ?w]) =
        map (\<lambda>i. base128_digit ?w (Suc i)) (rev [0..<base128_len (drop_bit 7 ?w)]) @ [base128_digit v 1]"
      by (simp add: rev_map o_def sh)
    also have "\<dots> = b128_high (unat v div 128 div 128) @ [base128_digit v 1]"
      using less[OF lt] u by simp
    also have "base128_digit v 1 = 0x80 OR of_nat (unat v div 128 mod 128)"
      using low7_digit[of ?w] u by (simp add: base128_digit_def or.commute)
    finally show ?thesis using nz by (simp add: b128_high_step)
  qed
qed

lemma base128_digits:
  "map (base128_digit v) (rev [0..<(if base128_len v = 0 then 1 else base128_len v)]) = base128 (unat v)"
proof -
  let ?n = "base128_len (drop_bit 7 v)"
  have "(if base128_len v = 0 then 1 else base128_len v) = Suc ?n"
    by (cases "v = 0") (simp_all add: base128_len_pos)
  moreover have "[0..<Suc ?n] = 0 # map Suc [0..<?n]" by (simp add: map_Suc_upt upt_conv_Cons)
  ultimately have "map (base128_digit v) (rev [0..<(if base128_len v = 0 then 1 else base128_len v)]) =
      map (\<lambda>i. base128_digit v (Suc i)) (rev [0..<?n]) @ [base128_digit v 0]"
    by (simp only: rev.simps map_append rev_map[symmetric] list.map map_map o_def)
  also have "base128_digit v 0 = of_nat (unat v mod 128)" using low7_digit[of v] by (simp add: base128_digit_def)
  finally show ?thesis by (simp add: high_digits base128_def)
qed

lemma refines_add_base128 [refine_intros]: "refines (add_base128_integer malloc v) (appends (base128 (unat v)))"
proof -
  let ?is = "rev [0..<(if base128_len v = 0 then 1 else base128_len v)]"
  have "refines (each (\<lambda>i. CBB_add_u8 malloc (base128_digit v i)) ?is) (appends (concat (map (\<lambda>i. [base128_digit v i]) ?is)))"
    by (intro refines_each_appends refines_add_u8) auto
  moreover have "concat (map (\<lambda>i. [base128_digit v i]) ?is) = base128 (unat v)"
    using base128_digits[of v] concat_map_singleton[of "base128_digit v" ?is] by simp
  ultimately show ?thesis by (simp add: add_base128_integer_def Let_def)
qed

section \<open>ASN.1 elements\<close>

lemma refines_add_tag:
  "refines (if tag_number t \<ge> 0x1f
            then bindf (CBB_add_u8 malloc (tag_bits t OR 0x1f)) (\<lambda>_. add_base128_integer malloc (ucast (tag_number t)))
            else CBB_add_u8 malloc (tag_bits t OR ucast (tag_number t))) (appends (tag_bytes t))"
proof (cases "tag_number t \<ge> 0x1f")
  case True
  have "refines (bindf (CBB_add_u8 malloc (tag_bits t OR 0x1f)) (\<lambda>_. add_base128_integer malloc (ucast (tag_number t))))
      (appends ([tag_bits t OR 0x1f] @ base128 (unat (ucast (tag_number t) :: uint64))))"
    by (intro refines_bind_appends refines_add_u8 refines_add_base128)
  moreover have "unat (ucast (tag_number t) :: uint64) = unat (tag_number t)"
    using unat_tag_number[of t] by (simp add: unat_ucast_mod)
  ultimately show ?thesis using True by (simp add: tag_bytes_def)
next
  case False
  then show ?thesis by (simp add: tag_bytes_def refines_add_u8)
qed

lemma add_asn1_eq:
  "CBB_add_asn1 malloc t = bindf (CBB_flush malloc) (\<lambda>_. bindf
     (if tag_number t \<ge> 0x1f
      then bindf (CBB_add_u8 malloc (tag_bits t OR 0x1f)) (\<lambda>_. add_base128_integer malloc (ucast (tag_number t)))
      else CBB_add_u8 malloc (tag_bits t OR ucast (tag_number t)))
     (\<lambda>_. open_with (CBB_add_u8 malloc 0) 1 True))"
proof -
  have "open_with f 1 True = (\<lambda>st. bindf f (\<lambda>_ (c, b).
      (Some (), (set_child c (Some (CBB (blen (snd st)) 1 True True None)), b))) st)" for f
    by (simp add: fun_eq_iff open_with_def)
  then show ?thesis by (simp add: CBB_add_asn1_def tag_bits_def tag_number_def Let_def)
qed

lemma refines_add_asn1 [refine_intros]: "refines (CBB_add_asn1 malloc t) (opens Asn1 (tag_bytes t))"
proof (rule refines_weaken)
  show "refines (CBB_add_asn1 malloc t) (closes OO (appends (tag_bytes t) OO opens_leaf Asn1))"
    unfolding add_asn1_eq
  proof (rule refines_bind[OF refines_flush])
    show "refines (bindf
        (if tag_number t \<ge> 0x1f
         then bindf (CBB_add_u8 malloc (tag_bits t OR 0x1f)) (\<lambda>_. add_base128_integer malloc (ucast (tag_number t)))
         else CBB_add_u8 malloc (tag_bits t OR ucast (tag_number t)))
        (\<lambda>_. open_with (CBB_add_u8 malloc 0) 1 True)) (appends (tag_bytes t) OO opens_leaf Asn1)"
      using refines_then_open[where n = 1 and a = True, OF refines_add_tag[of t malloc] _ refines_add_u8[of malloc 0]]
      by (simp add: appends_def)
  qed
qed (auto simp: closes_def appends_def opens_leaf_def opens_def)

text \<open>A complete element: header and contents in one call sequence.\<close>

definition adds_element :: "uint32 \<Rightarrow> byte list \<Rightarrow> builder \<Rightarrow> builder \<Rightarrow> bool" where
  "adds_element t xs B B' \<longleftrightarrow> length xs \<le> 0xfffffffe \<and> appends (element t xs) B B'"

lemma in_child_OO: "in_child R OO in_child S = in_child (R OO S)"
  by (fastforce simp: in_child_def OO_def fun_eq_iff)

lemma in_child_appends: "in_child (appends xs) OO in_child (appends ys) = in_child (appends (xs @ ys))"
  by (simp add: in_child_OO appends_appends)

lemma element_relation: "opens Asn1 (tag_bytes t) OO (in_child (appends xs) OO closes) = adds_element t xs"
  by (auto simp: opens_def in_child_def appends_def closes_def adds_element_def element_def der_header_def
      OO_def fun_eq_iff)

lemma refines_element:
  assumes "refines f (in_child (appends xs))"
  shows "refines (bindf (CBB_add_asn1 malloc t) (\<lambda>_. bindf f (\<lambda>_. CBB_flush malloc))) (adds_element t xs)"
  unfolding element_relation[symmetric] by (intro refines_bind refines_add_asn1 refines_flush assms)

lemma refines_octet_string:
  "length xs < 2 ^ 64 \<Longrightarrow> refines (CBB_add_asn1_octet_string malloc xs) (adds_element CBS_ASN1_OCTETSTRING xs)"
  unfolding CBB_add_asn1_octet_string_def by (intro refines_element refines_on_child refines_add_bytes)

lemma refines_bool: "refines (CBB_add_asn1_bool malloc v) (adds_element CBS_ASN1_BOOLEAN [if v then 0xff else 0])"
  unfolding CBB_add_asn1_bool_def by (intro refines_element refines_on_child refines_add_u8)

section \<open>Integers\<close>

primrec sent_digits :: "bool \<Rightarrow> byte list \<Rightarrow> byte list" where
  "sent_digits s [] = []"
| "sent_digits s (b # bs) =
     (if \<not> s \<and> b = 0 then sent_digits s bs
      else (if \<not> s \<and> b AND 0x80 \<noteq> 0 then [0, b] else [b]) @ sent_digits True bs)"

lemma sent_digits_True [simp]: "sent_digits True bs = bs"
  by (induction bs) auto

lemma trim_unsigned_step: "trim_int (0 # b # bs) = (if b AND 0x80 = 0 then trim_int (b # bs) else 0 # b # bs)"
  by (auto simp: redundant_def sign_ext_def)

lemma sent_digits_False:
  "sent_digits False bs @ (if \<forall>b \<in> set bs. b = 0 then [0] else []) = trim_int (0 # bs)"
proof (induction bs)
  case (Cons b bs)
  have "trim_int (b # bs) = b # bs" if "b \<noteq> 0" "b AND 0x80 = 0"
    using that by (cases bs) (auto simp: redundant_def sign_ext_def)
  then show ?case using Cons by (cases "b = 0") (auto simp: trim_unsigned_step simp del: trim_int.simps(1))
qed simp

abbreviation send :: "alloc \<Rightarrow> byte list \<Rightarrow> cbb_state \<Rightarrow> unit option \<times> cbb_state" where
  "send malloc \<equiv> each (\<lambda>b. on_child (CBB_add_u8 malloc b))"

lemma bindf_ret [simp]: "bindf (retf x) f = f x" "bindf g retf = g"
  by (auto simp: bindf_def retf_def fun_eq_iff split: prod.splits option.splits)

lemma each_append: "each f (xs @ ys) = bindf (each f xs) (\<lambda>_. each f ys)"
  by (induction xs) (simp_all add: bindf_assoc)

lemma uint64_digits_eq:
  "uint64_digits malloc v s is =
   (let bs = map (\<lambda>i. ucast (drop_bit (8 * (7 - i)) v AND 0xff)) is
    in bindf (send malloc (sent_digits s bs)) (\<lambda>_. retf (s \<or> (\<exists>b \<in> set bs. b \<noteq> 0))))"
proof (induction "is" arbitrary: s)
  case Nil
  then show ?case by simp
next
  case (Cons i "is")
  then show ?case by (auto simp: Let_def bindf_assoc each_append)
qed

lemma top_bytes: "map (\<lambda>i. ucast (drop_bit (8 * (7 - i)) (v :: uint64) AND 0xff)) [0..<8] = be_bytes 8 v"
proof -
  have "ucast (w AND 0xff :: uint64) = (ucast w :: byte)" for w
    unfolding mask_eq_exp_minus_1[of 8, where 'a = "64 word", simplified, symmetric]
    by (rule bit_word_eqI) (auto simp: bit_simps)
  moreover have "[0..<8] = [0, 1, 2, 3, 4, 5, 6, 7]" by code_simp
  ultimately show ?thesis by (simp add: be_bytes_def le_bytes_def)
qed

lemma refines_send: "refines (send malloc xs) (in_child (appends xs))" if "xs \<noteq> []"
  using that
proof (induction xs)
  case (Cons x xs)
  have 1: "refines (on_child (CBB_add_u8 malloc x)) (in_child (appends [x]))"
    by (intro refines_on_child refines_add_u8)
  show ?case
  proof (cases "xs = []")
    case True
    then show ?thesis using 1 by simp
  next
    case False
    then show ?thesis
      using refines_bind[OF 1, of "\<lambda>_. send malloc xs" "in_child (appends xs)"] Cons.IH in_child_appends[of "[x]" xs] by simp
  qed
qed simp

lemma uint64_as_sends:
  "CBB_add_asn1_uint64 malloc v =
   bindf (CBB_add_asn1 malloc CBS_ASN1_INTEGER) (\<lambda>_. bindf (send malloc (trim_int (0 # be_bytes 8 v))) (\<lambda>_. CBB_flush malloc))"
proof -
  let ?bs = "be_bytes 8 v" and ?z = "\<forall>b \<in> set (be_bytes 8 v). b = 0"
  have "bindf (uint64_digits malloc v False [0..<8])
      (\<lambda>started. bindf (if \<not> started then on_child (CBB_add_u8 malloc 0) else retf ()) h) =
    bindf (send malloc (trim_int (0 # ?bs))) h" for h :: "unit \<Rightarrow> cbb_state \<Rightarrow> unit option \<times> cbb_state"
    unfolding uint64_digits_eq top_bytes sent_digits_False[of ?bs, symmetric]
    by (cases ?z) (auto simp: bindf_assoc each_append)
  then show ?thesis by (simp add: CBB_add_asn1_uint64_def)
qed

lemma refines_uint64: "refines (CBB_add_asn1_uint64 malloc v) (adds_element CBS_ASN1_INTEGER (trim_int (0 # be_bytes 8 v)))"
  unfolding uint64_as_sends by (intro refines_element refines_send) simp

text \<open>A negative value: the loop over \<open>start\<close> drops the redundant sign bytes.\<close>

lemma int64_start_trim:
  "n < length bs \<Longrightarrow> bs ! n AND 0x80 \<noteq> 0 \<Longrightarrow>
   rev (take (Suc (int64_start bs n)) bs) = trim_int (rev (take (Suc n) bs))"
proof (induction n)
  case 0
  then show ?case by (cases bs) simp_all
next
  case (Suc n)
  let ?a = "bs ! Suc n" and ?b = "bs ! n"
  have split: "rev (take (Suc (Suc n)) bs) = ?a # ?b # rev (take n bs)" "rev (take (Suc n) bs) = ?b # rev (take n bs)"
    using Suc.prems(1) by (simp_all add: take_Suc_conv_app_nth)
  have red: "redundant ?a ?b \<longleftrightarrow> ?a = 0xff \<and> ?b AND 0x80 \<noteq> 0"
    using Suc.prems(2) by (auto simp: redundant_def sign_ext_def)
  show ?case
  proof (cases "redundant ?a ?b")
    case True
    then have "int64_start bs (Suc n) = int64_start bs n" using red by simp
    then show ?thesis using Suc True red by (simp only: split trim_int.simps if_True) simp
  next
    case False
    then have "int64_start bs (Suc n) = Suc n" using red by auto
    then show ?thesis using False by (simp only: split trim_int.simps if_False)
  qed
qed

lemma int64_sign: "\<not> 0 \<le> sint (v :: uint64) \<longleftrightarrow> le_bytes 8 v ! 7 AND 0x80 \<noteq> 0"
proof -
  have "le_bytes 8 v ! 7 AND 2 ^ 7 \<noteq> 0 \<longleftrightarrow> bit (le_bytes 8 v ! 7) 7" by (simp only: and_exp_eq_0_iff_not_bit not_not)
  also have "\<dots> \<longleftrightarrow> bit v 63" by (simp add: le_bytes_def bit_simps)
  finally show ?thesis using bit_last_iff[of v] by (simp add: not_le)
qed

lemma int64_start_le: "int64_start bs n \<le> n"
  by (induction n) auto

lemma each_map: "each f (map g xs) = each (\<lambda>x. f (g x)) xs"
  by (induction xs) simp_all

lemma be_bytes8_nonempty: "be_bytes 8 v \<noteq> []"
  by (metis length_be_bytes list.size(3) zero_neq_numeral)

lemma int64_as_sends:
  "CBB_add_asn1_int64 malloc v =
   bindf (CBB_add_asn1 malloc CBS_ASN1_INTEGER) (\<lambda>_. bindf (send malloc (trim_int (be_bytes 8 v))) (\<lambda>_. CBB_flush malloc))"
proof (cases "0 \<le> sint v")
  case True
  obtain b bs where b: "be_bytes 8 v = b # bs" using be_bytes8_nonempty[of v] by (meson list.exhaust)
  have "b = le_bytes 8 v ! 7" using arg_cong[OF b, of hd] by (simp add: be_bytes_def hd_rev last_conv_nth le_bytes_def)
  then have "trim_int (0 # be_bytes 8 v) = trim_int (be_bytes 8 v)"
    using True int64_sign[of v] b by (simp add: trim_unsigned_step del: trim_int.simps)
  then show ?thesis using True uint64_as_sends[of malloc v] by (simp add: CBB_add_asn1_int64_def)
next
  case False
  let ?bs = "le_bytes 8 v"
  let ?k = "Suc (int64_start ?bs 7)"
  have k: "?k \<le> 8" using int64_start_le[of ?bs 7] by simp
  have "map (\<lambda>i. ?bs ! i) (rev [0..<?k]) = rev (take ?k ?bs)"
    using k by (simp only: rev_map[symmetric] rev_is_rev_conv) (auto intro!: nth_equalityI simp del: upt_Suc)
  also have "\<dots> = trim_int (be_bytes 8 v)"
    using int64_start_trim[of 7 ?bs] False int64_sign[of v] by (simp add: be_bytes_def)
  finally have eq: "map (\<lambda>i. ?bs ! i) (rev [0..<?k]) = trim_int (be_bytes 8 v)" .
  show ?thesis
    unfolding eq[symmetric] each_map using False by (simp add: CBB_add_asn1_int64_def Let_def)
qed

lemma refines_int64: "refines (CBB_add_asn1_int64 malloc v) (adds_element CBS_ASN1_INTEGER (trim_int (be_bytes 8 v)))"
  unfolding int64_as_sends by (intro refines_element refines_send) (simp add: be_bytes8_nonempty)

text \<open>Calls on the child one after the other are one sequence of calls on the child.\<close>

lemma on_child_bind: "on_child (bindf f g) = bindf (on_child f) (\<lambda>x. on_child (g x))"
proof -
  have "set_child (set_child c k) k' = set_child c k'" for c k k' by (cases c) simp
  then show ?thesis
    by (auto simp: on_child_def bindf_def fun_eq_iff split: option.splits prod.splits)
qed

lemma send_eq: "xs \<noteq> [] \<Longrightarrow> send malloc xs = on_child (each (CBB_add_u8 malloc) xs)"
proof (induction xs)
  case (Cons x xs)
  then show ?case by (cases "xs = []") (simp_all add: on_child_bind)
qed simp

end
