(* ===== verification/Cbb_Api.thy ===== *)
theory Cbb_Api
  imports Cbb_Refine
begin

text \<open>
  What every call of the builder keeps, at any depth of nesting and whatever the allocator answers; the
  state machine built on it is in \<open>Cbb_Reach\<close>. Then nested elements and the round trips from the builder
  through the parser.
\<close>

section \<open>The invariant\<close>

text \<open>
  \<open>st_ok\<close>: the buffer is as long as its capacity says, the used part is inside it, and the
  chain of pending children lies in the used part. It holds after failures too. An
  operation keeps it, and never clears a recorded error.
\<close>

definition sticky :: "cbb_state \<Rightarrow> cbb_state \<Rightarrow> bool" where
  "sticky st st' \<longleftrightarrow> (berror (snd st) \<longrightarrow> berror (snd st'))"

definition same_node :: "CBB \<Rightarrow> CBB \<Rightarrow> bool" where
  "same_node c c' \<longleftrightarrow> off c' = off c \<and> pending_len_len c' = pending_len_len c \<and>
     pending_is_asn1 c' = pending_is_asn1 c \<and> is_child c' = is_child c"

definition keeps :: "(cbb_state \<Rightarrow> 'a option \<times> cbb_state) \<Rightarrow> bool" where
  "keeps f \<longleftrightarrow> (\<forall>s st r st'. st_ok s st \<longrightarrow> f st = (r, st') \<longrightarrow> st_ok s st' \<and> same_node (fst st) (fst st') \<and> sticky st st')"

lemma keepsD: "keeps f \<Longrightarrow> st_ok s st \<Longrightarrow> f st = (r, st') \<Longrightarrow> st_ok s st' \<and> same_node (fst st) (fst st') \<and> sticky st st'"
  unfolding keeps_def by blast

lemma same_node_trans: "same_node a b \<Longrightarrow> same_node b c \<Longrightarrow> same_node a c"
  by (simp add: same_node_def)

lemma same_node_refl [simp]: "same_node a a" "same_node a (set_child a k)"
  by (simp_all add: same_node_def)

named_theorems keep_intros

lemma keeps_bind [keep_intros]:
  assumes f: "keeps f" and g: "\<And>x. keeps (g x)"
  shows "keeps (bindf f g)"
  unfolding keeps_def
proof (intro allI impI)
  fix s st r st' assume inv: "st_ok s st" and run: "bindf f g st = (r, st')"
  obtain r1 st1 where f1: "f st = (r1, st1)" by (cases "f st")
  note a = keepsD[OF f inv f1]
  show "st_ok s st' \<and> same_node (fst st) (fst st') \<and> sticky st st'"
  proof (cases r1)
    case None
    then show ?thesis using run f1 a by (simp add: bindf_def)
  next
    case (Some x)
    then have "g x st1 = (r, st')" using run f1 by (simp add: bindf_def)
    from keepsD[OF g _ this] a show ?thesis using same_node_trans by (auto simp: sticky_def)
  qed
qed

lemma keeps_ret [keep_intros]: "keeps (retf x)"
  by (simp add: keeps_def retf_def sticky_def)

lemma keeps_if [keep_intros]: "keeps f \<Longrightarrow> keeps g \<Longrightarrow> keeps (if b then f else g)"
  by simp

lemma keeps_each [keep_intros]: "(\<And>x. keeps (f x)) \<Longrightarrow> keeps (each f xs)"
  by (induction xs) (auto intro: keeps_bind keeps_ret)

lemma keeps_on_child [keep_intros]:
  assumes f: "keeps f"
  shows "keeps (on_child f)"
  unfolding keeps_def
proof (intro allI impI)
  fix s st r st' assume inv: "st_ok s st" and run: "on_child f st = (r, st')"
  obtain c b where st: "st = (c, b)" by fastforce
  show "st_ok s st' \<and> same_node (fst st) (fst st') \<and> sticky st st'"
  proof (cases "child c")
    case None
    then show ?thesis using run st inv by (simp add: on_child_def sticky_def)
  next
    case (Some k)
    let ?t = "unat (off k) + unat (pending_len_len k)"
    obtain x y z w where c: "c = CBB x y z w (Some k)" using Some by (cases c) auto
    obtain k' b' where fk: "f (k, b) = (r, (k', b'))" and st': "st' = (set_child c (Some k'), b')"
      using run st Some by (auto simp: on_child_def split: prod.splits)
    have "st_ok ?t (k, b)" using inv st c by (auto simp: st_ok_def st_ok_def)
    from keepsD[OF f this fk] have "st_ok ?t (k', b')" "same_node k k'" "sticky (k, b) (k', b')" by auto
    then show ?thesis using inv st st' c by (auto simp: st_ok_def st_ok_def same_node_def sticky_def)
  qed
qed

text \<open>Operations that flush first, and whose failures record the error.\<close>

lemma frame_same_node: "st_frame s st st' \<Longrightarrow> same_node (fst st) (fst st')"
  by (simp add: st_frame_def same_node_def)

lemma add_grows:
  assumes "buf_ok b" "cbb_buffer_add malloc n b = (r, b')"
  shows "buf_ok b' \<and> unat (blen b) \<le> unat (blen b')"
  using add_cases[OF assms] by (cases r) auto

lemma flush_prefix_blen:
  assumes ok: "buf_ok b" and r: "flush_prefix malloc k start b = (r, b')"
  shows "unat (blen b) \<le> unat (blen b')"
proof -
  have put: "blen b2 = blen b1" if "put_prefix n q len b1 = (r1, b2)" for n q len b1 r1 b2
    using that by (auto simp: put_prefix_def Let_def split: prod.splits if_splits)
  have room: "unat (blen b) \<le> unat (blen b1)" if "make_room malloc start len n b = (r1, b1)" for len n r1 b1
  proof (cases "n = 1")
    case False
    obtain r2 b2 where "cbb_buffer_add malloc (of_nat (n - 1)) b = (r2, b2)" by fastforce
    then show ?thesis using add_grows[OF ok] that False by (cases r2) (auto simp: make_room_def bindf_def)
  qed (use that in \<open>simp add: make_room_def\<close>)
  show ?thesis
  proof (cases "pending_is_asn1 k \<and> \<not> blen b - start > 0xfffffffe")
    case True
    obtain n i len' where a: "asn1_len_len (blen b - start) = (n, i, len')" by (metis prod_cases3)
    obtain r1 b1 where m: "make_room malloc start (blen b - start) n b = (r1, b1)" by fastforce
    show ?thesis using r True a m room[OF m] put
      by (cases r1) (auto simp: flush_prefix_def Let_def bindf_def)
  qed (use r put in \<open>auto simp: flush_prefix_def Let_def split: if_splits\<close>)
qed

lemma cbb_ok_mono: "cbb_ok c s n \<Longrightarrow> n \<le> n' \<Longrightarrow> cbb_ok c s n'"
  by (induction c s n rule: cbb_ok.induct) auto

lemma cbb_ok_set_child:
  "cbb_ok c s n \<Longrightarrow> child c = Some k \<Longrightarrow> same_node k k' \<Longrightarrow>
   cbb_ok k' (unat (off k) + unat (pending_len_len k)) n' \<Longrightarrow> cbb_ok (set_child c (Some k')) s n'"
  by (cases c) (auto simp: same_node_def)

lemma flush_fail_keeps: "st_ok s st \<Longrightarrow> CBB_flush malloc st = (None, st') \<Longrightarrow> st_ok s st'"
proof (induction "fst st" arbitrary: s st st')
  case (CBB f p a i kid)
  obtain c b where st: "st = (c, b)" by fastforce
  show ?case
  proof (cases "berror b \<or> child c = None")
    case True
    then show ?thesis
      using CBB(3,4) st flush_error[of b malloc c] flush_leaf[of b c malloc] by (cases "berror b") auto
  next
    case False
    then obtain k where kid: "child c = Some k" "kid = Some k" and e: "\<not> berror b" using CBB(2) st by (metis CBB.sel(5) fst_conv not_None_eq)
    let ?t = "unat (off k) + unat (pending_len_len k)"
    define start where "start = off k + ucast (pending_len_len k)"
    have c: "cbb_ok c s (unat (blen b))" and k: "pending_len_len k \<noteq> 0" "pending_is_asn1 k \<longrightarrow> pending_len_len k = 1" "st_ok ?t (k, b)"
      using CBB(2,3) kid st by (cases c; auto simp: st_ok_def)+
    obtain r1 k' b' where fl: "CBB_flush malloc (k, b) = (r1, (k', b'))" by (metis prod_cases3)
    have fd: "flushed ?t (k, b) r1 (k', b')" using flush_cases[OF k(3) fl] .
    then have sub: "st_ok ?t (k', b')"
      using CBB(1) kid(2) k(3) fl by (cases r1) (metis elem_set fst_conv, auto simp: flushed_def st_ok_def)
    have node: "same_node k k'" using fd frame_same_node by (auto simp: flushed_def)
    have up: "cbb_ok (set_child c (Some k')) s n" if "unat (blen b') \<le> n" for n
      using cbb_ok_set_child[OF c kid(1) node] cbb_ok_mono[OF _ that] sub by (auto simp: st_ok_def)
    show ?thesis
    proof (cases "r1 = None \<or> start < off k \<or> blen b' < start")
      case True
      then show ?thesis using flush_node[OF e kid(1) k(1) fl start_def] CBB(4) st sub up by (auto simp: st_ok_def)
    next
      case False
      have t: "unat start = ?t" using no_wrap_add[of "off k" "ucast (pending_len_len k)"] False by (simp add: start_def)
      have t': "unat start \<le> unat (blen b')" using False by (simp add: word_less_nat_alt)
      obtain r2 b'' where fp: "flush_prefix malloc k' start b' = (r2, b'')" by fastforce
      have "buf_ok b'" using sub by (simp add: st_ok_def)
      then have "buf_ok b''" "unat (blen b') \<le> unat (blen b'')"
        using flush_prefix_cases[OF _ _ t' _ fp] flush_prefix_blen[OF _ fp] node t k(2) by (auto simp: prefix_done_def same_node_def)
      then show ?thesis
        using flush_node[OF e kid(1) k(1) fl start_def] False CBB(4) st fp up by (cases r2) (auto simp: st_ok_def)
    qed
  qed
qed

lemma keeps_flush [keep_intros]: "keeps (CBB_flush malloc)"
  unfolding keeps_def
proof (intro allI impI)
  fix s st r st' assume ok: "st_ok s st" and run: "CBB_flush malloc st = (r, st')"
  note f = flush_cases[OF this]
  then show "st_ok s st' \<and> same_node (fst st) (fst st') \<and> sticky st st'"
    using ok run flush_fail_keeps[of s st malloc st'] frame_same_node[of s st st']
    by (cases r) (auto simp: flushed_def st_ok_def sticky_def)
qed

lemma keeps_flush_then:
  assumes "\<And>s c b r st'. st_ok s (c, b) \<Longrightarrow> \<not> berror b \<Longrightarrow> child c = None \<Longrightarrow> g (c, b) = (r, st') \<Longrightarrow>
    st_ok s st' \<and> same_node c (fst st')"
  shows "keeps (bindf (CBB_flush malloc) (\<lambda>_. g))"
  unfolding keeps_def
proof (intro allI impI)
  fix s st r st' assume inv: "st_ok s st" and run: "bindf (CBB_flush malloc) (\<lambda>_. g) st = (r, st')"
  obtain r1 c b where f1: "CBB_flush malloc st = (r1, (c, b))" by (metis prod_cases3)
  note a = keepsD[OF keeps_flush inv f1]
  show "st_ok s st' \<and> same_node (fst st) (fst st') \<and> sticky st st'"
  proof (cases r1)
    case None
    then show ?thesis using run f1 a by (simp add: bindf_def)
  next
    case (Some u)
    have e: "\<not> berror (snd st)" using f1 Some flush_error[of "snd st" malloc "fst st"] by auto
    have "flushed s st r1 (c, b)" using inv e f1 by (intro flush_cases)
    then have "child c = None" "\<not> berror b" using Some by (auto simp: flushed_def)
    moreover have "g (c, b) = (r, st')" using run f1 Some by (simp add: bindf_def)
    ultimately show ?thesis using assms[of s c b r st'] a same_node_trans e by (auto simp: sticky_def)
  qed
qed

text \<open>A buffer operation that leaves the used bytes alone and only adds behind them.\<close>

definition grows :: "(cbb_buffer \<Rightarrow> 'a option \<times> cbb_buffer) \<Rightarrow> bool" where
  "grows h \<longleftrightarrow> (\<forall>b r b'. buf_ok b \<longrightarrow> h b = (r, b') \<longrightarrow> buf_ok b' \<and> unat (blen b) \<le> unat (blen b'))"

lemma keeps_on_base:
  assumes "grows h"
  shows "keeps (bindf (CBB_flush malloc) (\<lambda>_. on_base h))"
proof (rule keeps_flush_then)
  fix s c b r st' assume a: "st_ok s (c, b)" "\<not> berror b" "child c = None" "on_base h (c, b) = (r, st')"
  then obtain b' where "h b = (r, b')" "st' = (c, b')" by (auto simp: on_base_def split: prod.splits)
  moreover have "buf_ok b" using a by (simp add: st_ok_def)
  ultimately have "buf_ok b'" "unat (blen b) \<le> unat (blen b')" "st' = (c, b')" using assms unfolding grows_def by blast+
  then show "st_ok s st' \<and> same_node c (fst st')" using a by (auto simp: st_ok_def st_ok_def)
qed

lemma grows_extends: "extends h xs \<Longrightarrow> grows h"
  unfolding grows_def
proof (intro allI impI)
  fix b r b' assume "extends h xs" and ok: "buf_ok b" and "h b = (r, b')"
  from extendsD[OF this] have a: "buf_ok b'" "take (unat (blen b)) (used b') = used b" by auto
  from arg_cong[OF a(2), of length] show "buf_ok b' \<and> unat (blen b) \<le> unat (blen b')"
    using a(1) ok by simp
qed

lemma grows_reserve: "grows (cbb_buffer_reserve malloc n)"
  unfolding grows_def using reserve_cases by fastforce

lemma grows_add: "grows (cbb_buffer_add malloc n)"
  unfolding grows_def
proof (intro allI impI)
  fix b r b' assume "buf_ok b" "cbb_buffer_add malloc n b = (r, b')"
  from add_cases[OF this] show "buf_ok b' \<and> unat (blen b) \<le> unat (blen b')" by (cases r) auto
qed

lemma keeps_add_u [keep_intros]: "n \<le> 8 \<Longrightarrow> keeps (cbb_add_u malloc v n)"
  unfolding cbb_add_u_def by (intro keeps_on_base grows_extends[OF extends_add_u])

lemma keeps_add_bytes [keep_intros]: "length bs < 2 ^ 64 \<Longrightarrow> keeps (CBB_add_bytes malloc bs)"
  unfolding CBB_add_bytes_def by (intro keeps_on_base grows_extends[OF extends_add]) auto

lemma keeps_add_space [keep_intros]: "keeps (CBB_add_space malloc n)"
  unfolding CBB_add_space_def by (intro keeps_on_base grows_add)

lemma keeps_reserve [keep_intros]: "keeps (CBB_reserve malloc n)"
  unfolding CBB_reserve_def by (intro keeps_on_base grows_reserve)

lemma add_zeros_eq: "CBB_add_zeros malloc n = CBB_add_bytes malloc (replicate (unat n) 0)"
  by (auto simp: CBB_add_zeros_def CBB_add_space_def CBB_add_bytes_def bindf_def on_base_def put_bytes_def fun_eq_iff
      split: option.splits prod.splits)

text \<open>Operations that open a child: on success by refinement, on failure as the call that failed.\<close>

lemma keeps_via:
  assumes "refines h R" "keeps h'" and fail: "\<And>st. fst (h st) = None \<Longrightarrow> snd (h st) = snd (h' st)"
  shows "keeps h"
  unfolding keeps_def
proof (intro allI impI)
  fix s st r st' assume ok: "st_ok s st" and run: "h st = (r, st')"
  note d = refinesD[OF assms(1) this]
  show "st_ok s st' \<and> same_node (fst st) (fst st') \<and> sticky st st'"
  proof (cases r)
    case None
    then have "h' st = (fst (h' st), st')" using fail[of st] run by (simp add: prod_eq_iff)
    then show ?thesis using keepsD[OF assms(2) ok] by blast
  next
    case (Some x)
    then show ?thesis using d frame_same_node by (auto simp: sticky_def)
  qed
qed

lemma keeps_u8 [keep_intros]: "keeps (CBB_add_u8 malloc v)"
  unfolding CBB_add_u8_def by (intro keeps_add_u) simp

lemma keeps_base128 [keep_intros]: "keeps (add_base128_integer malloc v)"
  unfolding add_base128_integer_def Let_def by (intro keeps_each keeps_u8)

lemma keeps_length_prefixed [keep_intros]:
  assumes "1 \<le> n" "n < 256"
  shows "keeps (cbb_add_length_prefixed malloc n)"
proof (rule keeps_via[OF refines_add_length_prefixed[OF assms]])
  show "keeps (bindf (CBB_flush malloc) (\<lambda>_. on_base (cbb_buffer_add malloc (of_nat n))))"
    by (intro keeps_on_base grows_add)
  show "snd (cbb_add_length_prefixed malloc n st) = snd (bindf (CBB_flush malloc) (\<lambda>_. on_base (cbb_buffer_add malloc (of_nat n))) st)"
    if "fst (cbb_add_length_prefixed malloc n st) = None" for st
    using that by (auto simp: cbb_add_length_prefixed_def bindf_def on_base_def Let_def split: option.splits prod.splits)
qed

lemma keeps_add_asn1 [keep_intros]: "keeps (CBB_add_asn1 malloc t)"
proof (rule keeps_via[OF refines_add_asn1])
  let ?tag = "if tag_number t \<ge> 0x1f
      then bindf (CBB_add_u8 malloc (tag_bits t OR 0x1f)) (\<lambda>_. add_base128_integer malloc (ucast (tag_number t)))
      else CBB_add_u8 malloc (tag_bits t OR ucast (tag_number t))"
  let ?h = "bindf (CBB_flush malloc) (\<lambda>_. bindf ?tag (\<lambda>_. CBB_add_u8 malloc 0))"
  show "keeps ?h" by (intro keeps_bind keeps_flush keeps_if keeps_u8 keeps_base128)
  show "snd (CBB_add_asn1 malloc t st) = snd (?h st)" if "fst (CBB_add_asn1 malloc t st) = None" for st
    using that unfolding CBB_add_asn1_def tag_bits_def tag_number_def
    by (auto simp: bindf_def Let_def split: option.splits prod.splits if_splits)
qed

lemma keeps_did_write [keep_intros]: "keeps (CBB_did_write n)"
proof -
  have "st_ok s st' \<and> same_node (fst st) (fst st') \<and> sticky st st'" if ok: "st_ok s st" and run: "CBB_did_write n st = (r, st')" for s st r st'
  proof (cases "st' = st")
    case True
    then show ?thesis using ok by (simp add: sticky_def)
  next
    case False
    obtain c b where st: "st = (c, b)" by fastforce
    have r: "child c = None" "st' = (c, b\<lparr>blen := blen b + n\<rparr>)" "blen b \<le> blen b + n" "blen b + n \<le> bcap b"
      using run False st by (auto simp: CBB_did_write_def Let_def not_less split: if_splits)
    then show ?thesis using ok st by (auto simp: st_ok_def buf_ok_def sticky_def word_le_nat_alt)
  qed
  then show ?thesis unfolding keeps_def by blast
qed

lemma keeps_discard [keep_intros]: "keeps (\<lambda>st. (Some (), CBB_discard_child st))"
proof -
  have "st_ok s st' \<and> same_node (fst st) (fst st') \<and> sticky st st'" if ok: "st_ok s st" and st': "st' = CBB_discard_child st" for s st st'
  proof -
    obtain c b where st: "st = (c, b)" by fastforce
    show ?thesis
    proof (cases "child c")
      case None
      then show ?thesis using ok st st' by (simp add: CBB_discard_child_def sticky_def)
    next
      case (Some k)
      have "cbb_ok k (unat (off k) + unat (pending_len_len k)) (unat (blen b))" "s \<le> unat (off k)" "buf_ok b"
        using ok st Some by (cases c; auto simp: st_ok_def)+
      then show ?thesis
        using cbb_ok_le[of k] st st' Some by (fastforce simp: CBB_discard_child_def st_ok_def buf_ok_def word_le_nat_alt sticky_def)
    qed
  qed
  then show ?thesis unfolding keeps_def by blast
qed

lemma keeps_uint64 [keep_intros]: "keeps (CBB_add_asn1_uint64 malloc v)"
  unfolding CBB_add_asn1_uint64_def uint64_digits_eq Let_def
  by (intro keeps_bind keeps_add_asn1 keeps_each keeps_on_child keeps_u8 keeps_ret keeps_if keeps_flush)

lemma keeps_int64 [keep_intros]: "keeps (CBB_add_asn1_int64 malloc v)"
  unfolding CBB_add_asn1_int64_def Let_def
  by (intro keeps_bind keeps_add_asn1 keeps_each keeps_on_child keeps_u8 keeps_if keeps_flush keeps_uint64)

section \<open>Fresh builders\<close>

lemma cbb_init_ok: "cbb_init malloc bs n = Some st \<Longrightarrow> length bs = unat n \<Longrightarrow> st_ok 0 st"
  by (auto simp: cbb_init_def st_ok_def buf_ok_def split: option.splits)

lemma CBB_init_ok:
  assumes "CBB_init malloc n = Some st"
  shows "st_ok 0 st \<and> \<not> berror (snd st) \<and> st_abs 0 st = Builder [] None \<and> can_resize (snd st) \<and> \<not> is_child (fst st)"
proof -
  obtain bs where "cbb_init malloc bs n = Some st" "length bs = unat n"
    using assms length_malloc[of malloc n]
    by (auto simp: CBB_init_def word_greater_zero_iff split: option.splits if_splits)
  then show ?thesis using cbb_init_ok[of malloc bs n st]
    by (auto simp: cbb_init_def st_abs_def used_def split: option.splits)
qed

section \<open>Nested elements\<close>

text \<open>
  A tree of elements, the calls that write it (each node opened, filled through the child
  pointer and flushed), and its DER encoding.
\<close>

datatype tlv = Primitive uint32 "byte list" | Constructed uint32 "tlv list"

lemma each_cong [fundef_cong]: "xs = ys \<Longrightarrow> (\<And>x. x \<in> set ys \<Longrightarrow> f x = g x) \<Longrightarrow> each f xs = each g ys"
  by (induction xs arbitrary: ys) auto

fun put_tlv :: "alloc \<Rightarrow> tlv \<Rightarrow> cbb_state \<Rightarrow> unit option \<times> cbb_state" where
  "put_tlv malloc (Primitive t xs) =
     bindf (CBB_add_asn1 malloc t) (\<lambda>_. bindf (on_child (CBB_add_bytes malloc xs)) (\<lambda>_. CBB_flush malloc))"
| "put_tlv malloc (Constructed t ts) =
     bindf (CBB_add_asn1 malloc t) (\<lambda>_. bindf (on_child (each (put_tlv malloc) ts)) (\<lambda>_. CBB_flush malloc))"

fun der_tlv :: "tlv \<Rightarrow> byte list" where
  "der_tlv (Primitive t xs) = element t xs"
| "der_tlv (Constructed t ts) = element t (concat (map der_tlv ts))"

fun tlv_sized :: "tlv \<Rightarrow> bool" where
  "tlv_sized (Primitive t xs) = (length xs < 2 ^ 64)"
| "tlv_sized (Constructed t ts) = list_all tlv_sized ts"

definition adds :: "byte list \<Rightarrow> builder \<Rightarrow> builder \<Rightarrow> bool" where
  "adds xs B B' \<longleftrightarrow> (fits B' \<longleftrightarrow> fits B) \<and> flat B' = flat B @ xs"

lemma refines_each_adds:
  assumes "\<And>x. x \<in> set ts \<Longrightarrow> refines (f x) (adds (g x))"
  shows "refines (each f ts) (adds (concat (map g ts)))"
  using assms
proof (induction ts)
  case Nil
  show ?case by (rule refines_weaken[of _ "(=)"]) (auto intro: refines_ret simp: adds_def)
next
  case (Cons t ts)
  have "refines (each f (t # ts)) (adds (g t) OO adds (concat (map g ts)))"
    using Cons by (auto intro!: refines_bind)
  then show ?case by (rule refines_weaken) (auto simp: adds_def)
qed

lemma refines_node:
  assumes "refines f (adds xs)"
  shows "refines (bindf (CBB_add_asn1 malloc t) (\<lambda>_. bindf (on_child f) (\<lambda>_. CBB_flush malloc))) (adds (element t xs))"
proof (rule refines_weaken)
  show "refines (bindf (CBB_add_asn1 malloc t) (\<lambda>_. bindf (on_child f) (\<lambda>_. CBB_flush malloc)))
      (opens Asn1 (tag_bytes t) OO (in_child (adds xs) OO closes))"
    by (intro refines_bind refines_add_asn1 refines_on_child refines_flush assms)
qed (auto simp: opens_def in_child_def adds_def closes_def element_def der_header_def)

lemma refines_put_tlv: "tlv_sized T \<Longrightarrow> refines (put_tlv malloc T) (adds (der_tlv T))"
proof (induction T)
  case (Primitive t xs)
  have "refines (CBB_add_bytes malloc xs) (adds xs)"
    using Primitive by (intro refines_weaken[OF refines_add_bytes]) (auto simp: appends_def adds_def)
  then show ?case using refines_node by simp
next
  case (Constructed t ts)
  have "refines (each (put_tlv malloc) ts) (adds (concat (map der_tlv ts)))"
    using Constructed by (intro refines_each_adds) (auto simp: list_all_iff)
  then show ?case using refines_node by simp
qed

lemma finish_adds:
  assumes init: "CBB_init malloc n = Some st" and f: "refines f (adds xs)" "f st = (Some u, st')"
    and fin: "CBB_finish malloc False False st' = Some (bs, len)"
  shows "take (unat len) bs = xs" and "unat len = length xs"
proof -
  note i = CBB_init_ok[OF init]
  have d: "st_ok 0 st'" "adds xs (st_abs 0 st) (st_abs 0 st')" using refinesD(3)[OF f(1) _ f(2), of 0] i by auto
  obtain c b where fl: "CBB_flush malloc st' = (Some (), (c, b))" and bs: "bs = buf b" "len = blen b"
    using fin by (auto simp: CBB_finish_def split: if_splits option.splits prod.splits)
  have a: "flat (st_abs 0 st') = xs" using d(2) i by (auto simp: adds_def)
  have "buf_ok b" "used b = xs" using flush_cases[OF d(1) fl] a by (auto simp: flushed_def)
  then show "take (unat len) bs = xs" and "unat len = length xs"
    using bs length_used[of b] by (simp_all add: used_def)
qed

section \<open>Round trips\<close>

lemma refines_element_adds: "refines f (adds_element t xs) \<Longrightarrow> refines f (adds (element t xs))"
  by (erule refines_weaken) (auto simp: adds_element_def appends_def adds_def)

lemma read_bytes_nth: "n \<le> length bs \<Longrightarrow> read_bytes (\<lambda>i. bs ! i) 0 n = take n bs"
  by (rule nth_equalityI) simp_all

lemma cview_buffer:
  assumes "take (unat len) bs = xs" "unat len = length xs"
  shows "cview (\<lambda>i. bs ! i) (CBS_init 0 len) = xs"
proof -
  have "unat len \<le> length bs" using assms by (metis length_take min.cobounded1 min_def)
  then show ?thesis using assms(1) by (simp add: cview_def CBS_init_def read_bytes_nth)
qed

lemma asn1_uint64_read_back:
  assumes "CBB_init malloc n = Some st" and "CBB_add_asn1_uint64 malloc v st = (Some u, st')"
    and "CBB_finish malloc False False st' = Some (bs, len)"
  shows "\<exists>c'. CBS_get_asn1_uint64 (\<lambda>i. bs ! i) (CBS_init 0 len) = (Some v, c') \<and> cb_len c' = 0"
proof -
  let ?x = "element CBS_ASN1_INTEGER (trim_int (0 # be_bytes 8 v))" and ?c = "CBS_init 0 len"
  note f = finish_adds[OF assms(1) refines_element_adds[OF refines_uint64] assms(2,3)]
  have "cview (\<lambda>i. bs ! i) ?c = ?x @ []" using cview_buffer[OF f] by simp
  then have "CBS_get_asn1_uint64 (\<lambda>i. bs ! i) ?c = (Some v, cadv (length ?x) ?c)"
    unfolding asn1_uint64_iff by blast
  moreover have "cb_len (cadv (length ?x) ?c) = 0" using f by (simp add: cadv_def CBS_init_def of_nat_of_unat)
  ultimately show ?thesis by blast
qed

lemma asn1_int64_read_back:
  assumes "CBB_init malloc n = Some st" and "CBB_add_asn1_int64 malloc v st = (Some u, st')"
    and "CBB_finish malloc False False st' = Some (bs, len)"
  shows "\<exists>c'. CBS_get_asn1_int64 (\<lambda>i. bs ! i) (CBS_init 0 len) = (Some v, c') \<and> cb_len c' = 0"
proof -
  let ?x = "element CBS_ASN1_INTEGER (trim_int (be_bytes 8 v))" and ?c = "CBS_init 0 len"
  note f = finish_adds[OF assms(1) refines_element_adds[OF refines_int64] assms(2,3)]
  have "cview (\<lambda>i. bs ! i) ?c = ?x @ []" using cview_buffer[OF f] by simp
  then have "CBS_get_asn1_int64 (\<lambda>i. bs ! i) ?c = (Some v, cadv (length ?x) ?c)"
    unfolding asn1_int64_iff by blast
  moreover have "cb_len (cadv (length ?x) ?c) = 0" using f by (simp add: cadv_def CBS_init_def of_nat_of_unat)
  ultimately show ?thesis by blast
qed

end
