(* ===== verification/Cbb_Live.thy ===== *)
theory Cbb_Live
  imports Cbb_Api
begin

text \<open>
  When the builder of \<^verbatim>\<open>cbb.c\<close> succeeds: with a growable buffer, an allocator that does not
  fail and sizes that fit their prefixes, every call returns 1, so the writers deliver the
  encoding and not only keep from delivering anything else.
\<close>

section \<open>The buffer\<close>

definition roomy :: "alloc \<Rightarrow> bool" where
  "roomy malloc \<longleftrightarrow> (\<forall>n. malloc n \<noteq> None)"

lemma malloc_succeeds: "roomy malloc \<Longrightarrow> unat n < 2 ^ 63 \<Longrightarrow> OPENSSL_malloc malloc n \<noteq> None"
  by (auto simp: OPENSSL_malloc_def roomy_def word_less_nat_alt unat_word_ariths)

lemma reserve_succeeds:
  assumes "roomy malloc" "can_resize b" "unat (blen b) + unat n < 2 ^ 62"
  shows "fst (cbb_buffer_reserve malloc n b) \<noteq> None"
proof -
  let ?n = "blen b + n" and ?d = "bcap b * 2"
  have sum: "unat ?n = unat (blen b) + unat n" using assms(3) by (simp add: unat_word_ariths)
  have "OPENSSL_realloc malloc (buf b) (if ?d < bcap b \<or> ?d < ?n then ?n else ?d) \<noteq> None" if "?n > bcap b"
  proof -
    have "unat (bcap b) < 2 ^ 62" using that sum assms(3) by (simp add: word_less_nat_alt)
    then have "unat ?d < 2 ^ 63" by (simp add: unat_word_ariths)
    moreover have "unat ?n < 2 ^ 63" using sum assms(3) by simp
    ultimately show ?thesis using malloc_succeeds[OF assms(1)] by (simp add: OPENSSL_realloc_def)
  qed
  then show ?thesis using assms(2) sum by (auto simp: cbb_buffer_reserve_def Let_def word_less_nat_alt split: option.split)
qed

lemma add_succeeds:
  assumes "roomy malloc" "can_resize b" "unat (blen b) + unat n < 2 ^ 62"
  shows "fst (cbb_buffer_add malloc n b) \<noteq> None"
  using reserve_succeeds[OF assms] by (auto simp: cbb_buffer_add_def bindf_def split: option.splits prod.splits)

lemma put_prefix_succeeds:
  assumes "unat q + n \<le> length (buf b)" "unat len < 2 ^ (8 * n)"
  shows "fst (put_prefix n q len b) = Some ()"
  using assms by (simp add: put_prefix_def Let_def put_be_eq drop_bit_0_iff)

section \<open>Flushing\<close>

lemma flush_prefix_succeeds:
  assumes "roomy malloc" "can_resize b" "buf_ok b" and start: "unat start = unat (off k) + unat (pending_len_len k)" "unat start \<le> unat (blen b)"
    and k: "pending_is_asn1 k \<longrightarrow> pending_len_len k = 1"
    and fit: "prefix_fits (prefix_of k) (unat (blen b) - unat start)"
    and small: "unat (off k) + length (prefix_bytes (prefix_of k) (unat (blen b) - unat start)) + (unat (blen b) - unat start) < 2 ^ 62"
  shows "fst (flush_prefix malloc k start b) \<noteq> None"
proof (cases "pending_is_asn1 k")
  case False
  have "unat (blen b - start) = unat (blen b) - unat start" using start(2) by (simp add: unat_sub word_le_nat_alt)
  moreover have "unat (off k) + unat (pending_len_len k) \<le> length (buf b)"
    using start assms(3) by (simp add: buf_ok_def word_le_nat_alt)
  ultimately show ?thesis
    using False fit put_prefix_succeeds[of "off k" "unat (pending_len_len k)" b "blen b - start"]
    by (simp add: flush_prefix_def Let_def prefix_of_def)
next
  case True
  define len where "len = blen b - start"
  have len: "unat len = unat (blen b) - unat start" using start(2) by (simp add: len_def unat_sub word_le_nat_alt)
  have L: "len \<le> 0xfffffffe" using fit True len by (simp add: prefix_of_def word_le_nat_alt)
  obtain n i len' where a: "asn1_len_len len = (n, i, len')" by (metis prod_cases3)
  have n: "1 \<le> n" "n \<le> 5" and fit': "unat len' < 2 ^ (8 * (n - 1))" and pre: "length (der_len (unat len)) = n"
    using asn1_len_len_eq[OF L] a len_octets_bounds[of "unat len"] len_octets_props[of "unat len"] L
    by (auto simp: der_len_def word_le_nat_alt split: if_splits)
  have total: "unat (blen b) + (n - 1) < 2 ^ 62" using small True start k len pre n(1) by (simp add: prefix_of_def)
  obtain r1 b1 where m: "make_room malloc start len n b = (r1, b1)" by fastforce
  have e: "unat (of_nat (n - 1) :: size_t) = n - 1" using n by (intro unat_of_nat_size) simp
  have "r1 \<noteq> None"
    using m add_succeeds[OF assms(1,2), of "of_nat (n - 1)"] total e
    by (cases "n = 1") (auto simp: make_room_def bindf_def split: option.splits prod.splits)
  moreover have "buf_ok b1" "unat (blen b1) = unat (blen b) + (n - 1)"
    using make_room_cases[OF assms(3) _ n m] calculation len start(2) by auto
  moreover have "unat (off k + 1) = Suc (unat (off k))"
    using True k start unat_lt_64[of "blen b"] by (simp add: unat_word_ariths)
  ultimately show ?thesis
    using True a m fit' start k L put_prefix_succeeds[of "off k + 1" "n - 1" "b1\<lparr>buf := (buf b1)[unat (off k) := i]\<rparr>" len'] n
    by (auto simp: flush_prefix_def Let_def len_def[symmetric] bindf_def buf_ok_def word_le_nat_alt not_less)
qed

text \<open>
  An operation is live under a condition on the builder it finds when it cannot fail
  there; the condition sees where the node starts, so that it can bound sizes.
\<close>

definition live :: "(cbb_state \<Rightarrow> 'a option \<times> cbb_state) \<Rightarrow> (nat \<Rightarrow> builder \<Rightarrow> bool) \<Rightarrow> bool" where
  "live f P \<longleftrightarrow> (\<forall>s st. st_ok s st \<longrightarrow> \<not> berror (snd st) \<longrightarrow> can_resize (snd st) \<longrightarrow> P s (st_abs s st) \<longrightarrow> fst (f st) \<noteq> None)"

definition small :: "nat \<Rightarrow> nat \<Rightarrow> builder \<Rightarrow> bool" where
  "small n s B \<longleftrightarrow> fits B \<and> s + length (flat B) + n < 2 ^ 62"

lemma liveD: "live f P \<Longrightarrow> st_ok s st \<Longrightarrow> \<not> berror (snd st) \<Longrightarrow> can_resize (snd st) \<Longrightarrow> P s (st_abs s st) \<Longrightarrow> fst (f st) \<noteq> None"
  unfolding live_def by blast

lemma live_weaken: "live f P \<Longrightarrow> (\<And>s B. Q s B \<Longrightarrow> P s B) \<Longrightarrow> live f Q"
  unfolding live_def by blast

lemma live_bind:
  assumes f: "live f P" "refines f R" and g: "\<And>x. live (g x) Q" and PQ: "\<And>s B B'. P s B \<Longrightarrow> R B B' \<Longrightarrow> Q s B'"
  shows "live (bindf f g) P"
  unfolding live_def
proof (intro allI impI)
  fix s st assume st: "st_ok s st" "\<not> berror (snd st)" "can_resize (snd st)" "P s (st_abs s st)"
  obtain r st' where run: "f st = (r, st')" by (cases "f st")
  obtain x where r: "r = Some x" using liveD[OF f(1) st] run by auto
  note d = refinesD[OF f(2) st(1) run]
  have "st_ok s st'" "\<not> berror (snd st')" "can_resize (snd st')" "Q s (st_abs s st')"
    using d r st PQ by (auto simp: st_frame_def)
  from liveD[OF g this] show "fst (bindf f g st) \<noteq> None" using run r by (simp add: bindf_def)
qed

primrec prefix_room :: "len_prefix \<Rightarrow> nat" where
  "prefix_room (Fixed n) = n"
| "prefix_room Asn1 = 1"

lemma live_on_child:
  assumes "live f P"
  shows "live (on_child f) (\<lambda>s B. \<exists>bs p K. B = Builder bs (Some (p, K)) \<and> P (s + length bs + prefix_room p) K)"
  unfolding live_def
proof (intro allI impI)
  fix s st
  assume st: "st_ok s st" "\<not> berror (snd st)" "can_resize (snd st)"
    "\<exists>bs p K. st_abs s st = Builder bs (Some (p, K)) \<and> P (s + length bs + prefix_room p) K"
  obtain c b where cb: "st = (c, b)" by fastforce
  obtain k where k: "child c = Some k" using st(4) cb cbb_abs_None[of c s "used b"] by (auto simp: st_abs_def)
  then obtain x y z w where c: "c = CBB x y z w (Some k)" by (cases c) auto
  let ?t = "unat (off k) + unat (pending_len_len k)"
  have ok: "st_ok ?t (k, b)" "s \<le> unat (off k)" "pending_is_asn1 k \<longrightarrow> pending_len_len k = 1" "buf_ok b"
    using st(1) cb c by (auto simp: st_ok_def)
  have "?t \<le> unat (blen b)" using ok(1) cbb_ok_le by (auto simp: st_ok_def)
  then have "length (drop s (take (unat (off k)) (used b))) = unat (off k) - s" using ok(4) by simp
  moreover have "prefix_room (prefix_of k) = unat (pending_len_len k)" using ok(3) by (simp add: prefix_of_def)
  ultimately have "P ?t (st_abs ?t (k, b))" using st(4) cb c ok(2) by (auto simp: st_abs_def)
  from liveD[OF assms ok(1) _ _ this] st cb show "fst (on_child f st) \<noteq> None"
    using k by (auto simp: on_child_def split: prod.splits)
qed

lemma prefix_room_le: "prefix_room p \<le> length (prefix_bytes p n)"
  by (cases p) (simp_all add: der_len_def)

lemma flush_succeeds:
  assumes "roomy malloc"
  shows "st_ok s st \<Longrightarrow> \<not> berror (snd st) \<Longrightarrow> can_resize (snd st) \<Longrightarrow> small 0 s (st_abs s st) \<Longrightarrow> fst (CBB_flush malloc st) \<noteq> None"
proof (induction "fst st" arbitrary: s st)
  case (CBB f p a i kid)
  obtain c b where st: "st = (c, b)" by fastforce
  have e: "\<not> berror b" "can_resize b" using CBB(4,5) st by auto
  show ?case
  proof (cases "child c")
    case None
    then show ?thesis using flush_leaf[OF e(1) None] st by simp
  next
    case (Some k)
    then have c: "c = CBB f p a i (Some k)" "kid = Some k" using CBB(2) st by auto
    let ?t = "unat (off k) + unat (pending_len_len k)"
    let ?K = "cbb_abs k ?t (used b)"
    define start where "start = off k + ucast (pending_len_len k)"
    have k: "st_ok ?t (k, b)" "s \<le> unat (off k)" "pending_is_asn1 k \<longrightarrow> pending_len_len k = 1" "buf_ok b" "pending_len_len k \<noteq> 0"
      using CBB(3) st c by (auto simp: st_ok_def)
    have t: "?t \<le> unat (blen b)" using k(1) cbb_ok_le by (auto simp: st_ok_def)
    have room: "prefix_room (prefix_of k) = unat (pending_len_len k)" using k(3) by (simp add: prefix_of_def)
    have fit: "fits ?K" "prefix_fits (prefix_of k) (length (flat ?K))"
        and sz: "unat (off k) + length (prefix_bytes (prefix_of k) (length (flat ?K))) + length (flat ?K) < 2 ^ 62"
      using CBB(6) st c k(2,4) t by (auto simp: small_def st_abs_def)
    have sub_small: "small 0 ?t (st_abs ?t (k, b))"
      using fit sz prefix_room_le[of "prefix_of k" "length (flat ?K)"] room by (simp add: small_def st_abs_def)
    obtain r1 k' b' where fl: "CBB_flush malloc (k, b) = (r1, (k', b'))" by (metis prod_cases3)
    have "fst (CBB_flush malloc (k, b)) \<noteq> None"
      using CBB(1) c(2) k(1) e sub_small by (metis elem_set fst_conv snd_conv)
    then obtain u where r1: "r1 = Some u" using fl by auto
    note fd = flush_cases[OF k(1) fl]
    have b': "buf_ok b'" "can_resize b'" "off k' = off k" "pending_len_len k' = pending_len_len k" "prefix_of k' = prefix_of k"
        "pending_is_asn1 k' = pending_is_asn1 k" "?t \<le> unat (blen b')" "drop ?t (used b') = flat ?K"
      using fd r1 e by (auto simp: flushed_def st_frame_def st_abs_def prefix_of_def)
    have us: "unat start = ?t" using t unat_lt_64[of "blen b"] by (simp add: start_def unat_word_ariths unat_ucast_mod)
    have L: "unat (blen b') - unat start = length (flat ?K)" using arg_cong[OF b'(8), of length] b'(1) us by simp
    have "fst (flush_prefix malloc k' start b') \<noteq> None"
      using flush_prefix_succeeds[OF assms b'(2,1), of start k'] b' us L k(3) fit sz by simp
    moreover have "\<not> start < off k" "\<not> blen b' < start" using us b'(7) by (simp_all add: word_less_nat_alt)
    ultimately show ?thesis
      using flush_node[OF e(1) Some k(5) fl start_def] r1 st by (auto split: option.splits prod.splits)
  qed
qed

lemma live_flush: "roomy malloc \<Longrightarrow> live (CBB_flush malloc) (small 0)"
  unfolding live_def using flush_succeeds by blast

section \<open>The writers\<close>

definition leaf_small :: "nat \<Rightarrow> nat \<Rightarrow> builder \<Rightarrow> bool" where
  "leaf_small n s B \<longleftrightarrow> open_child B = None \<and> s + length (flat B) + n < 2 ^ 62"

lemma live_on_base:
  assumes "\<And>b. buf_ok b \<Longrightarrow> can_resize b \<Longrightarrow> unat (blen b) + n < 2 ^ 62 \<Longrightarrow> fst (h b) \<noteq> None"
  shows "live (on_base h) (leaf_small n)"
  unfolding live_def
proof (intro allI impI)
  fix s st assume st: "st_ok s st" "\<not> berror (snd st)" "can_resize (snd st)" "leaf_small n s (st_abs s st)"
  obtain c b where cb: "st = (c, b)" by fastforce
  have c: "child c = None" using st(4) cb cbb_abs_None[of c s "used b"] by (simp add: leaf_small_def st_abs_def)
  have "buf_ok b" "s \<le> unat (blen b)" using st(1) cb c by (simp_all add: st_ok_def)
  moreover from this have "unat (blen b) + n < 2 ^ 62" using st(4) leaf_bytes[OF c, of s b] cb by (simp add: leaf_small_def)
  ultimately have "fst (h b) \<noteq> None" using assms[of b] st cb by simp
  then show "fst (on_base h st) \<noteq> None" using cb by (auto simp: on_base_def split: prod.splits)
qed

lemma live_flush_then:
  assumes "roomy malloc" "live g (leaf_small n)"
  shows "live (bindf (CBB_flush malloc) (\<lambda>_. g)) (small n)"
proof (rule live_bind[OF _ refines_flush assms(2)])
  show "live (CBB_flush malloc) (small n)"
    by (rule live_weaken[OF live_flush[OF assms(1)]]) (simp add: small_def)
qed (auto simp: small_def leaf_small_def closes_def)

lemma live_add_u:
  assumes r: "roomy malloc" and n: "n \<noteq> 0" "n \<le> 8" and v: "unat v < 2 ^ (8 * n)"
  shows "live (cbb_add_u malloc v n) (small n)"
proof -
  have len: "unat (of_nat n :: size_t) = n" using n(2) by (intro unat_of_nat_size) simp
  have "fst (cbb_buffer_add_u malloc v n b) \<noteq> None" if b: "buf_ok b" "can_resize b" "unat (blen b) + n < 2 ^ 62" for b
  proof -
    obtain p b' where a: "cbb_buffer_add malloc (of_nat n) b = (Some p, b')"
      using add_succeeds[OF r b(2), of "of_nat n"] b(3) len by (cases "cbb_buffer_add malloc (of_nat n) b") auto
    have "p + n \<le> length (buf b')" using add_cases[OF b(1) a] len by (auto simp: buf_ok_def word_le_nat_alt)
    then show ?thesis using a n v by (simp add: cbb_buffer_add_u_def bindf_def put_be_eq Let_def drop_bit_0_iff)
  qed
  then show ?thesis unfolding cbb_add_u_def by (intro live_flush_then r live_on_base)
qed

lemma live_add_u8: "roomy malloc \<Longrightarrow> live (CBB_add_u8 malloc v) (small 1)"
  unfolding CBB_add_u8_def by (rule live_add_u) (use unat_byte_less[of v] in \<open>simp_all add: unat_ucast_mod\<close>)

lemma live_add_bytes:
  assumes r: "roomy malloc"
  shows "live (CBB_add_bytes malloc bs) (small (length bs))"
proof -
  have "fst (bindf (cbb_buffer_add malloc (of_nat (length bs))) (put_bytes bs) b) \<noteq> None"
    if "can_resize b" "unat (blen b) + length bs < 2 ^ 62" for b
  proof -
    have "unat (of_nat (length bs) :: size_t) = length bs" using that(2) by (intro unat_of_nat_size) simp
    then show ?thesis
      using add_succeeds[OF r that(1), of "of_nat (length bs)"] that(2)
      by (auto simp: bindf_def put_bytes_def split: option.splits prod.splits)
  qed
  then show ?thesis unfolding CBB_add_bytes_def by (intro live_flush_then r live_on_base)
qed

lemma small_appends: "small (length xs + n) s B \<Longrightarrow> appends xs B B' \<Longrightarrow> small n s B'"
  by (auto simp: small_def appends_def)

lemma live_bind_appends:
  assumes "live f (small (length xs))" "refines f (appends xs)" "\<And>u. live (g u) (small n)"
  shows "live (bindf f g) (small (length xs + n))"
proof (rule live_bind[OF _ assms(2,3)])
  show "live f (small (length xs + n))" by (rule live_weaken[OF assms(1)]) (simp add: small_def)
qed (rule small_appends)

lemma live_retf: "live (retf x) P"
  by (simp add: live_def retf_def)

lemma live_each_u8: "roomy malloc \<Longrightarrow> live (each (\<lambda>i. CBB_add_u8 malloc (d i)) xs) (small (length xs))"
proof (induction xs)
  case (Cons x xs)
  have "live (bindf (CBB_add_u8 malloc (d x)) (\<lambda>_. each (\<lambda>i. CBB_add_u8 malloc (d i)) xs)) (small (length [d x] + length xs))"
    using Cons live_add_u8[OF Cons(2), of "d x"] by (intro live_bind_appends refines_add_u8) auto
  then show ?case by simp
qed (simp add: live_retf)

lemma live_base128: "roomy malloc \<Longrightarrow> live (add_base128_integer malloc v) (small (length (base128 (unat v))))"
  using live_each_u8[of malloc "base128_digit v" "rev [0..<(if base128_len v = 0 then 1 else base128_len v)]"]
    arg_cong[OF base128_digits[of v], of length]
  by (simp add: add_base128_integer_def Let_def)

lemma live_tag:
  assumes "roomy malloc"
  shows "live (if tag_number t \<ge> 0x1f
            then bindf (CBB_add_u8 malloc (tag_bits t OR 0x1f)) (\<lambda>_. add_base128_integer malloc (ucast (tag_number t)))
            else CBB_add_u8 malloc (tag_bits t OR ucast (tag_number t))) (small (length (tag_bytes t)))"
proof (cases "tag_number t \<ge> 0x1f")
  case True
  have "live (bindf (CBB_add_u8 malloc (tag_bits t OR 0x1f)) (\<lambda>_. add_base128_integer malloc (ucast (tag_number t))))
      (small (length [tag_bits t OR 0x1f] + length (base128 (unat (ucast (tag_number t) :: uint64)))))"
    using live_add_u8[OF assms] by (intro live_bind_appends refines_add_u8 live_base128 assms) simp
  moreover have "unat (ucast (tag_number t) :: uint64) = unat (tag_number t)"
    using unat_tag_number[of t] by (simp add: unat_ucast_mod)
  ultimately show ?thesis using True by (simp add: tag_bytes_def)
next
  case False
  then show ?thesis using live_add_u8[OF assms] by (simp add: tag_bytes_def)
qed

lemma live_open_with: "live f P \<Longrightarrow> live (open_with f n a) P"
  unfolding live_def
proof (intro allI impI)
  fix s st assume f: "\<forall>s st. st_ok s st \<longrightarrow> \<not> berror (snd st) \<longrightarrow> can_resize (snd st) \<longrightarrow> P s (st_abs s st) \<longrightarrow> fst (f st) \<noteq> None"
    and st: "st_ok s st" "\<not> berror (snd st)" "can_resize (snd st)" "P s (st_abs s st)"
  have "fst (f st) \<noteq> None" using f st by blast
  then show "fst (open_with f n a st) \<noteq> None" by (auto simp: open_with_def bindf_def split: option.splits prod.splits)
qed

lemma live_add_asn1:
  assumes "roomy malloc"
  shows "live (CBB_add_asn1 malloc t) (small (length (tag_bytes t) + 1))"
proof -
  let ?tag = "if tag_number t \<ge> 0x1f
      then bindf (CBB_add_u8 malloc (tag_bits t OR 0x1f)) (\<lambda>_. add_base128_integer malloc (ucast (tag_number t)))
      else CBB_add_u8 malloc (tag_bits t OR ucast (tag_number t))"
  have "live (bindf ?tag (\<lambda>_. open_with (CBB_add_u8 malloc 0) 1 True)) (small (length (tag_bytes t) + 1))"
    by (intro live_bind_appends live_tag refines_add_tag live_open_with live_add_u8 assms)
  from live_bind[OF live_weaken[OF live_flush[OF assms]] refines_flush this, of "small (length (tag_bytes t) + 1)"]
  show ?thesis unfolding add_asn1_eq by (simp add: small_def closes_def)
qed

section \<open>Nested elements\<close>

fun tlv_fits :: "tlv \<Rightarrow> bool" where
  "tlv_fits (Primitive t xs) \<longleftrightarrow> length xs \<le> 0xfffffffe"
| "tlv_fits (Constructed t ts) \<longleftrightarrow> list_all tlv_fits ts \<and> length (concat (map der_tlv ts)) \<le> 0xfffffffe"

lemma tlv_fits_sized: "tlv_fits T \<Longrightarrow> tlv_sized T"
  by (induction T) (auto simp: list_all_iff)

lemma live_node:
  assumes r: "roomy malloc" and f: "live f (small (length xs))" "refines f (adds xs)" and fit: "length xs \<le> 0xfffffffe"
  shows "live (bindf (CBB_add_asn1 malloc t) (\<lambda>_. bindf (on_child f) (\<lambda>_. CBB_flush malloc))) (small (length (element t xs)))"
proof (rule live_bind[OF live_weaken[OF live_add_asn1[OF r]] refines_add_asn1])
  let ?Q = "\<lambda>s B. \<exists>bs. B = Builder bs (Some (Asn1, Builder [] None)) \<and> s + length bs + length (der_len (length xs)) + length xs < 2 ^ 62"
  have "1 \<le> length (der_len (length xs))" by (simp add: der_len_def)
  then show "small (length (tag_bytes t) + 1) s B" if "small (length (element t xs)) s B" for s B
    using that by (auto simp: small_def element_def der_header_def)
  show "live (bindf (on_child f) (\<lambda>_. CBB_flush malloc)) ?Q" for u :: unit
  proof (rule live_bind[OF live_weaken[OF live_on_child[OF f(1)]] refines_on_child[OF f(2)] live_flush[OF r]])
    show "\<exists>bs p K. B = Builder bs (Some (p, K)) \<and> small (length xs) (s + length bs + prefix_room p) K" if "?Q s B" for s B
      using that \<open>1 \<le> length (der_len (length xs))\<close> by (auto simp: small_def)
    show "small 0 s B'" if "?Q s B" "in_child (adds xs) B B'" for s B B'
      using that fit by (auto simp: in_child_def adds_def small_def)
  qed
  show "?Q s B'" if "small (length (element t xs)) s B" "opens Asn1 (tag_bytes t) B B'" for s B B'
    using that by (auto simp: opens_def small_def element_def der_header_def)
qed

lemma live_each_tlv:
  assumes "roomy malloc" "\<And>T. T \<in> set ts \<Longrightarrow> live (put_tlv malloc T) (small (length (der_tlv T))) \<and> refines (put_tlv malloc T) (adds (der_tlv T))"
  shows "live (each (put_tlv malloc) ts) (small (length (concat (map der_tlv ts))))"
  using assms(2)
proof (induction ts)
  case (Cons T ts)
  have "live (bindf (put_tlv malloc T) (\<lambda>_. each (put_tlv malloc) ts)) (small (length (der_tlv T) + length (concat (map der_tlv ts))))"
  proof (rule live_bind[OF live_weaken])
    show "live (put_tlv malloc T) (small (length (der_tlv T)))" "refines (put_tlv malloc T) (adds (der_tlv T))"
      "\<And>u :: unit. live (each (put_tlv malloc) ts) (small (length (concat (map der_tlv ts))))"
      using Cons by auto
  qed (auto simp: small_def adds_def)
  then show ?case by simp
qed (simp add: live_retf)

lemma live_put_tlv: "roomy malloc \<Longrightarrow> tlv_fits T \<Longrightarrow> live (put_tlv malloc T) (small (length (der_tlv T)))"
proof (induction T)
  case (Primitive t xs)
  have "refines (CBB_add_bytes malloc xs) (adds xs)"
    using Primitive by (intro refines_weaken[OF refines_add_bytes]) (auto simp: appends_def adds_def)
  then show ?case using live_node[OF Primitive(1) live_add_bytes] Primitive by simp
next
  case (Constructed t ts)
  then have "\<And>T. T \<in> set ts \<Longrightarrow> live (put_tlv malloc T) (small (length (der_tlv T))) \<and> refines (put_tlv malloc T) (adds (der_tlv T))"
    using refines_put_tlv tlv_fits_sized by (auto simp: list_all_iff)
  then have "live (each (put_tlv malloc) ts) (small (length (concat (map der_tlv ts))))"
      "refines (each (put_tlv malloc) ts) (adds (concat (map der_tlv ts)))"
    using live_each_tlv[OF Constructed(2)] refines_each_adds[of ts "put_tlv malloc" der_tlv] by blast+
  from live_node[OF Constructed(2) this] show ?case using Constructed(3) by simp
qed

lemma CBB_init_succeeds: "roomy malloc \<Longrightarrow> unat n < 2 ^ 63 \<Longrightarrow> \<exists>st. CBB_init malloc n = Some st"
  using malloc_succeeds[of malloc n] malloc_succeeds[of malloc 32]
  by (auto simp: CBB_init_def cbb_init_def split: option.splits)

lemma finish_succeeds:
  assumes r: "roomy malloc" and init: "CBB_init malloc n = Some st"
    and f: "refines f (adds xs)" "live f (small (length xs))" and size: "length xs < 2 ^ 62"
  shows "\<exists>u st' bs len. f st = (Some u, st') \<and> CBB_finish malloc False False st' = Some (bs, len)"
proof -
  note i = CBB_init_ok[OF init]
  obtain a st' where run: "f st = (a, st')" by (cases "f st")
  have "small (length xs) 0 (st_abs 0 st)" using i size by (simp add: small_def)
  then obtain u where a: "a = Some u" using liveD[OF f(2), of 0 st] i run by auto
  note d = refinesD[OF f(1) conjunct1[OF i] run]
  have "st_ok 0 st'" "\<not> berror (snd st')" "can_resize (snd st')" "small 0 0 (st_abs 0 st')" "\<not> is_child (fst st')"
    using d a i size by (auto simp: st_frame_def adds_def small_def)
  then have "fst (CBB_flush malloc st') \<noteq> None" "\<not> is_child (fst st')" using flush_succeeds[OF r] by auto
  then show ?thesis using run a by (auto simp: CBB_finish_def split: option.splits prod.splits)
qed

text \<open>
  C6. The builder delivers the DER encoding of every tree whose lengths fit: none of the calls
  fails, and the finished buffer holds the encoding.
\<close>

theorem cbb_builds_der_tree:
  assumes "roomy malloc" and "tlv_fits T" and "length (der_tlv T) < 2 ^ 62" and "unat n < 2 ^ 63"
  shows "\<exists>st u st' bs len. CBB_init malloc n = Some st \<and> put_tlv malloc T st = (Some u, st') \<and>
    CBB_finish malloc False False st' = Some (bs, len) \<and> take (unat len) bs = der_tlv T"
proof -
  note r = refines_put_tlv[OF tlv_fits_sized[OF assms(2)], of malloc]
  obtain st where i: "CBB_init malloc n = Some st" using CBB_init_succeeds[OF assms(1,4)] by blast
  obtain u st' bs len where f: "put_tlv malloc T st = (Some u, st')" "CBB_finish malloc False False st' = Some (bs, len)"
    using finish_succeeds[OF assms(1) i r live_put_tlv[OF assms(1,2)] assms(3)] by blast
  from finish_adds(1)[OF i r f] i f show ?thesis by blast
qed

theorem cbb_builds_der_tree_witness:
  "\<exists>st u st' bs len. CBB_init (\<lambda>_. Some (\<lambda>_. 0)) 0 = Some st \<and>
    put_tlv (\<lambda>_. Some (\<lambda>_. 0)) (Constructed 0x20000010 [Primitive 4 [9], Constructed 0x20000010 []]) st = (Some u, st') \<and>
    CBB_finish (\<lambda>_. Some (\<lambda>_. 0)) False False st' = Some (bs, len) \<and>
    take (unat len) bs = [0x30, 5, 4, 1, 9, 0x30, 0]"
proof -
  let ?T = "Constructed 0x20000010 [Primitive 4 [9], Constructed 0x20000010 []]"
  have d: "der_tlv ?T = [0x30, 5, 4, 1, 9, 0x30, 0]" by code_simp
  have "der_tlv (Primitive 4 [9]) = [4, 1, 9]" "der_tlv (Constructed 0x20000010 []) = [0x30, 0]" by code_simp+
  then have "tlv_fits ?T" by (simp del: der_tlv.simps)
  from cbb_builds_der_tree[of "\<lambda>_. Some (\<lambda>_. 0)" ?T 0, OF _ this] show ?thesis
    unfolding d by (simp add: roomy_def)
qed

section \<open>Integers\<close>

lemma live_sends:
  assumes r: "roomy malloc" and xs: "xs \<noteq> []" "length xs \<le> 9"
  shows "live (bindf (CBB_add_asn1 malloc t) (\<lambda>_. bindf (send malloc xs) (\<lambda>_. CBB_flush malloc))) (small (length (element t xs)))"
proof -
  have "refines (each (CBB_add_u8 malloc) xs) (appends (concat (map (\<lambda>b. [b]) xs)))"
    by (intro refines_each_appends xs refines_add_u8)
  then have a: "refines (each (CBB_add_u8 malloc) xs) (adds xs)"
    by (rule refines_weaken) (auto simp: appends_def adds_def)
  have l: "live (each (CBB_add_u8 malloc) xs) (small (length xs))"
    using live_each_u8[OF r, of "\<lambda>b. b" xs] by simp
  show ?thesis using live_node[OF r l a, of t] xs by (simp add: send_eq)
qed

lemma element_short: "length xs \<le> 9 \<Longrightarrow> length (element t xs) < 2 ^ 62"
  using length_tag_bytes[of t] by (simp add: element_def der_header_def der_len_def)

lemma trim_lengths: "length (trim_int (0 # be_bytes 8 v)) \<le> 9" "length (trim_int (be_bytes 8 v)) \<le> 9"
  using length_trim_int[of "0 # be_bytes 8 v"] length_trim_int[of "be_bytes 8 v"] by simp_all

text \<open>
  Encoding and reading back: every 64-bit value survives the way through
  \<open>CBB_add_asn1_uint64\<close>, \<open>CBB_finish\<close> and \<open>CBS_get_asn1_uint64\<close>, with nothing left over, when the
  allocator does not fail.
\<close>

theorem asn1_uint64_roundtrip:
  assumes "roomy malloc" and "unat n < 2 ^ 63"
  shows "\<exists>st u st' bs len c'. CBB_init malloc n = Some st \<and> CBB_add_asn1_uint64 malloc v st = (Some u, st') \<and>
    CBB_finish malloc False False st' = Some (bs, len) \<and>
    CBS_get_asn1_uint64 (\<lambda>i. bs ! i) (CBS_init 0 len) = (Some v, c') \<and> cb_len c' = 0"
proof -
  obtain st where i: "CBB_init malloc n = Some st" using CBB_init_succeeds[OF assms] by blast
  have "live (CBB_add_asn1_uint64 malloc v) (small (length (element CBS_ASN1_INTEGER (trim_int (0 # be_bytes 8 v)))))"
    unfolding uint64_as_sends by (intro live_sends assms trim_lengths) simp
  from finish_succeeds[OF assms(1) i refines_element_adds[OF refines_uint64] this element_short[OF trim_lengths(1)]]
  obtain u st' bs len where f: "CBB_add_asn1_uint64 malloc v st = (Some u, st')" "CBB_finish malloc False False st' = Some (bs, len)"
    by blast
  from asn1_uint64_read_back[OF i f] i f show ?thesis by blast
qed

theorem asn1_uint64_roundtrip_witness:
  "\<exists>st u st' bs len c'. CBB_init (\<lambda>_. Some (\<lambda>_. 0)) 0 = Some st \<and>
    CBB_add_asn1_uint64 (\<lambda>_. Some (\<lambda>_. 0)) 0x80 st = (Some u, st') \<and>
    CBB_finish (\<lambda>_. Some (\<lambda>_. 0)) False False st' = Some (bs, len) \<and>
    CBS_get_asn1_uint64 (\<lambda>i. bs ! i) (CBS_init 0 len) = (Some 0x80, c') \<and> cb_len c' = 0"
  by (rule asn1_uint64_roundtrip) (simp_all add: roomy_def)

text \<open>
  C35. Signed values survive the way through \<open>CBB_add_asn1_int64\<close>, \<open>CBB_finish\<close> and
  \<open>CBS_get_asn1_int64\<close>: the sign bytes the writer drops are the ones the reader restores.
\<close>

theorem asn1_int64_roundtrip:
  assumes "roomy malloc" and "unat n < 2 ^ 63"
  shows "\<exists>st u st' bs len c'. CBB_init malloc n = Some st \<and> CBB_add_asn1_int64 malloc v st = (Some u, st') \<and>
    CBB_finish malloc False False st' = Some (bs, len) \<and>
    CBS_get_asn1_int64 (\<lambda>i. bs ! i) (CBS_init 0 len) = (Some v, c') \<and> cb_len c' = 0"
proof -
  obtain st where i: "CBB_init malloc n = Some st" using CBB_init_succeeds[OF assms] by blast
  have "live (CBB_add_asn1_int64 malloc v) (small (length (element CBS_ASN1_INTEGER (trim_int (be_bytes 8 v)))))"
    unfolding int64_as_sends by (intro live_sends assms trim_lengths) (simp add: be_bytes8_nonempty)
  from finish_succeeds[OF assms(1) i refines_element_adds[OF refines_int64] this element_short[OF trim_lengths(2)]]
  obtain u st' bs len where f: "CBB_add_asn1_int64 malloc v st = (Some u, st')" "CBB_finish malloc False False st' = Some (bs, len)"
    by blast
  from asn1_int64_read_back[OF i f] i f show ?thesis by blast
qed

theorem asn1_int64_roundtrip_witness:
  "\<exists>st u st' bs len c'. CBB_init (\<lambda>_. Some (\<lambda>_. 0)) 16 = Some st \<and>
    CBB_add_asn1_int64 (\<lambda>_. Some (\<lambda>_. 0)) (- 129) st = (Some u, st') \<and>
    CBB_finish (\<lambda>_. Some (\<lambda>_. 0)) False False st' = Some (bs, len) \<and>
    CBS_get_asn1_int64 (\<lambda>i. bs ! i) (CBS_init 0 len) = (Some (- 129), c') \<and> cb_len c' = 0"
  by (rule asn1_int64_roundtrip) (simp_all add: roomy_def)

end
