(* ===== verification/Compare.thy ===== *)
theory Compare
  imports Prelude
begin

text \<open>
  The contract of C comparison functions, those given to \<open>qsort\<close> and to the stacks: negative, zero and
  positive results as for a total order, in which different objects may count as equal.
\<close>

locale total_compare =
  fixes cmp :: "'a \<Rightarrow> 'a \<Rightarrow> int"
  assumes sign: "cmp a b < 0 \<longleftrightarrow> 0 < cmp b a"
    and le_trans: "cmp a b \<le> 0 \<Longrightarrow> cmp b c \<le> 0 \<Longrightarrow> cmp a c \<le> 0"
begin

lemma le_total: "cmp a b \<le> 0 \<or> cmp b a \<le> 0"
  using sign[of a b] by linarith

lemma above: "cmp p b > 0 \<Longrightarrow> cmp a b \<le> 0 \<Longrightarrow> cmp p a > 0"
  using le_trans[of p a b] by linarith

lemma below: "cmp p a < 0 \<Longrightarrow> cmp a b \<le> 0 \<Longrightarrow> cmp p b < 0"
  using le_trans[of a b p] sign[of p a] sign[of p b] by linarith

end

text \<open>\<open>OPENSSL_memcmp\<close> on byte strings of the same length: the sign of the first difference.\<close>

fun memcmp :: "byte list \<Rightarrow> byte list \<Rightarrow> int" where
  "memcmp (x # xs) (y # ys) = (if x = y then memcmp xs ys else uint x - uint y)"
| "memcmp _ _ = 0"

lemma memcmp_eq_0: "length xs = length ys \<Longrightarrow> memcmp xs ys = 0 \<longleftrightarrow> xs = ys"
  by (induction xs ys rule: memcmp.induct) (auto simp: word_uint_eq_iff)

end
