(* ===== verification/Set_Of.thy ===== *)
theory Set_Of
  imports Cbb_Live Compare "HOL-Library.List_Lexorder" "HOL-Library.Multiset"
begin

text \<open>
  \<open>CBB_flush_asn1_set_of\<close> of \<^verbatim>\<open>cbb.c\<close>: the elements written so far are put into the ascending
  order of their encodings, as DER requires for a SET OF.
\<close>

section \<open>The order\<close>

definition compare_bytes :: "byte list \<Rightarrow> byte list \<Rightarrow> int" where
  "compare_bytes a b =
     (let min_len = (if length a < length b then length a else length b);
          ret = memcmp (take min_len a) (take min_len b)
      in if ret \<noteq> 0 then ret else if length a = length b then 0
         else if length a < length b then - 1 else 1)"

definition compare_set_of_element :: "heap \<Rightarrow> CBS \<Rightarrow> CBS \<Rightarrow> int" where
  "compare_set_of_element m a b =
     compare_bytes (read_bytes m (CBS_data a) (unat (CBS_len a))) (read_bytes m (CBS_data b) (unat (CBS_len b)))"

text \<open>\<open>qsort\<close>: insertion sort by the comparison function. Elements that compare equal have equal bytes.\<close>

primrec insert_by :: "('a \<Rightarrow> 'a \<Rightarrow> int) \<Rightarrow> 'a \<Rightarrow> 'a list \<Rightarrow> 'a list" where
  "insert_by cmp x [] = [x]"
| "insert_by cmp x (y # ys) = (if cmp x y \<le> 0 then x # y # ys else y # insert_by cmp x ys)"

definition qsort :: "('a \<Rightarrow> 'a \<Rightarrow> int) \<Rightarrow> 'a list \<Rightarrow> 'a list" where
  "qsort cmp xs = foldr (insert_by cmp) xs []"

section \<open>The operation\<close>

lemma any_element_shrinks:
  assumes "CBS_get_any_asn1_element m c = (Some (out, t, hl), c')"
  shows "unat (cb_len c') < unat (cb_len c)"
proof -
  obtain n where n: "der_element m c t (unat hl) n" "c' = cadv (unat hl + n) c" using assms unfolding asn1_element_iff by blast
  then have "0 < unat hl" by (auto simp: der_element_def der_header_def tag_bytes_def split: if_splits)
  moreover have "unat hl + n \<le> unat (cb_len c)" using n(1) by (simp add: der_element_def)
  ultimately show ?thesis unfolding n(2) using unat_cadv[of "unat hl + n" c] by linarith
qed

function count_elements :: "heap \<Rightarrow> CBS \<Rightarrow> nat option" where
  "count_elements m cbs =
     (if CBS_len cbs \<noteq> 0 then
        case CBS_get_any_asn1_element m cbs of
          (None, _) \<Rightarrow> None
        | (Some _, cbs') \<Rightarrow> map_option Suc (count_elements m cbs')
      else Some 0)"
  by pat_completeness auto
termination
  by (relation "measure (\<lambda>(_, c). unat (cb_len c))") (auto dest: any_element_shrinks[OF sym])

declare count_elements.simps [simp del]

primrec get_elements :: "heap \<Rightarrow> nat \<Rightarrow> CBS \<Rightarrow> CBS list option" where
  "get_elements m 0 cbs = Some []"
| "get_elements m (Suc n) cbs =
     (case CBS_get_any_asn1_element m cbs of
        (None, _) \<Rightarrow> None
      | (Some (out, _, _), cbs') \<Rightarrow> map_option (\<lambda>cs. out # cs) (get_elements m n cbs'))"

definition heap_of :: "byte list \<Rightarrow> heap" where
  "heap_of bs i = (if i < length bs then bs ! i else 0)"

text \<open>The elements are copied, sorted in the copy, and written back over the original.\<close>

definition CBB_flush_asn1_set_of :: "alloc \<Rightarrow> cbb_state \<Rightarrow> unit option \<times> cbb_state" where
  "CBB_flush_asn1_set_of malloc =
     bindf (CBB_flush malloc) (\<lambda>_ (c, base).
       let m = heap_of (buf base); data = CBB_data (c, base); buf_len = CBB_len (c, base) in
       case count_elements m (CBS_init data buf_len) of
         None \<Rightarrow> (None, (c, base))
       | Some num_children \<Rightarrow>
           if num_children < 2 then (Some (), (c, base))
           else if (of_nat num_children :: size_t) > 0xffffffffffffffff div 16 then (None, (c, base))
           else if OPENSSL_malloc malloc buf_len = None \<or> OPENSSL_malloc malloc (of_nat num_children * 16) = None
           then (None, (c, base))
           else
             let copy = heap_of (read_bytes m data (unat buf_len)) in
             case get_elements copy num_children (CBS_init 0 buf_len) of
               None \<Rightarrow> (None, (c, base))
             | Some children \<Rightarrow>
                 each (\<lambda>k. CBB_add_bytes malloc (read_bytes copy (CBS_data k) (unat (CBS_len k))))
                   (qsort (compare_set_of_element copy) children)
                   (c, base\<lparr>blen := off c + ucast (pending_len_len c)\<rparr>))"

section \<open>Sorting by encoding\<close>

lemma compare_bytes_Cons:
  "compare_bytes (x # xs) (y # ys) = (if x = y then compare_bytes xs ys else uint x - uint y)"
  by (simp add: compare_bytes_def Let_def word_uint_eq_iff)

lemma compare_bytes_le: "compare_bytes xs ys \<le> 0 \<longleftrightarrow> xs \<le> ys"
proof (induction xs arbitrary: ys)
  case Nil
  then show ?case by (cases ys) (simp_all add: compare_bytes_def)
next
  case (Cons x xs)
  show ?case
  proof (cases ys)
    case Nil
    then show ?thesis by (simp add: compare_bytes_def)
  next
    case (Cons y ys')
    then show ?thesis using Cons.IH[of ys'] by (auto simp: compare_bytes_Cons word_less_def word_uint_eq_iff)
  qed
qed

lemma compare_bytes_swap: "compare_bytes ys xs = - compare_bytes xs ys"
proof (induction xs arbitrary: ys)
  case Nil
  then show ?case by (cases ys) (simp_all add: compare_bytes_def)
next
  case (Cons x xs)
  then show ?case
  proof (cases ys)
    case (Cons y zs)
    then show ?thesis using Cons.IH[of zs] by (auto simp: compare_bytes_Cons)
  qed (simp add: compare_bytes_def)
qed

interpretation set_of: total_compare compare_bytes
proof
  show "compare_bytes a b < 0 \<longleftrightarrow> 0 < compare_bytes b a" for a b using compare_bytes_swap[of a b] by linarith
  show "compare_bytes a b \<le> 0 \<Longrightarrow> compare_bytes b c \<le> 0 \<Longrightarrow> compare_bytes a c \<le> 0" for a b c
    unfolding compare_bytes_le by (rule order_trans)
qed

lemma mset_insert_by [simp]: "mset (insert_by cmp x ys) = add_mset x (mset ys)"
  by (induction ys) simp_all

lemma mset_qsort [simp]: "mset (qsort cmp xs) = mset xs"
  by (induction xs) (simp_all add: qsort_def)

lemma map_insert_by: "(\<And>x y. cmp x y \<le> 0 \<longleftrightarrow> f x \<le> f y) \<Longrightarrow> map f (insert_by cmp x ys) = insort (f x) (map f ys)"
  by (induction ys) auto

lemma map_qsort: "(\<And>x y. cmp x y \<le> 0 \<longleftrightarrow> f x \<le> (f y :: 'b::linorder)) \<Longrightarrow> map f (qsort cmp xs) = sort (map f xs)"
  by (induction xs) (simp_all add: qsort_def map_insert_by)

section \<open>What is written\<close>

text \<open>The elements that make up the bytes of a \<open>CBS\<close>.\<close>

lemma element_step:
  assumes "CBS_get_any_asn1_element m c = (Some (out, t, hl), c')"
  shows "cview m c = cview m out @ cview m c'" "\<exists>xs. cview m out = element t xs"
    "cb_data out + unat (cb_len out) \<le> cb_data c + unat (cb_len c)" "cb_data c \<le> cb_data out"
    "cb_data c' + unat (cb_len c') = cb_data c + unat (cb_len c)" "cb_data c \<le> cb_data c'"
proof -
  obtain n where n: "der_element m c t (unat hl) n" "c' = cadv (unat hl + n) c"
      "out = \<lparr>cb_data = cb_data c, cb_len = of_nat (unat hl + n)\<rparr>"
    using assms unfolding asn1_element_iff by blast
  note d = n(1)[unfolded der_element_def]
  have le: "unat hl + n \<le> unat (cb_len c)" using d by simp
  have u: "unat (of_nat (unat hl + n) :: size_t) = unat hl + n" using le by (rule of_nat_le_len)
  have vo: "cview m out = take (unat hl + n) (cview m c)" using cview_prefix[of "of_nat (unat hl + n)" c m] u le n(3) by simp
  then show "cview m c = cview m out @ cview m c'" using n(2) le by simp
  have "cview m out = der_header t n @ take n (drop (unat hl) (cview m c))" using vo d by (metis take_add)
  moreover have "length (take n (drop (unat hl) (cview m c))) = n" using le by simp
  ultimately show "\<exists>xs. cview m out = element t xs" by (metis element_def)
  show "cb_data out + unat (cb_len out) \<le> cb_data c + unat (cb_len c)" "cb_data c \<le> cb_data out"
    "cb_data c' + unat (cb_len c') = cb_data c + unat (cb_len c)" "cb_data c \<le> cb_data c'"
    using n(2,3) u le by (simp_all add: cb_data_cadv)
qed

definition is_element :: "byte list \<Rightarrow> bool" where
  "is_element bs \<longleftrightarrow> (\<exists>t xs. bs = element t xs)"

lemma count_get_elements:
  "count_elements m c = Some n \<Longrightarrow>
   \<exists>ks. get_elements m n c = Some ks \<and> cview m c = concat (map (cview m) ks) \<and> list_all is_element (map (cview m) ks)"
proof (induction m c arbitrary: n rule: count_elements.induct)
  case (1 m c)
  show ?case
  proof (cases "CBS_len c = 0")
    case True
    then have "n = 0" "cview m c = []" using 1(2) by (simp_all add: count_elements.simps[of m c] CBS_len_def cview_def)
    then show ?thesis by simp
  next
    case False
    obtain out t hl c' k where g: "CBS_get_any_asn1_element m c = (Some (out, t, hl), c')"
        and k: "count_elements m c' = Some k" "n = Suc k"
      using 1(2) False by (auto simp: count_elements.simps[of m c] split: option.splits prod.splits)
    obtain ks where ks: "get_elements m k c' = Some ks" "cview m c' = concat (map (cview m) ks)" "list_all is_element (map (cview m) ks)"
      using 1(1)[OF False g[symmetric] refl k(1)] by auto
    have "is_element (cview m out)" using element_step(2)[OF g] by (auto simp: is_element_def)
    then show ?thesis using g k(2) ks element_step(1)[OF g] by simp
  qed
qed

text \<open>The parser sees only the bytes: at another address it finds the same elements.\<close>

lemma any_element_transfer:
  assumes eq: "cview m c = cview m' d" and g: "CBS_get_any_asn1_element m c = (Some (out, t, hl), c')"
  shows "\<exists>out' d'. CBS_get_any_asn1_element m' d = (Some (out', t, hl), d') \<and> cview m c' = cview m' d'"
proof -
  have len: "cb_len c = cb_len d" using arg_cong[OF eq, of length] by (simp add: word_unat_eq_iff)
  obtain n where n: "der_element m c t (unat hl) n" "c' = cadv (unat hl + n) c" using g unfolding asn1_element_iff by blast
  have d: "der_element m' d t (unat hl) n" using n(1) unfolding der_element_def eq len .
  have le: "unat hl + n \<le> unat (cb_len c)" using n(1) by (simp add: der_element_def)
  have "CBS_get_any_asn1_element m' d =
      (Some (\<lparr>cb_data = cb_data d, cb_len = of_nat (unat hl + n)\<rparr>, t, hl), cadv (unat hl + n) d)"
    unfolding asn1_element_iff using d by blast
  then show ?thesis using n(2) le eq len by auto
qed

lemma count_transfer:
  "count_elements m c = Some n \<Longrightarrow> cview m c = cview m' d \<Longrightarrow> count_elements m' d = Some n"
proof (induction m c arbitrary: n d rule: count_elements.induct)
  case (1 m c)
  have len: "cb_len d = cb_len c" using arg_cong[OF 1(3), of length] by (simp add: word_unat_eq_iff)
  show ?case
  proof (cases "CBS_len c = 0")
    case True
    then show ?thesis using 1(2) len by (simp add: count_elements.simps[of m c] count_elements.simps[of m' d] CBS_len_def)
  next
    case False
    obtain out t hl c' k where g: "CBS_get_any_asn1_element m c = (Some (out, t, hl), c')"
        and k: "count_elements m c' = Some k" "n = Suc k"
      using 1(2) False by (auto simp: count_elements.simps[of m c] split: option.splits prod.splits)
    obtain out' d' where d: "CBS_get_any_asn1_element m' d = (Some (out', t, hl), d')" "cview m c' = cview m' d'"
      using any_element_transfer[OF 1(3) g] by blast
    have "count_elements m' d' = Some k" using 1(1)[OF False g[symmetric] refl k(1) d(2)] .
    then show ?thesis using d(1) k(2) False len by (simp add: count_elements.simps[of m' d] CBS_len_def)
  qed
qed

lemma cview_heap_of: "p + unat n \<le> length bs \<Longrightarrow> cview (heap_of bs) (CBS_init p n) = take (unat n) (drop p bs)"
  by (rule nth_equalityI) (simp_all add: cview_def CBS_init_def heap_of_def)

lemma rewind_ok:
  assumes "buf_ok b" "unat q \<le> unat (blen b)" "child c = None"
  shows "st_ok (unat q) (c, b\<lparr>blen := q\<rparr>)" "st_abs (unat q) (c, b\<lparr>blen := q\<rparr>) = Builder [] None"
    "used (b\<lparr>blen := q\<rparr>) = take (unat q) (used b)"
  using assms by (simp_all add: st_ok_def buf_ok_def st_abs_def used_def word_le_nat_alt min_def)

lemma write_back:
  assumes st: "st_ok s (c, b)" "st_abs s (c, b) = Builder [] None" and ne: "vs \<noteq> []"
    and len: "\<And>v. v \<in> set vs \<Longrightarrow> length (f v) < 2 ^ 64"
    and run: "each (\<lambda>v. CBB_add_bytes malloc (f v)) vs (c, b) = (Some u, (c', b'))"
  shows "drop s (used b') = concat (map f vs) \<and> take s (used b') = take s (used b)"
proof -
  have r: "refines (each (\<lambda>v. CBB_add_bytes malloc (f v)) vs) (appends (concat (map f vs)))"
    by (intro refines_each_appends ne refines_add_bytes len)
  note d = refinesD[OF r st(1) run]
  have "st_abs s (c', b') = Builder (concat (map f vs)) None" using d(3) st(2) by (simp add: appends_def)
  moreover from this have "child c' = None" using cbb_abs_None[of c' s "used b'"] by (simp add: st_abs_def)
  ultimately show ?thesis using d(2) by (simp add: st_abs_def st_frame_def)
qed

lemma length_get_elements: "get_elements m n c = Some ks \<Longrightarrow> length ks = n"
  by (induction n arbitrary: c ks) (auto split: option.splits prod.splits)

definition node_start :: "CBB \<Rightarrow> size_t" where
  "node_start c = off c + ucast (pending_len_len c)"

definition set_copy :: "cbb_state \<Rightarrow> heap" where
  "set_copy st = heap_of (read_bytes (heap_of (buf (snd st))) (CBB_data st) (unat (CBB_len st)))"

lemma node_start_eq:
  assumes "unat (off c) + unat (pending_len_len c) \<le> unat (blen b)"
  shows "unat (node_start c) = unat (off c) + unat (pending_len_len c)"
  using assms unat_lt_64[of "blen b"] by (simp add: node_start_def unat_word_ariths unat_ucast_mod)

lemma set_of_elements:
  assumes b: "buf_ok b" and s: "s = unat (off c) + unat (pending_len_len c)" "s \<le> unat (blen b)"
    and n: "count_elements (heap_of (buf b)) (CBS_init (CBB_data (c, b)) (CBB_len (c, b))) = Some n"
  shows "\<exists>ks. get_elements (set_copy (c, b)) n (CBS_init 0 (CBB_len (c, b))) = Some ks \<and> length ks = n \<and>
    drop s (used b) = concat (map (cview (set_copy (c, b))) ks) \<and> list_all is_element (map (cview (set_copy (c, b))) ks)"
proof -
  let ?len = "CBB_len (c, b)" and ?m = "heap_of (buf b)"
  have q: "unat (node_start c) = s" using node_start_eq[of c b] s by simp
  have "?len = blen b - node_start c" by (simp add: CBB_len_def node_start_def diff_diff_eq)
  then have len: "unat ?len = unat (blen b) - s" using q s(2) by (simp add: unat_sub word_le_nat_alt)
  have data: "CBB_data (c, b) = s" using s(1) by (simp add: CBB_data_def)
  have "s + unat ?len \<le> length (buf b)" using b s(2) len by (simp add: buf_ok_def word_le_nat_alt)
  then have view: "cview ?m (CBS_init s ?len) = drop s (used b)"
    using cview_heap_of[of s ?len "buf b"] len by (simp add: used_def drop_take)
  then have bytes: "read_bytes ?m s (unat ?len) = drop s (used b)" by (simp add: cview_def CBS_init_def)
  have copy: "cview (set_copy (c, b)) (CBS_init 0 ?len) = drop s (used b)"
    unfolding set_copy_def data snd_conv bytes using cview_heap_of[of 0 ?len "drop s (used b)"] len b by simp
  have "count_elements (set_copy (c, b)) (CBS_init 0 ?len) = Some n"
    using count_transfer[of ?m "CBS_init s ?len" n] n view copy data by simp
  then show ?thesis using count_get_elements[of "set_copy (c, b)" "CBS_init 0 ?len" n] copy length_get_elements by metis
qed

lemma flush_set_of_run:
  assumes "CBB_flush malloc st = (Some u1, (c, b))" and "CBB_flush_asn1_set_of malloc st = (Some u, st')"
  shows "\<exists>n. count_elements (heap_of (buf b)) (CBS_init (CBB_data (c, b)) (CBB_len (c, b))) = Some n \<and>
    (if n < 2 then st' = (c, b)
     else \<exists>ks. get_elements (set_copy (c, b)) n (CBS_init 0 (CBB_len (c, b))) = Some ks \<and>
       each (\<lambda>k. CBB_add_bytes malloc (cview (set_copy (c, b)) k)) (qsort (compare_set_of_element (set_copy (c, b))) ks)
         (c, b\<lparr>blen := node_start c\<rparr>) = (Some u, st'))"
  using assms
  by (auto simp: CBB_flush_asn1_set_of_def bindf_def Let_def set_copy_def node_start_def cview_def CBS_data_def CBS_len_def
      split: option.splits if_splits)

lemma sort_short: "length xs < 2 \<Longrightarrow> sort xs = xs"
  by (cases xs; cases "tl xs") auto

text \<open>
  C28. \<open>CBB_flush_asn1_set_of\<close> sorts: when it succeeds, the bytes written so far were a sequence
  of DER elements, and they are now the same elements in ascending order of their
  encodings; the bytes before the SET are untouched.
\<close>

theorem set_of_sorts:
  assumes ok: "st_ok s (c, b)" and s: "s = unat (off c) + unat (pending_len_len c)"
    and run: "CBB_flush_asn1_set_of malloc (c, b) = (Some u, (c', b'))"
  shows "\<exists>els. flat (st_abs s (c, b)) = concat els \<and> list_all is_element els \<and>
    drop s (used b') = concat (sort els) \<and> take s (used b') = take s (used b)"
proof -
  obtain r1 c1 b1 where fl: "CBB_flush malloc (c, b) = (r1, (c1, b1))" by (metis prod_cases3)
  obtain u1 where r1: "r1 = Some u1" using run fl by (auto simp: CBB_flush_asn1_set_of_def bindf_def split: option.splits)
  have b1: "buf_ok b1" "child c1 = None" "s \<le> unat (blen b1)" "drop s (used b1) = flat (st_abs s (c, b))"
      "take s (used b1) = take s (used b)" "s = unat (off c1) + unat (pending_len_len c1)"
    using flush_cases[OF ok fl] r1 s by (auto simp: flushed_def st_frame_def)
  let ?m = "set_copy (c1, b1)" and ?len = "CBB_len (c1, b1)"
  obtain n where n: "count_elements (heap_of (buf b1)) (CBS_init (CBB_data (c1, b1)) ?len) = Some n"
      "if n < 2 then (c', b') = (c1, b1) else \<exists>ks. get_elements ?m n (CBS_init 0 ?len) = Some ks \<and>
         each (\<lambda>k. CBB_add_bytes malloc (cview ?m k)) (qsort (compare_set_of_element ?m) ks) (c1, b1\<lparr>blen := node_start c1\<rparr>) =
           (Some u, (c', b'))"
    using flush_set_of_run[of malloc "(c, b)" u1 c1 b1 u "(c', b')"] fl r1 run by blast
  obtain ks where ks: "get_elements ?m n (CBS_init 0 ?len) = Some ks" "length ks = n"
      "drop s (used b1) = concat (map (cview ?m) ks)" "list_all is_element (map (cview ?m) ks)"
    using set_of_elements[OF b1(1,6,3) n(1)] by blast
  have "drop s (used b') = concat (sort (map (cview ?m) ks)) \<and> take s (used b') = take s (used b)"
  proof (cases "n < 2")
    case True
    then show ?thesis using n(2) ks b1(5) sort_short[of "map (cview ?m) ks"] by simp
  next
    case False
    let ?q = "qsort (compare_set_of_element ?m) ks" and ?b2 = "b1\<lparr>blen := node_start c1\<rparr>"
    have q: "unat (node_start c1) = s" using node_start_eq[of c1 b1] b1 by simp
    note w = rewind_ok[OF b1(1), of "node_start c1", unfolded q, OF b1(3,2)]
    have "length ?q = n" using ks(2) by (metis mset_qsort size_mset)
    then have "?q \<noteq> []" using False by auto
    moreover have "length (cview ?m k) < 2 ^ 64" for k using unat_lt_64[of "cb_len k"] by simp
    ultimately have "drop s (used b') = concat (map (cview ?m) ?q) \<and> take s (used b') = take s (used ?b2)"
      using write_back[OF w(1,2), of ?q "cview ?m" malloc u c' b'] n(2) ks(1) False by auto
    moreover have "map (cview ?m) ?q = sort (map (cview ?m) ks)"
      by (rule map_qsort) (simp add: compare_set_of_element_def compare_bytes_le cview_def CBS_data_def CBS_len_def)
    ultimately show ?thesis using w(3) b1(5) by simp
  qed
  then show ?thesis using ks b1(4) by (intro exI[of _ "map (cview ?m) ks"]) simp
qed

theorem set_of_sorts_witness:
  "\<exists>els. [4, 1, 9, 4, 1, 7] = concat els \<and> list_all is_element els \<and> [4, 1, 7, 4, 1, 9] = concat (sort els)"
proof -
  let ?m = "\<lambda>_. Some (\<lambda>_. 0)" and ?c = "CBB 0 0 False False None"
  let ?b = "\<lparr>buf = [4, 1, 9, 4, 1, 7], blen = 6, bcap = 6, can_resize = False, berror = False\<rparr>"
  let ?b' = "\<lparr>buf = [4, 1, 7, 4, 1, 9], blen = 6, bcap = 6, can_resize = False, berror = False\<rparr>"
  have "st_ok 0 (?c, ?b)" by (simp add: st_ok_def buf_ok_def)
  moreover have "CBB_flush_asn1_set_of ?m (?c, ?b) = (Some (), (?c, ?b'))" by code_simp
  ultimately show ?thesis using set_of_sorts[of 0 ?c ?b ?m "()" ?c ?b'] by (simp add: st_abs_def used_def)
qed

end
