(* ===== verification/Oid.thy ===== *)
theory Oid
  imports Cbb_Live
begin

text \<open>
  Object identifiers: \<open>CBB_add_asn1_oid_from_text\<close> of \<^verbatim>\<open>cbb.c\<close>, which parses the dotted decimal
  form and appends the DER contents, and \<open>CBS_asn1_oid_to_text\<close> of \<^verbatim>\<open>cbs.c\<close>, which turns
  contents into text. The two are inverse on the identifiers of X.660.
\<close>

section \<open>Parsing dotted decimal\<close>

abbreviation UINT64_MAX :: uint64 where "UINT64_MAX \<equiv> 0xffffffffffffffff"

text \<open>A byte that does not continue the number: no digit, a digit after a leading zero, or overflow.\<close>

definition dotted_reject :: "uint64 \<Rightarrow> bool \<Rightarrow> byte \<Rightarrow> bool" where
  "dotted_reject out seen_digit u \<longleftrightarrow>
     u < 0x30 \<or> u > 0x39 \<or> (seen_digit \<and> out = 0) \<or> out > UINT64_MAX div 10 \<or> out * 10 > UINT64_MAX - ucast (u - 0x30)"

text \<open>The loop of \<open>parse_dotted_decimal\<close>, entered with \<open>*out\<close> and \<open>seen_digit\<close>.\<close>

function dotted_loop :: "heap \<Rightarrow> uint64 \<Rightarrow> bool \<Rightarrow> CBS \<Rightarrow> uint64 option \<times> CBS" where
  "dotted_loop m out seen_digit cbs =
     (case CBS_get_u8 m cbs of
        (None, c) \<Rightarrow> (if seen_digit then Some out else None, c)
      | (Some u, c) \<Rightarrow>
          if u = 0x2e \<and> CBS_len c > 0 then (if seen_digit then Some out else None, c)
          else if dotted_reject out seen_digit u then (None, c)
          else dotted_loop m (out * 10 + ucast (u - 0x30)) True c)"
  by pat_completeness auto
termination
  by (relation "measure (\<lambda>(m, v, s, cbs). unat (cb_len cbs))")
     (auto simp: CBS_get_u8_def bindf_def retf_def cbs_get_def unat_sub word_less_nat_alt word_le_nat_alt
       split: if_splits)

declare dotted_loop.simps [simp del]

definition parse_dotted_decimal :: "heap \<Rightarrow> CBS \<Rightarrow> uint64 option \<times> CBS" where
  "parse_dotted_decimal m = dotted_loop m 0 False"

lemma dotted_loop_shrinks:
  "dotted_loop m v seen c = (r, c') \<Longrightarrow> unat (cb_len c') \<le> unat (cb_len c) \<and> (r \<noteq> None \<and> \<not> seen \<longrightarrow> unat (cb_len c') < unat (cb_len c))"
proof (induction m v seen c arbitrary: r c' rule: dotted_loop.induct)
  case (1 m v seen c)
  show ?case
  proof (cases "cview m c")
    case Nil
    then show ?thesis using 1(2) by (auto simp: dotted_loop.simps[of m v] CBS_get_u8_eq)
  next
    case (Cons u us)
    have len: "unat (cb_len (cadv 1 c)) < unat (cb_len c)" using cview_Cons_len[OF Cons] by simp
    let ?stop = "u = 0x2e \<and> CBS_len (cadv 1 c) > 0"
    let ?bad = "dotted_reject v seen u"
    show ?thesis
    proof (cases "?stop \<or> ?bad")
      case True
      then have "c' = cadv 1 c" using 1(2) Cons by (auto simp: dotted_loop.simps[of m v] CBS_get_u8_eq split: if_splits)
      then show ?thesis using len by simp
    next
      case False
      then have "dotted_loop m (v * 10 + ucast (u - 0x30)) True (cadv 1 c) = (r, c')"
        using 1(2) Cons by (auto simp: dotted_loop.simps[of m v] CBS_get_u8_eq split: if_splits)
      moreover have "unat (cb_len c') \<le> unat (cb_len (cadv 1 c))"
        using 1(1)[of "Some u" "cadv 1 c" u] calculation False Cons by (auto simp: CBS_get_u8_eq)
      ultimately have "unat (cb_len c') < unat (cb_len c)" using len by linarith
      then show ?thesis by simp
    qed
  qed
qed

lemma parse_dotted_shrinks: "parse_dotted_decimal m c = (Some v, c') \<Longrightarrow> unat (cb_len c') < unat (cb_len c)"
  using dotted_loop_shrinks[of m 0 False c] by (simp add: parse_dotted_decimal_def)

section \<open>Text to contents\<close>

function oid_text_rest :: "alloc \<Rightarrow> heap \<Rightarrow> CBS \<Rightarrow> cbb_state \<Rightarrow> unit option \<times> cbb_state" where
  "oid_text_rest malloc m cbs st =
     (if CBS_len cbs > 0 then
        case parse_dotted_decimal m cbs of
          (None, _) \<Rightarrow> (None, st)
        | (Some a, cbs') \<Rightarrow>
            case add_base128_integer malloc a st of
              (None, st') \<Rightarrow> (None, st')
            | (Some _, st') \<Rightarrow> oid_text_rest malloc m cbs' st'
      else (Some (), st))"
  by pat_completeness auto
termination
  by (relation "measure (\<lambda>(_, _, c, _). unat (cb_len c))") (auto dest: parse_dotted_shrinks[OF sym])

declare oid_text_rest.simps [simp del]

definition CBB_add_asn1_oid_from_text :: "alloc \<Rightarrow> heap \<Rightarrow> addr \<Rightarrow> size_t \<Rightarrow> cbb_state \<Rightarrow> unit option \<times> cbb_state" where
  "CBB_add_asn1_oid_from_text malloc m text n =
     bindf (CBB_flush malloc) (\<lambda>_ st.
       case parse_dotted_decimal m (CBS_init text n) of (None, _) \<Rightarrow> (None, st) | (Some a, cbs) \<Rightarrow>
       case parse_dotted_decimal m cbs of (None, _) \<Rightarrow> (None, st) | (Some b, cbs) \<Rightarrow>
       if a > 2 \<or> (a < 2 \<and> b > 39) \<or> b > UINT64_MAX - 80 then (None, st)
       else bindf (add_base128_integer malloc (40 * a + b)) (\<lambda>_. oid_text_rest malloc m cbs) st)"

section \<open>Contents to text\<close>

text \<open>\<open>snprintf\<close> with the format of an unsigned 64-bit number: its decimal digits.\<close>

fun decimal :: "nat \<Rightarrow> byte list" where
  "decimal n = (if n < 10 then [of_nat (0x30 + n)] else decimal (n div 10) @ [of_nat (0x30 + n mod 10)])"

declare decimal.simps [simp del]

definition add_decimal :: "alloc \<Rightarrow> uint64 \<Rightarrow> cbb_state \<Rightarrow> unit option \<times> cbb_state" where
  "add_decimal malloc v = CBB_add_bytes malloc (decimal (unat v))"

lemma base128_nonempty [simp]: "base128 n \<noteq> []"
  by (simp add: base128_def)

lemma parse_base128_shrinks:
  assumes "parse_base128_integer m c = (Some v, c')"
  shows "unat (cb_len c') < unat (cb_len c)"
proof -
  obtain k where k: "k \<le> unat (cb_len c)" "c' = cadv k c" "take k (cview m c) = base128 (unat v)"
    using base128_loop_sound[of m 0 c v c'] assms by (auto simp: parse_base128_integer_def)
  then have "k \<noteq> 0" by (metis base128_nonempty take0)
  then show ?thesis using k by simp
qed

function oid_components :: "alloc \<Rightarrow> heap \<Rightarrow> CBS \<Rightarrow> cbb_state \<Rightarrow> unit option \<times> cbb_state" where
  "oid_components malloc m copy st =
     (if CBS_len copy \<noteq> 0 then
        case parse_base128_integer m copy of
          (None, _) \<Rightarrow> (None, st)
        | (Some v, copy') \<Rightarrow>
            case bindf (CBB_add_u8 malloc 0x2e) (\<lambda>_. add_decimal malloc v) st of
              (None, st') \<Rightarrow> (None, st')
            | (Some _, st') \<Rightarrow> oid_components malloc m copy' st'
      else (Some (), st))"
  by pat_completeness auto
termination
  by (relation "measure (\<lambda>(_, _, c, _). unat (cb_len c))") (auto dest: parse_base128_shrinks[OF sym])

declare oid_components.simps [simp del]

text \<open>The text returned is the finished buffer; it ends with the NUL that is written last.\<close>

definition CBS_asn1_oid_to_text :: "alloc \<Rightarrow> heap \<Rightarrow> CBS \<Rightarrow> byte list option" where
  "CBS_asn1_oid_to_text malloc m cbs =
     (case CBB_init malloc 32 of None \<Rightarrow> None | Some st \<Rightarrow>
      case parse_base128_integer m cbs of (None, _) \<Rightarrow> None | (Some v, copy) \<Rightarrow>
      case
        bindf
          (if v \<ge> 80 then bindf (CBB_add_bytes malloc [0x32, 0x2e]) (\<lambda>_. add_decimal malloc (v - 80))
           else bindf (add_decimal malloc (v div 40)) (\<lambda>_. bindf (CBB_add_u8 malloc 0x2e) (\<lambda>_. add_decimal malloc (v mod 40))))
          (\<lambda>_. bindf (oid_components malloc m copy) (\<lambda>_. CBB_add_u8 malloc 0)) st
      of (None, _) \<Rightarrow> None
       | (Some _, st) \<Rightarrow>
           case CBB_finish malloc False False st of None \<Rightarrow> None | Some (txt, txt_len) \<Rightarrow> Some (take (unat txt_len) txt))"

section \<open>Identifiers, their text and their contents\<close>

definition oid_ok :: "nat \<Rightarrow> nat \<Rightarrow> nat list \<Rightarrow> bool" where
  "oid_ok a b rest \<longleftrightarrow> a \<le> 2 \<and> (a < 2 \<longrightarrow> b < 40) \<and> b < 2 ^ 64 - 80 \<and> list_all (\<lambda>v. v < 2 ^ 64) rest"

definition dot_decimals :: "nat list \<Rightarrow> byte list" where
  "dot_decimals vs = concat (map (\<lambda>v. 0x2e # decimal v) vs)"

definition oid_text :: "nat \<Rightarrow> nat \<Rightarrow> nat list \<Rightarrow> byte list" where
  "oid_text a b rest = decimal a @ dot_decimals (b # rest)"

definition oid_der :: "nat \<Rightarrow> nat \<Rightarrow> nat list \<Rightarrow> byte list" where
  "oid_der a b rest = concat (map base128 ((40 * a + b) # rest))"

section \<open>Reading a number\<close>

lemma dotted_digit:
  assumes vw: "cview m c = of_nat (0x30 + d) # us" and d: "d < 10" and fit: "unat v * 10 + d < 2 ^ 64" and z: "\<not> (seen \<and> v = 0)"
  shows "dotted_loop m v seen c = dotted_loop m (of_nat (unat v * 10 + d)) True (cadv 1 c)"
proof -
  let ?u = "of_nat (0x30 + d) :: byte"
  have u: "unat ?u = 0x30 + d" using d by (simp add: unat_of_nat_byte del: of_nat_add)
  then have sub: "unat (?u - 0x30) = d" by (simp add: unat_sub word_le_nat_alt del: of_nat_add)
  then have ud: "(ucast (?u - 0x30) :: uint64) = of_nat d" using d by (simp add: word_unat_eq_iff del: of_nat_add)
  have v: "unat v \<le> 1844674407370955161" using fit by simp
  have v10: "unat (v * 10) = unat v * 10" using fit by (simp add: unat_word_ariths)
  have "unat (UINT64_MAX - of_nat d) = 2 ^ 64 - 1 - d" using d by (simp add: unat_sub word_le_nat_alt)
  then have "\<not> dotted_reject v seen ?u"
    using z u v v10 fit d unfolding dotted_reject_def ud by (auto simp: word_less_nat_alt simp del: of_nat_add)
  moreover have "?u \<noteq> 0x2e" using u by (auto simp: word_unat_eq_iff simp del: of_nat_add)
  moreover have "v * 10 + of_nat d = of_nat (unat v * 10 + d)" by simp
  ultimately show ?thesis
    using vw ud by (simp add: dotted_loop.simps[of m v] CBS_get_u8_eq del: of_nat_add of_nat_mult)
qed

lemma decimal_small: "n < 10 \<Longrightarrow> decimal n = [of_nat (0x30 + n)]"
  by (subst decimal.simps) simp

lemma decimal_step: "\<not> n < 10 \<Longrightarrow> decimal n = decimal (n div 10) @ [of_nat (0x30 + n mod 10)]"
  by (subst decimal.simps) simp

lemma dotted_decimal_loop:
  "n < 2 ^ 64 \<Longrightarrow> cview m c = decimal n @ us \<Longrightarrow>
   dotted_loop m 0 False c = dotted_loop m (of_nat n) True (cadv (length (decimal n)) c)"
proof (induction n arbitrary: us rule: decimal.induct)
  case (1 n)
  show ?case
  proof (cases "n < 10")
    case True
    then show ?thesis
      using dotted_digit[of m c n us 0 False] 1(3) by (simp add: decimal_small del: of_nat_add)
  next
    case False
    let ?k = "length (decimal (n div 10))" and ?v = "of_nat (n div 10) :: uint64"
    have vw: "cview m c = decimal (n div 10) @ of_nat (0x30 + n mod 10) # us"
      using 1(3) False by (simp add: decimal_step del: of_nat_add)
    have uv: "unat ?v = n div 10" using 1(2) by (intro unat_of_nat_size) simp
    have k: "?k \<le> unat (cb_len c)" using arg_cong[OF vw, of length] by simp
    have "dotted_loop m 0 False c = dotted_loop m ?v True (cadv ?k c)" using 1(1)[OF False _ vw] 1(2) by simp
    also have "\<dots> = dotted_loop m (of_nat (unat ?v * 10 + n mod 10)) True (cadv 1 (cadv ?k c))"
    proof (rule dotted_digit[where us = us])
      show "cview m (cadv ?k c) = of_nat (0x30 + n mod 10) # us" using k vw by (simp del: of_nat_add)
      show "\<not> (True \<and> ?v = 0)" using uv False by (auto simp: word_unat_eq_iff)
    qed (use uv 1(2) in simp_all)
    finally show ?thesis unfolding uv using False by (simp add: decimal_step del: of_nat_add of_nat_mult)
  qed
qed

lemma parse_dotted_last:
  assumes "n < 2 ^ 64" "cview m c = decimal n"
  shows "parse_dotted_decimal m c = (Some (of_nat n), cadv (length (decimal n)) c)"
proof -
  let ?c = "cadv (length (decimal n)) c"
  have k: "length (decimal n) = unat (cb_len c)" using arg_cong[OF assms(2), of length] by simp
  have "cview m ?c = []" using k by simp
  then have "dotted_loop m (of_nat n) True ?c = (Some (of_nat n), ?c)" by (simp add: dotted_loop.simps[of m "of_nat n"] CBS_get_u8_eq)
  then show ?thesis using dotted_decimal_loop[OF assms(1), of m c "[]"] assms(2) by (simp add: parse_dotted_decimal_def)
qed

lemma parse_dotted_dot:
  assumes "n < 2 ^ 64" "cview m c = decimal n @ 0x2e # us" "us \<noteq> []"
  shows "parse_dotted_decimal m c = (Some (of_nat n), cadv (Suc (length (decimal n))) c)"
proof -
  let ?k = "length (decimal n)"
  have k: "Suc ?k + length us = unat (cb_len c)" using arg_cong[OF assms(2), of length] by simp
  have vw: "cview m (cadv ?k c) = 0x2e # us" using k assms(2) by simp
  have "CBS_len (cadv (Suc ?k) c) > 0" using k assms(3) by (cases us) (simp_all add: CBS_len_def word_less_nat_alt)
  then have "dotted_loop m (of_nat n) True (cadv ?k c) = (Some (of_nat n), cadv (Suc ?k) c)"
    using vw by (simp add: dotted_loop.simps[of m "of_nat n"] CBS_get_u8_eq)
  then show ?thesis using dotted_decimal_loop[OF assms(1), of m c "0x2e # us"] assms(2) by (simp add: parse_dotted_decimal_def)
qed

section \<open>Text to contents: what is written\<close>

definition undotted :: "nat list \<Rightarrow> byte list" where
  "undotted vs = (case vs of [] \<Rightarrow> [] | v # vs \<Rightarrow> decimal v @ dot_decimals vs)"

lemma decimal_nonempty [simp]: "decimal n \<noteq> []"
  by (subst decimal.simps) simp

lemma dot_decimals_Cons: "dot_decimals (v # vs) = 0x2e # undotted (v # vs)"
  by (simp add: dot_decimals_def undotted_def)

lemma undotted_nonempty [simp]: "undotted (v # vs) \<noteq> []"
  by (simp add: undotted_def)

lemma parse_dotted_next:
  assumes "n < 2 ^ 64" "cview m c = undotted (n # vs)"
  shows "\<exists>c'. parse_dotted_decimal m c = (Some (of_nat n), c') \<and> cview m c' = undotted vs"
proof (cases vs)
  case Nil
  then have vw: "cview m c = decimal n" using assms(2) by (simp add: undotted_def dot_decimals_def)
  moreover have "length (decimal n) \<le> unat (cb_len c)" using arg_cong[OF vw, of length] by simp
  ultimately show ?thesis using parse_dotted_last[OF assms(1) vw] Nil by (simp add: undotted_def)
next
  case (Cons v ws)
  then have vw: "cview m c = decimal n @ 0x2e # undotted vs"
    using assms(2) dot_decimals_Cons[of v ws] by (simp add: undotted_def[of "n # v # ws"])
  moreover have "Suc (length (decimal n)) \<le> unat (cb_len c)" using arg_cong[OF vw, of length] by simp
  ultimately show ?thesis using parse_dotted_dot[OF assms(1) vw] Cons by simp
qed

lemma cview_empty: "CBS_len c > 0 \<longleftrightarrow> cview m c \<noteq> []"
proof -
  have "cview m c = [] \<longleftrightarrow> length (cview m c) = 0" by (simp only: length_0_conv)
  then show ?thesis by (simp add: CBS_len_def unat_eq_0 word_greater_zero_iff)
qed

abbreviation put_components :: "alloc \<Rightarrow> nat list \<Rightarrow> cbb_state \<Rightarrow> unit option \<times> cbb_state" where
  "put_components malloc \<equiv> each (\<lambda>v. add_base128_integer malloc (of_nat v))"

lemma oid_text_rest_eq:
  "list_all (\<lambda>v. v < 2 ^ 64) vs \<Longrightarrow> cview m c = undotted vs \<Longrightarrow> oid_text_rest malloc m c st = put_components malloc vs st"
proof (induction vs arbitrary: c st)
  case Nil
  then show ?case using cview_empty[of c m] by (simp add: oid_text_rest.simps[of malloc m c] undotted_def retf_def)
next
  case (Cons v vs)
  then obtain c' where p: "parse_dotted_decimal m c = (Some (of_nat v), c')" "cview m c' = undotted vs"
    using parse_dotted_next[of v m c vs] by auto
  have "CBS_len c > 0" using cview_empty[of c m] Cons.prems by simp
  then show ?case
    using p Cons.IH[of c'] Cons.prems by (simp add: oid_text_rest.simps[of malloc m c] bindf_def split: option.split prod.split)
qed

lemma oid_from_text_eq:
  assumes ok: "oid_ok a b rest" and vw: "cview m (CBS_init text n) = oid_text a b rest"
  shows "CBB_add_asn1_oid_from_text malloc m text n =
    bindf (CBB_flush malloc) (\<lambda>_. put_components malloc ((40 * a + b) # rest))"
proof -
  have ab: "a < 2 ^ 64" "b < 2 ^ 64" "a \<le> 2" "b < 2 ^ 64 - 80" "a < 2 \<longrightarrow> b < 40" "list_all (\<lambda>v. v < 2 ^ 64) rest"
    using ok by (auto simp: oid_ok_def)
  have "oid_text a b rest = undotted (a # b # rest)" by (simp add: oid_text_def undotted_def)
  then obtain c1 where p1: "parse_dotted_decimal m (CBS_init text n) = (Some (of_nat a), c1)" "cview m c1 = undotted (b # rest)"
    using parse_dotted_next[OF ab(1)] vw by metis
  obtain c2 where p2: "parse_dotted_decimal m c1 = (Some (of_nat b), c2)" "cview m c2 = undotted rest"
    using parse_dotted_next[OF ab(2) p1(2)] by blast
  have u: "unat (of_nat a :: uint64) = a" "unat (of_nat b :: uint64) = b" using ab by (simp_all only: unat_of_nat_size)
  have "\<not> ((of_nat a :: uint64) > 2 \<or> ((of_nat a :: uint64) < 2 \<and> (of_nat b :: uint64) > 39) \<or> (of_nat b :: uint64) > UINT64_MAX - 80)"
    using ab(3-5) u by (auto simp: word_less_nat_alt)
  then show ?thesis
    using p1(1) p2 oid_text_rest_eq[OF ab(6) p2(2)]
    by (auto simp: CBB_add_asn1_oid_from_text_def bindf_def fun_eq_iff split: option.split prod.split)
qed

lemma refines_components:
  assumes "list_all (\<lambda>v. v < 2 ^ 64) vs"
  shows "refines (put_components malloc vs) (adds (concat (map base128 vs)))"
proof -
  have "refines (put_components malloc vs) (adds (concat (map (\<lambda>v. base128 (unat (of_nat v :: uint64))) vs)))"
  proof (rule refines_each_adds)
    fix x show "refines (add_base128_integer malloc (of_nat x)) (adds (base128 (unat (of_nat x :: uint64))))"
      by (rule refines_weaken[OF refines_add_base128]) (auto simp: appends_def adds_def)
  qed
  moreover have "map (\<lambda>v. base128 (unat (of_nat v :: uint64))) vs = map base128 vs"
    using assms by (induction vs) (simp_all del: of_nat_unat)
  ultimately show ?thesis by simp
qed

lemma live_bind_adds:
  assumes "live f (small (length xs))" "refines f (adds xs)" "\<And>u. live (g u) (small n)"
  shows "live (bindf f g) (small (length xs + n))"
proof (rule live_bind[OF _ assms(2,3)])
  show "live f (small (length xs + n))" by (rule live_weaken[OF assms(1)]) (simp add: small_def)
qed (auto simp: small_def adds_def)

lemma live_each_adds:
  assumes "\<And>x. x \<in> set vs \<Longrightarrow> live (f x) (small (length (g x))) \<and> refines (f x) (adds (g x))"
  shows "live (each f vs) (small (length (concat (map g vs))))"
  using assms
proof (induction vs)
  case (Cons x vs)
  then have "live (bindf (f x) (\<lambda>_. each f vs)) (small (length (g x) + length (concat (map g vs))))"
    by (intro live_bind_adds) auto
  then show ?case by simp
qed (simp add: live_retf)

lemma refines_base128_adds: "v < 2 ^ 64 \<Longrightarrow> refines (add_base128_integer malloc (of_nat v)) (adds (base128 v))"
  using refines_weaken[OF refines_add_base128[of malloc "of_nat v"], of "adds (base128 v)"] by (auto simp: appends_def adds_def)

lemma live_components:
  "roomy malloc \<Longrightarrow> list_all (\<lambda>v. v < 2 ^ 64) vs \<Longrightarrow> live (put_components malloc vs) (small (length (concat (map base128 vs))))"
proof (rule live_each_adds)
  fix x assume "roomy malloc" "list_all (\<lambda>v. v < 2 ^ 64) vs" "x \<in> set vs"
  then show "live (add_base128_integer malloc (of_nat x)) (small (length (base128 x))) \<and>
      refines (add_base128_integer malloc (of_nat x)) (adds (base128 x))"
    using live_base128[of malloc "of_nat x"] refines_base128_adds[of x malloc] by (simp add: list_all_iff)
qed

lemma refines_flush_then: "refines f (adds xs) \<Longrightarrow> refines (bindf (CBB_flush malloc) (\<lambda>_. f)) (adds xs)"
  by (rule refines_weaken[OF refines_bind[OF refines_flush]]) (auto simp: closes_def adds_def)

lemma live_flush_adds: "roomy malloc \<Longrightarrow> live f (small n) \<Longrightarrow> live (bindf (CBB_flush malloc) (\<lambda>_. f)) (small n)"
  by (rule live_bind[where Q = "small n", OF live_weaken[OF live_flush] refines_flush]) (auto simp: small_def closes_def)

section \<open>Contents to text: what is written\<close>

lemma oid_components_eq:
  "list_all (\<lambda>v. v < 2 ^ 64) vs \<Longrightarrow> cview m c = concat (map base128 vs) \<Longrightarrow>
   oid_components malloc m c st = each (\<lambda>v. bindf (CBB_add_u8 malloc 0x2e) (\<lambda>_. add_decimal malloc (of_nat v))) vs st"
proof (induction vs arbitrary: c st)
  case Nil
  then show ?case using cview_empty[of c m] by (simp add: oid_components.simps[of malloc m c] retf_def word_greater_zero_iff)
next
  case (Cons v vs)
  have p: "parse_base128_integer m c = (Some (of_nat v), cadv (length (base128 v)) c)"
    using base128_loop_complete[of v m c] Cons.prems by (simp add: parse_base128_integer_def)
  have "length (base128 v) \<le> unat (cb_len c)" using arg_cong[OF Cons.prems(2), of length] by simp
  then have vw: "cview m (cadv (length (base128 v)) c) = concat (map base128 vs)" using Cons.prems(2) by simp
  have "CBS_len c \<noteq> 0" using cview_empty[of c m] Cons.prems(2) by (simp add: word_greater_zero_iff)
  then show ?case
    using p vw Cons.IH[OF _ vw] Cons.prems(1)
    by (simp add: oid_components.simps[of malloc m c]) (auto simp: bindf_def split: option.split prod.split)
qed

lemma length_decimal: "n < 10 ^ Suc k \<Longrightarrow> length (decimal n) \<le> Suc k"
proof (induction k arbitrary: n)
  case (Suc k)
  show ?case
  proof (cases "n < 10")
    case False
    have "n div 10 < 10 ^ Suc k" using Suc.prems by (simp add: less_mult_imp_div_less)
    then show ?thesis using Suc.IH[of "n div 10"] False by (simp add: decimal_step)
  qed (simp add: decimal_small)
qed (simp add: decimal_small)

lemma length_decimal_64: "length (decimal (unat (v :: uint64))) \<le> 20"
proof -
  have "unat v < 10 ^ Suc 19" using unat_lt_64[of v] by simp
  from length_decimal[OF this] show ?thesis by simp
qed

lemma refines_decimal: "refines (add_decimal malloc v) (adds (decimal (unat v)))"
  unfolding add_decimal_def
  by (rule refines_weaken[OF refines_add_bytes]) (use length_decimal_64[of v] in \<open>auto simp: appends_def adds_def\<close>)

lemma live_decimal: "roomy malloc \<Longrightarrow> live (add_decimal malloc v) (small (length (decimal (unat v))))"
  unfolding add_decimal_def by (rule live_add_bytes)

lemma refines_u8_adds: "refines (CBB_add_u8 malloc v) (adds [v])"
  by (rule refines_weaken[OF refines_add_u8]) (auto simp: appends_def adds_def)

lemma refines_bind_adds:
  "refines f (adds xs) \<Longrightarrow> (\<And>u. refines (g u) (adds ys)) \<Longrightarrow> refines (bindf f g) (adds (xs @ ys))"
  by (rule refines_weaken[OF refines_bind[of f "adds xs" g "adds ys"]]) (auto simp: adds_def)

text \<open>A writer that cannot fail and adds \<open>xs\<close>.\<close>

definition writes :: "(cbb_state \<Rightarrow> unit option \<times> cbb_state) \<Rightarrow> byte list \<Rightarrow> bool" where
  "writes f xs \<longleftrightarrow> refines f (adds xs) \<and> live f (small (length xs))"

lemma writes_bind: "writes f xs \<Longrightarrow> (\<And>u. writes (g u) ys) \<Longrightarrow> writes (bindf f g) (xs @ ys)"
  unfolding writes_def using refines_bind_adds[of f xs g ys] live_bind_adds[of f xs g "length ys"] by simp

lemma writes_u8: "roomy malloc \<Longrightarrow> writes (CBB_add_u8 malloc v) [v]"
  using refines_u8_adds[of malloc v] live_add_u8[of malloc v] by (simp add: writes_def)

lemma writes_decimal: "roomy malloc \<Longrightarrow> unat v = n \<Longrightarrow> writes (add_decimal malloc v) (decimal n)"
  using refines_decimal[of malloc v] live_decimal[of malloc v] by (auto simp: writes_def)

lemma writes_each: "(\<And>x. x \<in> set vs \<Longrightarrow> writes (f x) (g x)) \<Longrightarrow> writes (each f vs) (concat (map g vs))"
  unfolding writes_def using refines_each_adds[of vs f g] live_each_adds[of vs f g] by blast

lemma writes_finish:
  assumes "roomy malloc" "CBB_init malloc n = Some st" "writes f xs" "length xs < 2 ^ 62"
  shows "\<exists>u st' bs len. f st = (Some u, st') \<and> CBB_finish malloc False False st' = Some (bs, len) \<and>
    take (unat len) bs = xs \<and> unat len = length xs"
proof -
  have w: "refines f (adds xs)" "live f (small (length xs))" using assms(3) by (simp_all add: writes_def)
  from finish_succeeds[OF assms(1,2) w assms(4)] obtain u st' bs len
    where f: "f st = (Some u, st')" "CBB_finish malloc False False st' = Some (bs, len)" by blast
  from finish_adds[OF assms(2) w(1) f] f show ?thesis by blast
qed

lemma writes_components:
  "roomy malloc \<Longrightarrow> list_all (\<lambda>v. v < 2 ^ 64) vs \<Longrightarrow> writes (put_components malloc vs) (concat (map base128 vs))"
  using refines_components[of vs malloc] live_components[of malloc vs] by (simp add: writes_def)

lemma writes_flush_then: "roomy malloc \<Longrightarrow> writes f xs \<Longrightarrow> writes (bindf (CBB_flush malloc) (\<lambda>_. f)) xs"
  unfolding writes_def using refines_flush_then[of f xs malloc] live_flush_adds[of malloc f "length xs"] by blast

lemma oid_first: "oid_ok a b rest \<Longrightarrow> 40 * a + b < 2 ^ 64"
  by (auto simp: oid_ok_def)

lemma writes_first_components:
  assumes r: "roomy malloc" and ok: "oid_ok a b rest"
  shows "writes
    (if (of_nat (40 * a + b) :: uint64) \<ge> 80
     then bindf (CBB_add_bytes malloc [0x32, 0x2e]) (\<lambda>_. add_decimal malloc (of_nat (40 * a + b) - 80))
     else bindf (add_decimal malloc (of_nat (40 * a + b) div 40)) (\<lambda>_. bindf (CBB_add_u8 malloc 0x2e)
            (\<lambda>_. add_decimal malloc (of_nat (40 * a + b) mod 40))))
    (decimal a @ 0x2e # decimal b)"
proof -
  let ?v = "of_nat (40 * a + b) :: uint64"
  have v: "unat ?v = 40 * a + b" using oid_first[OF ok] by (rule unat_of_nat_size)
  show ?thesis
  proof (cases "a = 2")
    case True
    have ge: "?v \<ge> 80" using v True by (simp add: word_le_nat_alt del: of_nat_add of_nat_mult)
    moreover have "unat (?v - 80) = b" using v True ge by (simp add: unat_sub del: of_nat_add of_nat_mult)
    moreover have "decimal a = [0x32]" using True by (simp add: decimal_small)
    moreover have "writes (CBB_add_bytes malloc [0x32, 0x2e]) [0x32, 0x2e]"
      using refines_weaken[OF refines_add_bytes[of "[0x32, 0x2e]" malloc], of "adds [0x32, 0x2e]"] live_add_bytes[OF r, of "[0x32, 0x2e]"]
      by (simp add: writes_def appends_def adds_def)
    ultimately show ?thesis
      using writes_bind[of "CBB_add_bytes malloc [0x32, 0x2e]" "[0x32, 0x2e]" "\<lambda>_. add_decimal malloc (?v - 80)" "decimal b"]
        writes_decimal[OF r] by (simp del: of_nat_add of_nat_mult)
  next
    case False
    then have ab: "a < 2" "b < 40" using ok by (auto simp: oid_ok_def)
    have "\<not> ?v \<ge> 80" using v ab by (simp add: word_le_nat_alt del: of_nat_add of_nat_mult)
    moreover have "unat (?v div 40) = a" "unat (?v mod 40) = b"
      using v ab by (simp_all add: unat_div unat_mod del: of_nat_add of_nat_mult)
    moreover from this have "writes (bindf (add_decimal malloc (?v div 40)) (\<lambda>_. bindf (CBB_add_u8 malloc 0x2e)
            (\<lambda>_. add_decimal malloc (?v mod 40)))) (decimal a @ [0x2e] @ decimal b)"
      by (intro writes_bind writes_decimal writes_u8 r)
    ultimately show ?thesis by (simp del: of_nat_add of_nat_mult)
  qed
qed

lemma oid_to_text_complete:
  assumes r: "roomy malloc" and ok: "oid_ok a b rest" and vw: "cview m c = oid_der a b rest"
    and size: "length (oid_text a b rest) < 2 ^ 61"
  shows "CBS_asn1_oid_to_text malloc m c = Some (oid_text a b rest @ [0])"
proof -
  let ?v = "of_nat (40 * a + b) :: uint64" and ?k = "length (base128 (40 * a + b))"
  let ?first = "if ?v \<ge> 80 then bindf (CBB_add_bytes malloc [0x32, 0x2e]) (\<lambda>_. add_decimal malloc (?v - 80))
     else bindf (add_decimal malloc (?v div 40)) (\<lambda>_. bindf (CBB_add_u8 malloc 0x2e) (\<lambda>_. add_decimal malloc (?v mod 40)))"
  let ?rest = "each (\<lambda>v. bindf (CBB_add_u8 malloc 0x2e) (\<lambda>_. add_decimal malloc (of_nat v))) rest"
  have vw': "cview m c = base128 (40 * a + b) @ concat (map base128 rest)" using vw by (simp add: oid_der_def)
  have p: "parse_base128_integer m c = (Some ?v, cadv ?k c)"
    using base128_loop_complete[OF oid_first[OF ok] vw'] by (simp only: parse_base128_integer_def)
  have "?k \<le> unat (cb_len c)" using arg_cong[OF vw', of length] by simp
  then have vk: "cview m (cadv ?k c) = concat (map base128 rest)" using vw' by simp
  have lim: "list_all (\<lambda>v. v < 2 ^ 64) rest" using ok by (simp add: oid_ok_def)
  have comps: "oid_components malloc m (cadv ?k c) = ?rest" using oid_components_eq[OF lim vk] by blast
  have "writes ?rest (dot_decimals rest)" unfolding dot_decimals_def
  proof (rule writes_each)
    fix x assume "x \<in> set rest"
    then have "unat (of_nat x :: uint64) = x" using lim by (simp add: list_all_iff)
    then have "writes (bindf (CBB_add_u8 malloc 0x2e) (\<lambda>_. add_decimal malloc (of_nat x))) ([0x2e] @ decimal x)"
      by (intro writes_bind writes_u8 writes_decimal r)
    then show "writes (bindf (CBB_add_u8 malloc 0x2e) (\<lambda>_. add_decimal malloc (of_nat x))) (0x2e # decimal x)" by simp
  qed
  then have w: "writes (bindf ?first (\<lambda>_. bindf ?rest (\<lambda>_. CBB_add_u8 malloc 0))) ((decimal a @ 0x2e # decimal b) @ dot_decimals rest @ [0])"
    by (intro writes_bind writes_first_components[OF r ok] writes_u8 r)
  have t: "(decimal a @ 0x2e # decimal b) @ dot_decimals rest @ [0] = oid_text a b rest @ [0]"
    by (simp add: oid_text_def dot_decimals_def)
  obtain st where i: "CBB_init malloc 32 = Some st" using CBB_init_succeeds[OF r, of 32] by auto
  from writes_finish[OF r i w[unfolded t]] size
  obtain u st' bs len where "bindf ?first (\<lambda>_. bindf ?rest (\<lambda>_. CBB_add_u8 malloc 0)) st = (Some u, st')"
      "CBB_finish malloc False False st' = Some (bs, len)" "take (unat len) bs = oid_text a b rest @ [0]" by auto
  then show ?thesis using i p comps by (simp add: CBS_asn1_oid_to_text_def del: of_nat_add of_nat_mult)
qed

lemma writes_oid_from_text:
  assumes "roomy malloc" "oid_ok a b rest" "cview m (CBS_init text n) = oid_text a b rest"
  shows "writes (CBB_add_asn1_oid_from_text malloc m text n) (oid_der a b rest)"
proof -
  have "list_all (\<lambda>v. v < 2 ^ 64) ((40 * a + b) # rest)" using assms(2) oid_first by (auto simp: oid_ok_def)
  then show ?thesis
    unfolding oid_from_text_eq[OF assms(2,3)] oid_der_def
    by (intro writes_flush_then writes_components assms(1))
qed

text \<open>
  C36. Object identifiers survive the way from text to DER contents and back: for every
  identifier, \<open>CBB_add_asn1_oid_from_text\<close> on its dotted decimal form appends its base-128
  contents, and \<open>CBS_asn1_oid_to_text\<close> on the finished buffer returns the same text.
\<close>

theorem oid_text_roundtrip:
  assumes "roomy malloc" and "oid_ok a b rest"
    and "read_bytes m text (unat n) = oid_text a b rest"
    and "length (oid_text a b rest) < 2 ^ 61" and "length (oid_der a b rest) < 2 ^ 61"
  shows "\<exists>st u st' bs len. CBB_init malloc 0 = Some st \<and>
    CBB_add_asn1_oid_from_text malloc m text n st = (Some u, st') \<and>
    CBB_finish malloc False False st' = Some (bs, len) \<and> take (unat len) bs = oid_der a b rest \<and>
    CBS_asn1_oid_to_text malloc (\<lambda>i. bs ! i) (CBS_init 0 len) = Some (oid_text a b rest @ [0])"
proof -
  obtain st where i: "CBB_init malloc 0 = Some st" using CBB_init_succeeds[OF assms(1), of 0] by auto
  have vw: "cview m (CBS_init text n) = oid_text a b rest" using assms(3) by (simp add: cview_def CBS_init_def)
  from writes_finish[OF assms(1) i writes_oid_from_text[OF assms(1,2) vw]] assms(5)
  obtain u st' bs len where f: "CBB_add_asn1_oid_from_text malloc m text n st = (Some u, st')"
      "CBB_finish malloc False False st' = Some (bs, len)" "take (unat len) bs = oid_der a b rest" "unat len = length (oid_der a b rest)"
    by auto
  from oid_to_text_complete[OF assms(1,2) cview_buffer[OF f(3,4)] assms(4)] i f show ?thesis by blast
qed

theorem oid_text_roundtrip_witness:
  "\<exists>st u st' bs len. CBB_init (\<lambda>_. Some (\<lambda>_. 0)) 0 = Some st \<and>
    CBB_add_asn1_oid_from_text (\<lambda>_. Some (\<lambda>_. 0)) (\<lambda>i. [0x31, 0x2e, 0x32, 0x2e, 0x38, 0x34, 0x30] ! i) 0 7 st = (Some u, st') \<and>
    CBB_finish (\<lambda>_. Some (\<lambda>_. 0)) False False st' = Some (bs, len) \<and> take (unat len) bs = [42, 0x86, 0x48] \<and>
    CBS_asn1_oid_to_text (\<lambda>_. Some (\<lambda>_. 0)) (\<lambda>i. bs ! i) (CBS_init 0 len) =
      Some [0x31, 0x2e, 0x32, 0x2e, 0x38, 0x34, 0x30, 0]"
proof -
  have t: "oid_text 1 2 [840] = [0x31, 0x2e, 0x32, 0x2e, 0x38, 0x34, 0x30]" by code_simp
  have d: "oid_der 1 2 [840] = [42, 0x86, 0x48]" by code_simp
  have ok: "oid_ok 1 2 [840]" by (simp add: oid_ok_def)
  have "read_bytes (\<lambda>i. [0x31, 0x2e, 0x32, 0x2e, 0x38, 0x34, 0x30] ! i) 0 (unat (7 :: size_t)) = oid_text 1 2 [840]"
    unfolding t by code_simp
  from oid_text_roundtrip[OF _ ok this, of "\<lambda>_. Some (\<lambda>_. 0)"] show ?thesis
    unfolding t d by (simp add: roomy_def)
qed

end
