(* ===== verification/Cbb_Reach.thy ===== *)
theory Cbb_Reach
  imports Set_Of Oid
begin

text \<open>
  The builder as a state machine. The states reachable by successful calls of the whole interface of
  \<^verbatim>\<open>cbb.c\<close>, on the builder or on its open descendants, satisfy the buffer invariant; and a write that
  fails can not be lost. The children are embedded in their parents by value: a step is therefore only
  taken through a call that succeeds, since a failed call that works through a local child leaves, in the
  source, a pointer to a dead variable behind (the comment in \<open>CBB_flush\<close>).
\<close>

section \<open>Calls\<close>

definition ignore :: "(cbb_state \<Rightarrow> 'a option \<times> cbb_state) \<Rightarrow> cbb_state \<Rightarrow> unit option \<times> cbb_state" where
  "ignore f st = (case f st of (r, st') \<Rightarrow> (map_option (\<lambda>_. ()) r, st'))"

text \<open>The calls of the interface, on the root or on a pending descendant.\<close>

inductive cbb_call :: "alloc \<Rightarrow> (cbb_state \<Rightarrow> unit option \<times> cbb_state) \<Rightarrow> bool" for malloc where
  flush: "cbb_call malloc (CBB_flush malloc)"
| u8: "cbb_call malloc (CBB_add_u8 malloc x)"
| u16: "cbb_call malloc (CBB_add_u16 malloc x16)"
| u16le: "cbb_call malloc (CBB_add_u16le malloc x16)"
| u24: "cbb_call malloc (CBB_add_u24 malloc x32)"
| u32: "cbb_call malloc (CBB_add_u32 malloc x32)"
| u32le: "cbb_call malloc (CBB_add_u32le malloc x32)"
| u64: "cbb_call malloc (CBB_add_u64 malloc x64)"
| u64le: "cbb_call malloc (CBB_add_u64le malloc x64)"
| bytes: "length bs < 2 ^ 64 \<Longrightarrow> cbb_call malloc (CBB_add_bytes malloc bs)"
| zeros: "cbb_call malloc (CBB_add_zeros malloc n)"
| space: "cbb_call malloc (ignore (CBB_add_space malloc n))"
| reserve: "cbb_call malloc (ignore (CBB_reserve malloc n))"
| did_write: "cbb_call malloc (CBB_did_write n)"
| discard: "cbb_call malloc (\<lambda>st. (Some (), CBB_discard_child st))"
| u8_prefixed: "cbb_call malloc (CBB_add_u8_length_prefixed malloc)"
| u16_prefixed: "cbb_call malloc (CBB_add_u16_length_prefixed malloc)"
| u24_prefixed: "cbb_call malloc (CBB_add_u24_length_prefixed malloc)"
| asn1: "cbb_call malloc (CBB_add_asn1 malloc t)"
| asn1_uint64: "cbb_call malloc (CBB_add_asn1_uint64 malloc x64)"
| asn1_int64: "cbb_call malloc (CBB_add_asn1_int64 malloc x64)"
| asn1_octets: "length bs < 2 ^ 64 \<Longrightarrow> cbb_call malloc (CBB_add_asn1_octet_string malloc bs)"
| asn1_bool: "cbb_call malloc (CBB_add_asn1_bool malloc v)"
| asn1_oid: "cbb_call malloc (CBB_add_asn1_oid_from_text malloc m text n)"
| asn1_set_of: "cbb_call malloc (CBB_flush_asn1_set_of malloc)"
| child: "cbb_call malloc f \<Longrightarrow> cbb_call malloc (on_child f)"

inductive cbb_reach :: "alloc \<Rightarrow> cbb_state \<Rightarrow> bool" for malloc where
  init: "CBB_init malloc n = Some st \<Longrightarrow> cbb_reach malloc st"
| init_fixed: "length bs = unat n \<Longrightarrow> CBB_init_fixed malloc bs n = Some st \<Longrightarrow> cbb_reach malloc st"
| step: "cbb_reach malloc st \<Longrightarrow> cbb_call malloc f \<Longrightarrow> f st = (Some u, st') \<Longrightarrow> cbb_reach malloc st'"

section \<open>The invariant\<close>

text \<open>
  \<open>CBB_flush_asn1_set_of\<close> rewinds the buffer to the start of the node it is called on, so the invariant is
  followed from there.
\<close>

abbreviation start :: "cbb_state \<Rightarrow> nat" where
  "start st \<equiv> unat (off (fst st)) + unat (pending_len_len (fst st))"

definition keeps_node :: "(cbb_state \<Rightarrow> 'a option \<times> cbb_state) \<Rightarrow> bool" where
  "keeps_node f \<longleftrightarrow> (\<forall>st r st'. st_ok (start st) st \<longrightarrow> f st = (r, st') \<longrightarrow>
     st_ok (start st) st' \<and> same_node (fst st) (fst st') \<and> sticky st st')"

lemma keeps_nodeD:
  "keeps_node f \<Longrightarrow> st_ok (start st) st \<Longrightarrow> f st = (r, st') \<Longrightarrow> st_ok (start st) st' \<and> same_node (fst st) (fst st') \<and> sticky st st'"
  unfolding keeps_node_def by blast

lemma keeps_imp_node: "keeps f \<Longrightarrow> keeps_node f"
  unfolding keeps_def keeps_node_def by blast

lemma keeps_node_child:
  assumes f: "keeps_node f"
  shows "keeps_node (on_child f)"
  unfolding keeps_node_def
proof (intro allI impI)
  fix st r st' assume inv: "st_ok (start st) st" and run: "on_child f st = (r, st')"
  obtain c b where st: "st = (c, b)" by fastforce
  show "st_ok (start st) st' \<and> same_node (fst st) (fst st') \<and> sticky st st'"
  proof (cases "child c")
    case None
    then show ?thesis using run st inv by (simp add: on_child_def sticky_def)
  next
    case (Some k)
    obtain x y z w where c: "c = CBB x y z w (Some k)" using Some by (cases c) auto
    obtain k' b' where fk: "f (k, b) = (r, (k', b'))" and st': "st' = (set_child c (Some k'), b')"
      using run st Some by (auto simp: on_child_def split: prod.splits)
    have "st_ok (start (k, b)) (k, b)" using inv st c by (auto simp: st_ok_def)
    from keeps_nodeD[OF f this fk] have "st_ok (start (k, b)) (k', b')" "same_node k k'" "sticky (k, b) (k', b')" by auto
    then show ?thesis using inv st st' c by (auto simp: st_ok_def same_node_def sticky_def)
  qed
qed

lemma keeps_oid_rest: "keeps (oid_text_rest malloc m cbs)"
proof -
  have "st_ok s st' \<and> same_node (fst st) (fst st') \<and> sticky st st'"
    if "st_ok s st" "oid_text_rest malloc m cbs st = (r, st')" for s st r st'
    using that
  proof (induction malloc m cbs st arbitrary: r rule: oid_text_rest.induct)
    case (1 malloc m cbs st)
    show ?case
    proof (cases "CBS_len cbs > 0 \<and> fst (parse_dotted_decimal m cbs) \<noteq> None")
      case True
      then obtain a cbs' where p: "parse_dotted_decimal m cbs = (Some a, cbs')" by (cases "parse_dotted_decimal m cbs") auto
      obtain r1 st1 where a: "add_base128_integer malloc a st = (r1, st1)" by (cases "add_base128_integer malloc a st") blast
      note k = keepsD[OF keeps_base128 1(2) a]
      show ?thesis
      proof (cases r1)
        case None
        then show ?thesis using 1(3) True p a k by (simp add: oid_text_rest.simps[of malloc m cbs])
      next
        case (Some u)
        then have "oid_text_rest malloc m cbs' st1 = (r, st')"
          using 1(3) True p a by (simp add: oid_text_rest.simps[of malloc m cbs])
        then have "st_ok s st' \<and> same_node (fst st1) (fst st') \<and> sticky st1 st'"
          using 1(1)[of "Some a" cbs' a] True p a Some k by auto
        then show ?thesis using k same_node_trans by (auto simp: sticky_def)
      qed
    next
      case False
      then have "st' = st" using 1(3) by (auto simp: oid_text_rest.simps[of malloc m cbs] split: if_splits prod.splits option.splits)
      then show ?thesis using 1(2) by (simp add: sticky_def)
    qed
  qed
  then show ?thesis unfolding keeps_def by blast
qed

lemma keeps_fail: "keeps (\<lambda>st. (None, st))"
  by (simp add: keeps_def sticky_def)

lemma keeps_parsed:
  assumes "\<And>a cbs. keeps (g a cbs)"
  shows "keeps (\<lambda>st. case p of (None, _) \<Rightarrow> (None, st) | (Some a, cbs) \<Rightarrow> g a cbs st)"
  using keeps_fail assms by (cases p; cases "fst p") auto

lemma keeps_guarded: "keeps f \<Longrightarrow> keeps (\<lambda>st. if bad then (None, st) else f st)"
  using keeps_fail by (cases bad) auto

lemma keeps_oid_from_text: "keeps (CBB_add_asn1_oid_from_text malloc m text n)"
  unfolding CBB_add_asn1_oid_from_text_def
  by (intro keeps_bind keeps_flush keeps_parsed keeps_guarded keeps_base128 keeps_oid_rest)

lemma keeps_node_set_of: "keeps_node (CBB_flush_asn1_set_of malloc)"
  unfolding keeps_node_def
proof (intro allI impI)
  fix st r st' assume ok: "st_ok (start st) st" and run: "CBB_flush_asn1_set_of malloc st = (r, st')"
  obtain r1 c b where fl: "CBB_flush malloc st = (r1, (c, b))" by (metis prod_cases3)
  note k = keepsD[OF keeps_flush ok fl]
  show "st_ok (start st) st' \<and> same_node (fst st) (fst st') \<and> sticky st st'"
  proof (cases "r1 = None \<or> st' = (c, b)")
    case True
    then have "st' = (c, b)" using run fl by (auto simp: CBB_flush_asn1_set_of_def bindf_def)
    then show ?thesis using k by simp
  next
    case False
    then obtain u where r1: "r1 = Some u" by auto
    have b: "buf_ok b" "child c = None" "start st \<le> unat (blen b)" "\<not> berror b" "\<not> berror (snd st)" "same_node (fst st) c"
      using flush_cases[OF ok fl] r1 k by (auto simp: flushed_def)
    have q: "unat (node_start c) = start st" using node_start_eq[of c b] b(3,6) by (simp add: same_node_def)
    obtain ks where w: "each (\<lambda>k. CBB_add_bytes malloc (cview (set_copy (c, b)) k)) ks (c, b\<lparr>blen := node_start c\<rparr>) = (r, st')"
      using run fl r1 False
      by (auto simp: CBB_flush_asn1_set_of_def bindf_def Let_def set_copy_def node_start_def cview_def CBS_data_def CBS_len_def
          split: option.splits if_splits)
    have "keeps (each (\<lambda>k. CBB_add_bytes malloc (cview (set_copy (c, b)) k)) ks)"
      by (intro keeps_each keeps_add_bytes) (simp only: length_cview unat_lt_64)
    from keepsD[OF this _ w, of "start st"] rewind_ok(1)[OF b(1) _ b(2), of "node_start c"] q b(3)
    have "st_ok (start st) st' \<and> same_node c (fst st')" by simp
    then show ?thesis using b(5,6) same_node_trans by (auto simp: sticky_def)
  qed
qed

lemma keeps_ignore: "keeps f \<Longrightarrow> keeps (ignore f)"
  unfolding keeps_def ignore_def by (auto split: prod.splits)

lemma keeps_octets: "length bs < 2 ^ 64 \<Longrightarrow> keeps (CBB_add_asn1_octet_string malloc bs)"
  unfolding CBB_add_asn1_octet_string_def
  by (intro keeps_bind keeps_add_asn1 keeps_on_child keeps_add_bytes keeps_flush)

lemma keeps_bool: "keeps (CBB_add_asn1_bool malloc v)"
  unfolding CBB_add_asn1_bool_def by (intro keeps_bind keeps_add_asn1 keeps_on_child keeps_u8 keeps_flush)

lemma keeps_zeros: "keeps (CBB_add_zeros malloc n)"
  unfolding add_zeros_eq by (intro keeps_add_bytes) (simp only: length_replicate unat_lt_64)

lemma keeps_words:
  "keeps (CBB_add_u16 malloc x16)" "keeps (CBB_add_u16le malloc x16)" "keeps (CBB_add_u24 malloc x32)"
  "keeps (CBB_add_u32 malloc x32)" "keeps (CBB_add_u32le malloc x32)" "keeps (CBB_add_u64 malloc x64)"
  "keeps (CBB_add_u64le malloc x64)"
  by (simp_all add: CBB_add_u16_def CBB_add_u16le_def CBB_add_u24_def CBB_add_u32_def CBB_add_u32le_def CBB_add_u64_def
      CBB_add_u64le_def keeps_add_u)

lemma keeps_prefixed:
  "keeps (CBB_add_u8_length_prefixed malloc)" "keeps (CBB_add_u16_length_prefixed malloc)"
  "keeps (CBB_add_u24_length_prefixed malloc)"
  unfolding CBB_add_u8_length_prefixed_def CBB_add_u16_length_prefixed_def CBB_add_u24_length_prefixed_def
  by (rule keeps_length_prefixed, simp, simp)+

lemmas keeps_all = keeps_flush keeps_u8 keeps_words keeps_zeros keeps_ignore[OF keeps_add_space] keeps_ignore[OF keeps_reserve]
  keeps_did_write keeps_discard keeps_prefixed keeps_add_asn1 keeps_bool keeps_oid_from_text

lemma cbb_call_keeps: "cbb_call malloc f \<Longrightarrow> keeps_node f"
proof (induction rule: cbb_call.induct)
  case (bytes bs)
  then show ?case by (intro keeps_imp_node keeps_add_bytes)
next
  case (asn1_octets bs)
  then show ?case by (intro keeps_imp_node keeps_octets)
next
  case (asn1_uint64 v)
  show ?case by (intro keeps_imp_node keep_intros)
next
  case (asn1_int64 v)
  show ?case by (intro keeps_imp_node keep_intros)
qed (auto intro: keeps_imp_node[OF keeps_all(1)] keeps_imp_node keeps_all keeps_node_set_of keeps_node_child)

text \<open>The root starts at offset 0, where the invariant is anchored.\<close>

lemma cbb_reach_ok: "cbb_reach malloc st \<Longrightarrow> start st = 0 \<and> st_ok (start st) st"
proof (induction rule: cbb_reach.induct)
  case (init n st)
  then have "off (fst st) = 0" "pending_len_len (fst st) = 0"
    by (auto simp: CBB_init_def cbb_init_def split: option.splits if_splits)
  then show ?case using CBB_init_ok[OF init] by simp
next
  case (init_fixed bs n st)
  then show ?case
    by (auto simp: CBB_init_fixed_def cbb_init_def st_ok_def buf_ok_def split: option.splits)
next
  case (step st f u st')
  then show ?case using keeps_nodeD[OF cbb_call_keeps[OF step.hyps(2)] _ step.hyps(3)] by (auto simp: same_node_def)
qed

text \<open>
  C32. Whatever successful calls are made, on the builder or on its open descendants, and whatever the
  allocator answers, the state keeps the buffer invariant: the allocated length is the recorded capacity,
  the used length is within it, and the pending prefixes lie one behind the other in the used part. A
  call that fails in such a state still leaves the used length within the allocated one.
\<close>

theorem cbb_reach_invariant:
  assumes "cbb_reach malloc (c, b)"
  shows "length (buf b) = unat (bcap b) \<and> unat (blen b) \<le> unat (bcap b) \<and> cbb_ok c 0 (unat (blen b)) \<and>
    (\<forall>f c' b'. cbb_call malloc f \<longrightarrow> f (c, b) = (None, (c', b')) \<longrightarrow>
       length (buf b') = unat (bcap b') \<and> unat (blen b') \<le> unat (bcap b'))"
proof -
  have ok: "st_ok (start (c, b)) (c, b)" "start (c, b) = 0" using cbb_reach_ok[OF assms] by blast+
  have "length (buf b') = unat (bcap b') \<and> unat (blen b') \<le> unat (bcap b')"
    if "cbb_call malloc f" "f (c, b) = (None, (c', b'))" for f c' b'
    using keeps_nodeD[OF cbb_call_keeps[OF that(1)] ok(1) that(2)] by (simp add: st_ok_def buf_ok_def word_le_nat_alt)
  then show ?thesis using ok by (simp add: st_ok_def buf_ok_def word_le_nat_alt)
qed

theorem cbb_reach_invariant_witness:
  "length (buf \<lparr>buf = [7, 0], blen = 1, bcap = 2, can_resize = False, berror = False\<rparr>) = 2 \<and>
   cbb_ok (CBB 0 0 False False None) 0 1"
proof -
  let ?m = "\<lambda>n. if n = 40 then Some (\<lambda>_. 0) else None"
  let ?s0 = "(CBB 0 0 False False None, \<lparr>buf = [0, 0], blen = 0, bcap = 2, can_resize = False, berror = False\<rparr>)"
  let ?s1 = "(CBB 0 0 False False None, \<lparr>buf = [7, 0], blen = 1, bcap = 2, can_resize = False, berror = False\<rparr>)"
  have "CBB_init_fixed ?m [0, 0] 2 = Some ?s0" by code_simp
  then have "cbb_reach ?m ?s0" by (intro cbb_reach.init_fixed[of "[0, 0]" 2]) simp_all
  moreover have "CBB_add_u8 ?m 7 ?s0 = (Some (), ?s1)" by code_simp
  ultimately have "cbb_reach ?m ?s1" by (rule cbb_reach.step[OF _ cbb_call.u8])
  from cbb_reach_invariant[OF this] show ?thesis by simp
qed

section \<open>Failed writes\<close>

text \<open>A failure of these sets the error flag of the buffer.\<close>

definition marks :: "(cbb_state \<Rightarrow> 'a option \<times> cbb_state) \<Rightarrow> bool" where
  "marks f \<longleftrightarrow> (\<forall>s st st'. st_ok s st \<longrightarrow> f st = (None, st') \<longrightarrow> berror (snd st'))"

lemma marksD: "marks f \<Longrightarrow> st_ok s st \<Longrightarrow> f st = (None, st') \<Longrightarrow> berror (snd st')"
  unfolding marks_def by blast

lemma marks_bind:
  assumes "keeps f" "marks f" "\<And>x. marks (g x)"
  shows "marks (bindf f g)"
  unfolding marks_def
proof (intro allI impI)
  fix s st st' assume ok: "st_ok s st" and run: "bindf f g st = (None, st')"
  obtain r st1 where f: "f st = (r, st1)" by (cases "f st")
  show "berror (snd st')"
  proof (cases r)
    case None
    then show ?thesis using run f marksD[OF assms(2) ok] by (simp add: bindf_def)
  next
    case (Some x)
    then have "g x st1 = (None, st')" using run f by (simp add: bindf_def)
    then show ?thesis using marksD[OF assms(3)] keepsD[OF assms(1) ok f] by blast
  qed
qed

lemma marks_flush: "marks (CBB_flush malloc)"
  unfolding marks_def by (auto dest: flush_cases simp: flushed_def)

lemma marks_on_base:
  assumes "\<And>b b'. buf_ok b \<Longrightarrow> h b = (None, b') \<Longrightarrow> berror b'"
  shows "marks (bindf (CBB_flush malloc) (\<lambda>_. on_base h))"
proof (intro marks_bind keeps_flush marks_flush)
  show "marks (on_base h)"
    unfolding marks_def using assms by (auto simp: on_base_def st_ok_def split: prod.splits)
qed

lemma buffer_failures:
  assumes "buf_ok b"
  shows "cbb_buffer_reserve malloc n b = (None, b') \<Longrightarrow> berror b'"
    and "cbb_buffer_add malloc n b = (None, b') \<Longrightarrow> berror b'"
    and "bindf (cbb_buffer_add malloc n) (put_bytes bs) b = (None, b') \<Longrightarrow> berror b'"
    and "cbb_buffer_add_u malloc v k b = (None, b') \<Longrightarrow> berror b'"
  using reserve_cases[OF assms] add_cases[OF assms]
  by (fastforce simp: bindf_def put_bytes_def cbb_buffer_add_u_def Let_def split: option.splits prod.splits if_splits)+

lemma marks_add_u: "marks (cbb_add_u malloc v n)"
  unfolding cbb_add_u_def by (rule marks_on_base) (rule buffer_failures)

lemma marks_add_bytes: "marks (CBB_add_bytes malloc bs)"
  unfolding CBB_add_bytes_def by (rule marks_on_base) (rule buffer_failures)

lemma marks_add_zeros: "marks (CBB_add_zeros malloc n)"
  unfolding add_zeros_eq by (rule marks_add_bytes)

lemma marks_ignore: "marks f \<Longrightarrow> marks (ignore f)"
  unfolding marks_def ignore_def by (auto split: prod.splits)

lemma marks_space: "marks (ignore (CBB_add_space malloc n))" "marks (ignore (CBB_reserve malloc n))"
  unfolding CBB_add_space_def CBB_reserve_def
  by (rule marks_ignore, rule marks_on_base, erule (1) buffer_failures)+

lemma marks_words:
  "marks (CBB_add_u8 malloc x8)" "marks (CBB_add_u16 malloc x16)" "marks (CBB_add_u16le malloc x16)"
  "marks (CBB_add_u24 malloc x32)" "marks (CBB_add_u32 malloc x32)" "marks (CBB_add_u32le malloc x32)"
  "marks (CBB_add_u64 malloc x64)" "marks (CBB_add_u64le malloc x64)"
  by (simp_all add: CBB_add_u8_def CBB_add_u16_def CBB_add_u16le_def CBB_add_u24_def CBB_add_u32_def CBB_add_u32le_def
      CBB_add_u64_def CBB_add_u64le_def marks_add_u)

lemma marks_each: "(\<And>x. keeps (f x)) \<Longrightarrow> (\<And>x. marks (f x)) \<Longrightarrow> marks (each f xs)"
proof (induction xs)
  case (Cons x xs)
  then show ?case by (auto intro: marks_bind)
qed (simp add: marks_def retf_def)

lemma marks_base128: "marks (add_base128_integer malloc v)"
  unfolding add_base128_integer_def Let_def by (intro marks_each keeps_u8 marks_words)

text \<open>The operations that open a child fail as one of the writes they are made of.\<close>

lemma marks_via: "marks h' \<Longrightarrow> (\<And>st st'. h st = (None, st') \<Longrightarrow> h' st = (None, st')) \<Longrightarrow> marks h"
  unfolding marks_def by blast

lemma marks_length_prefixed: "marks (cbb_add_length_prefixed malloc n)"
proof (rule marks_via)
  show "marks (bindf (CBB_flush malloc) (\<lambda>_. on_base (cbb_buffer_add malloc (of_nat n))))"
    by (rule marks_on_base) (rule buffer_failures)
  show "bindf (CBB_flush malloc) (\<lambda>_. on_base (cbb_buffer_add malloc (of_nat n))) st = (None, st')"
    if "cbb_add_length_prefixed malloc n st = (None, st')" for st st'
    using that by (auto simp: cbb_add_length_prefixed_def bindf_def on_base_def Let_def split: option.splits prod.splits)
qed

lemma marks_prefixed:
  "marks (CBB_add_u8_length_prefixed malloc)" "marks (CBB_add_u16_length_prefixed malloc)"
  "marks (CBB_add_u24_length_prefixed malloc)"
  unfolding CBB_add_u8_length_prefixed_def CBB_add_u16_length_prefixed_def CBB_add_u24_length_prefixed_def
  by (rule marks_length_prefixed)+

lemma marks_add_asn1: "marks (CBB_add_asn1 malloc t)"
proof -
  let ?tag = "if tag_number t \<ge> 0x1f
      then bindf (CBB_add_u8 malloc (tag_bits t OR 0x1f)) (\<lambda>_. add_base128_integer malloc (ucast (tag_number t)))
      else CBB_add_u8 malloc (tag_bits t OR ucast (tag_number t))"
  have k: "keeps ?tag" by (intro keeps_if keeps_bind keeps_u8 keeps_base128)
  have m: "marks ?tag"
    by (cases "tag_number t \<ge> 0x1f") (simp_all add: marks_words marks_bind[OF keeps_u8 marks_words(1) marks_base128])
  show ?thesis
  proof (rule marks_via)
    show "marks (bindf (CBB_flush malloc) (\<lambda>_. bindf ?tag (\<lambda>_. CBB_add_u8 malloc 0)))"
      by (intro marks_bind keeps_flush marks_flush k m marks_words)
    show "bindf (CBB_flush malloc) (\<lambda>_. bindf ?tag (\<lambda>_. CBB_add_u8 malloc 0)) st = (None, st')"
      if "CBB_add_asn1 malloc t st = (None, st')" for st st'
      using that unfolding CBB_add_asn1_def tag_bits_def tag_number_def
      by (auto simp: bindf_def Let_def split: option.splits prod.splits if_splits)
  qed
qed

text \<open>
  The writes: the calls of the interface that work on the buffer alone, without a child of their own, on
  the builder or on an open descendant.
\<close>

inductive cbb_write :: "alloc \<Rightarrow> (cbb_state \<Rightarrow> unit option \<times> cbb_state) \<Rightarrow> cbb_state \<Rightarrow> bool" for malloc where
  flush: "cbb_write malloc (CBB_flush malloc) st"
| u8: "cbb_write malloc (CBB_add_u8 malloc x) st"
| u16: "cbb_write malloc (CBB_add_u16 malloc x16) st"
| u16le: "cbb_write malloc (CBB_add_u16le malloc x16) st"
| u24: "cbb_write malloc (CBB_add_u24 malloc x32) st"
| u32: "cbb_write malloc (CBB_add_u32 malloc x32) st"
| u32le: "cbb_write malloc (CBB_add_u32le malloc x32) st"
| u64: "cbb_write malloc (CBB_add_u64 malloc x64) st"
| u64le: "cbb_write malloc (CBB_add_u64le malloc x64) st"
| bytes: "length bs < 2 ^ 64 \<Longrightarrow> cbb_write malloc (CBB_add_bytes malloc bs) st"
| zeros: "cbb_write malloc (CBB_add_zeros malloc n) st"
| space: "cbb_write malloc (ignore (CBB_add_space malloc n)) st"
| reserve: "cbb_write malloc (ignore (CBB_reserve malloc n)) st"
| u8_prefixed: "cbb_write malloc (CBB_add_u8_length_prefixed malloc) st"
| u16_prefixed: "cbb_write malloc (CBB_add_u16_length_prefixed malloc) st"
| u24_prefixed: "cbb_write malloc (CBB_add_u24_length_prefixed malloc) st"
| asn1: "cbb_write malloc (CBB_add_asn1 malloc t) st"
| child: "child c = Some k \<Longrightarrow> cbb_write malloc f (k, b) \<Longrightarrow> cbb_write malloc (on_child f) (c, b)"

lemma cbb_write_call: "cbb_write malloc f st \<Longrightarrow> cbb_call malloc f"
  by (induction rule: cbb_write.induct) (auto intro: cbb_call.intros)

lemmas marks_all = marks_flush marks_words marks_add_bytes marks_add_zeros marks_space marks_prefixed marks_add_asn1

lemma cbb_write_marks:
  "cbb_write malloc f st \<Longrightarrow> st_ok s st \<Longrightarrow> f st = (None, st') \<Longrightarrow> berror (snd st')"
proof (induction arbitrary: s st' rule: cbb_write.induct)
  case (child c k f b)
  obtain x y z w where c: "c = CBB x y z w (Some k)" using child.hyps(1) by (cases c) auto
  obtain k' b' where f: "f (k, b) = (None, (k', b'))" "snd st' = b'"
    using child.prems(2) c by (auto simp: on_child_def split: prod.splits)
  have "st_ok (unat (off k) + unat (pending_len_len k)) (k, b)" using child.prems(1) c by (auto simp: st_ok_def)
  from child.IH[OF this f(1)] show ?case using f(2) by simp
qed (erule (1) marksD[rotated], rule marks_all)+

inductive cbb_calls :: "alloc \<Rightarrow> cbb_state \<Rightarrow> cbb_state \<Rightarrow> bool" for malloc where
  stop: "cbb_calls malloc st st"
| more: "cbb_calls malloc st st' \<Longrightarrow> cbb_call malloc f \<Longrightarrow> cbb_calls malloc st (snd (f st'))"

lemma cbb_calls_sticky:
  "cbb_calls malloc st st' \<Longrightarrow> st_ok (start st) st \<Longrightarrow> berror (snd st) \<Longrightarrow> st_ok (start st') st' \<and> berror (snd st')"
proof (induction rule: cbb_calls.induct)
  case (more st st' f)
  obtain r st1 where f: "f st' = (r, st1)" by (cases "f st'")
  have "st_ok (start st') st'" "berror (snd st')" using more by auto
  then show ?case using keeps_nodeD[OF cbb_call_keeps[OF more.hyps(2)] _ f] f by (auto simp: sticky_def same_node_def)
qed simp

text \<open>
  C37. A failed write is never lost. When one of the writes fails (a flush, an integer of any width, bytes,
  zeros, space, a reservation, or the opening of a length-prefixed or ASN.1 child), on a reachable builder
  or on one of its open descendants, then whatever is called afterwards, failing or not, \<open>CBB_finish\<close> returns
  no data. It is not so for \<open>CBB_did_write\<close> and for the parse errors of \<open>CBB_add_asn1_oid_from_text\<close> and
  \<open>CBB_flush_asn1_set_of\<close>, which report their failure to the caller only.
\<close>

theorem cbb_failed_write_poisons_finish:
  assumes "cbb_reach malloc st" and "cbb_write malloc f st" and "f st = (None, st1)"
    and "cbb_calls malloc st1 st2"
  shows "CBB_finish malloc no_data no_len st2 = None"
proof -
  have ok: "st_ok (start st) st" using cbb_reach_ok[OF assms(1)] by blast
  have "st_ok (start st1) st1"
    using keeps_nodeD[OF cbb_call_keeps[OF cbb_write_call[OF assms(2)]] ok assms(3)] by (auto simp: same_node_def)
  then have "berror (snd st2)" using cbb_calls_sticky[OF assms(4)] cbb_write_marks[OF assms(2) ok assms(3)] by blast
  then show ?thesis using flush_error[of "snd st2" malloc "fst st2"] by (simp add: CBB_finish_def)
qed

theorem cbb_failed_write_poisons_finish_witness:
  "CBB_finish (\<lambda>n. if n = 40 then Some (\<lambda>_. 0) else None) False False
     (CBB 0 0 False False (Some (CBB 0 1 False True None)),
      \<lparr>buf = [0, 7], blen = 2, bcap = 2, can_resize = False, berror = True\<rparr>) = None"
proof -
  let ?m = "\<lambda>n. if n = 40 then Some (\<lambda>_. 0) else None"
  let ?b = "\<lambda>bs n e. \<lparr>buf = bs, blen = n, bcap = 2, can_resize = False, berror = e\<rparr>"
  let ?root = "CBB 0 0 False False" and ?kid = "CBB 0 1 False True None"
  have i: "CBB_init_fixed ?m [0, 0] 2 = Some (?root None, ?b [0, 0] 0 False)" by code_simp
  have "cbb_reach ?m (?root None, ?b [0, 0] 0 False)" using cbb_reach.init_fixed[OF _ i] by simp
  moreover have "CBB_add_u8_length_prefixed ?m (?root None, ?b [0, 0] 0 False) = (Some (), (?root (Some ?kid), ?b [0, 0] 1 False))"
    by code_simp
  ultimately have "cbb_reach ?m (?root (Some ?kid), ?b [0, 0] 1 False)"
    by (rule cbb_reach.step[OF _ cbb_call.u8_prefixed])
  moreover have "on_child (CBB_add_u8 ?m 7) (?root (Some ?kid), ?b [0, 0] 1 False) = (Some (), (?root (Some ?kid), ?b [0, 7] 2 False))"
    by code_simp
  ultimately have r: "cbb_reach ?m (?root (Some ?kid), ?b [0, 7] 2 False)"
    by (rule cbb_reach.step[OF _ cbb_call.child[OF cbb_call.u8]])
  have w: "cbb_write ?m (on_child (CBB_add_u8 ?m 8)) (?root (Some ?kid), ?b [0, 7] 2 False)"
    by (rule cbb_write.child[OF _ cbb_write.u8]) simp
  have "on_child (CBB_add_u8 ?m 8) (?root (Some ?kid), ?b [0, 7] 2 False) = (None, (?root (Some ?kid), ?b [0, 7] 2 True))"
    by code_simp
  from cbb_failed_write_poisons_finish[OF r w this cbb_calls.stop] show ?thesis .
qed

end
