(* ===== verification/Unicode.thy ===== *)
theory Unicode
  imports Oid
begin

text \<open>
  Code points in UTF-8, Latin-1, UCS-2 and UTF-32,
  \<^verbatim>\<open>BoringSSL-GRPC/src/crypto/bytestring/unicode.c\<close>, read from a \<open>CBS\<close> and written to a \<open>CBB\<close>.
\<close>

section \<open>The operations\<close>

definition is_valid_code_point :: "uint32 \<Rightarrow> bool" where
  "is_valid_code_point v \<longleftrightarrow>
     \<not> (v > 0x10ffff \<or> v AND 0xfffe = 0xfffe \<or> (v \<ge> 0xfdd0 \<and> v \<le> 0xfdef) \<or> (v \<ge> 0xd800 \<and> v \<le> 0xdfff))"

definition BOTTOM_BITS :: "nat \<Rightarrow> byte" where
  "BOTTOM_BITS n = ucast (push_bit n 1 - 1 :: uint32)"

definition TOP_BITS :: "nat \<Rightarrow> byte" where
  "TOP_BITS n = NOT (BOTTOM_BITS (8 - n))"

text \<open>The loop over the continuation bytes.\<close>

primrec utf8_cont :: "heap \<Rightarrow> nat \<Rightarrow> uint32 \<Rightarrow> CBS \<Rightarrow> uint32 option \<times> CBS" where
  "utf8_cont m 0 v = retf v"
| "utf8_cont m (Suc n) v =
     bindf (CBS_get_u8 m) (\<lambda>c cbs.
       if c AND TOP_BITS 2 \<noteq> TOP_BITS 1 then (None, cbs)
       else utf8_cont m n (push_bit 6 v OR ucast (c AND BOTTOM_BITS 6)) cbs)"

definition utf8_finish :: "heap \<Rightarrow> nat \<Rightarrow> uint32 \<Rightarrow> uint32 \<Rightarrow> CBS \<Rightarrow> uint32 option \<times> CBS" where
  "utf8_finish m len v lower_bound =
     bindf (utf8_cont m len v) (\<lambda>v cbs. if \<not> is_valid_code_point v \<or> v < lower_bound then (None, cbs) else (Some v, cbs))"

definition cbs_get_utf8 :: "heap \<Rightarrow> CBS \<Rightarrow> uint32 option \<times> CBS" where
  "cbs_get_utf8 m =
     bindf (CBS_get_u8 m) (\<lambda>c.
       if c \<le> 0x7f then retf (ucast c)
       else if c AND TOP_BITS 3 = TOP_BITS 2 then utf8_finish m 1 (ucast (c AND BOTTOM_BITS 5)) 0x80
       else if c AND TOP_BITS 4 = TOP_BITS 3 then utf8_finish m 2 (ucast (c AND BOTTOM_BITS 4)) 0x800
       else if c AND TOP_BITS 5 = TOP_BITS 4 then utf8_finish m 3 (ucast (c AND BOTTOM_BITS 3)) 0x10000
       else (\<lambda>cbs. (None, cbs)))"

definition cbs_get_latin1 :: "heap \<Rightarrow> CBS \<Rightarrow> uint32 option \<times> CBS" where
  "cbs_get_latin1 m = bindf (CBS_get_u8 m) (\<lambda>c. retf (ucast c))"

definition cbs_get_ucs2_be :: "heap \<Rightarrow> CBS \<Rightarrow> uint32 option \<times> CBS" where
  "cbs_get_ucs2_be m =
     bindf (CBS_get_u16 m) (\<lambda>c cbs. if \<not> is_valid_code_point (ucast c) then (None, cbs) else (Some (ucast c), cbs))"

definition cbs_get_utf32_be :: "heap \<Rightarrow> CBS \<Rightarrow> uint32 option \<times> CBS" where
  "cbs_get_utf32_be m = bindf (CBS_get_u32 m) (\<lambda>v cbs. if is_valid_code_point v then (Some v, cbs) else (None, cbs))"

definition cbb_get_utf8_len :: "uint32 \<Rightarrow> nat" where
  "cbb_get_utf8_len u = (if u \<le> 0x7f then 1 else if u \<le> 0x7ff then 2 else if u \<le> 0xffff then 3 else 4)"

text \<open>A failed conversion writes nothing.\<close>

definition cbb_fail :: "cbb_state \<Rightarrow> unit option \<times> cbb_state" where
  "cbb_fail st = (None, st)"

definition cbb_add_utf8 :: "alloc \<Rightarrow> uint32 \<Rightarrow> cbb_state \<Rightarrow> unit option \<times> cbb_state" where
  "cbb_add_utf8 malloc u =
     (let low = (\<lambda>k. ucast (ucast (TOP_BITS 1) OR (drop_bit k u AND ucast (BOTTOM_BITS 6))) :: byte);
          lead = (\<lambda>n k. ucast (ucast (TOP_BITS n) OR drop_bit k u) :: byte) in
      if \<not> is_valid_code_point u then cbb_fail
      else if u \<le> 0x7f then CBB_add_u8 malloc (ucast u)
      else if u \<le> 0x7ff then
        bindf (CBB_add_u8 malloc (lead 2 6)) (\<lambda>_. CBB_add_u8 malloc (low 0))
      else if u \<le> 0xffff then
        bindf (CBB_add_u8 malloc (lead 3 12)) (\<lambda>_.
        bindf (CBB_add_u8 malloc (low 6)) (\<lambda>_. CBB_add_u8 malloc (low 0)))
      else if u \<le> 0x10ffff then
        bindf (CBB_add_u8 malloc (lead 4 18)) (\<lambda>_.
        bindf (CBB_add_u8 malloc (low 12)) (\<lambda>_.
        bindf (CBB_add_u8 malloc (low 6)) (\<lambda>_. CBB_add_u8 malloc (low 0))))
      else cbb_fail)"

definition cbb_add_latin1 :: "alloc \<Rightarrow> uint32 \<Rightarrow> cbb_state \<Rightarrow> unit option \<times> cbb_state" where
  "cbb_add_latin1 malloc u = (if u \<le> 0xff then CBB_add_u8 malloc (ucast u) else cbb_fail)"

definition cbb_add_ucs2_be :: "alloc \<Rightarrow> uint32 \<Rightarrow> cbb_state \<Rightarrow> unit option \<times> cbb_state" where
  "cbb_add_ucs2_be malloc u =
     (if u \<le> 0xffff \<and> is_valid_code_point u then CBB_add_u16 malloc (ucast u) else cbb_fail)"

definition cbb_add_utf32_be :: "alloc \<Rightarrow> uint32 \<Rightarrow> cbb_state \<Rightarrow> unit option \<times> cbb_state" where
  "cbb_add_utf32_be malloc u = (if is_valid_code_point u then CBB_add_u32 malloc u else cbb_fail)"

text \<open>The reading loop of a client: \<open>n\<close> code points in a row.\<close>

primrec read_all :: "(CBS \<Rightarrow> 'a option \<times> CBS) \<Rightarrow> nat \<Rightarrow> CBS \<Rightarrow> 'a list option \<times> CBS" where
  "read_all f 0 = retf []"
| "read_all f (Suc n) = bindf f (\<lambda>x. bindf (read_all f n) (\<lambda>xs. retf (x # xs)))"

section \<open>Reference encoding\<close>

definition utf8 :: "nat \<Rightarrow> byte list" where
  "utf8 n = map of_nat
     (if n < 0x80 then [n]
      else if n < 0x800 then [0xc0 + n div 64, 0x80 + n mod 64]
      else if n < 0x10000 then [0xe0 + n div 64 div 64, 0x80 + n div 64 mod 64, 0x80 + n mod 64]
      else [0xf0 + n div 64 div 64 div 64, 0x80 + n div 64 div 64 mod 64, 0x80 + n div 64 mod 64, 0x80 + n mod 64])"

section \<open>Bytes\<close>

lemma bits_values: "TOP_BITS 1 = 0x80" "TOP_BITS 2 = 0xc0" "TOP_BITS 3 = 0xe0" "TOP_BITS 4 = 0xf0" "TOP_BITS 5 = 0xf8"
  "BOTTOM_BITS 6 = 0x3f" "BOTTOM_BITS 5 = 0x1f" "BOTTOM_BITS 4 = 0x0f" "BOTTOM_BITS 3 = 0x07"
  by (simp_all add: TOP_BITS_def BOTTOM_BITS_def)

lemma unat_and_mask: "unat (c AND mask n :: 'a::len word) = unat c mod 2 ^ n"
  by (simp only: take_bit_eq_mask[symmetric] unsigned_take_bit_eq) (simp only: take_bit_eq_mod)

lemma unat_and_not_mask: "unat (c AND NOT (mask n) :: 'a::len word) = unat c - unat c mod 2 ^ n"
proof -
  have "(c AND mask n) + (c AND NOT (mask n)) = (c AND mask n) OR (c AND NOT (mask n))"
    by (rule disjunctive_add) (simp add: bit_eq_iff bit_simps)
  also have "\<dots> = c" by (auto simp: bit_eq_iff bit_simps)
  finally have "c AND NOT (mask n) = c - (c AND mask n)" by (metis add_diff_cancel_left')
  moreover have "c AND mask n \<le> c" by (metis word_and_le2)
  ultimately show ?thesis by (simp add: unat_sub unat_and_mask)
qed

lemma byte_complements: "NOT (mask 6) = (0xc0::byte)" "NOT (mask 5) = (0xe0::byte)" "NOT (mask 4) = (0xf0::byte)"
  "NOT (mask 3) = (0xf8::byte)"
  by (simp_all add: mask_eq_exp_minus_1)

lemma block_iff:
  fixes n :: nat
  shows "n - n mod 64 = 128 \<longleftrightarrow> 128 \<le> n \<and> n < 192" "n - n mod 32 = 192 \<longleftrightarrow> 192 \<le> n \<and> n < 224"
    "n - n mod 16 = 224 \<longleftrightarrow> 224 \<le> n \<and> n < 240" "n - n mod 8 = 240 \<longleftrightarrow> 240 \<le> n \<and> n < 248"
  unfolding minus_mod_eq_mult_div by auto

lemma byte_classes:
  fixes c :: byte
  shows "c AND 0xc0 = 0x80 \<longleftrightarrow> 0x80 \<le> unat c \<and> unat c < 0xc0" "c AND 0xe0 = 0xc0 \<longleftrightarrow> 0xc0 \<le> unat c \<and> unat c < 0xe0"
    "c AND 0xf0 = 0xe0 \<longleftrightarrow> 0xe0 \<le> unat c \<and> unat c < 0xf0" "c AND 0xf8 = 0xf0 \<longleftrightarrow> 0xf0 \<le> unat c \<and> unat c < 0xf8"
  using unat_and_not_mask[of c 6, unfolded byte_complements] unat_and_not_mask[of c 5, unfolded byte_complements]
    unat_and_not_mask[of c 4, unfolded byte_complements] unat_and_not_mask[of c 3, unfolded byte_complements]
  by (simp_all add: word_unat_eq_iff block_iff)

lemma and_bottom: "unat (c AND 0x3f :: byte) = unat c mod 64" "unat (c AND 0x1f :: byte) = unat c mod 32"
  "unat (c AND 0x0f :: byte) = unat c mod 16" "unat (c AND 0x07 :: byte) = unat c mod 8"
  using unat_and_mask[of c 6] unat_and_mask[of c 5] unat_and_mask[of c 4] unat_and_mask[of c 3]
  by (simp_all add: mask_eq_exp_minus_1)

section \<open>Reading UTF-8\<close>

abbreviation is_cont :: "byte \<Rightarrow> bool" where
  "is_cont b \<equiv> 0x80 \<le> unat b \<and> unat b < 0xc0"

definition six :: "nat \<Rightarrow> byte list \<Rightarrow> nat" where
  "six v bs = foldl (\<lambda>a b. a * 64 + unat b mod 64) v bs"

lemma unat_shift_six:
  assumes "unat (v :: uint32) < 2 ^ 26"
  shows "unat (push_bit 6 v OR ucast (b AND 0x3f :: byte)) = unat v * 64 + unat b mod 64"
proof -
  have m: "(0x3f :: byte) = mask 6" by (simp add: mask_eq_exp_minus_1)
  have "push_bit 6 v OR ucast (b AND 0x3f) = push_bit 6 v + ucast (b AND 0x3f)"
    unfolding m by (rule disjunctive_add[symmetric]) (auto simp: bit_simps)
  moreover have "unat (push_bit 6 v) = unat v * 64"
    using assms by (simp add: push_bit_eq_mult unat_word_ariths)
  ultimately show ?thesis
    using assms and_bottom(1)[of b] by (simp add: unat_word_ariths unat_ucast_mod)
qed

lemma utf8_cont_iff:
  "(unat v + 1) * 64 ^ k \<le> 2 ^ 32 \<Longrightarrow>
   utf8_cont m k v c = (Some w, c') \<longleftrightarrow>
   k \<le> unat (cb_len c) \<and> list_all is_cont (take k (cview m c)) \<and> unat w = six (unat v) (take k (cview m c)) \<and> c' = cadv k c"
proof (induction k arbitrary: v c)
  case 0
  then show ?case by (auto simp: retf_def six_def word_unat_eq_iff)
next
  case (Suc k)
  show ?case
  proof (cases "cview m c")
    case Nil
    then have "unat (cb_len c) = 0" using length_cview[of m c] by simp
    with Nil show ?thesis by (simp add: bindf_def CBS_get_u8_eq)
  next
    case (Cons b bs)
    have len: "Suc 0 \<le> unat (cb_len c)" by (rule cview_Cons_len[OF Cons])
    have "(unat v + 1) * 64 \<le> (unat v + 1) * 64 * 64 ^ k" by simp
    also have "\<dots> \<le> 2 ^ 32" using Suc.prems by (simp only: power_Suc mult.assoc)
    finally have v: "unat v < 2 ^ 26" by simp
    show ?thesis
    proof (cases "is_cont b")
      case True
      note sh = unat_shift_six[OF v, of b]
      have "(unat v * 64 + unat b mod 64 + 1) * 64 ^ k \<le> ((unat v + 1) * 64) * 64 ^ k"
        by (intro mult_right_mono) (simp_all add: Suc_le_eq)
      then have "(unat (push_bit 6 v OR ucast (b AND 0x3f)) + 1) * 64 ^ k \<le> 2 ^ 32"
        unfolding sh using Suc.prems by (simp only: power_Suc mult.assoc)
      from Suc.IH[OF this] True sh Cons len show ?thesis
        by (auto simp: bindf_def CBS_get_u8_eq bits_values bits_values(1)[simplified] byte_classes six_def)
    next
      case False
      then show ?thesis using Cons by (auto simp: bindf_def CBS_get_u8_eq bits_values bits_values(1)[simplified] byte_classes)
    qed
  qed
qed

lemma utf8_finish_run:
  "utf8_finish m k v lb c = (Some u, c') \<longleftrightarrow> utf8_cont m k v c = (Some u, c') \<and> is_valid_code_point u \<and> unat lb \<le> unat u"
  by (auto simp: utf8_finish_def bindf_def word_less_nat_alt not_less split: prod.splits option.splits)

lemma utf8_finish_iff:
  "(unat v + 1) * 64 ^ k \<le> 2 ^ 32 \<Longrightarrow>
   utf8_finish m k v lb c = (Some u, c') \<longleftrightarrow>
   k \<le> unat (cb_len c) \<and> list_all is_cont (take k (cview m c)) \<and> unat u = six (unat v) (take k (cview m c)) \<and> c' = cadv k c \<and>
   is_valid_code_point u \<and> unat lb \<le> unat u"
  by (simp only: utf8_finish_run utf8_cont_iff conj_assoc)

lemma digit_iff:
  fixes x :: nat
  assumes "q < k"
  shows "j * k + q = x \<longleftrightarrow> j * k \<le> x \<and> x < j * k + k \<and> q = x mod k"
proof
  assume r: "j * k \<le> x \<and> x < j * k + k \<and> q = x mod k"
  then have "x div k = j" by (intro div_nat_eqI) (auto simp: mult.commute)
  then show "j * k + q = x" using r div_mult_mod_eq[of x k] by simp
qed (use assms in auto)

lemma lead_iff:
  fixes x :: nat
  shows "q < 32 \<Longrightarrow> 0xc0 + q = x \<longleftrightarrow> 0xc0 \<le> x \<and> x < 0xe0 \<and> q = x mod 32"
    "q < 16 \<Longrightarrow> 0xe0 + q = x \<longleftrightarrow> 0xe0 \<le> x \<and> x < 0xf0 \<and> q = x mod 16"
    "q < 8 \<Longrightarrow> 0xf0 + q = x \<longleftrightarrow> 0xf0 \<le> x \<and> x < 0xf8 \<and> q = x mod 8"
    "q < 64 \<Longrightarrow> 0x80 + q = x \<longleftrightarrow> 0x80 \<le> x \<and> x < 0xc0 \<and> q = x mod 64"
  using digit_iff[of q 32 6 x] digit_iff[of q 16 14 x] digit_iff[of q 8 30 x] digit_iff[of q 64 2 x] by simp_all

lemma div_mod_64_iff: "(n :: nat) div 64 = q \<and> n mod 64 = r \<longleftrightarrow> n = q * 64 + r \<and> r < 64"
  by auto

primrec conts :: "nat \<Rightarrow> nat \<Rightarrow> byte list" where
  "conts 0 n = []"
| "conts (Suc k) n = conts k (n div 64) @ [of_nat (0x80 + n mod 64)]"

lemma of_nat_byte_iff: "n < 256 \<Longrightarrow> of_nat n = (b :: byte) \<longleftrightarrow> n = unat b"
  by (auto simp: take_bit_eq_mod unat_of_nat)

lemma cont_byte_iff: "of_nat (0x80 + n mod 64) = b \<longleftrightarrow> is_cont b \<and> n mod 64 = unat b mod 64"
proof -
  have "n mod 64 < 64" "0x80 + n mod 64 < 256" by (auto intro: less_trans[of _ 192])
  then show ?thesis by (simp only: of_nat_byte_iff lead_iff) auto
qed

lemma conts_iff:
  "conts k n = bs \<and> n div 64 ^ k = q \<longleftrightarrow> length bs = k \<and> list_all is_cont bs \<and> n = six q bs"
proof (induction k arbitrary: n bs)
  case 0
  then show ?case by (auto simp: six_def)
next
  case (Suc k)
  show ?case
  proof (cases bs rule: rev_cases)
    case (snoc cs b)
    have "conts (Suc k) n = bs \<and> n div 64 ^ Suc k = q \<longleftrightarrow>
        (conts k (n div 64) = cs \<and> n div 64 div 64 ^ k = q) \<and> of_nat (0x80 + n mod 64) = b"
      by (auto simp: snoc div_mult2_eq simp del: of_nat_add)
    also have "\<dots> \<longleftrightarrow> length cs = k \<and> list_all is_cont cs \<and> is_cont b \<and> n div 64 = six q cs \<and> n mod 64 = unat b mod 64"
      by (simp only: Suc.IH cont_byte_iff) auto
    also have "n div 64 = six q cs \<and> n mod 64 = unat b mod 64 \<longleftrightarrow> n = six q bs"
      using div_mod_64_iff[of n "six q cs" "unat b mod 64"] by (simp add: six_def snoc)
    finally show ?thesis by (simp add: snoc)
  qed auto
qed

lemma lead_byte_iff:
  "q < 32 \<Longrightarrow> of_nat (0xc0 + q) = a \<longleftrightarrow> 0xc0 \<le> unat a \<and> unat a < 0xe0 \<and> q = unat a mod 32"
  "q < 16 \<Longrightarrow> of_nat (0xe0 + q) = a \<longleftrightarrow> 0xe0 \<le> unat a \<and> unat a < 0xf0 \<and> q = unat a mod 16"
  "q < 8 \<Longrightarrow> of_nat (0xf0 + q) = a \<longleftrightarrow> 0xf0 \<le> unat a \<and> unat a < 0xf8 \<and> q = unat a mod 8" for a :: byte
  by (simp_all only: of_nat_byte_iff lead_iff add_strict_mono)

lemma utf8_conts:
  "n < 0x80 \<Longrightarrow> utf8 n = [of_nat n]"
  "0x80 \<le> n \<Longrightarrow> n < 0x800 \<Longrightarrow> utf8 n = of_nat (0xc0 + n div 64 ^ 1) # conts 1 n"
  "0x800 \<le> n \<Longrightarrow> n < 0x10000 \<Longrightarrow> utf8 n = of_nat (0xe0 + n div 64 ^ 2) # conts 2 n"
  "0x10000 \<le> n \<Longrightarrow> utf8 n = of_nat (0xf0 + n div 64 ^ 3) # conts 3 n"
  by (simp_all add: utf8_def numeral_2_eq_2 numeral_3_eq_3 div_mult2_eq[symmetric])

lemma ascii_byte: "n < 0x80 \<Longrightarrow> n < (256 :: nat)"
  by simp

lemma quot_small:
  "n < 0x800 \<Longrightarrow> n div 64 ^ 1 < (32 :: nat)" "n < 0x10000 \<Longrightarrow> n div 64 ^ 2 < (16 :: nat)" "n < 0x200000 \<Longrightarrow> n div 64 ^ 3 < (8 :: nat)"
  by (simp_all add: less_mult_imp_div_less)

lemma utf8_lead_iff:
  "n < 0x80 \<Longrightarrow> utf8 n = a # bs \<longleftrightarrow> unat a < 0x80 \<and> bs = [] \<and> n = unat a"
  "0x80 \<le> n \<Longrightarrow> n < 0x800 \<Longrightarrow> utf8 n = a # bs \<longleftrightarrow>
    0xc0 \<le> unat a \<and> unat a < 0xe0 \<and> length bs = 1 \<and> list_all is_cont bs \<and> n = six (unat a mod 32) bs"
  "0x800 \<le> n \<Longrightarrow> n < 0x10000 \<Longrightarrow> utf8 n = a # bs \<longleftrightarrow>
    0xe0 \<le> unat a \<and> unat a < 0xf0 \<and> length bs = 2 \<and> list_all is_cont bs \<and> n = six (unat a mod 16) bs"
  "0x10000 \<le> n \<Longrightarrow> n < 0x200000 \<Longrightarrow> utf8 n = a # bs \<longleftrightarrow>
    0xf0 \<le> unat a \<and> unat a < 0xf8 \<and> length bs = 3 \<and> list_all is_cont bs \<and> n = six (unat a mod 8) bs"
  using conts_iff[of 1 n bs "unat a mod 32"] conts_iff[of 2 n bs "unat a mod 16"] conts_iff[of 3 n bs "unat a mod 8"]
  by (auto simp only: utf8_conts list.inject lead_byte_iff quot_small of_nat_byte_iff ascii_byte)

lemma valid_code_point_less: "is_valid_code_point u \<Longrightarrow> unat u < 0x200000"
  by (auto simp: is_valid_code_point_def word_le_nat_alt word_less_nat_alt)

lemma six_bound: "six v bs < (v + 1) * 64 ^ length bs"
proof (induction bs rule: rev_induct)
  case (snoc b bs)
  have "six v (bs @ [b]) < (six v bs + 1) * 64" by (simp add: six_def)
  also have "\<dots> \<le> (v + 1) * 64 ^ length bs * 64" using snoc by (intro mult_right_mono) simp_all
  finally show ?case by simp
qed (simp add: six_def)

lemma utf8_nonempty: "utf8 n \<noteq> []"
  by (simp add: utf8_def)

lemma six_small:
  "length bs = 1 \<Longrightarrow> six (x mod 32) bs < 0x800" "length bs = 2 \<Longrightarrow> six (x mod 16) bs < 0x10000"
  "length bs = 3 \<Longrightarrow> six (x mod 8) bs < 0x200000"
proof -
  have b: "six (x mod k) bs < k * 64 ^ length bs" if "0 < k" for k
    using six_bound[of "x mod k" bs] mult_right_mono[of "x mod k + 1" k "64 ^ length bs"] mod_less_divisor[OF that, of x] by simp
  show "length bs = 1 \<Longrightarrow> six (x mod 32) bs < 0x800" "length bs = 2 \<Longrightarrow> six (x mod 16) bs < 0x10000"
    "length bs = 3 \<Longrightarrow> six (x mod 8) bs < 0x200000" using b[of 32] b[of 16] b[of 8] by simp_all
qed

lemma utf8_view_Cons: "a # xs = utf8 n @ rest \<longleftrightarrow> (\<exists>bs. utf8 n = a # bs \<and> xs = bs @ rest)"
  using utf8_nonempty[of n] by (cases "utf8 n") auto

lemma utf8_read_case:
  assumes vw: "cview m c = a # xs" and run: "cbs_get_utf8 m c = utf8_finish m k v lb (cadv 1 c)" and v: "(unat v + 1) * 64 ^ k \<le> 2 ^ 32"
    and shape: "\<And>n bs. n < 0x200000 \<Longrightarrow>
      utf8 n = a # bs \<longleftrightarrow> unat lb \<le> n \<and> length bs = k \<and> list_all is_cont bs \<and> n = six (unat v) bs"
  shows "cbs_get_utf8 m c = (Some u, c') \<longleftrightarrow> is_valid_code_point u \<and>
    (\<exists>rest. cview m c = utf8 (unat u) @ rest) \<and> c' = cadv (length (utf8 (unat u))) c"
proof -
  have len: "Suc 0 \<le> unat (cb_len c)" by (rule cview_Cons_len[OF vw])
  have vw1: "cview m (cadv 1 c) = xs" using len vw by simp
  have l1: "unat (cb_len (cadv 1 c)) = length xs" using arg_cong[OF vw1, of length] by simp
  show ?thesis
  proof
    assume "cbs_get_utf8 m c = (Some u, c')"
    then have r: "k \<le> length xs" "list_all is_cont (take k xs)" "unat u = six (unat v) (take k xs)" "c' = cadv k (cadv 1 c)"
        "is_valid_code_point u" "unat lb \<le> unat u"
      unfolding run utf8_finish_iff[OF v] vw1 l1 by blast+
    then have "utf8 (unat u) = a # take k xs"
      using shape[OF valid_code_point_less[OF r(5)], of "take k xs"] by simp
    then show "is_valid_code_point u \<and> (\<exists>rest. cview m c = utf8 (unat u) @ rest) \<and> c' = cadv (length (utf8 (unat u))) c"
      using r len l1 by (intro conjI exI[of _ "drop k xs"]) (simp_all add: vw)
  next
    assume R: "is_valid_code_point u \<and> (\<exists>rest. cview m c = utf8 (unat u) @ rest) \<and> c' = cadv (length (utf8 (unat u))) c"
    then obtain rest where "a # xs = utf8 (unat u) @ rest" using vw by auto
    then obtain bs where bs: "utf8 (unat u) = a # bs" "xs = bs @ rest" by (cases "utf8 (unat u)") (auto simp: utf8_nonempty)
    with shape[OF valid_code_point_less, of u bs] R
    have "unat lb \<le> unat u" "length bs = k" "list_all is_cont bs" "unat u = six (unat v) bs" by auto
    then show "cbs_get_utf8 m c = (Some u, c')"
      unfolding run utf8_finish_iff[OF v] vw1 l1 using R bs len l1 by simp
  qed
qed

lemma utf8_split:
  assumes "n < 0x200000"
  shows "utf8 n = a # bs \<longleftrightarrow>
    (if n < 0x80 then unat a < 0x80 \<and> bs = [] \<and> n = unat a
     else if n < 0x800 then 0xc0 \<le> unat a \<and> unat a < 0xe0 \<and> length bs = 1 \<and> list_all is_cont bs \<and> n = six (unat a mod 32) bs
     else if n < 0x10000 then 0xe0 \<le> unat a \<and> unat a < 0xf0 \<and> length bs = 2 \<and> list_all is_cont bs \<and> n = six (unat a mod 16) bs
     else 0xf0 \<le> unat a \<and> unat a < 0xf8 \<and> length bs = 3 \<and> list_all is_cont bs \<and> n = six (unat a mod 8) bs)"
  using utf8_lead_iff[of n a bs] assms by (auto simp only: not_less split: if_split)

lemma utf8_shape:
  assumes "n < 0x200000"
  shows "0xc0 \<le> unat a \<Longrightarrow> unat a < 0xe0 \<Longrightarrow>
      utf8 n = a # bs \<longleftrightarrow> 0x80 \<le> n \<and> length bs = 1 \<and> list_all is_cont bs \<and> n = six (unat a mod 32) bs"
    "0xe0 \<le> unat a \<Longrightarrow> unat a < 0xf0 \<Longrightarrow>
      utf8 n = a # bs \<longleftrightarrow> 0x800 \<le> n \<and> length bs = 2 \<and> list_all is_cont bs \<and> n = six (unat a mod 16) bs"
    "0xf0 \<le> unat a \<Longrightarrow> unat a < 0xf8 \<Longrightarrow>
      utf8 n = a # bs \<longleftrightarrow> 0x10000 \<le> n \<and> length bs = 3 \<and> list_all is_cont bs \<and> n = six (unat a mod 8) bs"
  using six_small[of bs "unat a"] by (auto simp: utf8_split[OF assms])

lemma ascii_valid: "unat u < 0x80 \<Longrightarrow> is_valid_code_point u"
proof -
  assume u: "unat u < 0x80"
  have "u AND 0xfffe \<le> u" by (rule word_and_le2)
  then have "unat (u AND 0xfffe) < 0x80" using u by (simp add: word_le_nat_alt)
  then show ?thesis using u by (auto simp: is_valid_code_point_def word_le_nat_alt word_less_nat_alt)
qed

lemma utf8_read_iff:
  "cbs_get_utf8 m c = (Some u, c') \<longleftrightarrow> is_valid_code_point u \<and>
    (\<exists>rest. cview m c = utf8 (unat u) @ rest) \<and> c' = cadv (length (utf8 (unat u))) c"
proof (cases "cview m c")
  case Nil
  then show ?thesis by (simp add: cbs_get_utf8_def bindf_def CBS_get_u8_eq utf8_nonempty)
next
  case (Cons a xs)
  consider "unat a < 0x80" | "0x80 \<le> unat a" "unat a < 0xc0" | "0xc0 \<le> unat a" "unat a < 0xe0" | "0xe0 \<le> unat a" "unat a < 0xf0"
    | "0xf0 \<le> unat a" "unat a < 0xf8" | "0xf8 \<le> unat a" by linarith
  then show ?thesis
  proof cases
    case 1
    then have r: "cbs_get_utf8 m c = (Some (ucast a), cadv 1 c)"
      by (simp add: cbs_get_utf8_def bindf_def retf_def CBS_get_u8_eq Cons word_le_nat_alt)
    have n: "unat u < 0x200000 \<Longrightarrow> utf8 (unat u) = a # bs \<longleftrightarrow> u = ucast a \<and> bs = []" for bs
      using 1 by (auto simp: utf8_split word_unat_eq_iff unat_ucast_mod)
    have "is_valid_code_point (ucast a)" using 1 by (intro ascii_valid) (simp add: unat_ucast_mod)
    moreover have "(\<exists>rest. a # xs = utf8 (unat u) @ rest) \<longleftrightarrow> u = ucast a" if "is_valid_code_point u"
      unfolding utf8_view_Cons n[OF valid_code_point_less[OF that]] by blast
    moreover have "length (utf8 (unat (ucast a :: uint32))) = 1"
      using utf8_conts(1)[OF 1] 1 by (simp add: unat_ucast_mod)
    ultimately show ?thesis unfolding r Cons by auto
  next
    case 2
    then have "cbs_get_utf8 m c = (None, cadv 1 c)"
      by (simp add: cbs_get_utf8_def bindf_def CBS_get_u8_eq Cons bits_values byte_classes word_le_nat_alt)
    then show ?thesis using 2 valid_code_point_less[of u] by (auto simp: Cons utf8_view_Cons utf8_split split: if_splits)
  next
    case 3
    then have "cbs_get_utf8 m c = utf8_finish m 1 (ucast (a AND 0x1f)) 0x80 (cadv 1 c)"
      by (simp add: cbs_get_utf8_def bindf_def CBS_get_u8_eq Cons bits_values byte_classes word_le_nat_alt)
    from utf8_read_case[OF Cons this] show ?thesis using utf8_shape(1)[OF _ 3] by (simp add: unat_ucast_mod and_bottom)
  next
    case 4
    then have "cbs_get_utf8 m c = utf8_finish m 2 (ucast (a AND 0x0f)) 0x800 (cadv 1 c)"
      by (simp add: cbs_get_utf8_def bindf_def CBS_get_u8_eq Cons bits_values byte_classes word_le_nat_alt)
    from utf8_read_case[OF Cons this] show ?thesis using utf8_shape(2)[OF _ 4] by (simp add: unat_ucast_mod and_bottom)
  next
    case 5
    then have "cbs_get_utf8 m c = utf8_finish m 3 (ucast (a AND 0x07)) 0x10000 (cadv 1 c)"
      by (simp add: cbs_get_utf8_def bindf_def CBS_get_u8_eq Cons bits_values byte_classes word_le_nat_alt)
    from utf8_read_case[OF Cons this] show ?thesis using utf8_shape(3)[OF _ 5] by (simp add: unat_ucast_mod and_bottom)
  next
    case 6
    then have "cbs_get_utf8 m c = (None, cadv 1 c)"
      by (simp add: cbs_get_utf8_def bindf_def CBS_get_u8_eq Cons bits_values byte_classes word_le_nat_alt)
    then show ?thesis using 6 valid_code_point_less[of u] by (auto simp: Cons utf8_view_Cons utf8_split split: if_splits)
  qed
qed

section \<open>Writing\<close>

lemma or_small:
  fixes x :: "'a::len word"
  assumes "unat x < 2 ^ k"
  shows "push_bit k y OR x = push_bit k y + x"
proof -
  have "x = take_bit k x" using assms by (simp only: word_unat_eq_iff unsigned_take_bit_eq) (simp only: take_bit_eq_mod mod_less)
  then show ?thesis by (metis disjunctive_add bit_push_bit_iff bit_take_bit_iff linorder_not_le)
qed

lemma utf8_lead_byte:
  fixes x :: uint32
  shows "unat x < 32 \<Longrightarrow> ucast (0xc0 OR x) = (of_nat (0xc0 + unat x) :: byte)"
    "unat x < 16 \<Longrightarrow> ucast (0xe0 OR x) = (of_nat (0xe0 + unat x) :: byte)"
    "unat x < 8 \<Longrightarrow> ucast (0xf0 OR x) = (of_nat (0xf0 + unat x) :: byte)"
    "unat x < 64 \<Longrightarrow> ucast (0x80 OR x) = (of_nat (0x80 + unat x) :: byte)"
  using or_small[of x 5 6] or_small[of x 4 14] or_small[of x 3 30] or_small[of x 6 2]
  by (simp_all add: push_bit_eq_mult word_unat_eq_iff unat_ucast_mod unat_word_ariths unat_of_nat)

lemma utf8_cont_byte: "ucast (0x80 OR (x AND 0x3f) :: uint32) = (of_nat (0x80 + unat x mod 64) :: byte)"
proof -
  have "unat (x AND 0x3f) = unat x mod 64" using unat_and_mask[of x 6] by (simp add: mask_eq_exp_minus_1)
  then show ?thesis using utf8_lead_byte(4)[of "x AND 0x3f"] by simp
qed

lemma unat_shifts: "unat (drop_bit 6 u :: uint32) = unat u div 64" "unat (drop_bit 12 u :: uint32) = unat u div 64 div 64"
  "unat (drop_bit 18 u :: uint32) = unat u div 64 div 64 div 64"
  by (simp_all only: unat_drop_bit_eq) (simp_all add: drop_bit_eq_div div_mult2_eq[symmetric])

lemma quot_small3: "n < 0x200000 \<Longrightarrow> n div 64 div 64 div 64 < (8 :: nat)"
  using quot_small(3)[of n] by (simp add: div_mult2_eq[symmetric])

lemma writes_utf8:
  assumes r: "roomy malloc" and ok: "is_valid_code_point u"
  shows "writes (cbb_add_utf8 malloc u) (utf8 (unat u))"
proof -
  let ?n = "unat u"
  note bytes = utf8_lead_byte utf8_cont_byte unat_shifts
  have lim: "u \<le> 0x10ffff" using ok by (auto simp: is_valid_code_point_def)
  consider "?n < 0x80" | "0x80 \<le> ?n" "?n < 0x800" | "0x800 \<le> ?n" "?n < 0x10000" | "0x10000 \<le> ?n" by linarith
  then show ?thesis
  proof cases
    case 1
    then have "cbb_add_utf8 malloc u = CBB_add_u8 malloc (of_nat ?n)" "utf8 ?n = [of_nat ?n]"
      using ok by (simp_all add: cbb_add_utf8_def word_le_nat_alt utf8_conts Let_def)
    then show ?thesis using writes_u8[OF r] by simp
  next
    case 2
    then have "writes (cbb_add_utf8 malloc u) ([of_nat (0xc0 + ?n div 64)] @ [of_nat (0x80 + ?n mod 64)])"
      using ok less_mult_imp_div_less[of ?n 32 64] 
      by (simp add: cbb_add_utf8_def word_le_nat_alt Let_def bits_values bits_values(1)[simplified] bytes del: of_nat_add append.simps)
        (intro writes_bind writes_u8 r)
    then show ?thesis using 2 by (simp add: utf8_def)
  next
    case 3
    then have "writes (cbb_add_utf8 malloc u) ([of_nat (0xe0 + ?n div 64 div 64)] @ [of_nat (0x80 + ?n div 64 mod 64)] @ [of_nat (0x80 + ?n mod 64)])"
      using ok less_mult_imp_div_less[of "?n div 64" 16 64] less_mult_imp_div_less[of ?n 1024 64] 
      by (simp add: cbb_add_utf8_def word_le_nat_alt Let_def bits_values bits_values(1)[simplified] bytes del: of_nat_add append.simps)
        (intro writes_bind writes_u8 r)
    then show ?thesis using 3 by (simp add: utf8_def)
  next
    case 4
    then have "writes (cbb_add_utf8 malloc u) ([of_nat (0xf0 + ?n div 64 div 64 div 64)] @ [of_nat (0x80 + ?n div 64 div 64 mod 64)] @
        [of_nat (0x80 + ?n div 64 mod 64)] @ [of_nat (0x80 + ?n mod 64)])"
      using ok lim quot_small3[OF valid_code_point_less[OF ok]]
      by (simp add: cbb_add_utf8_def word_le_nat_alt Let_def bits_values bits_values(1)[simplified] bytes del: of_nat_add append.simps)
        (intro writes_bind writes_u8 r)
    then show ?thesis using 4 by (simp add: utf8_def)
  qed
qed

lemma utf8_len_eq: "cbb_get_utf8_len u = length (utf8 (unat u))"
  by (auto simp: cbb_get_utf8_len_def utf8_def word_le_nat_alt)

section \<open>Fixed-width encodings\<close>

lemma writes_add_u: "roomy malloc \<Longrightarrow> n \<noteq> 0 \<Longrightarrow> n \<le> 8 \<Longrightarrow> unat v < 2 ^ (8 * n) \<Longrightarrow> writes (cbb_add_u malloc v n) (be_bytes n v)"
  using refines_weaken[OF refines_add_u[of n malloc v], of "adds (be_bytes n v)"] live_add_u[of malloc n v]
  by (simp add: writes_def appends_def adds_def)

lemma cbs_get_u_iff:
  assumes "n \<le> 8"
  shows "cbs_get_u m n c = (Some v, c') \<longleftrightarrow>
    unat v < 2 ^ (8 * n) \<and> (\<exists>rest. cview m c = be_bytes n v @ rest) \<and> c' = cadv n c"
proof
  assume "cbs_get_u m n c = (Some v, c')"
  then have r: "n \<le> unat (cb_len c)" "v = be_word (take n (cview m c))" "c' = cadv n c"
    by (auto simp: cbs_get_u_eq[OF assms] split: if_splits)
  then have "be_bytes n v = take n (cview m c)" using be_word_bytes[of "take n (cview m c)" n, where 'a = 64] assms by simp
  then have "cview m c = be_bytes n v @ drop n (cview m c)" by simp
  then show "unat v < 2 ^ (8 * n) \<and> (\<exists>rest. cview m c = be_bytes n v @ rest) \<and> c' = cadv n c"
    using r unat_be_word_less[of "take n (cview m c)" n] assms by (intro conjI exI) auto
next
  assume R: "unat v < 2 ^ (8 * n) \<and> (\<exists>rest. cview m c = be_bytes n v @ rest) \<and> c' = cadv n c"
  then obtain rest where vw: "cview m c = be_bytes n v @ rest" by blast
  have "be_word (be_bytes n v) = v"
    using be_word_be_bytes_nat[of "unat v" n] assms R by simp
  moreover have "n \<le> unat (cb_len c)" using arg_cong[OF vw, of length] by simp
  ultimately show "cbs_get_u m n c = (Some v, c')"
    using R by (simp add: cbs_get_u_eq[OF assms] vw)
qed

section \<open>One contract for the four encodings\<close>

text \<open>
  A reader and a writer of code points agree on an encoding: the reader accepts exactly the
  encodings of the admissible code points, the writer appends them and refuses every other code
  point without touching the builder.
\<close>

locale code_points =
  fixes get :: "heap \<Rightarrow> CBS \<Rightarrow> uint32 option \<times> CBS"
    and add :: "alloc \<Rightarrow> uint32 \<Rightarrow> cbb_state \<Rightarrow> unit option \<times> cbb_state"
    and enc :: "uint32 \<Rightarrow> byte list"
    and ok :: "uint32 \<Rightarrow> bool"
  assumes get_iff: "get m c = (Some u, c') \<longleftrightarrow>
      ok u \<and> (\<exists>rest. cview m c = enc u @ rest) \<and> c' = cadv (length (enc u)) c"
    and add_writes: "roomy malloc \<Longrightarrow> ok u \<Longrightarrow> writes (add malloc u) (enc u)"
    and add_refuses: "\<not> ok u \<Longrightarrow> add malloc u st = (None, st)"
begin

lemma get_all:
  "list_all ok us \<Longrightarrow> cview m c = concat (map enc us) \<Longrightarrow>
   read_all (get m) (length us) c = (Some us, cadv (unat (cb_len c)) c)"
proof (induction us arbitrary: c)
  case (Cons u us)
  have k: "length (enc u) \<le> unat (cb_len c)" using arg_cong[OF Cons.prems(2), of length] by simp
  have "get m c = (Some u, cadv (length (enc u)) c)" using Cons.prems by (auto simp: get_iff)
  moreover have "read_all (get m) (length us) (cadv (length (enc u)) c) = (Some us, cadv (unat (cb_len c)) c)"
    using Cons.IH[of "cadv (length (enc u)) c"] Cons.prems k by simp
  ultimately show ?case by (simp add: bindf_def retf_def)
next
  case Nil
  then have "unat (cb_len c) = 0" using length_cview[of m c] by simp
  then show ?case by (simp add: retf_def)
qed

lemma string_roundtrip:
  assumes "roomy malloc" "CBB_init malloc n = Some st" "list_all ok us" "length (concat (map enc us)) < 2 ^ 62"
  shows "\<exists>x st' bs len. each (add malloc) us st = (Some x, st') \<and> CBB_finish malloc False False st' = Some (bs, len) \<and>
    take (unat len) bs = concat (map enc us) \<and>
    fst (read_all (get (\<lambda>i. bs ! i)) (length us) (CBS_init 0 len)) = Some us"
proof -
  have "writes (each (add malloc) us) (concat (map enc us))"
    using assms(1,3) by (intro writes_each add_writes) (auto simp: list_all_iff)
  from writes_finish[OF assms(1,2) this assms(4)] obtain x st' bs len
    where f: "each (add malloc) us st = (Some x, st')" "CBB_finish malloc False False st' = Some (bs, len)"
      "take (unat len) bs = concat (map enc us)" "unat len = length (concat (map enc us))" by blast
  from get_all[OF assms(3) cview_buffer[OF f(3,4)]] f show ?thesis by auto
qed

lemma enc_prefix_free:
  assumes "ok u" "ok v" "enc u @ xs = enc v @ ys" "length (enc u @ xs) < 2 ^ 64"
  shows "u = v"
proof -
  define c where "c = \<lparr>cb_data = 0, cb_len = (of_nat (length (enc u @ xs)) :: size_t)\<rparr>"
  define m where "m = (\<lambda>i. (enc u @ xs) ! i)"
  have "unat (cb_len c) = length (enc u @ xs)" unfolding c_def using assms(4) by (simp only: CBS.simps unat_of_nat_size)
  then have "cview m c = enc u @ xs"
    using read_bytes_nth[of "length (enc u @ xs)" "enc u @ xs"] by (simp add: cview_def m_def c_def)
  then have "get m c = (Some u, cadv (length (enc u)) c)" "get m c = (Some v, cadv (length (enc v)) c)"
    unfolding get_iff using assms(1-3) by metis+
  then show ?thesis by simp
qed

end

definition utf32_enc :: "uint32 \<Rightarrow> byte list" where
  "utf32_enc u = be_bytes 4 (ucast u :: uint64)"

definition ucs2_enc :: "uint32 \<Rightarrow> byte list" where
  "ucs2_enc u = be_bytes 2 (ucast u :: uint64)"

abbreviation ucs2_ok :: "uint32 \<Rightarrow> bool" where
  "ucs2_ok u \<equiv> u \<le> 0xffff \<and> is_valid_code_point u"

lemma narrow_iff:
  "unat (v :: uint64) < 2 ^ 32 \<and> ucast v = (u :: uint32) \<longleftrightarrow> v = ucast u"
  "unat (v :: uint64) < 2 ^ 16 \<and> ucast (ucast v :: uint16) = (u :: uint32) \<longleftrightarrow> u \<le> 0xffff \<and> v = ucast u"
  "ucast (b :: byte) = (u :: uint32) \<longleftrightarrow> u \<le> 0xff \<and> b = ucast u"
proof -
  have "unat u < 2 ^ 32" using unsigned_less[of u] by simp
  then show "unat (v :: uint64) < 2 ^ 32 \<and> ucast v = (u :: uint32) \<longleftrightarrow> v = ucast u"
    "unat (v :: uint64) < 2 ^ 16 \<and> ucast (ucast v :: uint16) = (u :: uint32) \<longleftrightarrow> u \<le> 0xffff \<and> v = ucast u"
    "ucast (b :: byte) = (u :: uint32) \<longleftrightarrow> u \<le> 0xff \<and> b = ucast u"
    using unat_byte_less[of b] by (auto simp: word_unat_eq_iff unat_ucast_mod word_le_nat_alt)
qed

lemma narrow_u16: "u \<le> 0xffff \<Longrightarrow> ucast (ucast (u :: uint32) :: uint16) = (ucast u :: uint64)"
  by (auto simp: word_unat_eq_iff unat_ucast_mod word_le_nat_alt)

lemma CBS_get_u_iff:
  "CBS_get_u32 m c = (Some u, c') \<longleftrightarrow> (\<exists>rest. cview m c = be_bytes 4 (ucast u :: uint64) @ rest) \<and> c' = cadv 4 c"
  "(\<exists>w. CBS_get_u16 m c = (Some w, c') \<and> ucast w = u) \<longleftrightarrow>
    u \<le> 0xffff \<and> (\<exists>rest. cview m c = be_bytes 2 (ucast u :: uint64) @ rest) \<and> c' = cadv 2 c"
proof -
  have "CBS_get_u32 m c = (Some u, c') \<longleftrightarrow> (\<exists>v. cbs_get_u m 4 c = (Some v, c') \<and> ucast v = u)"
    "(\<exists>w. CBS_get_u16 m c = (Some w, c') \<and> ucast w = u) \<longleftrightarrow>
      (\<exists>v. cbs_get_u m 2 c = (Some v, c') \<and> ucast (ucast v :: uint16) = u)"
    by (auto simp: CBS_get_u32_def CBS_get_u16_def bindf_def retf_def split: prod.splits option.splits)
  then show "CBS_get_u32 m c = (Some u, c') \<longleftrightarrow> (\<exists>rest. cview m c = be_bytes 4 (ucast u :: uint64) @ rest) \<and> c' = cadv 4 c"
    "(\<exists>w. CBS_get_u16 m c = (Some w, c') \<and> ucast w = u) \<longleftrightarrow>
    u \<le> 0xffff \<and> (\<exists>rest. cview m c = be_bytes 2 (ucast u :: uint64) @ rest) \<and> c' = cadv 2 c"
    using narrow_iff(1,2)[of _ u] by (simp_all add: cbs_get_u_iff) metis+
qed

interpretation utf8: code_points cbs_get_utf8 cbb_add_utf8 "\<lambda>u. utf8 (unat u)" is_valid_code_point
proof unfold_locales
  show "roomy malloc \<Longrightarrow> is_valid_code_point u \<Longrightarrow> writes (cbb_add_utf8 malloc u) (utf8 (unat u))" for malloc u
    by (rule writes_utf8)
qed (auto simp: utf8_read_iff cbb_add_utf8_def cbb_fail_def Let_def)

interpretation latin1: code_points cbs_get_latin1 cbb_add_latin1 "\<lambda>u. [ucast u]" "\<lambda>u. u \<le> 0xff"
proof unfold_locales
  fix m c u c'
  show "cbs_get_latin1 m c = (Some u, c') \<longleftrightarrow>
    u \<le> 0xff \<and> (\<exists>rest. cview m c = [ucast u] @ rest) \<and> c' = cadv (length [ucast u :: byte]) c"
    by (auto simp: cbs_get_latin1_def bindf_def retf_def CBS_get_u8_eq narrow_iff split: list.splits)
qed (auto simp: cbb_add_latin1_def cbb_fail_def writes_u8)

interpretation utf32: code_points cbs_get_utf32_be cbb_add_utf32_be utf32_enc is_valid_code_point
proof unfold_locales
  fix m c u c'
  have "cbs_get_utf32_be m c = (Some u, c') \<longleftrightarrow> CBS_get_u32 m c = (Some u, c') \<and> is_valid_code_point u"
    by (auto simp: cbs_get_utf32_be_def bindf_def split: prod.splits option.splits)
  then show "cbs_get_utf32_be m c = (Some u, c') \<longleftrightarrow>
    is_valid_code_point u \<and> (\<exists>rest. cview m c = utf32_enc u @ rest) \<and> c' = cadv (length (utf32_enc u)) c"
    by (auto simp: CBS_get_u_iff(1) utf32_enc_def)
next
  fix malloc u assume "roomy malloc" "is_valid_code_point u"
  then show "writes (cbb_add_utf32_be malloc u) (utf32_enc u)"
    using writes_add_u[of malloc 4 "ucast u"] narrow_iff(1)[of "ucast u" u]
    by (simp add: cbb_add_utf32_be_def CBB_add_u32_def utf32_enc_def)
qed (auto simp: cbb_add_utf32_be_def cbb_fail_def)

interpretation ucs2: code_points cbs_get_ucs2_be cbb_add_ucs2_be ucs2_enc ucs2_ok
proof unfold_locales
  fix m c u c'
  have "cbs_get_ucs2_be m c = (Some u, c') \<longleftrightarrow> (\<exists>w. CBS_get_u16 m c = (Some w, c') \<and> ucast w = u) \<and> is_valid_code_point u"
    by (auto simp: cbs_get_ucs2_be_def bindf_def split: prod.splits option.splits)
  then show "cbs_get_ucs2_be m c = (Some u, c') \<longleftrightarrow>
    ucs2_ok u \<and> (\<exists>rest. cview m c = ucs2_enc u @ rest) \<and> c' = cadv (length (ucs2_enc u)) c"
    unfolding CBS_get_u_iff(2) by (auto simp: ucs2_enc_def)
next
  fix malloc u assume "roomy malloc" "ucs2_ok u"
  then show "writes (cbb_add_ucs2_be malloc u) (ucs2_enc u)"
    using writes_add_u[of malloc 2 "ucast u"] narrow_iff(2)[of "ucast u" u]
    by (simp add: cbb_add_ucs2_be_def CBB_add_u16_def ucs2_enc_def narrow_u16)
qed (auto simp: cbb_add_ucs2_be_def cbb_fail_def)

section \<open>Properties\<close>

text \<open>
  C29. \<open>cbs_get_utf8\<close> is an exact UTF-8 decoder: it returns a code point if and only if that code
  point is admissible (no surrogate, no noncharacter, at most \<open>0x10ffff\<close>) and the string begins
  with its shortest UTF-8 form, and it consumes exactly those bytes; in particular overlong forms
  are refused.
\<close>

theorem utf8_reader_exact:
  "cbs_get_utf8 m c = (Some u, c') \<longleftrightarrow> is_valid_code_point u \<and>
    (\<exists>rest. cview m c = utf8 (unat u) @ rest) \<and> c' = cadv (cbb_get_utf8_len u) c"
  unfolding utf8_len_eq by (rule utf8_read_iff)

text \<open>
  C30. Every sequence of admissible code points survives a trip through \<open>cbb_add_utf8\<close> and
  \<open>cbs_get_utf8\<close>: the writer succeeds, the finished buffer is the concatenation of the UTF-8 forms,
  and the reader returns the sequence.
\<close>

theorem utf8_string_roundtrip:
  assumes "roomy malloc" "CBB_init malloc n = Some st" "list_all is_valid_code_point us"
    and "length (concat (map (\<lambda>u. utf8 (unat u)) us)) < 2 ^ 62"
  shows "\<exists>x st' bs len. each (cbb_add_utf8 malloc) us st = (Some x, st') \<and> CBB_finish malloc False False st' = Some (bs, len) \<and>
    take (unat len) bs = concat (map (\<lambda>u. utf8 (unat u)) us) \<and>
    fst (read_all (cbs_get_utf8 (\<lambda>i. bs ! i)) (length us) (CBS_init 0 len)) = Some us"
  using assms by (rule utf8.string_roundtrip)

theorem utf8_string_roundtrip_witness:
  "\<exists>x st' bs len. each (cbb_add_utf8 (\<lambda>_. Some (\<lambda>_. 0))) [0x41, 0x20ac, 0x1f600] (the (CBB_init (\<lambda>_. Some (\<lambda>_. 0)) 0)) = (Some x, st') \<and>
    CBB_finish (\<lambda>_. Some (\<lambda>_. 0)) False False st' = Some (bs, len) \<and>
    take (unat len) bs = [0x41, 0xe2, 0x82, 0xac, 0xf0, 0x9f, 0x98, 0x80] \<and>
    fst (read_all (cbs_get_utf8 (\<lambda>i. bs ! i)) 3 (CBS_init 0 len)) = Some [0x41, 0x20ac, 0x1f600]"
proof -
  let ?us = "[0x41, 0x20ac, 0x1f600] :: uint32 list"
  have r: "roomy (\<lambda>_. Some (\<lambda>_. 0))" by (simp add: roomy_def)
  obtain st where st: "CBB_init (\<lambda>_. Some (\<lambda>_. 0)) 0 = Some st" using CBB_init_succeeds[OF r, of 0] by auto
  have us: "list_all is_valid_code_point ?us" by code_simp
  have e: "concat (map (\<lambda>u. utf8 (unat u)) ?us) = [0x41, 0xe2, 0x82, 0xac, 0xf0, 0x9f, 0x98, 0x80]" by (simp add: utf8_def)
  from utf8_string_roundtrip[OF r st us] show ?thesis unfolding e st by (simp add: numeral_3_eq_3)
qed

end
