(* ===== verification/Ber.thy ===== *)
theory Ber
  imports Oid
begin

text \<open>
  Conversion of BER to DER, \<^verbatim>\<open>BoringSSL-GRPC/src/crypto/bytestring/ber.c\<close>: the walk that looks for
  indefinite lengths and constructed strings, the converter that rewrites them, and the reader of
  implicitly tagged strings.
\<close>

section \<open>The operations\<close>

definition kMaxDepth :: nat where
  "kMaxDepth = 2048"

definition string_types :: "uint32 list" where
  "string_types = [0x4, 0xc, 0x12, 0x13, 0x14, 0x15, 0x16, 0x19, 0x1a, 0x1b, 0x1c, 0x1e]"

definition is_string_type :: "uint32 \<Rightarrow> bool" where
  "is_string_type tag \<longleftrightarrow> tag AND NOT CBS_ASN1_CONSTRUCTED \<in> set string_types"

subsection \<open>The walk\<close>

text \<open>Every element, and the rest behind it, is shorter than the string it is taken from.\<close>

lemma element_header_pos:
  assumes "cbs_get_any_asn1_element m ber c = (Some (out, t, hl, f), c')"
  shows "0 < unat hl"
proof -
  obtain t1 k b bs where "tag_then m c t1 k b bs" using element_tag_then[OF assms] by blast
  note tt = tag_then_facts[OF this]
  have num: "unat (b AND 0x7f) < 128" by (simp add: byte_low7)
  have e: "hl = of_nat (Suc k) \<or> hl = of_nat (Suc k) + of_nat (unat (b AND 0x7f))"
    using assms tt by (auto simp: cbs_get_any_asn1_element_def CBS_get_u8_eq CBS_len_def cb_len_diff Let_def bindf_def retf_def
        CBS_get_bytes_eq simp del: of_nat_Suc of_nat_unat split: if_splits option.splits prod.splits)
  have "unat (of_nat (Suc k + unat (b AND 0x7f)) :: size_t) = Suc k + unat (b AND 0x7f)"
    using tt(8) num by (intro unat_of_nat_size) simp
  then show ?thesis using e tt(9) by (auto simp del: of_nat_Suc of_nat_unat simp flip: of_nat_add)
qed

lemma CBS_skip_eq: "CBS_skip n c = (if unat n \<le> unat (cb_len c) then (Some (), cadv (unat n) c) else (None, c))"
  by (simp add: CBS_skip_def bindf_def retf_def cbs_get_eq)

lemma ber_element_shrinks:
  assumes "CBS_get_any_ber_asn1_element m c = (Some (e, t, hl, f), c')"
  shows "unat (cb_len c') < unat (cb_len c)" and "CBS_skip hl e = (Some u, e') \<Longrightarrow> unat (cb_len e') < unat (cb_len c)"
  using element_prefix[OF assms[unfolded CBS_get_any_ber_asn1_element_def]] element_header_pos[OF assms[unfolded CBS_get_any_ber_asn1_element_def]]
  by (auto simp: CBS_skip_eq split: if_splits)

lemma ber_contents_shrink:
  "(Some (e, t, hl, f), c') = CBS_get_any_ber_asn1_element m c \<Longrightarrow> (Some u, e') = CBS_skip hl e \<Longrightarrow>
   Suc (2 * unat (cb_len e')) < 2 * unat (cb_len c)"
  using ber_element_shrinks(2)[OF sym sym] by fastforce

text \<open>
  \<open>found\<close> is the current value of \<open>*ber_found\<close>, which the next element parsed overwrites. \<open>None\<close> is
  an error.
\<close>

function cbs_find_ber :: "heap \<Rightarrow> CBS \<Rightarrow> nat \<Rightarrow> bool option"
  and find_ber_loop :: "heap \<Rightarrow> CBS \<Rightarrow> nat \<Rightarrow> bool \<Rightarrow> bool option" where
  "cbs_find_ber m orig_in depth =
     (if depth > kMaxDepth then None else find_ber_loop m (CBS_init (CBS_data orig_in) (CBS_len orig_in)) depth False)"
| "find_ber_loop m cin depth found =
     (if CBS_len cin > 0 then
        case CBS_get_any_ber_asn1_element m cin of
          (None, _) \<Rightarrow> None
        | (Some (contents, tag, header_len, ber), cin') \<Rightarrow>
            if ber then Some True
            else if tag AND CBS_ASN1_CONSTRUCTED \<noteq> 0 then
              if is_string_type tag then Some True
              else (case CBS_skip header_len contents of
                (None, _) \<Rightarrow> None
              | (Some _, contents') \<Rightarrow>
                  (case cbs_find_ber m contents' (depth + 1) of
                    None \<Rightarrow> None
                  | Some found' \<Rightarrow> find_ber_loop m cin' depth found'))
            else find_ber_loop m cin' depth ber
      else Some found)"
  by pat_completeness auto
termination
  by (relation "measure (\<lambda>x. case x of Inl (_, c, _) \<Rightarrow> 2 * unat (cb_len c) + 1 | Inr (_, c, _, _) \<Rightarrow> 2 * unat (cb_len c))")
     (auto simp: CBS_init_def CBS_data_def CBS_len_def dest: ber_element_shrinks(1)[OF sym] ber_contents_shrink)

subsection \<open>The converter\<close>

definition is_eoc :: "heap \<Rightarrow> size_t \<Rightarrow> CBS \<Rightarrow> bool" where
  "is_eoc m header_len contents \<longleftrightarrow>
     header_len = 2 \<and> CBS_len contents = 2 \<and> read_bytes m (CBS_data contents) 2 = [0, 0]"

definition is_indefinite :: "heap \<Rightarrow> size_t \<Rightarrow> CBS \<Rightarrow> bool" where
  "is_indefinite m header_len contents \<longleftrightarrow>
     CBS_len contents = header_len \<and> header_len > 0 \<and> m (CBS_data contents + unat (header_len - 1)) = 0x80"

text \<open>\<open>out_contents\<close> is the new child, or \<open>out\<close> itself for the fragments of a string.\<close>

definition on_contents :: "bool \<Rightarrow> (cbb_state \<Rightarrow> 'a option \<times> cbb_state) \<Rightarrow> cbb_state \<Rightarrow> 'a option \<times> cbb_state" where
  "on_contents new f st = (if new then on_child f st else f st)"

lemma on_contents_cong [fundef_cong]:
  assumes "new = new'" "st = st'"
    and "\<And>s. s = (if new' then (the (child (fst st')), snd st') else st') \<Longrightarrow> f s = g s"
  shows "on_contents new f st = on_contents new' g st'"
  using assms by (cases st') (auto simp: on_contents_def on_child_def split: option.splits)

definition clears :: "uint32 \<Rightarrow> uint32 \<Rightarrow> bool" where
  "clears string_tag tag \<longleftrightarrow> string_tag = 0 \<and> tag AND CBS_ASN1_CONSTRUCTED \<noteq> 0 \<and> is_string_type tag"

definition out_tag :: "uint32 \<Rightarrow> uint32 \<Rightarrow> uint32" where
  "out_tag string_tag tag = (if clears string_tag tag then tag AND NOT CBS_ASN1_CONSTRUCTED else tag)"

definition child_string_tag :: "uint32 \<Rightarrow> uint32 \<Rightarrow> uint32" where
  "child_string_tag string_tag tag = (if clears string_tag tag then out_tag string_tag tag else string_tag)"

definition open_contents :: "alloc \<Rightarrow> uint32 \<Rightarrow> uint32 \<Rightarrow> cbb_state \<Rightarrow> unit option \<times> cbb_state" where
  "open_contents malloc string_tag tag = (if string_tag \<noteq> 0 then retf () else CBB_add_asn1 malloc tag)"

text \<open>
  The loop of \<open>cbs_convert_ber\<close>. The result is the position of \<open>in\<close> when the loop returns one, and \<open>None\<close>
  when it returns zero; the checks of the depth stand where the recursive calls are.
\<close>

function convert_loop :: "heap \<Rightarrow> alloc \<Rightarrow> uint32 \<Rightarrow> bool \<Rightarrow> nat \<Rightarrow> CBS \<Rightarrow> cbb_state \<Rightarrow> CBS option \<times> cbb_state" where
  "convert_loop m malloc string_tag looking_for_eoc depth cin st =
     (if CBS_len cin > 0 then
        case CBS_get_any_ber_asn1_element m cin of
          (None, _) \<Rightarrow> (None, st)
        | (Some (contents, tag, header_len, ber_found), cin') \<Rightarrow>
            if is_eoc m header_len contents then (if looking_for_eoc then Some cin' else None, st)
            else if string_tag \<noteq> 0 \<and> tag AND NOT CBS_ASN1_CONSTRUCTED \<noteq> string_tag then (None, st)
            else (case open_contents malloc string_tag (out_tag string_tag tag) st of
                (None, st) \<Rightarrow> (None, st)
              | (Some _, st) \<Rightarrow>
                  if is_indefinite m header_len contents then
                    (case on_contents (string_tag = 0)
                           (\<lambda>s. if depth + 1 > kMaxDepth then (None, s)
                                else convert_loop m malloc (child_string_tag string_tag tag) True (depth + 1) cin' s) st of
                      (None, st) \<Rightarrow> (None, st)
                    | (Some cin'', st) \<Rightarrow>
                        (case CBB_flush malloc st of
                          (None, st) \<Rightarrow> (None, st)
                        | (Some _, st) \<Rightarrow> convert_loop m malloc string_tag looking_for_eoc depth cin'' st))
                  else (case CBS_skip header_len contents of
                    (None, _) \<Rightarrow> (None, st)
                  | (Some _, contents') \<Rightarrow>
                      (case on_contents (string_tag = 0)
                             (\<lambda>s. if tag AND CBS_ASN1_CONSTRUCTED \<noteq> 0 then
                                    if depth + 1 > kMaxDepth then (None, s)
                                    else (case convert_loop m malloc (child_string_tag string_tag tag) False (depth + 1) contents' s of
                                      (r, s) \<Rightarrow> (map_option (\<lambda>_. ()) r, s))
                                  else CBB_add_bytes malloc (read_bytes m (CBS_data contents') (unat (CBS_len contents'))) s) st of
                        (None, st) \<Rightarrow> (None, st)
                      | (Some _, st) \<Rightarrow>
                          (case CBB_flush malloc st of
                            (None, st) \<Rightarrow> (None, st)
                          | (Some _, st) \<Rightarrow> convert_loop m malloc string_tag looking_for_eoc depth cin' st))))
      else (if looking_for_eoc then None else Some cin, st))"
  by pat_completeness auto

lemma on_contents_result:
  "on_contents new f st = (Some x, st') \<Longrightarrow>
   \<exists>s s'. s = (if new then (the (child (fst st)), snd st) else st) \<and> f s = (Some x, s')"
  by (cases st) (auto simp: on_contents_def on_child_def split: option.splits prod.splits if_splits)

lemma convert_loop_le:
  "convert_loop_dom (m, malloc, tg, eoc, d, cin, st) \<Longrightarrow> convert_loop m malloc tg eoc d cin st = (Some c', st') \<Longrightarrow>
   unat (cb_len c') \<le> unat (cb_len cin)"
proof (induction m malloc tg eoc d cin st arbitrary: c' st' rule: convert_loop.pinduct)
  case (1 m malloc tg eoc d cin st)
  note dom = 1(1) and inner = 1(2) and next_indef = 1(3) and next_def = 1(5) and run = 1(6)
  consider (stop) "\<not> 0 < CBS_len cin" | (fail) cin' where "0 < CBS_len cin" "CBS_get_any_ber_asn1_element m cin = (None, cin')"
    | (elem) e t hl f cin' where "0 < CBS_len cin" "CBS_get_any_ber_asn1_element m cin = (Some (e, t, hl, f), cin')"
    by (metis not_None_eq prod_cases4 prod.collapse)
  then show ?case
  proof cases
    case stop
    then show ?thesis using run by (auto simp: convert_loop.psimps[OF dom] split: if_splits)
  next
    case fail
    then show ?thesis using run by (simp add: convert_loop.psimps[OF dom])
  next
    case elem
    note le = ber_element_shrinks(1)[OF elem(2)]
    note run = run[unfolded convert_loop.psimps[OF dom], simplified elem if_True option.case prod.case]
    show ?thesis
    proof (cases "is_eoc m hl e \<or> tg \<noteq> 0 \<and> t AND NOT CBS_ASN1_CONSTRUCTED \<noteq> tg")
      case True
      then show ?thesis using run le by (auto split: if_splits)
    next
      case False
      then have eoc: "\<not> is_eoc m hl e" "\<not> (tg \<noteq> 0 \<and> t AND NOT CBS_ASN1_CONSTRUCTED \<noteq> tg)" by auto
      note run = run[unfolded if_not_P[OF eoc(1)] if_not_P[OF eoc(2)]]
      obtain st1 where op: "open_contents malloc tg (out_tag tg t) st = (Some (), st1)"
        using run by (cases "open_contents malloc tg (out_tag tg t) st") (auto split: option.splits)
      note run = run[unfolded op option.case prod.case]
      show ?thesis
      proof (cases "is_indefinite m hl e")
        case True
        let ?f = "\<lambda>s. if d + 1 > kMaxDepth then (None, s) else convert_loop m malloc (child_string_tag tg t) True (d + 1) cin' s"
        obtain c2 st2 where oc: "on_contents (tg = 0) ?f st1 = (Some c2, st2)"
          using run[unfolded if_P[OF True]] by (cases "on_contents (tg = 0) ?f st1") (auto split: option.splits)
        obtain st3 where fl: "CBB_flush malloc st2 = (Some (), st3)"
          using run[unfolded if_P[OF True] oc option.case prod.case] by (cases "CBB_flush malloc st2") (auto split: option.splits)
        obtain s s' where s: "s = (if tg = 0 then (the (child (fst st1)), snd st1) else st1)" "?f s = (Some c2, s')"
          using on_contents_result[OF oc] by blast
        then have deep: "\<not> kMaxDepth < d + 1" "convert_loop m malloc (child_string_tag tg t) True (d + 1) cin' s = (Some c2, s')"
          by (auto split: if_splits)
        note pre = elem(1) elem(2)[symmetric] refl refl refl refl eoc op[symmetric] refl True
        have "unat (cb_len c2) \<le> unat (cb_len cin')" by (rule inner[OF pre s(1) deep])
        moreover have "unat (cb_len c') \<le> unat (cb_len c2)"
          by (rule next_indef[OF pre oc[symmetric] refl fl[symmetric] refl run[unfolded if_P[OF True] oc fl option.case prod.case]])
        ultimately show ?thesis using le by linarith
      next
        case False
        note run = run[unfolded if_not_P[OF False]]
        obtain e' where sk: "CBS_skip hl e = (Some (), e')" using run by (cases "CBS_skip hl e") (auto split: option.splits)
        let ?f = "\<lambda>s. if t AND CBS_ASN1_CONSTRUCTED \<noteq> 0 then if d + 1 > kMaxDepth then (None, s)
              else (case convert_loop m malloc (child_string_tag tg t) False (d + 1) e' s of (r, s) \<Rightarrow> (map_option (\<lambda>_. ()) r, s))
            else CBB_add_bytes malloc (read_bytes m (CBS_data e') (unat (CBS_len e'))) s"
        note run = run[unfolded sk option.case prod.case]
        obtain st2 where oc: "on_contents (tg = 0) ?f st1 = (Some (), st2)"
          using run by (cases "on_contents (tg = 0) ?f st1") (auto split: option.splits)
        note run = run[unfolded oc option.case prod.case]
        obtain st3 where fl: "CBB_flush malloc st2 = (Some (), st3)"
          using run by (cases "CBB_flush malloc st2") (auto split: option.splits)
        note run = run[unfolded fl option.case prod.case]
        have "unat (cb_len c') \<le> unat (cb_len cin')"
          by (rule next_def[OF elem(1) elem(2)[symmetric] refl refl refl refl eoc op[symmetric] refl False sk[symmetric] refl
                oc[symmetric] refl fl[symmetric] refl run])
        then show ?thesis using le by linarith
      qed
    qed
  qed
qed

lemma convert_rest_shrinks:
  assumes el: "(Some (e, t, hl, f), cin') = CBS_get_any_ber_asn1_element m cin"
    and oc: "(Some c2, st2) = on_contents new
      (\<lambda>s. if kMaxDepth < d + 1 then (None, s) else convert_loop m malloc tg True (d + 1) cin' s) st1"
    and dom: "\<And>s. s = (if new then (the (child (fst st1)), snd st1) else st1) \<Longrightarrow> \<not> kMaxDepth < d + 1 \<Longrightarrow>
      convert_loop_dom (m, malloc, tg, True, d + 1, cin', s)"
  shows "unat (cb_len c2) < unat (cb_len cin)"
proof -
  obtain s s' where s: "s = (if new then (the (child (fst st1)), snd st1) else st1)"
      and "(if kMaxDepth < d + 1 then (None, s) else convert_loop m malloc tg True (d + 1) cin' s) = (Some c2, s')"
    using on_contents_result[OF oc[symmetric]] by blast
  then have "\<not> kMaxDepth < d + 1" "convert_loop m malloc tg True (d + 1) cin' s = (Some c2, s')" by (auto split: if_splits)
  with convert_loop_le[OF dom[OF s]] ber_element_shrinks(1)[OF el[symmetric]] show ?thesis by fastforce
qed

lemma convert_loop_total: "All convert_loop_dom"
proof (relation "measure (\<lambda>(_, _, _, _, _, c, _). unat (cb_len c))", goal_cases)
  case 3
  from convert_rest_shrinks[OF 3(2)[unfolded 3(3) 3(4-6)[symmetric]] 3(12)[unfolded 3(13)] 3(16)]
  show ?case by simp
qed (auto dest: ber_element_shrinks(1)[OF sym] ber_contents_shrink)

termination convert_loop
  by (rule convert_loop_total)

declare cbs_find_ber.simps [simp del] find_ber_loop.simps [simp del] convert_loop.simps [simp del]

definition cbs_convert_ber :: "heap \<Rightarrow> alloc \<Rightarrow> uint32 \<Rightarrow> bool \<Rightarrow> nat \<Rightarrow> CBS \<Rightarrow> cbb_state \<Rightarrow> CBS option \<times> cbb_state" where
  "cbs_convert_ber m malloc string_tag looking_for_eoc depth cin st =
     (if depth > kMaxDepth then (None, st) else convert_loop m malloc string_tag looking_for_eoc depth cin st)"

text \<open>
  The output is a slice of the input (\<open>Inl\<close>, \<open>*out_storage\<close> is \<open>NULL\<close>) or new storage (\<open>Inr\<close>); with it
  comes the position of \<open>in\<close>. \<open>None\<close> is an error, after which that position means nothing.
\<close>

definition CBS_asn1_ber_to_der :: "alloc \<Rightarrow> heap \<Rightarrow> CBS \<Rightarrow> ((CBS + byte list) \<times> CBS) option" where
  "CBS_asn1_ber_to_der malloc m cin =
     (case cbs_find_ber m cin 0 of
        None \<Rightarrow> None
      | Some conversion_needed \<Rightarrow>
          if \<not> conversion_needed then
            (case CBS_get_any_asn1_element m cin of
               (None, _) \<Rightarrow> None
             | (Some (out, _, _), cin') \<Rightarrow> Some (Inl out, cin'))
          else
            (case CBB_init malloc (CBS_len cin) of
               None \<Rightarrow> None
             | Some cbb \<Rightarrow>
                 (case cbs_convert_ber m malloc 0 False 0 cin cbb of
                    (None, _) \<Rightarrow> None
                  | (Some cin', cbb') \<Rightarrow>
                      map_option (\<lambda>(bs, len). (Inr (take (unat len) bs), cin')) (CBB_finish malloc False False cbb'))))"

subsection \<open>Implicitly tagged strings\<close>

lemma get_asn1_shrinks:
  assumes "CBS_get_asn1 m t c = (Some out, c')"
  shows "unat (cb_len c') < unat (cb_len c)"
proof -
  obtain xs rest where r: "cview m c = element t xs @ rest" "c' = cadv (length (element t xs)) c" using get_asn1_sound[OF assms] by blast
  have "0 < length (element t xs)" by (simp add: element_def der_header_def tag_bytes_def)
  moreover have "length (element t xs) \<le> unat (cb_len c)" using arg_cong[OF r(1), of length] by simp
  ultimately show ?thesis unfolding r(2) using unat_cadv[of "length (element t xs)" c] by linarith
qed

function implicit_chunks :: "heap \<Rightarrow> alloc \<Rightarrow> uint32 \<Rightarrow> CBS \<Rightarrow> cbb_state \<Rightarrow> unit option \<times> cbb_state" where
  "implicit_chunks m malloc inner_tag inner result =
     (if CBS_len inner > 0 then
        (case CBS_get_asn1 m inner_tag inner of
           (None, _) \<Rightarrow> (None, result)
         | (Some chunk, rest) \<Rightarrow>
             (case CBB_add_bytes malloc (read_bytes m (CBS_data chunk) (unat (CBS_len chunk))) result of
                (None, result) \<Rightarrow> (None, result)
              | (Some _, result) \<Rightarrow> implicit_chunks m malloc inner_tag rest result))
      else (Some (), result))"
  by pat_completeness auto
termination
  by (relation "measure (\<lambda>(_, _, _, c, _). unat (cb_len c))") (auto dest: get_asn1_shrinks[OF sym])

declare implicit_chunks.simps [simp del]

definition CBS_get_asn1_implicit_string ::
  "alloc \<Rightarrow> heap \<Rightarrow> uint32 \<Rightarrow> uint32 \<Rightarrow> CBS \<Rightarrow> ((CBS + byte list) \<times> CBS) option" where
  "CBS_get_asn1_implicit_string malloc m outer_tag inner_tag cin =
     (if CBS_peek_asn1_tag m outer_tag cin then
        (case CBS_get_asn1 m outer_tag cin of (None, _) \<Rightarrow> None | (Some out, cin') \<Rightarrow> Some (Inl out, cin'))
      else
        (case CBB_init malloc (CBS_len cin) of
           None \<Rightarrow> None
         | Some result \<Rightarrow>
             (case CBS_get_asn1 m (outer_tag OR CBS_ASN1_CONSTRUCTED) cin of
                (None, _) \<Rightarrow> None
              | (Some inner, cin') \<Rightarrow>
                  (case implicit_chunks m malloc inner_tag inner result of
                     (None, _) \<Rightarrow> None
                   | (Some _, result) \<Rightarrow>
                       map_option (\<lambda>(bs, len). (Inr (take (unat len) bs), cin')) (CBB_finish malloc False False result)))))"

end
