(* ===== verification/Ber_Convert.thy ===== *)
theory Ber_Convert
  imports Ber
begin

text \<open>
  Correctness of the conversion to DER: trees of BER elements with every choice of length form,
  their DER normal form, and the proof that \<open>CBS_asn1_ber_to_der\<close> computes it whenever the walk
  asks for a conversion.
\<close>

section \<open>BER trees\<close>

text \<open>
  A primitive element has a tag, a length form and contents; a constructed one a tag, a length form
  (\<open>None\<close> for an indefinite length) and children. Length form 0 is the short form, \<open>k\<close> the long form
  with \<open>k\<close> bytes, minimal or not.
\<close>

datatype ber = Prim uint32 nat "byte list" | Compound uint32 "nat option" "ber list"

definition ber_len :: "nat \<Rightarrow> nat \<Rightarrow> byte list" where
  "ber_len k n = (if k = 0 then [of_nat n] else (0x80 OR of_nat k) # be_bytes k (of_nat n :: uint64))"

definition len_form :: "nat \<Rightarrow> nat \<Rightarrow> bool" where
  "len_form k n \<longleftrightarrow> (if k = 0 then n < 128 else k \<le> 4 \<and> n < 2 ^ (8 * k))"

fun ber_bytes :: "ber \<Rightarrow> byte list" where
  "ber_bytes (Prim t k xs) = tag_bytes t @ ber_len k (length xs) @ xs"
| "ber_bytes (Compound t (Some k) ts) =
     tag_bytes t @ ber_len k (length (concat (map ber_bytes ts))) @ concat (map ber_bytes ts)"
| "ber_bytes (Compound t None ts) = tag_bytes t @ 0x80 # concat (map ber_bytes ts) @ [0, 0]"

section \<open>Parsing one element\<close>

lemma ber_element_definite:
  assumes vw: "cview m c = tag_bytes t @ ber_len k n @ rest" and k: "len_form k n" and n: "n \<le> length rest"
  shows "\<exists>f. CBS_get_any_ber_asn1_element m c =
    (Some (\<lparr>cb_data = cb_data c, cb_len = of_nat (length (tag_bytes t @ ber_len k n) + n)\<rparr>, t,
      of_nat (length (tag_bytes t @ ber_len k n)), f), cadv (length (tag_bytes t @ ber_len k n) + n) c)"
proof (cases "k = 0")
  case True
  then have "tag_then m c t (length (tag_bytes t)) (of_nat n) rest"
    using vw by (intro tag_then_complete) (simp add: ber_len_def)
  from cbs_element_complete_short[OF this, of True] show ?thesis
    using True k n arg_cong[OF vw, of length]
    by (intro exI[of _ False]) (simp add: ber_len_def len_form_def CBS_get_any_ber_asn1_element_def)
next
  case False
  let ?j = "length (tag_bytes t)" and ?b = "0x80 OR of_nat k :: byte" and ?w = "of_nat n :: uint64"
  let ?h = "Suc ?j + k"
  have "tag_then m c t ?j ?b (be_bytes k ?w @ rest)"
    using vw False by (intro tag_then_complete) (simp add: ber_len_def)
  note tt = tag_then_facts[OF this]
  have kn: "0 < k" "k \<le> 4" "n < 2 ^ (8 * k)" using False k by (auto simp: len_form_def)
  have fits: "?h + n \<le> unat (cb_len c)" using arg_cong[OF vw, of length] n False by (simp add: ber_len_def)
  have "n < 2 ^ 32" using kn(2,3) power_increasing[of "8 * k" 32 "2::nat"] by simp
  then have w: "unat ?w = n" by (intro unat_of_nat_size) simp
  have u: "unat (of_nat (?h + n) :: size_t) = ?h + n" using fits by (rule of_nat_le_len)
  have rd: "cbs_get_u m k (cadv (Suc ?j) c) = (Some ?w, cadv ?h c)"
    using tt(2-7) kn fits be_word_be_bytes_nat[of n k] by (simp add: cbs_get_u_eq)
  have eq: "?w + of_nat (Suc ?j) + of_nat k = of_nat (?h + n)" "?w + (of_nat (Suc ?j) + of_nat k) = of_nat (?h + n)"
    "of_nat (Suc ?j) + of_nat k = (of_nat ?h :: size_t)" "?w + of_nat (Suc (?j + k)) = of_nat (Suc (?j + k + n))"
    by simp_all
  have "\<not> of_nat (?h + n) < ?w" using w u by (simp add: word_less_nat_alt del: of_nat_add)
  then show ?thesis
    using der_len_octet[of k] tt kn fits u rd False
    by (simp add: CBS_get_any_ber_asn1_element_def element_unfold eq ber_len_def del: of_nat_add of_nat_Suc)
qed

lemma ber_element_indefinite:
  assumes vw: "cview m c = tag_bytes t @ 0x80 # rest" and t: "t AND CBS_ASN1_CONSTRUCTED \<noteq> 0"
  shows "CBS_get_any_ber_asn1_element m c =
    (Some (\<lparr>cb_data = cb_data c, cb_len = of_nat (Suc (length (tag_bytes t)))\<rparr>, t, of_nat (Suc (length (tag_bytes t))), True),
      cadv (Suc (length (tag_bytes t))) c)"
proof -
  have "tag_then m c t (length (tag_bytes t)) 0x80 rest" using vw by (intro tag_then_complete) simp
  note tt = tag_then_facts[OF this]
  then show ?thesis using t by (simp add: CBS_get_any_ber_asn1_element_def element_unfold del: of_nat_Suc)
qed

section \<open>The normal form and the calls that write it\<close>

fun frag :: "ber \<Rightarrow> byte list" where
  "frag (Prim t k xs) = xs"
| "frag (Compound t f ts) = concat (map frag ts)"

fun to_tlv :: "ber \<Rightarrow> tlv" where
  "to_tlv (Prim t k xs) = Primitive t xs"
| "to_tlv (Compound t f ts) =
     (if is_string_type t then Primitive (t AND NOT CBS_ASN1_CONSTRUCTED) (concat (map frag ts)) else Constructed t (map to_tlv ts))"

text \<open>
  Well-formedness inside a string with tag \<open>s\<close> (0 outside of strings) at depth \<open>d\<close>: the tag 0 is
  reserved, length forms fit, string fragments have the tag of the string, and the nesting stays
  within \<open>kMaxDepth\<close>.
\<close>

fun ber_ok :: "uint32 \<Rightarrow> nat \<Rightarrow> ber \<Rightarrow> bool" where
  "ber_ok s d (Prim t k xs) \<longleftrightarrow> t \<noteq> 0 \<and> t AND CBS_ASN1_CONSTRUCTED = 0 \<and> len_form k (length xs) \<and> (s \<noteq> 0 \<longrightarrow> t = s)"
| "ber_ok s d (Compound t f ts) \<longleftrightarrow> t AND CBS_ASN1_CONSTRUCTED \<noteq> 0 \<and> (s \<noteq> 0 \<longrightarrow> t AND NOT CBS_ASN1_CONSTRUCTED = s) \<and>
     (case f of None \<Rightarrow> True | Some k \<Rightarrow> len_form k (length (concat (map ber_bytes ts)))) \<and>
     d + 1 \<le> kMaxDepth \<and> list_all (ber_ok (child_string_tag s t) (d + 1)) ts"

fun put_ber :: "alloc \<Rightarrow> uint32 \<Rightarrow> ber \<Rightarrow> cbb_state \<Rightarrow> unit option \<times> cbb_state" where
  "put_ber malloc s (Prim t k xs) =
     bindf (open_contents malloc s (out_tag s t)) (\<lambda>_. bindf (on_contents (s = 0) (CBB_add_bytes malloc xs)) (\<lambda>_. CBB_flush malloc))"
| "put_ber malloc s (Compound t f ts) =
     bindf (open_contents malloc s (out_tag s t)) (\<lambda>_.
     bindf (on_contents (s = 0) (each (put_ber malloc (child_string_tag s t)) ts)) (\<lambda>_. CBB_flush malloc))"

section \<open>The converter issues these calls\<close>

definition converts :: "heap \<Rightarrow> alloc \<Rightarrow> ber \<Rightarrow> bool" where
  "converts m malloc x \<longleftrightarrow> (\<forall>s d c rest eoc. ber_ok s d x \<longrightarrow> cview m c = ber_bytes x @ rest \<longrightarrow>
     convert_loop m malloc s eoc d c =
     bindf (put_ber malloc s x) (\<lambda>_. convert_loop m malloc s eoc d (cadv (length (ber_bytes x)) c)))"

lemma on_contents_then: "on_contents new (\<lambda>s. bindf f (\<lambda>_. retf x) s) st = bindf (on_contents new f) (\<lambda>_. retf x) st"
  by (cases st) (auto simp: on_contents_def on_child_def bindf_def retf_def split: option.splits prod.splits)

lemma tag_bytes_0: "tag_bytes 0 = [0]"
  by (simp add: tag_bytes_def tag_bits_def tag_number_def)

lemma read_view: "n \<le> unat (cb_len c) \<Longrightarrow> read_bytes m (cb_data c) n = take n (cview m c)"
  by (simp add: cview_def min_def)

lemma eoc_stops:
  assumes "cview m c = 0 # 0 # rest"
  shows "convert_loop m malloc s eoc d c st = (if eoc then Some (cadv 2 c) else None, st)"
proof -
  have len: "2 \<le> unat (cb_len c)" using arg_cong[OF assms, of length] by simp
  obtain f where "CBS_get_any_ber_asn1_element m c = (Some (\<lparr>cb_data = cb_data c, cb_len = 2\<rparr>, 0, 2, f), cadv 2 c)"
    using ber_element_definite[of m c 0 0 0 rest] assms by (auto simp: tag_bytes_0 ber_len_def len_form_def numeral_2_eq_2)
  moreover have "is_eoc m 2 \<lparr>cb_data = cb_data c, cb_len = 2\<rparr>"
    using read_view[OF len, of m] by (simp add: is_eoc_def CBS_len_def CBS_data_def assms)
  moreover have "0 < CBS_len c" using cview_Cons_len[OF assms] by (simp add: CBS_len_def word_less_nat_alt)
  ultimately show ?thesis by (simp add: convert_loop.simps)
qed

lemma forest:
  assumes "\<And>x. x \<in> set ts \<Longrightarrow> converts m malloc x" and "list_all (ber_ok s d) ts"
  shows "cview m c = concat (map ber_bytes ts) \<Longrightarrow>
      convert_loop m malloc s False d c = bindf (each (put_ber malloc s) ts) (\<lambda>_. retf (cadv (unat (cb_len c)) c))"
    and "cview m c = concat (map ber_bytes ts) @ 0 # 0 # rest \<Longrightarrow>
      convert_loop m malloc s True d c = bindf (each (put_ber malloc s) ts) (\<lambda>_. retf (cadv (length (concat (map ber_bytes ts)) + 2) c))"
  using assms
proof (induction ts arbitrary: c)
  case Nil
  case 1
  then have "unat (cb_len c) = 0" using length_cview[of m c] by simp
  then have "cb_len c = 0" "unat (cb_len c) = 0" by (simp_all add: unat_eq_0)
  then show ?case by (simp add: fun_eq_iff convert_loop.simps CBS_len_def bindf_def retf_def)
next
  case Nil
  case 2
  then show ?case by (auto simp: eoc_stops bindf_def retf_def numeral_2_eq_2)
next
  case (Cons x ts)
  case 1
  let ?k = "length (ber_bytes x)"
  have k: "?k \<le> unat (cb_len c)" using arg_cong[OF 1(1), of length] by simp
  have "convert_loop m malloc s False d c =
      bindf (put_ber malloc s x) (\<lambda>_. convert_loop m malloc s False d (cadv ?k c))"
    using 1(2)[of x] 1(1,3) unfolding converts_def by auto
  also have "convert_loop m malloc s False d (cadv ?k c) = bindf (each (put_ber malloc s) ts) (\<lambda>_. retf (cadv (unat (cb_len c)) c))"
    using Cons.IH(1)[of "cadv ?k c"] 1 k by simp
  finally show ?case by (simp add: bindf_assoc)
next
  case (Cons x ts)
  case 2
  let ?k = "length (ber_bytes x)"
  have k: "?k \<le> unat (cb_len c)" using arg_cong[OF 2(1), of length] by simp
  have "convert_loop m malloc s True d c =
      bindf (put_ber malloc s x) (\<lambda>_. convert_loop m malloc s True d (cadv ?k c))"
    using 2(2)[of x] 2(1,3) unfolding converts_def by auto
  also have "convert_loop m malloc s True d (cadv ?k c) =
      bindf (each (put_ber malloc s) ts) (\<lambda>_. retf (cadv (length (concat (map ber_bytes (x # ts))) + 2) c))"
    using Cons.IH(2)[of "cadv ?k c"] 2 k by simp
  finally show ?case by (simp add: bindf_assoc)
qed

text \<open>The header of a definite-length element is no end of contents and no indefinite length.\<close>

lemma tag_byte_nonzero: "t \<noteq> 0 \<Longrightarrow> hd (tag_bytes t) \<noteq> 0"
proof (cases "tag_number t \<ge> 0x1f")
  case True
  have "bit (tag_bits t OR 0x1f) 0" by (simp add: bit_or_iff)
  then show ?thesis using True by (auto simp: tag_bytes_def)
next
  case False
  assume "t \<noteq> 0"
  moreover have "tag_number t = 0" if "ucast (tag_number t) = (0 :: byte)"
    using that False by (simp add: word_unat_eq_iff unat_ucast_mod word_le_nat_alt)
  ultimately show ?thesis using False tag_join[of t] by (auto simp: tag_bytes_def or_eq_0_iff)
qed

lemma not_eoc:
  assumes "cview m c = tag_bytes t @ xs" "t \<noteq> 0" "2 \<le> unat (cb_len c)"
  shows "\<not> is_eoc m hl \<lparr>cb_data = cb_data c, cb_len = n\<rparr>"
proof
  assume "is_eoc m hl \<lparr>cb_data = cb_data c, cb_len = n\<rparr>"
  then have "take 2 (cview m c) = [0, 0]" using read_view[OF assms(3), of m] by (simp add: is_eoc_def CBS_data_def)
  moreover have "tag_bytes t \<noteq> []" by (simp add: tag_bytes_def)
  ultimately show False using tag_byte_nonzero[OF assms(2)] assms(1) by (cases "tag_bytes t") auto
qed

lemma nth_last_append: "ys \<noteq> [] \<Longrightarrow> (ys @ xs) ! (length ys - 1) = last ys"
  by (simp add: nth_append last_conv_nth)

lemma not_indefinite:
  assumes "cview m c = (tag_bytes t @ ber_len k n) @ xs" "len_form k n" and h: "h = length (tag_bytes t @ ber_len k n)" and fit: "h + n \<le> unat (cb_len c)"
  shows "\<not> is_indefinite m (of_nat h) \<lparr>cb_data = cb_data c, cb_len = of_nat (h + n)\<rparr>"
proof
  assume i: "is_indefinite m (of_nat h) \<lparr>cb_data = cb_data c, cb_len = of_nat (h + n)\<rparr>"
  have u: "unat (of_nat (h + n) :: size_t) = h + n" "unat (of_nat h :: size_t) = h"
    using fit by (intro of_nat_le_len[of _ c], simp)+
  then have n: "n = 0" using i by (simp add: is_indefinite_def CBS_len_def word_unat_eq_iff del: of_nat_add)
  have h0: "0 < h" by (simp add: h ber_len_def)
  then have "unat (of_nat h - 1 :: size_t) = h - 1" using u(2) by (simp add: unat_sub word_le_nat_alt)
  then have "m (cb_data c + (h - 1)) = 0x80" using i by (simp add: is_indefinite_def CBS_data_def)
  moreover have "m (cb_data c + (h - 1)) = cview m c ! (h - 1)" using h0 fit by (simp add: cview_def)
  moreover have "cview m c ! (h - 1) = last (tag_bytes t @ ber_len k n)"
    unfolding assms(1) h by (rule nth_last_append) (simp add: ber_len_def)
  moreover have "last (ber_len k 0) = 0" by (cases k) (auto simp: ber_len_def be_bytes_Suc)
  ultimately show False using n by (simp add: ber_len_def)
qed

text \<open>One iteration of the loop on a definite-length element whose contents are handled by \<open>g\<close>.\<close>

lemma header_two: "2 \<le> length (tag_bytes t) + length (ber_len k n)"
  by (simp add: tag_bytes_def ber_len_def)

lemma constructed_nonzero: "t AND CBS_ASN1_CONSTRUCTED \<noteq> 0 \<Longrightarrow> t \<noteq> 0"
  by (erule contrapos_nn) simp

lemma definite_step:
  assumes vw: "cview m c = (tag_bytes t @ ber_len k (length xs)) @ xs @ rest" and t: "t \<noteq> 0" and form: "len_form k (length xs)"
    and tag: "s \<noteq> 0 \<longrightarrow> t AND NOT CBS_ASN1_CONSTRUCTED = s"
    and g: "\<And>e s'. cview m e = xs \<Longrightarrow>
      (if t AND CBS_ASN1_CONSTRUCTED \<noteq> 0 then if d + 1 > kMaxDepth then (None, s')
       else (case convert_loop m malloc (child_string_tag s t) False (d + 1) e s' of (r, s') \<Rightarrow> (map_option (\<lambda>_. ()) r, s'))
       else CBB_add_bytes malloc (read_bytes m (CBS_data e) (unat (CBS_len e))) s') = g s'"
  shows "convert_loop m malloc s eoc d c st =
    bindf (bindf (open_contents malloc s (out_tag s t)) (\<lambda>_. bindf (on_contents (s = 0) g) (\<lambda>_. CBB_flush malloc)))
      (\<lambda>_. convert_loop m malloc s eoc d (cadv (length (tag_bytes t @ ber_len k (length xs) @ xs)) c)) st"
proof -
  let ?n = "length xs"
  define h where "h = length (tag_bytes t @ ber_len k ?n)"
  have fit: "h + ?n \<le> unat (cb_len c)" using arg_cong[OF vw, of length] by (simp add: h_def)
  obtain f where el: "CBS_get_any_ber_asn1_element m c =
      (Some (\<lparr>cb_data = cb_data c, cb_len = of_nat (h + ?n)\<rparr>, t, of_nat h, f), cadv (h + ?n) c)"
    using ber_element_definite[of m c t k ?n "xs @ rest"] vw form unfolding h_def by auto
  have u: "unat (of_nat (h + ?n) :: size_t) = h + ?n" "unat (of_nat h :: size_t) = h"
    using fit by (intro of_nat_le_len[of _ c], simp)+
  let ?e = "cadv h \<lparr>cb_data = cb_data c, cb_len = of_nat (h + ?n)\<rparr>"
  have sk: "CBS_skip (of_nat h) \<lparr>cb_data = cb_data c, cb_len = of_nat (h + ?n)\<rparr> = (Some (), ?e)"
    using u by (simp add: CBS_skip_eq del: of_nat_add)
  have "cview m ?e = xs"
    using u cview_prefix[of "of_nat (h + ?n)" c m] fit vw by (simp add: h_def del: of_nat_add)
  note g = g[OF this]
  have two: "2 \<le> unat (cb_len c)" using fit header_two[of t k ?n] by (simp add: h_def)
  have eoc: "is_eoc m (of_nat h) \<lparr>cb_data = cb_data c, cb_len = of_nat (h + ?n)\<rparr> = False"
    using not_eoc[of m c t "ber_len k ?n @ xs @ rest"] vw t two by simp
  have ind: "is_indefinite m (of_nat h) \<lparr>cb_data = cb_data c, cb_len = of_nat (h + ?n)\<rparr> = False"
    using not_indefinite[OF vw form h_def fit] by simp
  have pos: "(0 < CBS_len c) = True" using two by (simp add: CBS_len_def word_less_nat_alt)
  have tag: "(s \<noteq> 0 \<and> t AND NOT CBS_ASN1_CONSTRUCTED \<noteq> s) = False" using tag by blast
  have "convert_loop m malloc s eoc d c st =
    (case open_contents malloc s (out_tag s t) st of (None, st) \<Rightarrow> (None, st)
     | (Some _, st) \<Rightarrow> (case on_contents (s = 0) g st of (None, st) \<Rightarrow> (None, st)
       | (Some _, st) \<Rightarrow> (case CBB_flush malloc st of (None, st) \<Rightarrow> (None, st)
         | (Some _, st) \<Rightarrow> convert_loop m malloc s eoc d (cadv (h + ?n) c) st)))"
    by (subst convert_loop.simps) (simp only: el sk g eoc ind pos tag if_True if_False option.case prod.case)
  also have "h + ?n = length (tag_bytes t @ ber_len k ?n @ xs)" by (simp add: h_def)
  finally show ?thesis by (simp only: bindf_def) (auto split: option.splits prod.splits)
qed

lemma indefinite_step:
  assumes vw: "cview m c = tag_bytes t @ 0x80 # rest" and t: "t AND CBS_ASN1_CONSTRUCTED \<noteq> 0"
    and tag: "s \<noteq> 0 \<longrightarrow> t AND NOT CBS_ASN1_CONSTRUCTED = s" and d: "d + 1 \<le> kMaxDepth" and h: "h = Suc (length (tag_bytes t))"
    and g: "convert_loop m malloc (child_string_tag s t) True (d + 1) (cadv h c) = bindf g (\<lambda>_. retf c2)"
  shows "convert_loop m malloc s eoc d c st =
    bindf (bindf (open_contents malloc s (out_tag s t)) (\<lambda>_. bindf (on_contents (s = 0) g) (\<lambda>_. CBB_flush malloc)))
      (\<lambda>_. convert_loop m malloc s eoc d c2) st"
proof -
  let ?e = "\<lparr>cb_data = cb_data c, cb_len = of_nat h\<rparr>"
  have el: "CBS_get_any_ber_asn1_element m c = (Some (?e, t, of_nat h, True), cadv h c)"
    unfolding h by (rule ber_element_indefinite[OF vw t])
  have fit: "h \<le> unat (cb_len c)" using arg_cong[OF vw, of length] by (simp add: h)
  then have u: "unat (of_nat h :: size_t) = h" by (rule of_nat_le_len)
  have two: "2 \<le> unat (cb_len c)" using fit header_two[of t 0 0] by (simp add: h ber_len_def)
  have eoc: "is_eoc m (of_nat h) ?e = False" using not_eoc[OF vw constructed_nonzero[OF t] two] by simp
  have "1 \<le> h" by (simp add: h)
  then have "unat (of_nat h - 1 :: size_t) = h - 1" using u by (simp add: unat_sub word_le_nat_alt)
  moreover have "m (cb_data c + (h - 1)) = cview m c ! (h - 1)" using fit by (simp add: cview_def h)
  moreover have "cview m c ! (h - 1) = 0x80" by (simp add: vw h)
  moreover have "(0 :: size_t) < of_nat h" using u by (simp add: word_less_nat_alt h)
  ultimately have ind: "is_indefinite m (of_nat h) ?e = True"
    by (simp add: is_indefinite_def CBS_len_def CBS_data_def)
  have pos: "(0 < CBS_len c) = True" using two by (simp add: CBS_len_def word_less_nat_alt)
  have tag: "(s \<noteq> 0 \<and> t AND NOT CBS_ASN1_CONSTRUCTED \<noteq> s) = False" using tag by blast
  have deep: "(kMaxDepth < d + 1) = False" using d by simp
  have "convert_loop m malloc s eoc d c st =
    (case open_contents malloc s (out_tag s t) st of (None, st) \<Rightarrow> (None, st)
     | (Some _, st) \<Rightarrow> (case bindf (on_contents (s = 0) g) (\<lambda>_. retf c2) st of (None, st) \<Rightarrow> (None, st)
       | (Some cin'', st) \<Rightarrow> (case CBB_flush malloc st of (None, st) \<Rightarrow> (None, st)
         | (Some _, st) \<Rightarrow> convert_loop m malloc s eoc d cin'' st)))"
    by (subst convert_loop.simps) (simp only: el g eoc ind pos tag deep on_contents_then if_True if_False option.case prod.case)
  then show ?thesis by (simp only: bindf_def retf_def) (auto split: option.splits prod.splits)
qed

lemma convertsI:
  assumes "\<And>s d c rest eoc st. ber_ok s d x \<Longrightarrow> cview m c = ber_bytes x @ rest \<Longrightarrow>
    convert_loop m malloc s eoc d c st = bindf (put_ber malloc s x) (\<lambda>_. convert_loop m malloc s eoc d (cadv (length (ber_bytes x)) c)) st"
  shows "converts m malloc x"
  using assms by (simp add: converts_def fun_eq_iff)

lemma and_not_id: "t AND c = 0 \<Longrightarrow> t AND NOT c = (t :: 'a::len word)"
proof -
  have "(t AND c) OR (t AND NOT c) = t" by (rule bit_word_eqI) (auto simp: bit_simps)
  then show "t AND c = 0 \<Longrightarrow> t AND NOT c = t" by simp
qed

lemma converts_all: "converts m malloc x"
proof (induction x)
  case (Prim t k xs)
  show ?case
  proof (rule convertsI)
    fix s d c rest eoc st assume ok: "ber_ok s d (Prim t k xs)" and vw: "cview m c = ber_bytes (Prim t k xs) @ rest"
    have c: "t AND CBS_ASN1_CONSTRUCTED = 0" using ok by simp
    show "convert_loop m malloc s eoc d c st =
      bindf (put_ber malloc s (Prim t k xs)) (\<lambda>_. convert_loop m malloc s eoc d (cadv (length (ber_bytes (Prim t k xs))) c)) st"
      unfolding put_ber.simps ber_bytes.simps
    proof (rule definite_step)
      show "cview m c = (tag_bytes t @ ber_len k (length xs)) @ xs @ rest" using vw by simp
      show "s \<noteq> 0 \<longrightarrow> t AND NOT CBS_ASN1_CONSTRUCTED = s" using ok and_not_id[OF c] by (metis ber_ok.simps(1))
    qed (use ok c in \<open>simp_all add: cview_def CBS_data_def CBS_len_def\<close>)
  qed
next
  case (Compound t f ts)
  show ?case
  proof (rule convertsI)
    fix s d c rest eoc st assume ok: "ber_ok s d (Compound t f ts)" and vw: "cview m c = ber_bytes (Compound t f ts) @ rest"
    let ?xs = "concat (map ber_bytes ts)" and ?g = "each (put_ber malloc (child_string_tag s t)) ts"
    have o: "t AND CBS_ASN1_CONSTRUCTED \<noteq> 0" "s \<noteq> 0 \<longrightarrow> t AND NOT CBS_ASN1_CONSTRUCTED = s" "d + 1 \<le> kMaxDepth"
        "list_all (ber_ok (child_string_tag s t) (d + 1)) ts" using ok by simp_all
    show "convert_loop m malloc s eoc d c st =
      bindf (put_ber malloc s (Compound t f ts)) (\<lambda>_. convert_loop m malloc s eoc d (cadv (length (ber_bytes (Compound t f ts))) c)) st"
    proof (cases f)
      case (Some k)
      show ?thesis unfolding put_ber.simps ber_bytes.simps Some
      proof (rule definite_step)
        show "cview m c = (tag_bytes t @ ber_len k (length ?xs)) @ ?xs @ rest" using vw by (simp add: Some)
        show "len_form k (length ?xs)" using ok by (simp add: Some)
        fix e s' assume "cview m e = ?xs"
        from forest(1)[OF Compound.IH o(4) this]
        show "(if t AND CBS_ASN1_CONSTRUCTED \<noteq> 0 then if d + 1 > kMaxDepth then (None, s')
            else (case convert_loop m malloc (child_string_tag s t) False (d + 1) e s' of (r, s') \<Rightarrow> (map_option (\<lambda>_. ()) r, s'))
            else CBB_add_bytes malloc (read_bytes m (CBS_data e) (unat (CBS_len e))) s') = ?g s'"
          using o(1,3) by (simp add: bindf_def retf_def split: option.splits prod.splits)
      qed (use o constructed_nonzero in auto)
    next
      case None
      let ?h = "Suc (length (tag_bytes t))"
      have vw': "cview m c = tag_bytes t @ 0x80 # ?xs @ 0 # 0 # rest" using vw by (simp add: None)
      have "?h \<le> unat (cb_len c)" using arg_cong[OF vw', of length] by simp
      then have "cview m (cadv ?h c) = ?xs @ 0 # 0 # rest" using vw' by simp
      from indefinite_step[OF vw' o(1-3) refl forest(2)[OF Compound.IH o(4) this]]
      show ?thesis by (simp add: None numeral_2_eq_2)
    qed
  qed
qed

section \<open>These calls write the normal form\<close>

lemma writes_flush: "roomy malloc \<Longrightarrow> writes (CBB_flush malloc) []"
  using refines_weaken[OF refines_flush[of malloc], of "adds []"] live_flush[of malloc]
  by (auto simp: writes_def closes_def adds_def)

lemma writes_bytes: "roomy malloc \<Longrightarrow> length xs < 2 ^ 64 \<Longrightarrow> writes (CBB_add_bytes malloc xs) xs"
  using refines_weaken[OF refines_add_bytes[of xs malloc], of "adds xs"] live_add_bytes[of malloc xs]
  by (auto simp: writes_def appends_def adds_def)

lemma writes_node:
  "roomy malloc \<Longrightarrow> writes f xs \<Longrightarrow> length xs \<le> 0xfffffffe \<Longrightarrow>
   writes (bindf (CBB_add_asn1 malloc t) (\<lambda>_. bindf (on_child f) (\<lambda>_. CBB_flush malloc))) (element t xs)"
  using refines_node[of f xs malloc t] live_node[of malloc f xs t] by (simp add: writes_def)

lemma writes_then_flush: "roomy malloc \<Longrightarrow> writes f xs \<Longrightarrow> writes (bindf f (\<lambda>_. CBB_flush malloc)) xs"
  using writes_bind[of f xs "\<lambda>_. CBB_flush malloc" "[]"] writes_flush by simp

lemma open_in_string: "s \<noteq> 0 \<Longrightarrow> bindf (open_contents malloc s t) f = f ()"
  "on_contents False g = g" "s \<noteq> 0 \<Longrightarrow> child_string_tag s t = s"
  by (auto simp: open_contents_def on_contents_def child_string_tag_def clears_def bindf_def retf_def)

lemma open_outside: "open_contents malloc 0 t = CBB_add_asn1 malloc t" "on_contents True g = on_child g"
  by (auto simp: open_contents_def on_contents_def fun_eq_iff)

lemma length_concat_ge: "x \<in> set xs \<Longrightarrow> length (f x) \<le> length (concat (map f xs))"
  by (induction xs) auto

lemma writes_frag:
  "roomy malloc \<Longrightarrow> s \<noteq> 0 \<Longrightarrow> length (frag x) < 2 ^ 64 \<Longrightarrow> writes (put_ber malloc s x) (frag x)"
proof (induction x)
  case (Prim t k xs)
  then show ?case by (simp add: open_in_string writes_then_flush writes_bytes)
next
  case (Compound t f ts)
  have "writes (put_ber malloc s x) (frag x)" if "x \<in> set ts" for x
    using Compound that length_concat_ge[OF that, of frag] by (intro Compound.IH) simp_all
  then have "writes (each (put_ber malloc s) ts) (concat (map frag ts))" by (rule writes_each)
  then show ?case using Compound by (simp add: open_in_string writes_then_flush)
qed

lemma string_tag_nonzero: "is_string_type t \<Longrightarrow> t AND NOT CBS_ASN1_CONSTRUCTED \<noteq> 0"
  by (auto simp: is_string_type_def string_types_def)

lemma writes_ber:
  "roomy malloc \<Longrightarrow> ber_ok 0 d x \<Longrightarrow> tlv_fits (to_tlv x) \<Longrightarrow> writes (put_ber malloc 0 x) (der_tlv (to_tlv x))"
proof (induction x arbitrary: d)
  case (Prim t k xs)
  then have "out_tag 0 t = t" "length xs < 2 ^ 64" by (auto simp: out_tag_def clears_def)
  then show ?case using Prim writes_node[OF Prim(1) writes_bytes[OF Prim(1)]] by (simp add: open_outside)
next
  case (Compound t f ts)
  show ?case
  proof (cases "is_string_type t")
    case True
    let ?t = "t AND NOT CBS_ASN1_CONSTRUCTED" and ?xs = "concat (map frag ts)"
    have tags: "out_tag 0 t = ?t" "child_string_tag 0 t = ?t"
      using Compound.prems True by (simp_all add: out_tag_def child_string_tag_def clears_def)
    have len: "length ?xs \<le> 0xfffffffe" using Compound.prems True by simp
    have "writes (put_ber malloc ?t x) (frag x)" if "x \<in> set ts" for x
      using len length_concat_ge[OF that, of frag] by (intro writes_frag Compound.prems string_tag_nonzero True) simp
    then have "writes (each (put_ber malloc ?t) ts) ?xs" by (rule writes_each)
    from writes_node[OF Compound.prems(1) this len, of ?t] show ?thesis
      using True by (simp add: tags open_outside)
  next
    case False
    let ?xs = "concat (map der_tlv (map to_tlv ts))"
    have tags: "out_tag 0 t = t" "child_string_tag 0 t = 0" using False by (simp_all add: out_tag_def child_string_tag_def clears_def)
    have "writes (put_ber malloc 0 x) (der_tlv (to_tlv x))" if "x \<in> set ts" for x
      using Compound.IH[OF that Compound.prems(1), of "d + 1"] Compound.prems False that tags by (simp add: list_all_iff)
    then have "writes (each (put_ber malloc 0) ts) (concat (map (\<lambda>x. der_tlv (to_tlv x)) ts))" by (rule writes_each)
    then have w: "writes (each (put_ber malloc 0) ts) ?xs" by (simp add: o_def)
    from writes_node[OF Compound.prems(1) w, of t] show ?thesis
      using False Compound.prems by (simp add: tags open_outside)
  qed
qed

section \<open>Theorems\<close>

definition der_forest :: "ber list \<Rightarrow> byte list" where
  "der_forest xs = concat (map (\<lambda>x. der_tlv (to_tlv x)) xs)"

definition ber_input :: "ber list \<Rightarrow> bool" where
  "ber_input xs \<longleftrightarrow> list_all (ber_ok 0 0) xs \<and> list_all (\<lambda>x. tlv_fits (to_tlv x)) xs \<and>
     length (concat (map ber_bytes xs)) < 2 ^ 62 \<and> length (der_forest xs) < 2 ^ 62"

lemma convert_ber_finish:
  assumes r: "roomy malloc" and ok: "ber_input xs" and vw: "cview m c = concat (map ber_bytes xs)"
    and init: "CBB_init malloc n = Some st"
  shows "\<exists>st' bs len. cbs_convert_ber m malloc 0 False 0 c st = (Some (cadv (unat (cb_len c)) c), st') \<and>
    CBB_finish malloc False False st' = Some (bs, len) \<and> take (unat len) bs = der_forest xs"
proof -
  have run: "cbs_convert_ber m malloc 0 False 0 c = bindf (each (put_ber malloc 0) xs) (\<lambda>_. retf (cadv (unat (cb_len c)) c))"
    using forest(1)[of xs m malloc 0 0 c] converts_all ok vw
    by (simp add: fun_eq_iff cbs_convert_ber_def ber_input_def)
  have "writes (each (put_ber malloc 0) xs) (der_forest xs)"
    unfolding der_forest_def using ok by (intro writes_each writes_ber[OF r]) (auto simp: ber_input_def list_all_iff)
  from writes_finish[OF r init this] ok show ?thesis unfolding run by (auto simp: bindf_def retf_def ber_input_def)
qed

text \<open>
  C8. When the walk asks for a conversion, \<open>CBS_asn1_ber_to_der\<close> returns the DER encoding of the
  input: for every sequence of BER elements, whatever their length forms, with indefinite lengths
  and with constructed strings, nested at most \<open>kMaxDepth\<close> deep, the new storage holds the same
  elements with minimal definite lengths and every constructed string replaced by one primitive
  string of its concatenated fragments, and the whole input is consumed.
\<close>

theorem ber_to_der_converts:
  assumes "roomy malloc" and "ber_input xs" and "cview m c = concat (map ber_bytes xs)" and "cbs_find_ber m c 0 = Some True"
  shows "\<exists>c'. CBS_asn1_ber_to_der malloc m c = Some (Inr (der_forest xs), c') \<and> CBS_len c' = 0"
proof -
  have "unat (CBS_len c) < 2 ^ 63" using assms(2) length_cview[of m c] unfolding assms(3) by (simp add: CBS_len_def ber_input_def)
  then obtain st where i: "CBB_init malloc (CBS_len c) = Some st" using CBB_init_succeeds[OF assms(1)] by blast
  have "CBS_len (cadv (unat (cb_len c)) c) = 0" by (simp add: CBS_len_def cadv_def)
  with convert_ber_finish[OF assms(1-3) i] show ?thesis
    using assms(4) i by (auto simp: CBS_asn1_ber_to_der_def)
qed

theorem ber_to_der_converts_witness:
  "\<exists>c'. CBS_asn1_ber_to_der (\<lambda>_. Some (\<lambda>_. 0)) (\<lambda>i. [0x30, 0x80, 0x24, 0x80, 0x04, 0x01, 0xaa, 0x04, 0x81, 0x01, 0xbb, 0x00, 0x00, 0x00, 0x00] ! i)
      (CBS_init 0 15) = Some (Inr [0x30, 0x04, 0x04, 0x02, 0xaa, 0xbb], c') \<and> CBS_len c' = 0"
proof -
  let ?m = "\<lambda>i. [0x30, 0x80, 0x24, 0x80, 0x04, 0x01, 0xaa, 0x04, 0x81, 0x01, 0xbb, 0x00, 0x00, 0x00, 0x00] ! i :: byte"
  let ?x = "Compound 0x20000010 None [Compound 0x20000004 None [Prim 4 0 [0xaa], Prim 4 1 [0xbb]]]"
  have r: "roomy (\<lambda>_. Some (\<lambda>_. 0))" by (simp add: roomy_def)
  have b: "concat (map ber_bytes [?x]) = [0x30, 0x80, 0x24, 0x80, 0x04, 0x01, 0xaa, 0x04, 0x81, 0x01, 0xbb, 0x00, 0x00, 0x00, 0x00]" by code_simp
  have d: "der_forest [?x] = [0x30, 0x04, 0x04, 0x02, 0xaa, 0xbb]" by code_simp
  have "to_tlv ?x = Constructed 0x20000010 [Primitive 4 [0xaa, 0xbb]]" by (simp add: is_string_type_def string_types_def)
  moreover have "der_tlv (Primitive 4 [0xaa, 0xbb]) = [0x04, 0x02, 0xaa, 0xbb]" by code_simp
  ultimately have "tlv_fits (to_tlv ?x)" by simp
  moreover have "ber_ok 0 0 ?x"
    by (simp add: len_form_def kMaxDepth_def child_string_tag_def clears_def out_tag_def is_string_type_def string_types_def)
  ultimately have "ber_input [?x]" unfolding ber_input_def b d by simp
  moreover have "cview ?m (CBS_init 0 15) = concat (map ber_bytes [?x])" unfolding b by code_simp
  moreover have "cbs_find_ber ?m (CBS_init 0 15) 0 = Some True" by code_simp
  ultimately show ?thesis using ber_to_der_converts[OF r, of "[?x]" ?m "CBS_init 0 15"] unfolding d by blast
qed

text \<open>
  The walk loses what it found: after it returns from a nested element with \<open>*ber_found\<close> set,
  the next sibling clears the flag. For the SEQUENCE \<open>30 08 { 30 04 { 30 80 00 00 } 05 00 }\<close>, which holds
  an element of indefinite length, \<open>CBS_asn1_ber_to_der\<close> reports that no conversion is needed and
  returns the input unchanged, while its DER encoding is \<open>30 06 30 02 30 00 05 00\<close>.
\<close>

theorem ber_to_der_misses_nested:
  "ber_bytes (Compound 0x20000010 (Some 0) [Compound 0x20000010 (Some 0) [Compound 0x20000010 None []], Prim 5 0 []]) =
     [0x30, 0x08, 0x30, 0x04, 0x30, 0x80, 0x00, 0x00, 0x05, 0x00] \<and>
   ber_ok 0 0 (Compound 0x20000010 (Some 0) [Compound 0x20000010 (Some 0) [Compound 0x20000010 None []], Prim 5 0 []]) \<and>
   der_tlv (to_tlv (Compound 0x20000010 (Some 0) [Compound 0x20000010 (Some 0) [Compound 0x20000010 None []], Prim 5 0 []])) =
     [0x30, 0x06, 0x30, 0x02, 0x30, 0x00, 0x05, 0x00] \<and>
   CBS_asn1_ber_to_der malloc (\<lambda>i. [0x30, 0x08, 0x30, 0x04, 0x30, 0x80, 0x00, 0x00, 0x05, 0x00] ! i) (CBS_init 0 10) =
     Some (Inl (CBS_init 0 10), CBS_init 10 0)"
  (is "ber_bytes ?x = ?bs \<and> _ \<and> _ = ?der \<and> _ = ?result")
proof -
  have "ber_bytes ?x = ?bs" "der_tlv (to_tlv ?x) = ?der" by code_simp+
  moreover have "ber_ok 0 0 ?x"
    by (simp add: len_form_def kMaxDepth_def child_string_tag_def clears_def out_tag_def is_string_type_def string_types_def
        ber_len_def tag_bytes_def tag_number_def)
  moreover have "cbs_find_ber (\<lambda>i. ?bs ! i) (CBS_init 0 10) 0 = Some False" by code_simp
  moreover have "CBS_get_any_asn1_element (\<lambda>i. ?bs ! i) (CBS_init 0 10) = (Some (CBS_init 0 10, 0x20000010, 2), CBS_init 10 0)"
    by code_simp
  ultimately show ?thesis by (simp add: CBS_asn1_ber_to_der_def)
qed

text \<open>
  C26. The converter terminates on every input, with every allocator and from every state of the
  builder, although it continues behind an indefinite-length element where the recursive call
  stopped: what a call leaves of the input is never longer than what it was given.
\<close>

theorem ber_converter_terminates:
  "convert_loop_dom (m, malloc, string_tag, eoc, d, c, st) \<and>
   (\<forall>c' st'. convert_loop m malloc string_tag eoc d c st = (Some c', st') \<longrightarrow> unat (cb_len c') \<le> unat (cb_len c))"
  using convert_loop_total convert_loop_le by blast

theorem ber_converter_terminates_witness:
  "convert_loop (\<lambda>_. 0) (\<lambda>_. None) 0 True 0 (CBS_init 0 3) (CBB 0 0 False False None, \<lparr>buf = [], blen = 0, bcap = 0, can_resize = True, berror = False\<rparr>) =
     (Some (cadv 2 (CBS_init 0 3)), (CBB 0 0 False False None, \<lparr>buf = [], blen = 0, bcap = 0, can_resize = True, berror = False\<rparr>)) \<and>
   unat (cb_len (cadv 2 (CBS_init 0 3))) \<le> unat (cb_len (CBS_init 0 3))"
proof -
  have "cview (\<lambda>_. 0) (CBS_init 0 3) = 0 # 0 # [0]" by code_simp
  then have "convert_loop (\<lambda>_. 0) (\<lambda>_. None) 0 True 0 (CBS_init 0 3) (CBB 0 0 False False None, \<lparr>buf = [], blen = 0, bcap = 0, can_resize = True, berror = False\<rparr>) =
     (Some (cadv 2 (CBS_init 0 3)), (CBB 0 0 False False None, \<lparr>buf = [], blen = 0, bcap = 0, can_resize = True, berror = False\<rparr>))" by (simp add: eoc_stops)
  then show ?thesis using ber_converter_terminates by blast
qed

section \<open>Implicitly tagged strings\<close>

lemma implicit_chunks_eq:
  assumes "list_all (\<lambda>xs. length xs < 2 ^ 32) chunks" and "cview m c = concat (map (element t) chunks)"
  shows "implicit_chunks m malloc t c = each (CBB_add_bytes malloc) chunks"
  using assms
proof (induction chunks arbitrary: c)
  case Nil
  then have "unat (cb_len c) = 0" using length_cview[of m c] by simp
  then have "cb_len c = 0" by (simp add: unat_eq_0)
  then show ?case by (simp add: fun_eq_iff implicit_chunks.simps CBS_len_def retf_def)
next
  case (Cons xs chunks)
  let ?k = "length (element t xs)"
  let ?e = "\<lparr>cb_data = cb_data c + length (der_header t (length xs)), cb_len = of_nat (length xs)\<rparr> :: CBS"
  have vw: "cview m c = element t xs @ concat (map (element t) chunks)" using Cons.prems by simp
  have len: "?k \<le> unat (cb_len c)" using arg_cong[OF vw, of length] by simp
  have "0 < ?k" by (simp add: element_def der_header_def tag_bytes_def)
  then have "0 < unat (cb_len c)" using len by linarith
  then have pos: "0 < CBS_len c" by (simp add: CBS_len_def word_less_nat_alt)
  have n: "length xs < 2 ^ 32" using Cons.prems by simp
  note get = get_asn1_complete[OF vw n]
  have "CBS_get_asn1 m t c = (Some ?e, cadv ?k c)" by (rule get)
  moreover have "read_bytes m (CBS_data ?e) (unat (CBS_len ?e)) = xs"
    using cview_contents[OF vw] by (simp add: cview_def CBS_data_def CBS_len_def)
  moreover have "implicit_chunks m malloc t (cadv ?k c) = each (CBB_add_bytes malloc) chunks"
    using Cons.IH[of "cadv ?k c"] Cons.prems vw len by simp
  ultimately show ?case using pos
    by (simp add: fun_eq_iff implicit_chunks.simps[of m malloc t c] bindf_def split: option.splits prod.splits)
qed

lemma peek_eq:
  assumes "cview m c = element t xs @ rest"
  shows "CBS_peek_asn1_tag m t' c \<longleftrightarrow> t' = t"
proof -
  have "cview m c = tag_bytes t @ der_len (length xs) @ xs @ rest" using assms by (simp add: element_def der_header_def)
  from parse_asn1_tag_complete[OF this] have "parse_asn1_tag m c = (Some t, cadv (length (tag_bytes t)) c)" .
  moreover have "tag_bytes t \<noteq> []" by (simp add: tag_bytes_def)
  then have "cview m c \<noteq> []" using assms by (simp add: element_def der_header_def)
  then have "0 < length (cview m c)" by blast
  then have "\<not> CBS_len c < 1" unfolding length_cview by (simp add: CBS_len_def word_less_nat_alt)
  ultimately show ?thesis by (simp add: CBS_peek_asn1_tag_def)
qed

lemma or_constructed_ne: "t AND CBS_ASN1_CONSTRUCTED = 0 \<Longrightarrow> t OR CBS_ASN1_CONSTRUCTED \<noteq> t"
proof
  assume t: "t AND CBS_ASN1_CONSTRUCTED = 0" and eq: "t OR CBS_ASN1_CONSTRUCTED = t"
  have "(t OR CBS_ASN1_CONSTRUCTED) AND CBS_ASN1_CONSTRUCTED = CBS_ASN1_CONSTRUCTED"
    by (rule bit_word_eqI) (auto simp: bit_simps)
  then show False using t unfolding eq by simp
qed

lemma implicit_string_forms:
  assumes "roomy malloc" and t: "outer AND CBS_ASN1_CONSTRUCTED = 0" and size: "unat (cb_len c) < 2 ^ 32"
  shows "cview m c = element outer xs @ rest \<Longrightarrow>
      \<exists>out. CBS_get_asn1_implicit_string malloc m outer inner c = Some (Inl out, cadv (length (element outer xs)) c) \<and> cview m out = xs"
    and "cview m c = element (outer OR CBS_ASN1_CONSTRUCTED) (concat (map (element inner) chunks)) @ rest \<Longrightarrow>
      CBS_get_asn1_implicit_string malloc m outer inner c =
        Some (Inr (concat chunks), cadv (length (element (outer OR CBS_ASN1_CONSTRUCTED) (concat (map (element inner) chunks)))) c)"
proof -
  assume vw: "cview m c = element outer xs @ rest"
  have "length xs < 2 ^ 32" using size arg_cong[OF vw, of length] by (simp add: element_def)
  from get_asn1_complete[OF vw this] cview_contents[OF vw] peek_eq[OF vw]
  show "\<exists>out. CBS_get_asn1_implicit_string malloc m outer inner c = Some (Inl out, cadv (length (element outer xs)) c) \<and> cview m out = xs"
    by (simp add: CBS_get_asn1_implicit_string_def)
next
  let ?t = "outer OR CBS_ASN1_CONSTRUCTED" and ?xs = "concat (map (element inner) chunks)"
  assume vw: "cview m c = element ?t ?xs @ rest"
  have n: "length ?xs < 2 ^ 32" using size arg_cong[OF vw, of length] by (simp add: element_def)
  have chunk: "length xs < 2 ^ 32" if "xs \<in> set chunks" for xs
    using n length_concat_ge[OF that, of "element inner"] by (simp add: element_def)
  let ?in = "\<lparr>cb_data = cb_data c + length (der_header ?t (length ?xs)), cb_len = of_nat (length ?xs)\<rparr> :: CBS"
  have run: "implicit_chunks m malloc inner ?in = each (CBB_add_bytes malloc) chunks"
    using chunk by (intro implicit_chunks_eq cview_contents[OF vw]) (simp add: list_all_iff)
  obtain st where i: "CBB_init malloc (CBS_len c) = Some st"
    using CBB_init_succeeds[OF assms(1), of "CBS_len c"] size by (auto simp: CBS_len_def)
  have "writes (each (CBB_add_bytes malloc) chunks) (concat (map (\<lambda>xs. xs) chunks))"
    using chunk by (intro writes_each writes_bytes[OF assms(1)]) fastforce
  moreover have "length (concat chunks) \<le> length ?xs" by (induction chunks) (auto simp: element_def)
  ultimately obtain u st' bs len where "each (CBB_add_bytes malloc) chunks st = (Some u, st')"
      "CBB_finish malloc False False st' = Some (bs, len)" "take (unat len) bs = concat chunks"
    using writes_finish[OF assms(1) i, of "each (CBB_add_bytes malloc) chunks" "concat chunks"] n by auto
  then show "CBS_get_asn1_implicit_string malloc m outer inner c = Some (Inr (concat chunks), cadv (length (element ?t ?xs)) c)"
    using get_asn1_complete[OF vw n] i run peek_eq[OF vw] or_constructed_ne[OF t]
    by (simp add: CBS_get_asn1_implicit_string_def)
qed

text \<open>
  C27. \<open>CBS_get_asn1_implicit_string\<close> reads a string tagged implicitly with \<open>outer_tag\<close> in both of its
  forms: a primitive element gives its contents as a slice of the input, and a constructed one
  the concatenation of the contents of its primitive children, in new storage; either way the input
  is advanced over the element.
\<close>

theorem implicit_string_read:
  assumes "roomy malloc" and "outer AND CBS_ASN1_CONSTRUCTED = 0" and "unat (cb_len c) < 2 ^ 32"
  shows "(cview m c = element outer xs @ rest \<longrightarrow>
      (\<exists>out. CBS_get_asn1_implicit_string malloc m outer inner c = Some (Inl out, cadv (length (element outer xs)) c) \<and> cview m out = xs)) \<and>
    (cview m c = element (outer OR CBS_ASN1_CONSTRUCTED) (concat (map (element inner) chunks)) @ rest \<longrightarrow>
      CBS_get_asn1_implicit_string malloc m outer inner c =
        Some (Inr (concat chunks), cadv (length (element (outer OR CBS_ASN1_CONSTRUCTED) (concat (map (element inner) chunks)))) c))"
  using implicit_string_forms[OF assms] by blast

theorem implicit_string_read_witness:
  "CBS_get_asn1_implicit_string (\<lambda>_. Some (\<lambda>_. 0)) (\<lambda>i. [0xa0, 0x06, 0x04, 0x01, 0xaa, 0x04, 0x01, 0xbb] ! i) 0x80000000 4 (CBS_init 0 8) =
     Some (Inr [0xaa, 0xbb], cadv 8 (CBS_init 0 8))"
proof -
  let ?m = "\<lambda>i. [0xa0, 0x06, 0x04, 0x01, 0xaa, 0x04, 0x01, 0xbb] ! i :: byte"
  have r: "roomy (\<lambda>_. Some (\<lambda>_. 0))" by (simp add: roomy_def)
  have e: "element (0x80000000 OR CBS_ASN1_CONSTRUCTED) (concat (map (element 4) [[0xaa], [0xbb]])) = [0xa0, 0x06, 0x04, 0x01, 0xaa, 0x04, 0x01, 0xbb]"
    by code_simp
  have k: "length [0xa0, 0x06, 0x04, 0x01, 0xaa, 0x04, 0x01, 0xbb :: byte] = 8" by simp
  have "cview ?m (CBS_init 0 8) = [0xa0, 0x06, 0x04, 0x01, 0xaa, 0x04, 0x01, 0xbb] @ []" by code_simp
  moreover have "unat (cb_len (CBS_init 0 8)) < 2 ^ 32" by (simp add: CBS_init_def)
  ultimately show ?thesis
    using implicit_string_read[OF r, where outer = "0x80000000" and c = "CBS_init 0 8" and m = ?m and rest = "[]" and inner = 4
      and chunks = "[[0xaa], [0xbb]]"] unfolding e k by simp
qed

end
