(* ===== verification/Evp.thy ===== *)
theory Evp
  imports Sha256 Sha512 Sha1 Md5 Md4
begin

text \<open>
  The digest interface, \<^verbatim>\<open>crypto/fipsmodule/digest/digest.c\<close>, and the method tables behind it,
  \<^verbatim>\<open>digests.c\<close>: contexts that carry a digest and its state, and the nine digests as instances of
  one contract.
\<close>

section \<open>Method tables\<close>

text \<open>An \<open>EVP_MD *\<close> is one of the static method objects.\<close>

datatype EVP_MD = EVP_md4 | EVP_md5 | EVP_sha1 | EVP_sha224 | EVP_sha256 | EVP_sha384 | EVP_sha512 | EVP_sha512_256 | EVP_md5_sha1

text \<open>The memory behind \<open>md_data\<close>, by the structure it holds.\<close>

datatype md_data = D32 md32_ctx | D256 SHA256_CTX | D512 SHA512_CTX | D_md5_sha1 md32_ctx md32_ctx

record env_md =
  md_type :: int
  md_size :: nat
  md_flags :: uint32
  md_init :: "md_data \<Rightarrow> md_data"
  md_update :: "md_data \<Rightarrow> byte list \<Rightarrow> md_data"
  md_final :: "md_data \<Rightarrow> byte list \<times> md_data"
  md_block_size :: nat

text \<open>
  The adapters of \<^verbatim>\<open>digests.c\<close>. Each works on memory of its own structure; memory of another one,
  which a context never holds, is left alone.
\<close>

definition md4_init :: "md_data \<Rightarrow> md_data" where
  "md4_init d = D32 MD4_Init"

fun md4_update :: "md_data \<Rightarrow> byte list \<Rightarrow> md_data" where
  "md4_update (D32 c) bs = D32 (MD4_Update c bs)"
| "md4_update d bs = d"

fun md4_final :: "md_data \<Rightarrow> byte list \<times> md_data" where
  "md4_final (D32 c) = (case MD4_Final c of (out, c') \<Rightarrow> (out, D32 c'))"
| "md4_final d = ([], d)"

definition md5_init :: "md_data \<Rightarrow> md_data" where
  "md5_init d = D32 MD5_Init"

fun md5_update :: "md_data \<Rightarrow> byte list \<Rightarrow> md_data" where
  "md5_update (D32 c) bs = D32 (MD5_Update c bs)"
| "md5_update d bs = d"

fun md5_final :: "md_data \<Rightarrow> byte list \<times> md_data" where
  "md5_final (D32 c) = (case MD5_Final c of (out, c') \<Rightarrow> (out, D32 c'))"
| "md5_final d = ([], d)"

definition sha1_init :: "md_data \<Rightarrow> md_data" where
  "sha1_init d = D32 SHA1_Init"

fun sha1_update :: "md_data \<Rightarrow> byte list \<Rightarrow> md_data" where
  "sha1_update (D32 c) bs = D32 (SHA1_Update c bs)"
| "sha1_update d bs = d"

fun sha1_final :: "md_data \<Rightarrow> byte list \<times> md_data" where
  "sha1_final (D32 c) = (case SHA1_Final c of (out, c') \<Rightarrow> (out, D32 c'))"
| "sha1_final d = ([], d)"

definition sha224_init :: "md_data \<Rightarrow> md_data" where
  "sha224_init d = D256 SHA224_Init"

fun sha224_update :: "md_data \<Rightarrow> byte list \<Rightarrow> md_data" where
  "sha224_update (D256 c) bs = D256 (SHA224_Update c bs)"
| "sha224_update d bs = d"

text \<open>The return value of \<open>SHA224_Final\<close> and \<open>SHA256_Final\<close> is only asserted.\<close>

fun sha224_final :: "md_data \<Rightarrow> byte list \<times> md_data" where
  "sha224_final (D256 c) = (case SHA224_Final c of (out, c') \<Rightarrow> (case out of None \<Rightarrow> [] | Some bs \<Rightarrow> bs, D256 c'))"
| "sha224_final d = ([], d)"

definition sha256_init :: "md_data \<Rightarrow> md_data" where
  "sha256_init d = D256 SHA256_Init"

fun sha256_update :: "md_data \<Rightarrow> byte list \<Rightarrow> md_data" where
  "sha256_update (D256 c) bs = D256 (SHA256_Update c bs)"
| "sha256_update d bs = d"

fun sha256_final :: "md_data \<Rightarrow> byte list \<times> md_data" where
  "sha256_final (D256 c) = (case SHA256_Final c of (out, c') \<Rightarrow> (case out of None \<Rightarrow> [] | Some bs \<Rightarrow> bs, D256 c'))"
| "sha256_final d = ([], d)"

fun sha384_init :: "md_data \<Rightarrow> md_data" where
  "sha384_init (D512 c) = D512 (SHA384_Init c)"
| "sha384_init d = d"

fun sha384_update :: "md_data \<Rightarrow> byte list \<Rightarrow> md_data" where
  "sha384_update (D512 c) bs = D512 (SHA384_Update c bs)"
| "sha384_update d bs = d"

fun sha384_final :: "md_data \<Rightarrow> byte list \<times> md_data" where
  "sha384_final (D512 c) = (case SHA384_Final c of (out, c') \<Rightarrow> (out, D512 c'))"
| "sha384_final d = ([], d)"

fun sha512_init :: "md_data \<Rightarrow> md_data" where
  "sha512_init (D512 c) = D512 (SHA512_Init c)"
| "sha512_init d = d"

fun sha512_update :: "md_data \<Rightarrow> byte list \<Rightarrow> md_data" where
  "sha512_update (D512 c) bs = D512 (SHA512_Update c bs)"
| "sha512_update d bs = d"

fun sha512_final :: "md_data \<Rightarrow> byte list \<times> md_data" where
  "sha512_final (D512 c) = (case SHA512_Final c of (out, c') \<Rightarrow> (out, D512 c'))"
| "sha512_final d = ([], d)"

fun sha512_256_init :: "md_data \<Rightarrow> md_data" where
  "sha512_256_init (D512 c) = D512 (SHA512_256_Init c)"
| "sha512_256_init d = d"

fun sha512_256_update :: "md_data \<Rightarrow> byte list \<Rightarrow> md_data" where
  "sha512_256_update (D512 c) bs = D512 (SHA512_256_Update c bs)"
| "sha512_256_update d bs = d"

fun sha512_256_final :: "md_data \<Rightarrow> byte list \<times> md_data" where
  "sha512_256_final (D512 c) = (case SHA512_256_Final c of (out, c') \<Rightarrow> (out, D512 c'))"
| "sha512_256_final d = ([], d)"

definition md5_sha1_init :: "md_data \<Rightarrow> md_data" where
  "md5_sha1_init d = D_md5_sha1 MD5_Init SHA1_Init"

fun md5_sha1_update :: "md_data \<Rightarrow> byte list \<Rightarrow> md_data" where
  "md5_sha1_update (D_md5_sha1 c1 c2) bs = D_md5_sha1 (MD5_Update c1 bs) (SHA1_Update c2 bs)"
| "md5_sha1_update d bs = d"

fun md5_sha1_final :: "md_data \<Rightarrow> byte list \<times> md_data" where
  "md5_sha1_final (D_md5_sha1 c1 c2) =
     (case MD5_Final c1 of (out1, c1') \<Rightarrow> case SHA1_Final c2 of (out2, c2') \<Rightarrow> (out1 @ out2, D_md5_sha1 c1' c2'))"
| "md5_sha1_final d = ([], d)"

text \<open>The method object of each digest.\<close>

definition EVP_md4_method :: env_md where [simp]:
  "EVP_md4_method = \<lparr>md_type = 257, md_size = 16, md_flags = 0, md_init = md4_init,
     md_update = md4_update, md_final = md4_final, md_block_size = 64\<rparr>"

definition EVP_md5_method :: env_md where [simp]:
  "EVP_md5_method = \<lparr>md_type = 4, md_size = 16, md_flags = 0, md_init = md5_init,
     md_update = md5_update, md_final = md5_final, md_block_size = 64\<rparr>"

definition EVP_sha1_method :: env_md where [simp]:
  "EVP_sha1_method = \<lparr>md_type = 64, md_size = 20, md_flags = 0, md_init = sha1_init,
     md_update = sha1_update, md_final = sha1_final, md_block_size = 64\<rparr>"

definition EVP_sha224_method :: env_md where [simp]:
  "EVP_sha224_method = \<lparr>md_type = 675, md_size = 28, md_flags = 0, md_init = sha224_init,
     md_update = sha224_update, md_final = sha224_final, md_block_size = 64\<rparr>"

definition EVP_sha256_method :: env_md where [simp]:
  "EVP_sha256_method = \<lparr>md_type = 672, md_size = 32, md_flags = 0, md_init = sha256_init,
     md_update = sha256_update, md_final = sha256_final, md_block_size = 64\<rparr>"

definition EVP_sha384_method :: env_md where [simp]:
  "EVP_sha384_method = \<lparr>md_type = 673, md_size = 48, md_flags = 0, md_init = sha384_init,
     md_update = sha384_update, md_final = sha384_final, md_block_size = 128\<rparr>"

definition EVP_sha512_method :: env_md where [simp]:
  "EVP_sha512_method = \<lparr>md_type = 674, md_size = 64, md_flags = 0, md_init = sha512_init,
     md_update = sha512_update, md_final = sha512_final, md_block_size = 128\<rparr>"

definition EVP_sha512_256_method :: env_md where [simp]:
  "EVP_sha512_256_method = \<lparr>md_type = 962, md_size = 32, md_flags = 0, md_init = sha512_256_init,
     md_update = sha512_256_update, md_final = sha512_256_final, md_block_size = 128\<rparr>"

definition EVP_md5_sha1_method :: env_md where [simp]:
  "EVP_md5_sha1_method = \<lparr>md_type = 114, md_size = 36, md_flags = 0, md_init = md5_sha1_init,
     md_update = md5_sha1_update, md_final = md5_sha1_final, md_block_size = 64\<rparr>"

fun evp_method :: "EVP_MD \<Rightarrow> env_md" where
  "evp_method EVP_md4 = EVP_md4_method"
| "evp_method EVP_md5 = EVP_md5_method"
| "evp_method EVP_sha1 = EVP_sha1_method"
| "evp_method EVP_sha224 = EVP_sha224_method"
| "evp_method EVP_sha256 = EVP_sha256_method"
| "evp_method EVP_sha384 = EVP_sha384_method"
| "evp_method EVP_sha512 = EVP_sha512_method"
| "evp_method EVP_sha512_256 = EVP_sha512_256_method"
| "evp_method EVP_md5_sha1 = EVP_md5_sha1_method"

text \<open>\<open>OPENSSL_cleanse\<close>: the same memory, all bytes zero.\<close>

definition zero32 :: "'a md32_ctx_scheme \<Rightarrow> 'a md32_ctx_scheme" where
  "zero32 c = c\<lparr>md32_ctx.h := map (\<lambda>_. 0) (md32_ctx.h c), md32_ctx.Nl := 0, md32_ctx.Nh := 0,
     data := map (\<lambda>_. 0) (data c), md32_ctx.num := 0\<rparr>"

fun cleanse :: "md_data \<Rightarrow> md_data" where
  "cleanse (D32 c) = D32 (zero32 c)"
| "cleanse (D256 c) = D256 ((zero32 c)\<lparr>SHA256_CTX.md_len := 0\<rparr>)"
| "cleanse (D512 c) = D512 \<lparr>h = map (\<lambda>_. 0) (h c), Nl = 0, Nh = 0, p = map (\<lambda>_. 0) (p c), num = 0, md_len = 0\<rparr>"
| "cleanse (D_md5_sha1 c1 c2) = D_md5_sha1 (zero32 c1) (zero32 c2)"

section \<open>Contexts\<close>

definition EVP_MD_type :: "EVP_MD \<Rightarrow> int" where
  "EVP_MD_type md = md_type (evp_method md)"

definition EVP_MD_nid :: "EVP_MD \<Rightarrow> int" where
  "EVP_MD_nid md = EVP_MD_type md"

definition EVP_MD_flags :: "EVP_MD \<Rightarrow> uint32" where
  "EVP_MD_flags md = md_flags (evp_method md)"

definition EVP_MD_size :: "EVP_MD \<Rightarrow> nat" where
  "EVP_MD_size md = md_size (evp_method md)"

definition EVP_MD_block_size :: "EVP_MD \<Rightarrow> nat" where
  "EVP_MD_block_size md = md_block_size (evp_method md)"

text \<open>
  A context holds its digest, the memory of the digest's state and, for signing, the context of
  a key, which is a handle here.
\<close>

record EVP_MD_CTX =
  digest :: "EVP_MD option"
  md_data :: "md_data option"
  pctx :: "nat option"

definition EVP_MD_CTX_init :: EVP_MD_CTX where
  "EVP_MD_CTX_init = \<lparr>digest = None, md_data = None, pctx = None\<rparr>"

text \<open>\<open>mem\<close> says whether the allocation succeeds.\<close>

definition EVP_MD_CTX_new :: "bool \<Rightarrow> EVP_MD_CTX option" where
  "EVP_MD_CTX_new mem = (if mem then Some EVP_MD_CTX_init else None)"

definition EVP_MD_CTX_create :: "bool \<Rightarrow> EVP_MD_CTX option" where
  "EVP_MD_CTX_create mem = EVP_MD_CTX_new mem"

definition EVP_MD_CTX_cleanup :: "EVP_MD_CTX \<Rightarrow> EVP_MD_CTX" where
  "EVP_MD_CTX_cleanup ctx = EVP_MD_CTX_init"

text \<open>
  Two parameters stand for what the functions get from outside: \<open>alloc t\<close> is the memory for the
  state of digest \<open>t\<close>, of any contents, or \<open>None\<close> when the allocation fails, and \<open>dup\<close> the function of
  \<open>pctx_ops\<close> that copies a key context.
\<close>

type_synonym evp_alloc = "EVP_MD \<Rightarrow> md_data option"

definition EVP_MD_CTX_copy_ex ::
  "evp_alloc \<Rightarrow> (nat \<Rightarrow> nat option) \<Rightarrow> EVP_MD_CTX \<Rightarrow> EVP_MD_CTX \<Rightarrow> bool \<times> EVP_MD_CTX" where
  "EVP_MD_CTX_copy_ex alloc dup out inp =
     (if pctx inp = None \<and> digest inp = None then (False, out)
      else case (case pctx inp of None \<Rightarrow> Some None | Some x \<Rightarrow> map_option Some (dup x)) of
        None \<Rightarrow> (False, out)
      | Some pctx' \<Rightarrow>
          (case (case digest inp of
                   None \<Rightarrow> Some None
                 | Some t \<Rightarrow> if digest out \<noteq> digest inp then map_option Some (alloc t) else Some (md_data out)) of
             None \<Rightarrow> (False, out)
           | Some tmp_buf \<Rightarrow>
               (True, \<lparr>digest = digest inp, md_data = (if digest inp \<noteq> None then md_data inp else tmp_buf), pctx = pctx'\<rparr>)))"

text \<open>Both contexts after the call: \<open>out\<close>, then \<open>in\<close>.\<close>

definition EVP_MD_CTX_move :: "EVP_MD_CTX \<Rightarrow> EVP_MD_CTX \<Rightarrow> EVP_MD_CTX \<times> EVP_MD_CTX" where
  "EVP_MD_CTX_move out inp = (inp, EVP_MD_CTX_init)"

definition EVP_MD_CTX_copy ::
  "evp_alloc \<Rightarrow> (nat \<Rightarrow> nat option) \<Rightarrow> EVP_MD_CTX \<Rightarrow> EVP_MD_CTX \<Rightarrow> bool \<times> EVP_MD_CTX" where
  "EVP_MD_CTX_copy alloc dup out inp = EVP_MD_CTX_copy_ex alloc dup EVP_MD_CTX_init inp"

definition EVP_MD_CTX_reset :: "EVP_MD_CTX \<Rightarrow> EVP_MD_CTX" where
  "EVP_MD_CTX_reset ctx = EVP_MD_CTX_init"

definition EVP_DigestInit_ex :: "evp_alloc \<Rightarrow> EVP_MD_CTX \<Rightarrow> EVP_MD \<Rightarrow> bool \<times> EVP_MD_CTX" where
  "EVP_DigestInit_ex alloc ctx t =
     (let start = (\<lambda>ctx. (True, ctx\<lparr>md_data := map_option (md_init (evp_method t)) (md_data ctx)\<rparr>)) in
      if digest ctx \<noteq> Some t then
        (case alloc t of
           None \<Rightarrow> (False, ctx)
         | Some d \<Rightarrow> start (ctx\<lparr>digest := Some t, md_data := Some d\<rparr>))
      else start ctx)"

definition EVP_DigestInit :: "evp_alloc \<Rightarrow> EVP_MD_CTX \<Rightarrow> EVP_MD \<Rightarrow> bool \<times> EVP_MD_CTX" where
  "EVP_DigestInit alloc ctx t = EVP_DigestInit_ex alloc EVP_MD_CTX_init t"

text \<open>The next two functions follow \<open>ctx->digest\<close> without a check; a context without one is left alone here.\<close>

definition EVP_DigestUpdate :: "EVP_MD_CTX \<Rightarrow> byte list \<Rightarrow> EVP_MD_CTX" where
  "EVP_DigestUpdate ctx bs =
     (case digest ctx of
        None \<Rightarrow> ctx
      | Some t \<Rightarrow> ctx\<lparr>md_data := map_option (\<lambda>d. md_update (evp_method t) d bs) (md_data ctx)\<rparr>)"

definition EVP_DigestFinal_ex :: "EVP_MD_CTX \<Rightarrow> byte list \<times> nat \<times> EVP_MD_CTX" where
  "EVP_DigestFinal_ex ctx =
     (case (digest ctx, md_data ctx) of
        (Some t, Some d) \<Rightarrow>
          (case md_final (evp_method t) d of
             (out, d') \<Rightarrow> (out, md_size (evp_method t), ctx\<lparr>md_data := Some (cleanse d')\<rparr>))
      | _ \<Rightarrow> ([], 0, ctx))"

definition EVP_DigestFinal :: "EVP_MD_CTX \<Rightarrow> byte list \<times> nat \<times> EVP_MD_CTX" where
  "EVP_DigestFinal ctx = (case EVP_DigestFinal_ex ctx of (out, n, ctx') \<Rightarrow> (out, n, EVP_MD_CTX_cleanup ctx'))"

definition EVP_Digest :: "evp_alloc \<Rightarrow> EVP_MD \<Rightarrow> byte list \<Rightarrow> (byte list \<times> nat) option" where
  "EVP_Digest alloc t bs =
     (case EVP_DigestInit_ex alloc EVP_MD_CTX_init t of
        (False, _) \<Rightarrow> None
      | (True, ctx) \<Rightarrow> (case EVP_DigestFinal_ex (EVP_DigestUpdate ctx bs) of (out, n, _) \<Rightarrow> Some (out, n)))"

definition EVP_MD_CTX_md :: "EVP_MD_CTX option \<Rightarrow> EVP_MD option" where
  "EVP_MD_CTX_md ctx = (case ctx of None \<Rightarrow> None | Some c \<Rightarrow> digest c)"

text \<open>Without a context or a digest the next three follow a null pointer: \<open>None\<close>.\<close>

definition EVP_MD_CTX_size :: "EVP_MD_CTX option \<Rightarrow> nat option" where
  "EVP_MD_CTX_size ctx = map_option EVP_MD_size (EVP_MD_CTX_md ctx)"

definition EVP_MD_CTX_block_size :: "EVP_MD_CTX option \<Rightarrow> nat option" where
  "EVP_MD_CTX_block_size ctx = map_option EVP_MD_block_size (EVP_MD_CTX_md ctx)"

definition EVP_MD_CTX_type :: "EVP_MD_CTX option \<Rightarrow> int option" where
  "EVP_MD_CTX_type ctx = map_option EVP_MD_type (EVP_MD_CTX_md ctx)"

section \<open>The contract of a digest\<close>

text \<open>
  The function each digest computes, and the memory it may be started on: any contents of the
  right structure.
\<close>

definition zero512 :: SHA512_CTX where
  "zero512 = \<lparr>h = replicate 8 0, Nl = 0, Nh = 0, p = replicate 128 0, num = 0, md_len = 0\<rparr>"

fun evp_hash :: "EVP_MD \<Rightarrow> byte list \<Rightarrow> byte list" where
  "evp_hash EVP_md4 msg = md4_spec msg"
| "evp_hash EVP_md5 msg = md5_spec msg"
| "evp_hash EVP_sha1 msg = sha1_spec msg"
| "evp_hash EVP_sha224 msg = take 28 (sha256_spec fips_H224 msg)"
| "evp_hash EVP_sha256 msg = sha256_spec fips_H256 msg"
| "evp_hash EVP_sha384 msg = take 48 (sha512_spec fips_H384 msg)"
| "evp_hash EVP_sha512 msg = sha512_spec fips_H512 msg"
| "evp_hash EVP_sha512_256 msg = take 32 (sha512_spec fips_H512_256 msg)"
| "evp_hash EVP_md5_sha1 msg = md5_spec msg @ sha1_spec msg"

fun md_fresh :: "EVP_MD \<Rightarrow> md_data \<Rightarrow> bool" where
  "md_fresh t (D32 c) \<longleftrightarrow> t = EVP_md4 \<or> t = EVP_md5 \<or> t = EVP_sha1"
| "md_fresh t (D256 c) \<longleftrightarrow> t = EVP_sha224 \<or> t = EVP_sha256"
| "md_fresh t (D512 c) \<longleftrightarrow> (t = EVP_sha384 \<or> t = EVP_sha512 \<or> t = EVP_sha512_256) \<and> length (p c) = 128"
| "md_fresh t (D_md5_sha1 c1 c2) \<longleftrightarrow> t = EVP_md5_sha1"

abbreviation sized :: "byte list \<Rightarrow> bool" where
  "sized xs \<equiv> length xs < 2 ^ 64"

definition absorbed :: "EVP_MD \<Rightarrow> byte list list \<Rightarrow> md_data \<Rightarrow> md_data" where
  "absorbed t xss d = fold (\<lambda>xs d. md_update (evp_method t) d xs) xss (md_init (evp_method t) d)"

locale evp_digest =
  fixes t :: EVP_MD
  assumes final_absorbed: "md_fresh t d \<Longrightarrow> list_all sized xss \<Longrightarrow>
      fst (md_final (evp_method t) (absorbed t xss d)) = evp_hash t (concat xss)"
    and fresh_absorbed: "md_fresh t d \<Longrightarrow> md_fresh t (absorbed t xss d)"
    and fresh_final: "md_fresh t d \<Longrightarrow> list_all sized xss \<Longrightarrow>
      md_fresh t (cleanse (snd (md_final (evp_method t) (absorbed t xss d))))"
    and hash_length: "length (evp_hash t msg) = EVP_MD_size t"
    and sizes: "EVP_MD_size t \<le> EVP_MD_block_size t" "EVP_MD_block_size t \<le> 128" "0 < EVP_MD_size t"

section \<open>The nine digests\<close>

lemma fold_inside: "(\<And>c xs. upd (C c) xs = C (f c xs)) \<Longrightarrow> fold (\<lambda>xs d. upd d xs) xss (C c) = C (fold (\<lambda>xs c. f c xs) xss c)"
  by (induction xss arbitrary: c) simp_all

lemma absorbed_32:
  "absorbed EVP_md4 xss d = D32 (fold (\<lambda>xs c. MD4_Update c xs) xss MD4_Init)"
  "absorbed EVP_md5 xss d = D32 (fold (\<lambda>xs c. MD5_Update c xs) xss MD5_Init)"
  "absorbed EVP_sha1 xss d = D32 (fold (\<lambda>xs c. SHA1_Update c xs) xss SHA1_Init)"
  "absorbed EVP_sha224 xss d = D256 (fold (\<lambda>xs c. SHA224_Update c xs) xss SHA224_Init)"
  "absorbed EVP_sha256 xss d = D256 (fold (\<lambda>xs c. SHA256_Update c xs) xss SHA256_Init)"
  by (simp_all add: absorbed_def md4_init_def md5_init_def sha1_init_def sha224_init_def sha256_init_def
      fold_inside[of md4_update] fold_inside[of md5_update] fold_inside[of sha1_update] fold_inside[of sha224_update] fold_inside[of sha256_update])

lemma absorbed_512:
  "absorbed EVP_sha384 xss (D512 c) = D512 (fold (\<lambda>xs c. SHA384_Update c xs) xss (SHA384_Init c))"
  "absorbed EVP_sha512 xss (D512 c) = D512 (fold (\<lambda>xs c. SHA512_Update c xs) xss (SHA512_Init c))"
  "absorbed EVP_sha512_256 xss (D512 c) = D512 (fold (\<lambda>xs c. SHA512_256_Update c xs) xss (SHA512_256_Init c))"
  by (simp_all add: absorbed_def fold_inside[of sha384_update] fold_inside[of sha512_update] fold_inside[of sha512_256_update])

lemma absorbed_md5_sha1:
  "absorbed EVP_md5_sha1 xss d =
     D_md5_sha1 (fold (\<lambda>xs c. MD5_Update c xs) xss MD5_Init) (fold (\<lambda>xs c. SHA1_Update c xs) xss SHA1_Init)"
proof -
  have "fold (\<lambda>xs d. md5_sha1_update d xs) xss (D_md5_sha1 c1 c2) =
      D_md5_sha1 (fold (\<lambda>xs c. MD5_Update c xs) xss c1) (fold (\<lambda>xs c. SHA1_Update c xs) xss c2)" for c1 c2
    by (induction xss arbitrary: c1 c2) simp_all
  then show ?thesis by (simp add: absorbed_def md5_sha1_init_def)
qed

lemma length_words: "length ws = k \<Longrightarrow> length (concat (map (be_bytes n) ws)) = k * n" "length ws = k \<Longrightarrow> length (concat (map (le_bytes n) ws)) = k * n"
  by (simp_all add: length_concat o_def sum_list_triv)

lemma hash_lengths:
  "length (md4_spec msg) = 16" "length (md5_spec msg) = 16" "length (sha1_spec msg) = 20"
  "length (sha256_spec fips_H256 msg) = 32" "length (sha256_spec fips_H224 msg) = 32"
proof -
  have "length (md_spec (\<lambda>bs. md_compress rfc1320_end md4_ops (le_words32 bs)) False [0x67452301, 0xefcdab89, 0x98badcfe, 0x10325476] msg) = 4"
    unfolding md_spec_def by (rule fold_blocks_cong(2)[where P = "\<lambda>st. length st = 4"], erule (1) md4_block_compress, simp)
  then show "length (md4_spec msg) = 16" by (simp add: md4_spec_def length_words)
  have "length (md_spec (\<lambda>bs. md_compress rfc1321_sum md5_ops (le_words32 bs)) False [0x67452301, 0xefcdab89, 0x98badcfe, 0x10325476] msg) = 4"
    unfolding md_spec_def by (rule fold_blocks_cong(2)[where P = "\<lambda>st. length st = 4"], erule (1) md5_block_compress, simp)
  then show "length (md5_spec msg) = 16" by (simp add: md5_spec_def length_words)
  have "length (md_spec (\<lambda>bs. sha1_compress (be_words32 bs)) True [0x67452301, 0xefcdab89, 0x98badcfe, 0x10325476, 0xc3d2e1f0] msg) = 5"
    unfolding md_spec_def by (rule fold_blocks_cong(2)[where P = "\<lambda>st. length st = 5"], erule (1) sha1_block_compress, simp)
  then show "length (sha1_spec msg) = 20" by (simp add: sha1_spec_def length_words)
  show "length (sha256_spec fips_H256 msg) = 32" "length (sha256_spec fips_H224 msg) = 32"
    unfolding sha256_spec_def
    using md_spec_sha256(2)[of fips_H256 True msg] md_spec_sha256(2)[of fips_H224 True msg]
    by (simp_all add: length_words)
qed

lemma fresh_512:
  assumes "sha512_inv c"
  shows "length (p (fold (\<lambda>xs c. SHA512_Update c xs) xss c)) = 128"
    and "length (p (snd (sha512_final_impl (fold (\<lambda>xs c. SHA512_Update c xs) xss c)))) = 128"
proof -
  have i: "sha512_inv (fold (\<lambda>xs c. SHA512_Update c xs) xss c)" using sha512.fold_upd(1)[OF assms, of xss] by simp
  then show "length (p (fold (\<lambda>xs c. SHA512_Update c xs) xss c)) = 128" by (simp add: sha512_inv_def)
  have "length (p (snd (sha512_final_impl c'))) = 128" if "sha512_inv c'" for c'
    using that by (simp add: sha512_final_impl_def sha512_inv_def Let_def store_u64_be_eq split: prod.split)
  from this[OF i] show "length (p (snd (sha512_final_impl (fold (\<lambda>xs c. SHA512_Update c xs) xss c)))) = 128" .
qed

lemmas evp_sizes = EVP_MD_size_def EVP_MD_block_size_def

interpretation evp_md4: evp_digest EVP_md4
  by unfold_locales (simp_all add: absorbed_32 md4_final_fold hash_lengths evp_sizes case_prod_beta)

interpretation evp_md5: evp_digest EVP_md5
  by unfold_locales (simp_all add: absorbed_32 md5_final_fold hash_lengths evp_sizes case_prod_beta)

interpretation evp_sha1: evp_digest EVP_sha1
  by unfold_locales (simp_all add: absorbed_32 sha1_final_fold hash_lengths evp_sizes case_prod_beta)

interpretation evp_md5_sha1: evp_digest EVP_md5_sha1
  by unfold_locales (simp_all add: absorbed_md5_sha1 md5_final_fold sha1_final_fold hash_lengths evp_sizes case_prod_beta)

lemma final_sha256:
  "fst (SHA256_Final (fold (\<lambda>xs c. SHA256_Update c xs) xss SHA256_Init)) = Some (sha256_spec fips_H256 (concat xss))"
  "fst (SHA224_Final (fold (\<lambda>xs c. SHA224_Update c xs) xss SHA224_Init)) = Some (take 28 (sha256_spec fips_H224 (concat xss)))"
  using sha256_final_fold[of SHA256_Init xss] sha256_final_fold[of SHA224_Init xss] hash_lengths(4)[of "concat xss"]
  unfolding H256_fips H224_fips
  by (simp_all add: SHA256_Final_def SHA224_Final_def SHA224_Update_def SHA256_Init_def SHA224_Init_def md32_inv_def md32_bits_def)

interpretation evp_sha256: evp_digest EVP_sha256
  by unfold_locales (simp_all add: absorbed_32 final_sha256 hash_lengths evp_sizes case_prod_beta)

interpretation evp_sha224: evp_digest EVP_sha224
  by unfold_locales (simp_all add: absorbed_32 final_sha256 hash_lengths evp_sizes case_prod_beta)

lemma final_sha512:
  assumes "length (p c) = 128" and "list_all sized xss"
  shows "fst (SHA512_Final (fold (\<lambda>xs c. SHA512_Update c xs) xss (SHA512_Init c))) = sha512_spec fips_H512 (concat xss)"
    "fst (SHA384_Final (fold (\<lambda>xs c. SHA384_Update c xs) xss (SHA384_Init c))) = take 48 (sha512_spec fips_H384 (concat xss))"
    "fst (SHA512_256_Final (fold (\<lambda>xs c. SHA512_256_Update c xs) xss (SHA512_256_Init c))) =
       take 32 (sha512_spec fips_H512_256 (concat xss))"
proof -
  have sz: "\<forall>xs \<in> set xss. length xs < 2 ^ 64" using assms(2) by (simp add: list_all_iff)
  have "length (sha512_spec fips_H512 (concat xss)) = 64"
    using length_sha512_spec[OF sha512_inits(4)[OF assms(1)], of "concat xss"] unfolding H512_fips .
  then show "fst (SHA512_Final (fold (\<lambda>xs c. SHA512_Update c xs) xss (SHA512_Init c))) = sha512_spec fips_H512 (concat xss)"
    using sha512_final_fold[OF sha512_inits(1-4)[OF assms(1)] _ sz]
    by (simp add: SHA512_Final_def sha512_inits[OF assms(1)] H512_fips)
  show "fst (SHA384_Final (fold (\<lambda>xs c. SHA384_Update c xs) xss (SHA384_Init c))) = take 48 (sha512_spec fips_H384 (concat xss))"
    using sha512_final_fold[OF sha512_inits(6-9)[OF assms(1)] _ sz]
    by (simp add: SHA384_Final_def SHA384_Update_def sha512_inits[OF assms(1)] H384_fips)
  show "fst (SHA512_256_Final (fold (\<lambda>xs c. SHA512_256_Update c xs) xss (SHA512_256_Init c))) =
      take 32 (sha512_spec fips_H512_256 (concat xss))"
    using sha512_final_fold[OF sha512_inits(11-14)[OF assms(1)] _ sz]
    by (simp add: SHA512_256_Final_def SHA512_256_Update_def sha512_inits[OF assms(1)] H512_256_fips)
qed

lemma sha512_family:
  assumes "length (p c) = 128"
  shows "length (p (fold (\<lambda>xs c. SHA512_Update c xs) xss (SHA512_Init c))) = 128"
    "length (p (fold (\<lambda>xs c. SHA384_Update c xs) xss (SHA384_Init c))) = 128"
    "length (p (fold (\<lambda>xs c. SHA512_256_Update c xs) xss (SHA512_256_Init c))) = 128"
    "length (p (snd (SHA512_Final (fold (\<lambda>xs c. SHA512_Update c xs) xss (SHA512_Init c))))) = 128"
    "length (p (snd (SHA384_Final (fold (\<lambda>xs c. SHA384_Update c xs) xss (SHA384_Init c))))) = 128"
    "length (p (snd (SHA512_256_Final (fold (\<lambda>xs c. SHA512_256_Update c xs) xss (SHA512_256_Init c))))) = 128"
  using sha512_inits(1,6,11)[OF assms] fresh_512
  by (simp_all add: SHA512_Final_def SHA384_Final_def SHA512_256_Final_def SHA384_Update_def SHA512_256_Update_def)

lemma length_512_specs: "length (sha512_spec fips_H512 msg) = 64" "length (sha512_spec fips_H384 msg) = 64"
  "length (sha512_spec fips_H512_256 msg) = 64"
  by (rule length_sha512_spec, simp)+

lemma md_fresh_512: "md_fresh EVP_sha512 d \<longleftrightarrow> (\<exists>c. d = D512 c \<and> length (p c) = 128)"
  "md_fresh EVP_sha384 d \<longleftrightarrow> (\<exists>c. d = D512 c \<and> length (p c) = 128)"
  "md_fresh EVP_sha512_256 d \<longleftrightarrow> (\<exists>c. d = D512 c \<and> length (p c) = 128)"
  by (cases d; simp)+

interpretation evp_sha512: evp_digest EVP_sha512
  by unfold_locales (auto simp: md_fresh_512 absorbed_512 final_sha512 sha512_family length_512_specs evp_sizes case_prod_beta)

interpretation evp_sha384: evp_digest EVP_sha384
  by unfold_locales (auto simp: md_fresh_512 absorbed_512 final_sha512 sha512_family length_512_specs evp_sizes case_prod_beta)

interpretation evp_sha512_256: evp_digest EVP_sha512_256
  by unfold_locales (auto simp: md_fresh_512 absorbed_512 final_sha512 sha512_family length_512_specs evp_sizes case_prod_beta)

text \<open>Every digest keeps the contract.\<close>

lemma evp_digest_all: "evp_digest t"
  by (cases t) (simp_all add: evp_md4.evp_digest_axioms evp_md5.evp_digest_axioms evp_sha1.evp_digest_axioms
      evp_sha224.evp_digest_axioms evp_sha256.evp_digest_axioms evp_sha384.evp_digest_axioms evp_sha512.evp_digest_axioms
      evp_sha512_256.evp_digest_axioms evp_md5_sha1.evp_digest_axioms)

section \<open>Contexts under the contract\<close>

text \<open>
  \<open>holds t ctx xss\<close>: the context has absorbed \<open>xss\<close> since it was initialised for \<open>t\<close>. \<open>ctx_ok\<close>: it can be
  initialised again, whatever it was used for. \<open>alloc_ok\<close>: allocations succeed with memory of the
  right structure.
\<close>

definition holds :: "EVP_MD \<Rightarrow> EVP_MD_CTX \<Rightarrow> byte list list \<Rightarrow> bool" where
  "holds t ctx xss \<longleftrightarrow> digest ctx = Some t \<and> pctx ctx = None \<and> list_all sized xss \<and>
     (\<exists>d. md_fresh t d \<and> md_data ctx = Some (absorbed t xss d))"

definition ctx_ok :: "EVP_MD_CTX \<Rightarrow> bool" where
  "ctx_ok ctx \<longleftrightarrow> pctx ctx = None \<and> (\<forall>t. digest ctx = Some t \<longrightarrow> (\<exists>d. md_data ctx = Some d \<and> md_fresh t d))"

definition alloc_ok :: "evp_alloc \<Rightarrow> bool" where
  "alloc_ok alloc \<longleftrightarrow> (\<forall>t. \<exists>d. alloc t = Some d \<and> md_fresh t d)"

lemma ctx_ok_init [simp]: "ctx_ok EVP_MD_CTX_init"
  by (simp add: ctx_ok_def EVP_MD_CTX_init_def)

lemma holds_update: "holds t ctx xss \<Longrightarrow> sized xs \<Longrightarrow> holds t (EVP_DigestUpdate ctx xs) (xss @ [xs])"
  by (auto simp: holds_def EVP_DigestUpdate_def absorbed_def)

lemma holds_updates:
  "holds t c yss \<Longrightarrow> list_all sized xss \<Longrightarrow> holds t (fold (\<lambda>xs c. EVP_DigestUpdate c xs) xss c) (yss @ xss)"
proof (induction xss arbitrary: c yss)
  case (Cons xs xss)
  from Cons.IH[OF holds_update[OF Cons.prems(1), of xs]] Cons.prems show ?case by simp
qed simp

lemma holds_init:
  assumes "alloc_ok alloc" "ctx_ok ctx"
  obtains ctx' where "EVP_DigestInit_ex alloc ctx t = (True, ctx')" "holds t ctx' []"
proof (cases "digest ctx = Some t")
  case True
  then show ?thesis using assms(2) that by (auto simp: EVP_DigestInit_ex_def ctx_ok_def holds_def absorbed_def)
next
  case False
  obtain d where "alloc t = Some d" "md_fresh t d" using assms(1) by (auto simp: alloc_ok_def)
  then show ?thesis using False assms(2) that by (auto simp: EVP_DigestInit_ex_def ctx_ok_def holds_def absorbed_def)
qed

lemma holds_copy:
  assumes "alloc_ok alloc" "holds t inp xss"
  obtains out' where "EVP_MD_CTX_copy_ex alloc dup out inp = (True, out')" "holds t out' xss"
proof -
  have "alloc t \<noteq> None" using assms(1) unfolding alloc_ok_def by (metis option.distinct(1))
  then obtain tmp where "(case digest inp of None \<Rightarrow> Some None
      | Some t \<Rightarrow> if digest out \<noteq> digest inp then map_option Some (alloc t) else Some (md_data out)) = Some tmp"
    using assms(2) by (cases "digest out = digest inp") (auto simp: holds_def)
  then have "EVP_MD_CTX_copy_ex alloc dup out inp = (True, \<lparr>digest = digest inp, md_data = md_data inp, pctx = None\<rparr>)"
    using assms(2) by (simp add: EVP_MD_CTX_copy_ex_def holds_def)
  then show ?thesis by (rule that) (use assms(2) in \<open>auto simp: holds_def\<close>)
qed

context evp_digest
begin

lemma holds_ok: "holds t ctx xss \<Longrightarrow> ctx_ok ctx"
  using fresh_absorbed by (auto simp: holds_def ctx_ok_def)

lemma holds_final:
  assumes "holds t ctx xss"
  obtains ctx' where "EVP_DigestFinal_ex ctx = (evp_hash t (concat xss), EVP_MD_size t, ctx')" "ctx_ok ctx'"
proof -
  obtain d where d: "md_fresh t d" "md_data ctx = Some (absorbed t xss d)" "digest ctx = Some t" "pctx ctx = None" "list_all sized xss"
    using assms by (auto simp: holds_def)
  obtain out d' where f: "md_final (evp_method t) (absorbed t xss d) = (out, d')" by fastforce
  then have "out = evp_hash t (concat xss)" "md_fresh t (cleanse d')"
    using final_absorbed[OF d(1,5)] fresh_final[OF d(1,5)] by simp_all
  then show ?thesis
    using that[of "ctx\<lparr>md_data := Some (cleanse d')\<rparr>"] d f by (simp add: EVP_DigestFinal_ex_def EVP_MD_size_def ctx_ok_def)
qed

lemma digest_eq:
  assumes "alloc_ok alloc" "sized msg"
  shows "EVP_Digest alloc t msg = Some (evp_hash t msg, EVP_MD_size t)"
proof -
  obtain c where c: "EVP_DigestInit_ex alloc EVP_MD_CTX_init t = (True, c)" "holds t c []"
    using holds_init[OF assms(1) ctx_ok_init] by blast
  have "holds t (EVP_DigestUpdate c msg) [msg]" using holds_update[OF c(2) assms(2)] by simp
  then obtain c' where "EVP_DigestFinal_ex (EVP_DigestUpdate c msg) = (evp_hash t (concat [msg]), EVP_MD_size t, c')"
    using holds_final by blast
  then show ?thesis using c(1) by (simp add: EVP_Digest_def)
qed

end

text \<open>
  C1. The digest interface computes the hash its method names: with each of the nine digests, in a
  context that may have been used for another one before, \<open>EVP_DigestInit_ex\<close>, any sequence of
  updates, a copy of the context and \<open>EVP_DigestFinal_ex\<close> give the standard's digest of the
  concatenated input, of the announced size, and leave a context that can be used again.
\<close>

theorem evp_digest_correct:
  assumes "alloc_ok alloc" and "ctx_ok ctx" and "list_all sized xss"
  shows "\<exists>c1 c2 c3. EVP_DigestInit_ex alloc ctx t = (True, c1) \<and>
    EVP_MD_CTX_copy_ex alloc dup out (fold (\<lambda>xs c. EVP_DigestUpdate c xs) xss c1) = (True, c2) \<and>
    EVP_DigestFinal_ex c2 = (evp_hash t (concat xss), EVP_MD_size t, c3) \<and>
    length (evp_hash t (concat xss)) = EVP_MD_size t \<and> ctx_ok c3"
proof -
  obtain c1 where c1: "EVP_DigestInit_ex alloc ctx t = (True, c1)" "holds t c1 []" using holds_init[OF assms(1,2)] .
  have u: "holds t (fold (\<lambda>xs c. EVP_DigestUpdate c xs) xss c1) xss" using holds_updates[OF c1(2) assms(3)] by simp
  obtain c2
    where c2: "EVP_MD_CTX_copy_ex alloc dup out (fold (\<lambda>xs c. EVP_DigestUpdate c xs) xss c1) = (True, c2)" "holds t c2 xss"
    by (rule holds_copy[OF assms(1) u])
  obtain c3 where "EVP_DigestFinal_ex c2 = (evp_hash t (concat xss), EVP_MD_size t, c3)" "ctx_ok c3"
    using evp_digest.holds_final[OF evp_digest_all c2(2)] .
  then show ?thesis using c1(1) c2(1) evp_digest.hash_length[OF evp_digest_all] by blast
qed

text \<open>An allocator that zeroes what it hands out.\<close>

fun zero_alloc :: evp_alloc where
  "zero_alloc t =
     (if t = EVP_sha224 \<or> t = EVP_sha256 then Some (cleanse (D256 SHA256_Init))
      else if t = EVP_sha384 \<or> t = EVP_sha512 \<or> t = EVP_sha512_256 then Some (D512 zero512)
      else if t = EVP_md5_sha1 then Some (cleanse (D_md5_sha1 MD5_Init SHA1_Init)) else Some (cleanse (D32 MD5_Init)))"

lemma zero_alloc_ok: "alloc_ok zero_alloc"
proof -
  have "\<exists>d. zero_alloc t = Some d \<and> md_fresh t d" for t by (cases t) (simp_all add: zero512_def)
  then show ?thesis by (simp add: alloc_ok_def)
qed

theorem evp_digest_correct_witness:
  "\<exists>c1 c2 c3. EVP_DigestInit_ex zero_alloc EVP_MD_CTX_init EVP_sha384 = (True, c1) \<and>
    EVP_MD_CTX_copy_ex zero_alloc Some EVP_MD_CTX_init (EVP_DigestUpdate (EVP_DigestUpdate c1 [97, 98]) [99]) = (True, c2) \<and>
    EVP_DigestFinal_ex c2 = (evp_hash EVP_sha384 [97, 98, 99], 48, c3)"
  using evp_digest_correct[OF zero_alloc_ok ctx_ok_init, where xss = "[[97, 98], [99]]" and out = EVP_MD_CTX_init
      and dup = Some and t = EVP_sha384]
  by (auto simp: EVP_MD_size_def)

end
