(* ===== verification/Hmac.thy ===== *)
theory Hmac
  imports Evp
begin

text \<open>
  HMAC, \<^verbatim>\<open>crypto/fipsmodule/hmac/hmac.c\<close>, and HKDF, \<^verbatim>\<open>crypto/hkdf/hkdf.c\<close>, on top of the digest
  interface, against RFC 2104 and RFC 5869.
\<close>

section \<open>HMAC\<close>

record HMAC_CTX =
  hm_md :: "EVP_MD option"
  md_ctx :: EVP_MD_CTX
  i_ctx :: EVP_MD_CTX
  o_ctx :: EVP_MD_CTX

definition HMAC_CTX_init :: HMAC_CTX where
  "HMAC_CTX_init = \<lparr>hm_md = None, md_ctx = EVP_MD_CTX_init, i_ctx = EVP_MD_CTX_init, o_ctx = EVP_MD_CTX_init\<rparr>"

definition HMAC_CTX_new :: "bool \<Rightarrow> HMAC_CTX option" where
  "HMAC_CTX_new mem = (if mem then Some HMAC_CTX_init else None)"

text \<open>The memory is zeroed, which makes both pointers null.\<close>

definition HMAC_CTX_cleanup :: "HMAC_CTX \<Rightarrow> HMAC_CTX" where
  "HMAC_CTX_cleanup ctx = HMAC_CTX_init"

abbreviation EVP_MAX_MD_BLOCK_SIZE :: nat where "EVP_MAX_MD_BLOCK_SIZE \<equiv> 128"

text \<open>The block derived from the key: hashed when it is long, then padded with zeros. \<open>None\<close> is a failure.\<close>

definition hmac_key_block :: "evp_alloc \<Rightarrow> EVP_MD_CTX \<Rightarrow> EVP_MD \<Rightarrow> byte list \<Rightarrow> byte list option \<times> EVP_MD_CTX" where
  "hmac_key_block alloc ctx md key =
     (let fill = (\<lambda>k. k @ replicate (EVP_MAX_MD_BLOCK_SIZE - length k) 0) in
      if EVP_MD_block_size md < length key then
        (case EVP_DigestInit_ex alloc ctx md of
           (False, ctx) \<Rightarrow> (None, ctx)
         | (True, ctx) \<Rightarrow>
             (case EVP_DigestFinal_ex (EVP_DigestUpdate ctx key) of (out, n, ctx) \<Rightarrow> (Some (fill (take n out)), ctx)))
      else (Some (fill key), ctx))"

text \<open>One of the two padded contexts.\<close>

definition hmac_pad :: "evp_alloc \<Rightarrow> EVP_MD_CTX \<Rightarrow> EVP_MD \<Rightarrow> byte \<Rightarrow> byte list \<Rightarrow> bool \<times> EVP_MD_CTX" where
  "hmac_pad alloc ctx md x key_block =
     (case EVP_DigestInit_ex alloc ctx md of
        (False, ctx) \<Rightarrow> (False, ctx)
      | (True, ctx) \<Rightarrow> (True, EVP_DigestUpdate ctx (take (EVP_MD_block_size md) (map (\<lambda>b. x XOR b) key_block))))"

text \<open>
  A key is \<open>None\<close> for a null pointer. Without a digest, neither given nor remembered, and with a key
  the code follows a null pointer; the model fails there.
\<close>

definition HMAC_Init_ex ::
  "evp_alloc \<Rightarrow> (nat \<Rightarrow> nat option) \<Rightarrow> HMAC_CTX \<Rightarrow> byte list option \<Rightarrow> EVP_MD option \<Rightarrow> bool \<times> HMAC_CTX" where
  "HMAC_Init_ex alloc dup ctx key md0 =
     (let md = (case md0 of None \<Rightarrow> hm_md ctx | Some t \<Rightarrow> Some t);
          rewind = (\<lambda>ctx. case EVP_MD_CTX_copy_ex alloc dup (md_ctx ctx) (i_ctx ctx) of (ok, c) \<Rightarrow> (ok, ctx\<lparr>md_ctx := c\<rparr>))
      in if md \<noteq> hm_md ctx \<or> key \<noteq> None then
           (case md of
              None \<Rightarrow> (False, ctx)
            | Some t \<Rightarrow>
                (case hmac_key_block alloc (md_ctx ctx) t (case key of None \<Rightarrow> [] | Some k \<Rightarrow> k) of
                   (None, c) \<Rightarrow> (False, ctx\<lparr>md_ctx := c\<rparr>)
                 | (Some kb, c) \<Rightarrow>
                     let ctx = ctx\<lparr>md_ctx := c\<rparr> in
                     (case hmac_pad alloc (i_ctx ctx) t 0x36 kb of
                        (False, c) \<Rightarrow> (False, ctx\<lparr>i_ctx := c\<rparr>)
                      | (True, c) \<Rightarrow>
                          let ctx = ctx\<lparr>i_ctx := c\<rparr> in
                          (case hmac_pad alloc (o_ctx ctx) t 0x5c kb of
                             (False, c) \<Rightarrow> (False, ctx\<lparr>o_ctx := c\<rparr>)
                           | (True, c) \<Rightarrow> rewind (ctx\<lparr>o_ctx := c, hm_md := Some t\<rparr>)))))
         else rewind ctx)"

definition HMAC_Update :: "HMAC_CTX \<Rightarrow> byte list \<Rightarrow> HMAC_CTX" where
  "HMAC_Update ctx bs = ctx\<lparr>md_ctx := EVP_DigestUpdate (md_ctx ctx) bs\<rparr>"

definition HMAC_Final :: "evp_alloc \<Rightarrow> (nat \<Rightarrow> nat option) \<Rightarrow> HMAC_CTX \<Rightarrow> (byte list \<times> nat) option \<times> HMAC_CTX" where
  "HMAC_Final alloc dup ctx =
     (case EVP_DigestFinal_ex (md_ctx ctx) of
        (out, i, c) \<Rightarrow>
          (case EVP_MD_CTX_copy_ex alloc dup c (o_ctx ctx) of
             (False, c) \<Rightarrow> (None, ctx\<lparr>md_ctx := c\<rparr>)
           | (True, c) \<Rightarrow>
               (case EVP_DigestFinal_ex (EVP_DigestUpdate c (take i out)) of
                  (mac, n, c) \<Rightarrow> (Some (mac, n), ctx\<lparr>md_ctx := c\<rparr>))))"

definition HMAC :: "evp_alloc \<Rightarrow> (nat \<Rightarrow> nat option) \<Rightarrow> EVP_MD \<Rightarrow> byte list option \<Rightarrow> byte list \<Rightarrow> (byte list \<times> nat) option" where
  "HMAC alloc dup t key bs =
     (case HMAC_Init_ex alloc dup HMAC_CTX_init key (Some t) of
        (False, _) \<Rightarrow> None
      | (True, ctx) \<Rightarrow> fst (HMAC_Final alloc dup (HMAC_Update ctx bs)))"

text \<open>On a context without a digest \<open>HMAC_size\<close> follows a null pointer: \<open>None\<close>.\<close>

definition HMAC_size :: "HMAC_CTX \<Rightarrow> nat option" where
  "HMAC_size ctx = map_option EVP_MD_size (hm_md ctx)"

definition HMAC_CTX_copy_ex :: "evp_alloc \<Rightarrow> (nat \<Rightarrow> nat option) \<Rightarrow> HMAC_CTX \<Rightarrow> HMAC_CTX \<Rightarrow> bool \<times> HMAC_CTX" where
  "HMAC_CTX_copy_ex alloc dup dest src =
     (case EVP_MD_CTX_copy_ex alloc dup (i_ctx dest) (i_ctx src) of
        (False, c) \<Rightarrow> (False, dest\<lparr>i_ctx := c\<rparr>)
      | (True, c) \<Rightarrow>
          let dest = dest\<lparr>i_ctx := c\<rparr> in
          (case EVP_MD_CTX_copy_ex alloc dup (o_ctx dest) (o_ctx src) of
             (False, c) \<Rightarrow> (False, dest\<lparr>o_ctx := c\<rparr>)
           | (True, c) \<Rightarrow>
               let dest = dest\<lparr>o_ctx := c\<rparr> in
               (case EVP_MD_CTX_copy_ex alloc dup (md_ctx dest) (md_ctx src) of
                  (False, c) \<Rightarrow> (False, dest\<lparr>md_ctx := c\<rparr>)
                | (True, c) \<Rightarrow> (True, dest\<lparr>md_ctx := c, hm_md := hm_md src\<rparr>))))"

definition HMAC_CTX_reset :: "HMAC_CTX \<Rightarrow> HMAC_CTX" where
  "HMAC_CTX_reset ctx = HMAC_CTX_init"

definition HMAC_Init ::
  "evp_alloc \<Rightarrow> (nat \<Rightarrow> nat option) \<Rightarrow> HMAC_CTX \<Rightarrow> byte list option \<Rightarrow> EVP_MD option \<Rightarrow> bool \<times> HMAC_CTX" where
  "HMAC_Init alloc dup ctx key md =
     HMAC_Init_ex alloc dup (if key \<noteq> None \<and> md \<noteq> None then HMAC_CTX_init else ctx) key md"

definition HMAC_CTX_copy :: "evp_alloc \<Rightarrow> (nat \<Rightarrow> nat option) \<Rightarrow> HMAC_CTX \<Rightarrow> HMAC_CTX \<Rightarrow> bool \<times> HMAC_CTX" where
  "HMAC_CTX_copy alloc dup dest src = HMAC_CTX_copy_ex alloc dup HMAC_CTX_init src"

section \<open>HKDF\<close>

definition HKDF_extract :: "evp_alloc \<Rightarrow> (nat \<Rightarrow> nat option) \<Rightarrow> EVP_MD \<Rightarrow> byte list \<Rightarrow> byte list option \<Rightarrow> byte list option" where
  "HKDF_extract alloc dup t secret salt = map_option (\<lambda>(mac, n). take n mac) (HMAC alloc dup t salt secret)"

text \<open>
  The loop of \<open>HKDF_expand\<close>, from iteration \<open>i\<close> with \<open>k\<close> iterations to go; \<open>out\<close> are the bytes stored so
  far, \<open>done\<close> of them.
\<close>

primrec hkdf_loop ::
  "evp_alloc \<Rightarrow> (nat \<Rightarrow> nat option) \<Rightarrow> EVP_MD \<Rightarrow> byte list \<Rightarrow> nat \<Rightarrow> nat \<Rightarrow> nat \<Rightarrow> byte list \<Rightarrow> byte list \<Rightarrow> HMAC_CTX \<Rightarrow> byte list option" where
  "hkdf_loop alloc dup t info out_len 0 i previous out hmac = Some out"
| "hkdf_loop alloc dup t info out_len (Suc k) i previous out hmac =
     (let ctr = of_nat (i + 1) :: byte in
      case (if i \<noteq> 0 then
              (case HMAC_Init_ex alloc dup hmac None None of
                 (False, c) \<Rightarrow> (False, c)
               | (True, c) \<Rightarrow> (True, HMAC_Update c (take (EVP_MD_size t) previous)))
            else (True, hmac)) of
        (False, _) \<Rightarrow> None
      | (True, c) \<Rightarrow>
          (case HMAC_Final alloc dup (HMAC_Update (HMAC_Update c info) [ctr]) of
             (None, _) \<Rightarrow> None
           | (Some (mac, n), c) \<Rightarrow>
               let todo = (if length out + EVP_MD_size t > out_len then out_len - length out else EVP_MD_size t)
               in hkdf_loop alloc dup t info out_len k (i + 1) mac (out @ take todo mac) c))"

definition HKDF_expand ::
  "evp_alloc \<Rightarrow> (nat \<Rightarrow> nat option) \<Rightarrow> EVP_MD \<Rightarrow> size_t \<Rightarrow> byte list \<Rightarrow> byte list \<Rightarrow> byte list option" where
  "HKDF_expand alloc dup t out_len prk info =
     (let digest_len = of_nat (EVP_MD_size t) :: size_t;
          n = (out_len + digest_len - 1) div digest_len
      in if out_len + digest_len < out_len \<or> n > 255 then None
         else case HMAC_Init_ex alloc dup HMAC_CTX_init (Some prk) (Some t) of
           (False, _) \<Rightarrow> None
         | (True, hmac) \<Rightarrow> hkdf_loop alloc dup t info (unat out_len) (unat n) 0 [] [] hmac)"

definition HKDF ::
  "evp_alloc \<Rightarrow> (nat \<Rightarrow> nat option) \<Rightarrow> EVP_MD \<Rightarrow> size_t \<Rightarrow> byte list \<Rightarrow> byte list option \<Rightarrow> byte list \<Rightarrow> byte list option" where
  "HKDF alloc dup t out_len secret salt info =
     (case HKDF_extract alloc dup t secret salt of
        None \<Rightarrow> None
      | Some prk \<Rightarrow> HKDF_expand alloc dup t out_len prk info)"

section \<open>The standards\<close>

definition hmac_key :: "(byte list \<Rightarrow> byte list) \<Rightarrow> nat \<Rightarrow> byte list \<Rightarrow> byte list" where
  "hmac_key H B k = (let k' = (if B < length k then H k else k) in k' @ replicate (B - length k') 0)"

definition hmac_spec :: "(byte list \<Rightarrow> byte list) \<Rightarrow> nat \<Rightarrow> byte list \<Rightarrow> byte list \<Rightarrow> byte list" where
  "hmac_spec H B k msg =
     H (map (\<lambda>b. 0x5c XOR b) (hmac_key H B k) @ H (map (\<lambda>b. 0x36 XOR b) (hmac_key H B k) @ msg))"

primrec hkdf_T :: "(byte list \<Rightarrow> byte list) \<Rightarrow> byte list \<Rightarrow> nat \<Rightarrow> byte list" where
  "hkdf_T mac info 0 = []"
| "hkdf_T mac info (Suc i) = mac (hkdf_T mac info i @ info @ [of_nat (Suc i)])"

definition hkdf_spec :: "(byte list \<Rightarrow> byte list) \<Rightarrow> nat \<Rightarrow> nat \<Rightarrow> byte list \<Rightarrow> byte list" where
  "hkdf_spec mac hash_len L info =
     take L (concat (map (hkdf_T mac info) [1..<Suc ((L + hash_len - 1) div hash_len)]))"

section \<open>HMAC under the contract of a digest\<close>

abbreviation hmac_block :: "EVP_MD \<Rightarrow> byte \<Rightarrow> byte list \<Rightarrow> byte list" where
  "hmac_block t x key \<equiv> map (\<lambda>b. x XOR b) (hmac_key (evp_hash t) (EVP_MD_block_size t) key)"

text \<open>The padded contexts are in place; the running one may be anything, or has absorbed \<open>xss\<close>.\<close>

definition hmac_keyed :: "EVP_MD \<Rightarrow> byte list \<Rightarrow> HMAC_CTX \<Rightarrow> bool" where
  "hmac_keyed t key ctx \<longleftrightarrow> hm_md ctx = Some t \<and> holds t (i_ctx ctx) [hmac_block t 0x36 key] \<and>
     holds t (o_ctx ctx) [hmac_block t 0x5c key] \<and> ctx_ok (md_ctx ctx)"

definition hmac_at :: "EVP_MD \<Rightarrow> byte list \<Rightarrow> byte list list \<Rightarrow> HMAC_CTX \<Rightarrow> bool" where
  "hmac_at t key xss ctx \<longleftrightarrow> hmac_keyed t key ctx \<and> holds t (md_ctx ctx) (hmac_block t 0x36 key # xss)"

definition hmac_ctx_ok :: "HMAC_CTX \<Rightarrow> bool" where
  "hmac_ctx_ok ctx \<longleftrightarrow> ctx_ok (md_ctx ctx) \<and> ctx_ok (i_ctx ctx) \<and> ctx_ok (o_ctx ctx)"

lemma hmac_ctx_ok_init [simp]: "hmac_ctx_ok HMAC_CTX_init"
  by (simp add: hmac_ctx_ok_def HMAC_CTX_init_def)

context evp_digest
begin

lemma hmac_update: "hmac_at t key xss ctx \<Longrightarrow> sized xs \<Longrightarrow> hmac_at t key (xss @ [xs]) (HMAC_Update ctx xs)"
  using holds_update[of t "md_ctx ctx" "hmac_block t 0x36 key # xss" xs] holds_ok
  by (auto simp: hmac_at_def hmac_keyed_def HMAC_Update_def)

lemma key_block:
  assumes "alloc_ok alloc" "ctx_ok ctx" "sized key"
  obtains ctx' where "ctx_ok ctx'" "hmac_key_block alloc ctx t key =
    (Some (hmac_key (evp_hash t) (EVP_MD_block_size t) key @ replicate (128 - EVP_MD_block_size t) 0), ctx')"
proof (cases "EVP_MD_block_size t < length key")
  case True
  obtain c1 where c1: "EVP_DigestInit_ex alloc ctx t = (True, c1)" "holds t c1 []" by (rule holds_init[OF assms(1,2)])
  have "holds t (EVP_DigestUpdate c1 key) [key]" using holds_update[OF c1(2) assms(3)] by simp
  then obtain c2 where c2: "EVP_DigestFinal_ex (EVP_DigestUpdate c1 key) = (evp_hash t key, EVP_MD_size t, c2)" "ctx_ok c2"
    by (rule holds_final) simp
  show ?thesis
    using that[OF c2(2)] True c1(1) c2(1) sizes hash_length[of key]
    by (simp add: hmac_key_block_def hmac_key_def flip: replicate_add)
next
  case False
  then show ?thesis using that[OF assms(2)] sizes by (simp add: hmac_key_block_def hmac_key_def flip: replicate_add)
qed

lemma length_hmac_block: "length (hmac_block t x key) = EVP_MD_block_size t"
  using sizes hash_length[of key] by (simp add: hmac_key_def Let_def)

lemma pad_holds:
  assumes "alloc_ok alloc" "ctx_ok ctx"
  obtains ctx' where "hmac_pad alloc ctx t x (hmac_key (evp_hash t) (EVP_MD_block_size t) key @ zs) = (True, ctx')"
    "holds t ctx' [hmac_block t x key]"
proof -
  obtain c where c: "EVP_DigestInit_ex alloc ctx t = (True, c)" "holds t c []" by (rule holds_init[OF assms])
  have k: "take (EVP_MD_block_size t) (map (\<lambda>b. x XOR b) (hmac_key (evp_hash t) (EVP_MD_block_size t) key @ zs)) = hmac_block t x key"
    using length_hmac_block[of x key] by simp
  have "sized (hmac_block t x key)" using length_hmac_block[of x key] sizes(2) by simp
  from holds_update[OF c(2) this] show ?thesis using that c(1) k by (simp add: hmac_pad_def)
qed

lemma rewind:
  assumes "alloc_ok alloc" "hmac_keyed t key ctx"
  obtains c where "EVP_MD_CTX_copy_ex alloc dup (md_ctx ctx) (i_ctx ctx) = (True, c)" "hmac_at t key [] (ctx\<lparr>md_ctx := c\<rparr>)"
proof -
  have "holds t (i_ctx ctx) [hmac_block t 0x36 key]" using assms(2) by (simp add: hmac_keyed_def)
  then obtain c where c: "EVP_MD_CTX_copy_ex alloc dup (md_ctx ctx) (i_ctx ctx) = (True, c)" "holds t c [hmac_block t 0x36 key]"
    by (rule holds_copy[OF assms(1)])
  show ?thesis by (rule that[OF c(1)]) (use assms(2) c(2) holds_ok[OF c(2)] in \<open>simp add: hmac_at_def hmac_keyed_def\<close>)
qed

text \<open>With no new key and no new digest the context is rewound to where its key left it.\<close>

lemma hmac_rewind:
  assumes "alloc_ok alloc" "hmac_keyed t key ctx"
  obtains ctx' where "HMAC_Init_ex alloc dup ctx None None = (True, ctx')" "hmac_at t key [] ctx'"
proof -
  obtain c where "EVP_MD_CTX_copy_ex alloc dup (md_ctx ctx) (i_ctx ctx) = (True, c)" "hmac_at t key [] (ctx\<lparr>md_ctx := c\<rparr>)"
    by (rule rewind[OF assms])
  then show ?thesis using that by (simp add: HMAC_Init_ex_def)
qed

lemma hmac_init:
  assumes "alloc_ok alloc" "hmac_ctx_ok ctx" "Some t \<noteq> hm_md ctx \<or> key \<noteq> None" "sized (case key of None \<Rightarrow> [] | Some k \<Rightarrow> k)"
  obtains ctx' where "HMAC_Init_ex alloc dup ctx key (Some t) = (True, ctx')"
    "hmac_at t (case key of None \<Rightarrow> [] | Some k \<Rightarrow> k) [] ctx'"
proof -
  define k where "k = (case key of None \<Rightarrow> [] | Some k \<Rightarrow> k)"
  have ok: "ctx_ok (md_ctx ctx)" "ctx_ok (i_ctx ctx)" "ctx_ok (o_ctx ctx)" using assms(2) by (simp_all add: hmac_ctx_ok_def)
  obtain c1 where c1: "ctx_ok c1" "hmac_key_block alloc (md_ctx ctx) t k =
      (Some (hmac_key (evp_hash t) (EVP_MD_block_size t) k @ replicate (128 - EVP_MD_block_size t) 0), c1)"
    unfolding k_def by (rule key_block[OF assms(1) ok(1) assms(4)])
  obtain c2 where c2: "hmac_pad alloc (i_ctx ctx) t 0x36 (hmac_key (evp_hash t) (EVP_MD_block_size t) k @
      replicate (128 - EVP_MD_block_size t) 0) = (True, c2)" "holds t c2 [hmac_block t 0x36 k]"
    by (rule pad_holds[OF assms(1) ok(2)])
  obtain c3 where c3: "hmac_pad alloc (o_ctx ctx) t 0x5c (hmac_key (evp_hash t) (EVP_MD_block_size t) k @
      replicate (128 - EVP_MD_block_size t) 0) = (True, c3)" "holds t c3 [hmac_block t 0x5c k]"
    by (rule pad_holds[OF assms(1) ok(3)])
  define ctx' where "ctx' = ctx\<lparr>md_ctx := c1, i_ctx := c2, o_ctx := c3, hm_md := Some t\<rparr>"
  have "hmac_keyed t k ctx'" using c1(1) c2(2) c3(2) by (simp add: hmac_keyed_def ctx'_def)
  then obtain c where "EVP_MD_CTX_copy_ex alloc dup (md_ctx ctx') (i_ctx ctx') = (True, c)" "hmac_at t k [] (ctx'\<lparr>md_ctx := c\<rparr>)"
    by (rule rewind[OF assms(1)])
  then show ?thesis
    using that assms(3) c1(2) c2(1) c3(1) by (auto simp: HMAC_Init_ex_def ctx'_def Let_def simp flip: k_def)
qed

lemma hmac_updates:
  "hmac_at t key yss ctx \<Longrightarrow> list_all sized xss \<Longrightarrow> hmac_at t key (yss @ xss) (fold (\<lambda>xs c. HMAC_Update c xs) xss ctx)"
proof (induction xss arbitrary: ctx yss)
  case (Cons xs xss)
  from Cons.IH[OF hmac_update[OF Cons.prems(1), of xs]] Cons.prems show ?case by simp
qed simp

lemma hmac_final:
  assumes "alloc_ok alloc" "hmac_at t key xss ctx"
  obtains ctx' where "HMAC_Final alloc dup ctx =
      (Some (hmac_spec (evp_hash t) (EVP_MD_block_size t) key (concat xss), EVP_MD_size t), ctx')" "hmac_keyed t key ctx'"
proof -
  define ih where "ih = evp_hash t (hmac_block t 0x36 key @ concat xss)"
  have st: "holds t (md_ctx ctx) (hmac_block t 0x36 key # xss)" "hmac_keyed t key ctx" "holds t (o_ctx ctx) [hmac_block t 0x5c key]"
    using assms(2) by (simp_all add: hmac_at_def hmac_keyed_def)
  obtain c1 where c1: "EVP_DigestFinal_ex (md_ctx ctx) = (ih, EVP_MD_size t, c1)"
    by (rule holds_final[OF st(1)]) (simp add: ih_def)
  obtain c2 where c2: "EVP_MD_CTX_copy_ex alloc dup c1 (o_ctx ctx) = (True, c2)" "holds t c2 [hmac_block t 0x5c key]"
    by (rule holds_copy[OF assms(1) st(3)])
  have l: "length ih = EVP_MD_size t" by (simp add: ih_def hash_length)
  have "sized ih" using sizes by (simp add: l)
  from holds_update[OF c2(2) this] obtain c3
    where c3: "EVP_DigestFinal_ex (EVP_DigestUpdate c2 ih) = (evp_hash t (hmac_block t 0x5c key @ ih), EVP_MD_size t, c3)" "ctx_ok c3"
    by (rule holds_final) simp
  show ?thesis
  proof (rule that[of "ctx\<lparr>md_ctx := c3\<rparr>"])
    show "HMAC_Final alloc dup ctx = (Some (hmac_spec (evp_hash t) (EVP_MD_block_size t) key (concat xss), EVP_MD_size t), ctx\<lparr>md_ctx := c3\<rparr>)"
      using c1 c2(1) c3(1) l by (simp add: HMAC_Final_def hmac_spec_def flip: ih_def)
    show "hmac_keyed t key (ctx\<lparr>md_ctx := c3\<rparr>)" using st(2) c3(2) by (simp add: hmac_keyed_def)
  qed
qed

lemma hmac_copy:
  assumes "alloc_ok alloc" "hmac_at t key xss src"
  obtains dest' where "HMAC_CTX_copy_ex alloc dup dest src = (True, dest')" "hmac_at t key xss dest'" "HMAC_size dest' = Some (EVP_MD_size t)"
proof -
  have st: "holds t (i_ctx src) [hmac_block t 0x36 key]" "holds t (o_ctx src) [hmac_block t 0x5c key]"
    "holds t (md_ctx src) (hmac_block t 0x36 key # xss)" "hm_md src = Some t"
    using assms(2) by (simp_all add: hmac_at_def hmac_keyed_def)
  obtain ci where ci: "EVP_MD_CTX_copy_ex alloc dup (i_ctx dest) (i_ctx src) = (True, ci)" "holds t ci [hmac_block t 0x36 key]"
    by (rule holds_copy[OF assms(1) st(1)])
  obtain co where co: "EVP_MD_CTX_copy_ex alloc dup (o_ctx dest) (o_ctx src) = (True, co)" "holds t co [hmac_block t 0x5c key]"
    by (rule holds_copy[OF assms(1) st(2)])
  obtain cm where cm: "EVP_MD_CTX_copy_ex alloc dup (md_ctx dest) (md_ctx src) = (True, cm)" "holds t cm (hmac_block t 0x36 key # xss)"
    by (rule holds_copy[OF assms(1) st(3)])
  show ?thesis
    by (rule that[of "dest\<lparr>i_ctx := ci, o_ctx := co, md_ctx := cm, hm_md := Some t\<rparr>"])
       (use ci co cm st(4) holds_ok[OF cm(2)] in \<open>simp_all add: HMAC_CTX_copy_ex_def hmac_at_def hmac_keyed_def HMAC_size_def\<close>)
qed

lemma hmac_eq:
  assumes "alloc_ok alloc" "sized (case key of None \<Rightarrow> [] | Some k \<Rightarrow> k)" "sized msg"
  shows "HMAC alloc dup t key msg =
    Some (hmac_spec (evp_hash t) (EVP_MD_block_size t) (case key of None \<Rightarrow> [] | Some k \<Rightarrow> k) msg, EVP_MD_size t)"
proof -
  define k where "k = (case key of None \<Rightarrow> [] | Some k \<Rightarrow> k)"
  obtain ctx where i: "HMAC_Init_ex alloc dup HMAC_CTX_init key (Some t) = (True, ctx)" "hmac_at t k [] ctx"
    unfolding k_def by (rule hmac_init[OF assms(1) hmac_ctx_ok_init _ assms(2)]) (simp add: HMAC_CTX_init_def)
  from hmac_update[OF i(2) assms(3)] have "hmac_at t k [msg] (HMAC_Update ctx msg)" by simp
  then obtain ctx' where "HMAC_Final alloc dup (HMAC_Update ctx msg) =
      (Some (hmac_spec (evp_hash t) (EVP_MD_block_size t) k msg, EVP_MD_size t), ctx')"
    by (rule hmac_final[OF assms(1)]) simp
  then show ?thesis using i(1) by (simp add: HMAC_def k_def)
qed

text \<open>The counter byte of \<open>HKDF_expand\<close> and the chaining of its blocks; \<open>mac\<close> is the keyed function.\<close>

lemma length_hkdf_T:
  assumes "\<And>m. length (mac m) = EVP_MD_size t"
  shows "length (concat (map (hkdf_T mac info) [1..<Suc i])) = i * EVP_MD_size t"
proof -
  have "length (hkdf_T mac info j) = EVP_MD_size t" if "0 < j" for j using that assms by (cases j) simp_all
  then show ?thesis using assms by (induction i) simp_all
qed

lemma hkdf_loop_eq:
  assumes a: "alloc_ok alloc" "sized info" and mac: "mac = hmac_spec (evp_hash t) (EVP_MD_block_size t) key"
  shows "(if i = 0 then hmac_at t key [] ctx else hmac_keyed t key ctx) \<Longrightarrow>
    hkdf_loop alloc dup t info L k i (hkdf_T mac info i) (take L (concat (map (hkdf_T mac info) [1..<Suc i]))) ctx =
    Some (take L (concat (map (hkdf_T mac info) [1..<Suc (i + k)])))"
proof (induction k arbitrary: i ctx)
  case (Suc k)
  let ?T = "hkdf_T mac info" and ?n = "EVP_MD_size t"
  let ?pre = "if i \<noteq> 0 then case HMAC_Init_ex alloc dup ctx None None of (False, c) \<Rightarrow> (False, c)
      | (True, c) \<Rightarrow> (True, HMAC_Update c (take ?n (?T i))) else (True, ctx)"
  have len: "length (mac m) = ?n" for m by (simp add: mac hmac_spec_def hash_length)
  have prev: "length (?T i) = ?n" if "i \<noteq> 0" using that len by (cases i) simp_all
  have "sized (?T i)" using prev sizes by (cases "i = 0") simp_all
  then obtain c xss where c: "?pre = (True, c)" "hmac_at t key xss c" "concat xss = ?T i"
  proof (cases "i = 0")
    case True
    then show ?thesis using that[of ctx "[]"] Suc.prems by simp
  next
    case False
    then have "hmac_keyed t key ctx" using Suc.prems by simp
    then obtain c where r: "HMAC_Init_ex alloc dup ctx None None = (True, c)" "hmac_at t key [] c" by (rule hmac_rewind[OF a(1)])
    show ?thesis
      by (rule that[of "HMAC_Update c (?T i)" "[?T i]"])
         (use False r(1) prev hmac_update[OF r(2) \<open>sized (?T i)\<close>] in simp_all)
  qed
  have "hmac_at t key (xss @ [info] @ [[of_nat (Suc i)]]) (HMAC_Update (HMAC_Update c info) [of_nat (Suc i)])"
    using hmac_update[OF hmac_update[OF c(2) a(2)], of "[of_nat (Suc i)]"] by simp
  then obtain c' where fin: "HMAC_Final alloc dup (HMAC_Update (HMAC_Update c info) [of_nat (Suc i)]) = (Some (?T (Suc i), ?n), c')"
    "hmac_keyed t key c'"
    by (rule hmac_final[OF a(1)]) (simp add: mac c(3) del: of_nat_Suc)
  let ?out = "take L (concat (map ?T [1..<Suc i]))"
  have todo: "?out @ take (if length ?out + ?n > L then L - length ?out else ?n) (?T (Suc i)) = take L (concat (map ?T [1..<Suc (Suc i)]))"
    using length_hkdf_T[of mac info i, OF len] len by (auto simp: min_def)
  have "hkdf_loop alloc dup t info L (Suc k) i (?T i) ?out ctx =
      hkdf_loop alloc dup t info L k (Suc i) (?T (Suc i)) (take L (concat (map ?T [1..<Suc (Suc i)]))) c'"
    using c(1) fin(1) by (simp only: hkdf_loop.simps Let_def Suc_eq_plus1[symmetric] prod.case bool.case option.case todo)
  also have "\<dots> = Some (take L (concat (map ?T [1..<Suc (Suc i + k)])))" by (rule Suc.IH) (simp add: fin(2))
  finally show ?case by simp
qed simp

lemma hkdf_count:
  fixes out_len :: size_t and d :: nat
  assumes "0 < d" "d \<le> 128"
  shows "(out_len + of_nat d < out_len \<or> (out_len + of_nat d - 1) div of_nat d > 255) \<longleftrightarrow> 255 * d < unat out_len"
    and "unat out_len \<le> 255 * d \<Longrightarrow> unat ((out_len + of_nat d - 1) div of_nat d) = (unat out_len + d - 1) div d"
proof -
  have d: "unat (of_nat d :: size_t) = d" using assms by (simp add: unat_of_nat)
  have mod_less: "(a + b) mod m < a \<longleftrightarrow> m \<le> a + b" if "a < m" "b < m" for a b m :: nat
    using that by (cases "a + b < m") (simp_all add: le_mod_geq)
  have wrap: "out_len + of_nat d < out_len \<longleftrightarrow> 2 ^ 64 \<le> unat out_len + d"
    using mod_less[OF unat_lt_64, of d out_len] assms d by (simp add: word_less_nat_alt unat_word_ariths)
  have n: "unat ((out_len + of_nat d - 1) div of_nat d) = (unat out_len + d - 1) div d" if "unat out_len + d < 2 ^ 64"
  proof -
    have s: "unat (out_len + of_nat d) = unat out_len + d" using that d by (simp add: unat_word_ariths)
    then have "1 \<le> out_len + of_nat d" using assms by (simp add: word_le_nat_alt)
    then show ?thesis using s d by (simp add: unat_div unat_sub)
  qed
  have big: "(255::size_t) < w \<longleftrightarrow> 255 < unat w" for w by (simp add: word_less_nat_alt)
  have div: "255 < (unat out_len + d - 1) div d \<longleftrightarrow> 255 * d < unat out_len"
    using assms less_eq_div_iff_mult_less_eq[of d 256 "unat out_len + d - 1"] by auto
  show "(out_len + of_nat d < out_len \<or> (out_len + of_nat d - 1) div of_nat d > 255) \<longleftrightarrow> 255 * d < unat out_len"
    using wrap n div big assms by (cases "unat out_len + d < 2 ^ 64") auto
  show "unat ((out_len + of_nat d - 1) div of_nat d) = (unat out_len + d - 1) div d" if "unat out_len \<le> 255 * d"
    using that assms by (intro n) simp
qed

lemma hkdf_expand_eq:
  assumes "alloc_ok alloc" "sized prk" "sized info"
  shows "HKDF_expand alloc dup t out_len prk info =
    (if unat out_len \<le> 255 * EVP_MD_size t
     then Some (hkdf_spec (hmac_spec (evp_hash t) (EVP_MD_block_size t) prk) (EVP_MD_size t) (unat out_len) info) else None)"
proof -
  have dl: "0 < EVP_MD_size t" "EVP_MD_size t \<le> 128" using sizes by simp_all
  obtain ctx where i: "HMAC_Init_ex alloc dup HMAC_CTX_init (Some prk) (Some t) = (True, ctx)" "hmac_at t prk [] ctx"
    using hmac_init[OF assms(1) hmac_ctx_ok_init, of "Some prk" dup] assms(2) by auto
  define mac where "mac = hmac_spec (evp_hash t) (EVP_MD_block_size t) prk"
  have loop: "hkdf_loop alloc dup t info L k 0 [] [] ctx = Some (take L (concat (map (hkdf_T mac info) [1..<Suc k])))" for L k
    using hkdf_loop_eq[OF assms(1,3) mac_def, of 0 ctx dup L k] i(2) by simp
  show ?thesis
  proof (cases "unat out_len \<le> 255 * EVP_MD_size t")
    case True
    then show ?thesis using hkdf_count[OF dl, of out_len]
      by (simp add: HKDF_expand_def i(1) loop hkdf_spec_def flip: mac_def)
  next
    case False
    then show ?thesis using hkdf_count(1)[OF dl, of out_len] by (simp add: HKDF_expand_def Let_def)
  qed
qed

end

text \<open>A missing salt is a salt of zeros, as the padding of the key makes them the same.\<close>

lemma hmac_key_zeros: "n \<le> B \<Longrightarrow> hmac_key H B (replicate n 0) = hmac_key H B []"
  by (simp add: hmac_key_def flip: replicate_add)

text \<open>
  C2. HMAC is RFC 2104 over each of the nine digests: in a context used before for anything,
  \<open>HMAC_Init_ex\<close> with a key of any length, any sequence of updates, a copy of the context into
  any other and \<open>HMAC_Final\<close> give the keyed hash of the concatenated input; the context is left keyed,
  so that \<open>HMAC_Init_ex\<close> without key and digest starts the next message under the same key.
\<close>

theorem hmac_correct:
  assumes "alloc_ok alloc" and "hmac_ctx_ok ctx" and "sized key" and "list_all sized xss" and "list_all sized yss"
  shows "\<exists>c0 c1 c2 c3 c4. HMAC_Init_ex alloc dup ctx (Some key) (Some t) = (True, c0) \<and>
    HMAC_CTX_copy_ex alloc dup dest (fold (\<lambda>xs c. HMAC_Update c xs) xss c0) = (True, c1) \<and>
    HMAC_Final alloc dup c1 =
      (Some (hmac_spec (evp_hash t) (EVP_MD_block_size t) key (concat xss), EVP_MD_size t), c2) \<and>
    HMAC_Init_ex alloc dup c2 None None = (True, c3) \<and>
    HMAC_Final alloc dup (fold (\<lambda>xs c. HMAC_Update c xs) yss c3) =
      (Some (hmac_spec (evp_hash t) (EVP_MD_block_size t) key (concat yss), EVP_MD_size t), c4)"
proof -
  note D = evp_digest_all[of t]
  obtain c0 where c0: "HMAC_Init_ex alloc dup ctx (Some key) (Some t) = (True, c0)" "hmac_at t key [] c0"
    using evp_digest.hmac_init[OF D assms(1,2), of "Some key" dup] assms(3) by auto
  have u: "hmac_at t key xss (fold (\<lambda>xs c. HMAC_Update c xs) xss c0)"
    using evp_digest.hmac_updates[OF D c0(2) assms(4)] by simp
  obtain c1 where c1: "HMAC_CTX_copy_ex alloc dup dest (fold (\<lambda>xs c. HMAC_Update c xs) xss c0) = (True, c1)" "hmac_at t key xss c1"
    by (rule evp_digest.hmac_copy[OF D assms(1) u])
  obtain c2 where c2: "HMAC_Final alloc dup c1 =
      (Some (hmac_spec (evp_hash t) (EVP_MD_block_size t) key (concat xss), EVP_MD_size t), c2)" "hmac_keyed t key c2"
    by (rule evp_digest.hmac_final[OF D assms(1) c1(2)])
  obtain c3 where c3: "HMAC_Init_ex alloc dup c2 None None = (True, c3)" "hmac_at t key [] c3"
    by (rule evp_digest.hmac_rewind[OF D assms(1) c2(2)])
  have "hmac_at t key yss (fold (\<lambda>xs c. HMAC_Update c xs) yss c3)"
    using evp_digest.hmac_updates[OF D c3(2) assms(5)] by simp
  then show ?thesis using c0(1) c1(1) c2(1) c3(1) evp_digest.hmac_final[OF D assms(1)] by metis
qed

theorem hmac_correct_witness:
  "\<exists>c0 c1 c2 c3 c4. HMAC_Init_ex zero_alloc Some HMAC_CTX_init (Some (replicate 131 0xaa)) (Some EVP_sha512) = (True, c0) \<and>
    HMAC_CTX_copy_ex zero_alloc Some HMAC_CTX_init (HMAC_Update (HMAC_Update c0 [97, 98]) [99]) = (True, c1) \<and>
    HMAC_Final zero_alloc Some c1 =
      (Some (hmac_spec (evp_hash EVP_sha512) 128 (replicate 131 0xaa) [97, 98, 99], 64), c2) \<and>
    HMAC_Init_ex zero_alloc Some c2 None None = (True, c3) \<and>
    HMAC_Final zero_alloc Some (HMAC_Update c3 [100]) =
      (Some (hmac_spec (evp_hash EVP_sha512) 128 (replicate 131 0xaa) [100], 64), c4)"
  using hmac_correct[OF zero_alloc_ok hmac_ctx_ok_init, where dup = Some and t = EVP_sha512 and key = "replicate 131 0xaa"
      and xss = "[[97, 98], [99]]" and yss = "[[100]]" and dest = HMAC_CTX_init]
  by (simp add: EVP_MD_size_def EVP_MD_block_size_def)

text \<open>
  C3. HKDF is RFC 5869 over each of the nine digests: \<open>HKDF\<close> extracts a key with HMAC, a missing salt
  standing for zeros, and expands it to the requested number of octets with the chained blocks
  \<open>T(1), T(2), \<dots>\<close>; it fails exactly when more than 255 blocks are asked for, also for the lengths whose
  rounding up wraps around.
\<close>

theorem hkdf_correct:
  assumes "alloc_ok alloc" and "sized secret" and "sized (case salt of None \<Rightarrow> [] | Some s \<Rightarrow> s)" and "sized info"
  shows "HKDF alloc dup t out_len secret salt info =
    (let hmac = hmac_spec (evp_hash t) (EVP_MD_block_size t);
         prk = hmac (case salt of None \<Rightarrow> replicate (EVP_MD_size t) 0 | Some s \<Rightarrow> s) secret
     in if unat out_len \<le> 255 * EVP_MD_size t then Some (hkdf_spec (hmac prk) (EVP_MD_size t) (unat out_len) info) else None)"
proof -
  note D = evp_digest_all[of t]
  define hmac where "hmac = hmac_spec (evp_hash t) (EVP_MD_block_size t)"
  define prk where "prk = hmac (case salt of None \<Rightarrow> replicate (EVP_MD_size t) 0 | Some s \<Rightarrow> s) secret"
  have len: "length prk = EVP_MD_size t" by (simp add: prk_def hmac_def hmac_spec_def evp_digest.hash_length[OF D])
  have zeros: "hmac (replicate (EVP_MD_size t) 0) secret = hmac [] secret"
    using hmac_key_zeros[OF evp_digest.sizes(1)[OF D]] by (simp add: hmac_def hmac_spec_def)
  have "HKDF_extract alloc dup t secret salt = Some prk"
    using evp_digest.hmac_eq[OF D assms(1,3,2), of dup] len zeros
    by (simp add: HKDF_extract_def prk_def split: option.splits flip: hmac_def)
  moreover have "sized prk" using len evp_digest.sizes[OF D] by simp
  ultimately show ?thesis
    using evp_digest.hkdf_expand_eq[OF D assms(1) _ assms(4), of prk dup out_len]
    by (simp add: HKDF_def Let_def flip: prk_def hmac_def)
qed

theorem hkdf_correct_witness:
  "HKDF zero_alloc Some EVP_sha256 42 [1, 2, 3] None [4] =
     Some (hkdf_spec (hmac_spec (evp_hash EVP_sha256) 64
       (hmac_spec (evp_hash EVP_sha256) 64 (replicate 32 0) [1, 2, 3])) 32 42 [4]) \<and>
   HKDF zero_alloc Some EVP_sha256 (- 1) [1, 2, 3] None [4] = None"
  using hkdf_correct[OF zero_alloc_ok, where secret = "[1, 2, 3]" and salt = None and info = "[4]" and dup = Some
      and t = EVP_sha256 and out_len = 42]
    hkdf_correct[OF zero_alloc_ok, where secret = "[1, 2, 3]" and salt = None and info = "[4]" and dup = Some
      and t = EVP_sha256 and out_len = "- 1"]
  by (simp add: EVP_MD_size_def EVP_MD_block_size_def unsigned_minus_1_eq_mask mask_eq_exp_minus_1 Let_def)

end
