(* ===== verification/Uv_Heap.thy ===== *)
theory Uv_Heap
  imports Prelude
begin

text \<open>
  The binary heap of libuv, \<^verbatim>\<open>Libuv-gRPC/src/heap-inl.h\<close>: nodes linked by pointers to both children and
  the parent, kept as a complete binary tree. The model keeps the pointers: a store maps the address
  of each node to its three links.
\<close>

section \<open>Data\<close>

type_synonym ptr = nat

abbreviation NULL :: ptr where "NULL \<equiv> 0"

record heap_node =
  left :: ptr
  right :: ptr
  parent :: ptr

text \<open>The heap and, as its third field, the memory of the nodes.\<close>

record heap =
  hmin :: ptr
  nelts :: uint32
  node :: "ptr \<Rightarrow> heap_node"

abbreviation put :: "ptr \<Rightarrow> heap_node \<Rightarrow> heap \<Rightarrow> heap" where
  "put x v h \<equiv> h\<lparr>node := (node h)(x := v)\<rparr>"

abbreviation set_left :: "ptr \<Rightarrow> ptr \<Rightarrow> heap \<Rightarrow> heap" where
  "set_left x v h \<equiv> put x (node h x\<lparr>left := v\<rparr>) h"

abbreviation set_right :: "ptr \<Rightarrow> ptr \<Rightarrow> heap \<Rightarrow> heap" where
  "set_right x v h \<equiv> put x (node h x\<lparr>right := v\<rparr>) h"

abbreviation set_parent :: "ptr \<Rightarrow> ptr \<Rightarrow> heap \<Rightarrow> heap" where
  "set_parent x v h \<equiv> put x (node h x\<lparr>parent := v\<rparr>) h"

section \<open>Operations\<close>

definition heap_init :: "heap \<Rightarrow> heap" where
  "heap_init h = h\<lparr>hmin := NULL, nelts := 0\<rparr>"

definition heap_min :: "heap \<Rightarrow> ptr" where
  "heap_min h = hmin h"

text \<open>Two statements that recur: \<^verbatim>\<open>if (x != NULL) x->parent = v\<close>, and making a parent or the root point to another node.\<close>

definition fix_parent :: "ptr \<Rightarrow> ptr \<Rightarrow> heap \<Rightarrow> heap" where
  "fix_parent x v h = (if x \<noteq> NULL then set_parent x v h else h)"

definition replace_child :: "ptr \<Rightarrow> ptr \<Rightarrow> ptr \<Rightarrow> heap \<Rightarrow> heap" where
  "replace_child q old new h =
     (if q = NULL then h\<lparr>hmin := new\<rparr>
      else if left (node h q) = old then set_left q new h
      else set_right q new h)"

definition heap_node_swap :: "heap \<Rightarrow> ptr \<Rightarrow> ptr \<Rightarrow> heap" where
  "heap_node_swap h pa ch =
     (let t = node h pa;
          h = put pa (node h ch) h;
          h = put ch t h;
          h = set_parent pa ch h;
          (h, sibling) =
            (if left (node h ch) = ch then (set_left ch pa h, right (node h ch))
             else (set_right ch pa h, left (node h ch)));
          h = fix_parent sibling ch h;
          h = fix_parent (left (node h pa)) pa h;
          h = fix_parent (right (node h pa)) pa h
      in replace_child (parent (node h ch)) pa ch h)"

text \<open>The two loops of the path: its bits, the lowest first, and the way down.\<close>

function heap_path :: "uint32 \<Rightarrow> uint32 \<Rightarrow> uint32 \<Rightarrow> uint32 \<times> uint32" where
  "heap_path k n path = (if n \<ge> 2 then heap_path (k + 1) (n div 2) (push_bit 1 path OR (n AND 1)) else (k, path))"
  by pat_completeness auto

termination
proof (relation "measure (\<lambda>(k, n, path). unat n)")
  fix k n path :: uint32
  assume "n \<ge> 2"
  then have "2 \<le> unat n" by (simp add: word_le_nat_alt)
  then show "((k + 1, n div 2, push_bit 1 path OR (n AND 1)), (k, n, path)) \<in> measure (\<lambda>(k, n, path). unat n)"
    by (simp add: unat_div)
qed simp

declare heap_path.simps [simp del]

text \<open>A pointer to a pointer: to the root or to a link of a node.\<close>

datatype loc = Root | Left_of ptr | Right_of ptr

primrec deref :: "heap \<Rightarrow> loc \<Rightarrow> ptr" where
  "deref h Root = hmin h"
| "deref h (Left_of x) = left (node h x)"
| "deref h (Right_of x) = right (node h x)"

primrec store :: "loc \<Rightarrow> ptr \<Rightarrow> heap \<Rightarrow> heap" where
  "store Root v h = h\<lparr>hmin := v\<rparr>"
| "store (Left_of x) v h = set_left x v h"
| "store (Right_of x) v h = set_right x v h"

text \<open>The pair is the code's \<open>parent\<close> and \<open>child\<close>; \<open>heap_remove\<close> uses only the second.\<close>

function heap_walk :: "heap \<Rightarrow> uint32 \<Rightarrow> uint32 \<Rightarrow> loc \<times> loc \<Rightarrow> loc \<times> loc" where
  "heap_walk h k path pc =
     (if k > 0 then
        heap_walk h (k - 1) (drop_bit 1 path)
          (snd pc, if path AND 1 \<noteq> 0 then Right_of (deref h (snd pc)) else Left_of (deref h (snd pc)))
      else pc)"
  by pat_completeness auto

termination
proof (relation "measure (\<lambda>(h, k, path, pc). unat k)")
  fix h k path and pc :: "loc \<times> loc"
  assume "(k :: uint32) > 0"
  then have "unat (k - 1) < unat k" using measure_unat[of k] by (simp add: word_greater_zero_iff)
  then show "((h, k - 1, drop_bit 1 path, snd pc,
        if path AND 1 \<noteq> 0 then Right_of (deref h (snd pc)) else Left_of (deref h (snd pc))), h, k, path, pc)
      \<in> measure (\<lambda>(h, k, path, pc). unat k)" by simp
qed simp

declare heap_walk.simps [simp del]

text \<open>The loops that restore the order; on a damaged structure they may not end.\<close>

partial_function (option) heap_up :: "(ptr \<Rightarrow> ptr \<Rightarrow> bool) \<Rightarrow> heap \<Rightarrow> ptr \<Rightarrow> heap option" where
  "heap_up lt h x =
     (if parent (node h x) \<noteq> NULL \<and> lt x (parent (node h x))
      then heap_up lt (heap_node_swap h (parent (node h x)) x) x
      else Some h)"

definition smallest :: "(ptr \<Rightarrow> ptr \<Rightarrow> bool) \<Rightarrow> heap \<Rightarrow> ptr \<Rightarrow> ptr" where
  "smallest lt h x =
     (let s = x;
          s = (if left (node h x) \<noteq> NULL \<and> lt (left (node h x)) s then left (node h x) else s);
          s = (if right (node h x) \<noteq> NULL \<and> lt (right (node h x)) s then right (node h x) else s)
      in s)"

partial_function (option) heap_down :: "(ptr \<Rightarrow> ptr \<Rightarrow> bool) \<Rightarrow> heap \<Rightarrow> ptr \<Rightarrow> heap option" where
  "heap_down lt h x =
     (if smallest lt h x = x then Some h
      else heap_down lt (heap_node_swap h x (smallest lt h x)) x)"

definition heap_insert :: "(ptr \<Rightarrow> ptr \<Rightarrow> bool) \<Rightarrow> heap \<Rightarrow> ptr \<Rightarrow> heap option" where
  "heap_insert lt h newnode =
     (let h = put newnode \<lparr>left = NULL, right = NULL, parent = NULL\<rparr> h;
          (k, path) = heap_path 0 (1 + nelts h) 0;
          (pa, ch) = heap_walk h k path (Root, Root);
          h = set_parent newnode (deref h pa) h;
          h = store ch newnode h;
          h = h\<lparr>nelts := nelts h + 1\<rparr>
      in heap_up lt h newnode)"

text \<open>The unlinked node \<open>child\<close> takes the place of \<open>x\<close>.\<close>

definition heap_replace :: "heap \<Rightarrow> ptr \<Rightarrow> ptr \<Rightarrow> heap" where
  "heap_replace h x child =
     (let h = set_left child (left (node h x)) h;
          h = set_right child (right (node h x)) h;
          h = set_parent child (parent (node h x)) h;
          h = fix_parent (left (node h child)) child h;
          h = fix_parent (right (node h child)) child h
      in replace_child (parent (node h x)) x child h)"

definition heap_remove :: "(ptr \<Rightarrow> ptr \<Rightarrow> bool) \<Rightarrow> heap \<Rightarrow> ptr \<Rightarrow> heap option" where
  "heap_remove lt h x =
     (if nelts h = 0 then Some h
      else
        let (k, path) = heap_path 0 (nelts h) 0;
            max = snd (heap_walk h k path (Root, Root));
            h = h\<lparr>nelts := nelts h - 1\<rparr>;
            child = deref h max;
            h = store max NULL h
        in if child = x then Some (if child = hmin h then h\<lparr>hmin := NULL\<rparr> else h)
           else
             (case heap_down lt (heap_replace h x child) child of
                None \<Rightarrow> None
              | Some h \<Rightarrow> heap_up lt h child))"

definition heap_dequeue :: "(ptr \<Rightarrow> ptr \<Rightarrow> bool) \<Rightarrow> heap \<Rightarrow> heap option" where
  "heap_dequeue lt h = heap_remove lt h (hmin h)"

end
