(* ===== verification/Uv_Layout.thy ===== *)
theory Uv_Layout
  imports Uv_Heap
begin

text \<open>
  The shape of the libuv heap: the pointers form the complete binary tree whose nodes, numbered level
  by level from the root, are the positions \<open>1\<close> to \<open>n\<close>. Each pointer operation of the heap is an
  operation on the numbering.
\<close>

section \<open>Layout\<close>

text \<open>\<open>s\<close> gives the node at each position, and null elsewhere.\<close>

definition layout :: "heap \<Rightarrow> (nat \<Rightarrow> ptr) \<Rightarrow> nat \<Rightarrow> bool" where
  "layout h s n \<longleftrightarrow> inj_on s {1..n} \<and> (\<forall>i. s i \<noteq> NULL \<longleftrightarrow> 1 \<le> i \<and> i \<le> n) \<and> hmin h = s 1 \<and> nelts h = of_nat n \<and>
     (\<forall>i\<in>{1..n}. node h (s i) = \<lparr>left = s (2 * i), right = s (2 * i + 1), parent = s (i div 2)\<rparr>)"

lemma layoutD:
  assumes "layout h s n"
  shows "s i = NULL \<longleftrightarrow> i = 0 \<or> n < i" and "hmin h = s 1" and "nelts h = of_nat n"
    and "1 \<le> i \<Longrightarrow> i \<le> n \<Longrightarrow> node h (s i) = \<lparr>left = s (2 * i), right = s (2 * i + 1), parent = s (i div 2)\<rparr>"
    and "1 \<le> i \<Longrightarrow> i \<le> n \<Longrightarrow> s i = s j \<longleftrightarrow> i = j"
proof -
  have nz: "s i \<noteq> NULL \<longleftrightarrow> 1 \<le> i \<and> i \<le> n" for i using assms unfolding layout_def by blast
  show "s i = NULL \<longleftrightarrow> i = 0 \<or> n < i" using nz[of i] by auto
  show "hmin h = s 1" "nelts h = of_nat n" using assms unfolding layout_def by blast+
  show "node h (s i) = \<lparr>left = s (2 * i), right = s (2 * i + 1), parent = s (i div 2)\<rparr>" if "1 \<le> i" "i \<le> n"
  proof -
    have "i \<in> {1..n}" using that by simp
    then show ?thesis using assms unfolding layout_def by blast
  qed
  show "s i = s j \<longleftrightarrow> i = j" if "1 \<le> i" "i \<le> n"
  proof
    assume eq: "s i = s j"
    then have "1 \<le> j" "j \<le> n" using nz[of i] nz[of j] that by auto
    then have "i \<in> {1..n}" "j \<in> {1..n}" using that by simp_all
    then show "i = j" using assms eq unfolding layout_def inj_on_def by blast
  qed simp
qed

lemma layoutI:
  assumes "\<And>i j. 1 \<le> i \<Longrightarrow> i \<le> n \<Longrightarrow> 1 \<le> j \<Longrightarrow> j \<le> n \<Longrightarrow> s i = s j \<Longrightarrow> i = j"
    and "\<And>i. s i = NULL \<longleftrightarrow> i = 0 \<or> n < i" and "hmin h = s 1" and "nelts h = of_nat n"
    and "\<And>i. 1 \<le> i \<Longrightarrow> i \<le> n \<Longrightarrow> node h (s i) = \<lparr>left = s (2 * i), right = s (2 * i + 1), parent = s (i div 2)\<rparr>"
  shows "layout h s n"
  using assms by (auto simp: layout_def inj_on_def)

section \<open>Swapping a node with its parent\<close>

text \<open>What the assignments of \<open>heap_node_swap\<close> amount to when the nodes involved are different ones.\<close>

definition relinked :: "heap \<Rightarrow> ptr \<Rightarrow> ptr \<Rightarrow> ptr \<Rightarrow> ptr \<Rightarrow> heap_node" where
  "relinked h pa ch sib x =
     (if x = pa then node h ch\<lparr>parent := ch\<rparr>
      else if x = ch then (if left (node h pa) = ch then \<lparr>left = pa, right = sib, parent = parent (node h pa)\<rparr>
                           else \<lparr>left = sib, right = pa, parent = parent (node h pa)\<rparr>)
      else if x = sib then node h x\<lparr>parent := ch\<rparr>
      else if x = left (node h ch) \<or> x = right (node h ch) then node h x\<lparr>parent := pa\<rparr>
      else if x = parent (node h pa)
        then (if left (node h x) = pa then node h x\<lparr>left := ch\<rparr> else node h x\<lparr>right := ch\<rparr>)
      else node h x)"

lemma fix_parent_simps [simp]:
  "hmin (fix_parent x v h) = hmin h" "nelts (fix_parent x v h) = nelts h"
  "node (fix_parent x v h) y = (if y = x \<and> x \<noteq> NULL then node h y\<lparr>parent := v\<rparr> else node h y)"
  by (simp_all add: fix_parent_def)

lemma replace_child_simps [simp]:
  "hmin (replace_child q old new h) = (if q = NULL then new else hmin h)" "nelts (replace_child q old new h) = nelts h"
  "node (replace_child q old new h) y =
     (if y = q \<and> q \<noteq> NULL then if left (node h q) = old then node h y\<lparr>left := new\<rparr> else node h y\<lparr>right := new\<rparr> else node h y)"
  by (simp_all add: replace_child_def)

lemma heap_node_swap_eq:
  assumes "node h pa = (if onleft then \<lparr>left = ch, right = sib, parent = q\<rparr> else \<lparr>left = sib, right = ch, parent = q\<rparr>)"
    and "node h ch = \<lparr>left = lc, right = rc, parent = pa\<rparr>"
    and "pa \<noteq> ch" "pa \<noteq> NULL" "ch \<noteq> NULL"
    and "sib \<noteq> pa" "sib \<noteq> ch" "lc \<noteq> pa" "lc \<noteq> ch" "rc \<noteq> pa" "rc \<noteq> ch" "q \<noteq> pa" "q \<noteq> ch"
    and "sib \<noteq> NULL \<longrightarrow> sib \<noteq> lc \<and> sib \<noteq> rc \<and> sib \<noteq> q" "lc \<noteq> NULL \<longrightarrow> lc \<noteq> rc \<and> lc \<noteq> q" "rc \<noteq> NULL \<longrightarrow> rc \<noteq> q"
  shows "hmin (heap_node_swap h pa ch) = (if q = NULL then ch else hmin h)"
    and "nelts (heap_node_swap h pa ch) = nelts h"
    and "x \<noteq> NULL \<Longrightarrow> node (heap_node_swap h pa ch) x = relinked h pa ch sib x"
proof -
  note d = assms
  define h1 where "h1 = h\<lparr>node := (node h)(pa := \<lparr>left = lc, right = rc, parent = ch\<rparr>,
    ch := if onleft then \<lparr>left = pa, right = sib, parent = q\<rparr> else \<lparr>left = sib, right = pa, parent = q\<rparr>)\<rparr>"
  have eq: "heap_node_swap h pa ch = replace_child q pa ch (fix_parent rc pa (fix_parent lc pa (fix_parent sib ch h1)))"
  proof -
    let ?h0 = "put pa (node h ch\<lparr>parent := ch\<rparr>) (put ch (node h pa) h)"
    have h0: "set_parent pa ch (put ch (node h pa) (put pa (node h ch) h)) = ?h0"
      using d(3) by (simp add: fun_upd_twist)
    have "set_left ch pa ?h0 = h1" if onleft using that d(3) by (simp add: d(1,2) h1_def fun_upd_twist)
    moreover have "set_right ch pa ?h0 = h1" if "\<not> onleft" using that d(3) by (simp add: d(1,2) h1_def fun_upd_twist)
    moreover have "node ?h0 ch = node h pa" using d(3) by simp
    ultimately have sb: "(if left (node ?h0 ch) = ch then (set_left ch pa ?h0, right (node ?h0 ch)) else (set_right ch pa ?h0, left (node ?h0 ch))) = (h1, sib)"
      using d(7) by (simp only: d(1)) (cases onleft; simp)
    have f: "left (node (fix_parent sib ch h1) pa) = lc" "right (node (fix_parent lc pa (fix_parent sib ch h1)) pa) = rc"
      "parent (node (fix_parent rc pa (fix_parent lc pa (fix_parent sib ch h1))) ch) = q"
      using d(3,6-11) by (simp_all add: h1_def)
    show ?thesis unfolding heap_node_swap_def Let_def by (simp only: h0 sb prod.case f)
  qed
  show "hmin (heap_node_swap h pa ch) = (if q = NULL then ch else hmin h)" "nelts (heap_node_swap h pa ch) = nelts h"
    by (simp_all add: eq h1_def)
  have links: "parent (node h pa) = q" "left (node h ch) = lc" "right (node h ch) = rc" by (simp_all add: d(1,2))
  assume x: "x \<noteq> NULL"
  consider "x = pa" | "x = ch" | "x = sib" "x \<noteq> pa" "x \<noteq> ch" | "x = lc \<or> x = rc" "x \<noteq> sib" "x \<noteq> pa" "x \<noteq> ch"
    | "x \<noteq> lc" "x \<noteq> rc" "x \<noteq> sib" "x \<noteq> pa" "x \<noteq> ch" by blast
  then show "node (heap_node_swap h pa ch) x = relinked h pa ch sib x"
  proof cases
    case 1
    then show ?thesis using d(3-5,6,8,10,12) by (simp add: eq relinked_def h1_def d(2))
  next
    case 2
    then show ?thesis using d(3-5,7,9,11,13) by (simp add: eq relinked_def h1_def d(1))
  next
    case 3
    then show ?thesis using x d(14) by (simp add: eq relinked_def h1_def d(2))
  next
    case 4
    then have nx: "node (fix_parent rc pa (fix_parent lc pa (fix_parent sib ch h1))) x = node h x\<lparr>parent := pa\<rparr>"
      using x by (auto simp add: h1_def)
    have "x \<noteq> q" using 4(1) x d(15,16) by blast
    then show ?thesis using 4 by (simp only: eq replace_child_simps nx relinked_def links if_True if_False simp_thms)
  next
    case 5
    then have nx: "node (fix_parent rc pa (fix_parent lc pa (fix_parent sib ch h1))) x = node h x" by (simp add: h1_def)
    show ?thesis using 5 x nx by (cases "x = q") (simp_all only: eq replace_child_simps nx relinked_def links if_True if_False simp_thms)
  qed
qed

lemma layout_swap:
  assumes l: "layout h s n" and i: "2 \<le> i" "i \<le> n"
  defines "p \<equiv> i div 2"
  shows "layout (heap_node_swap h (s p) (s i)) (s(i := s p, p := s i)) n"
proof -
  let ?h = "heap_node_swap h (s p) (s i)" and ?s = "s(i := s p, p := s i)"
  define sb where "sb = (if even i then i + 1 else i - 1)"
  have p: "1 \<le> p" "p \<le> n" "p < i" and ip: "i = 2 * p \<and> sb = 2 * p + 1 \<or> i = 2 * p + 1 \<and> sb = 2 * p"
    using i by (auto simp: p_def sb_def)
  note z = layoutD(1)[OF l] and nd = layoutD(4)[OF l] and eq = layoutD(5)[OF l]
  have np: "node h (s p) = (if even i then \<lparr>left = s i, right = s sb, parent = s (p div 2)\<rparr> else \<lparr>left = s sb, right = s i, parent = s (p div 2)\<rparr>)"
    using nd[OF p(1,2)] ip by auto
  have ni: "node h (s i) = \<lparr>left = s (2 * i), right = s (2 * i + 1), parent = s p\<rparr>" using nd[of i] i by (simp add: p_def)
  have ne: "s j \<noteq> s p" if "j \<noteq> p" for j using that eq[OF p(1,2), of j] by auto
  have nei: "s j \<noteq> s i" if "j \<noteq> i" for j using that eq[of i j] i by auto
  have nej: "s j \<noteq> s k" if "s j \<noteq> NULL" "j \<noteq> k" for j k using that eq[of j k] z[of j] by auto
  note sw = heap_node_swap_eq[OF np ni]
  have side: "s p \<noteq> s i" "s p \<noteq> NULL" "s i \<noteq> NULL" "s sb \<noteq> s p" "s sb \<noteq> s i" "s (2 * i) \<noteq> s p" "s (2 * i) \<noteq> s i"
    "s (2 * i + 1) \<noteq> s p" "s (2 * i + 1) \<noteq> s i" "s (p div 2) \<noteq> s p" "s (p div 2) \<noteq> s i"
    using p i ip z ne nei by auto
  have side2: "s sb \<noteq> NULL \<longrightarrow> s sb \<noteq> s (2 * i) \<and> s sb \<noteq> s (2 * i + 1) \<and> s sb \<noteq> s (p div 2)"
    "s (2 * i) \<noteq> NULL \<longrightarrow> s (2 * i) \<noteq> s (2 * i + 1) \<and> s (2 * i) \<noteq> s (p div 2)" "s (2 * i + 1) \<noteq> NULL \<longrightarrow> s (2 * i + 1) \<noteq> s (p div 2)"
  proof -
    have "sb \<noteq> 2 * i" "sb \<noteq> 2 * i + 1" "sb \<noteq> p div 2" "2 * i \<noteq> p div 2" "2 * i + 1 \<noteq> p div 2" using p i ip by auto
    then show "s sb \<noteq> NULL \<longrightarrow> s sb \<noteq> s (2 * i) \<and> s sb \<noteq> s (2 * i + 1) \<and> s sb \<noteq> s (p div 2)"
      "s (2 * i) \<noteq> NULL \<longrightarrow> s (2 * i) \<noteq> s (2 * i + 1) \<and> s (2 * i) \<noteq> s (p div 2)" "s (2 * i + 1) \<noteq> NULL \<longrightarrow> s (2 * i + 1) \<noteq> s (p div 2)"
      using nej by simp_all
  qed
  note sw = sw[OF side side2]
  show ?thesis
  proof (rule layoutI)
    show "?s j = NULL \<longleftrightarrow> j = 0 \<or> n < j" for j using z[of j] side(2,3) p i by auto
    show "hmin ?h = ?s 1" using sw(1) z[of "p div 2"] layoutD(2)[OF l] p i by auto
    show "nelts ?h = of_nat n" using sw(2) layoutD(3)[OF l] by simp
    show "j = k" if "1 \<le> j" "j \<le> n" "1 \<le> k" "k \<le> n" "?s j = ?s k" for j k
      using that eq[of j k] eq[of j i] eq[of j p] eq[OF p(1,2), of k] eq[of i k] i p by (auto split: if_splits)
    show "node ?h (?s j) = \<lparr>left = ?s (2 * j), right = ?s (2 * j + 1), parent = ?s (j div 2)\<rparr>" if j: "1 \<le> j" "j \<le> n" for j
    proof -
      have links: "parent (node h (s p)) = s (p div 2)" "left (node h (s i)) = s (2 * i)" "right (node h (s i)) = s (2 * i + 1)"
        "left (node h (s p)) = s (2 * p)"
        using nd[OF p(1,2)] by (simp_all add: ni)
      consider "j = p" | "j = i" | "j \<noteq> p" "j \<noteq> i" by blast
      then show ?thesis
      proof cases
        case 1
        then show ?thesis using sw(3)[OF side(3)] side(1,5) p i ip
          by (auto simp: relinked_def np ni)
      next
        case 2
        then show ?thesis using sw(3)[OF side(2)] side(1) p i by (simp add: relinked_def ni p_def)
      next
        case 3
        have x: "s j \<noteq> NULL" using z[of j] j by auto
        have "relinked h (s p) (s i) (s sb) (s j) = (if j = sb then node h (s j)\<lparr>parent := s i\<rparr>
            else if j = 2 * i \<or> j = 2 * i + 1 then node h (s j)\<lparr>parent := s p\<rparr>
            else if j = p div 2 then (if 2 * j = p then node h (s j)\<lparr>left := s i\<rparr> else node h (s j)\<lparr>right := s i\<rparr>)
            else node h (s j))"
        proof -
          have "(s j = s p) = False" "(s j = s i) = False" using 3 eq[OF j] by simp_all
          moreover have "(s (2 * j) = s p) = (2 * j = p)" using eq[OF p(1,2), of "2 * j"] by auto
          ultimately show ?thesis by (simp only: relinked_def links nd[OF j] heap_node.simps eq[OF j] if_False)
        qed
        then have e: "node ?h (s j) = (if j = sb then \<lparr>left = s (2 * j), right = s (2 * j + 1), parent = s i\<rparr>
            else if j = 2 * i \<or> j = 2 * i + 1 then \<lparr>left = s (2 * j), right = s (2 * j + 1), parent = s p\<rparr>
            else if j = p div 2 then (if 2 * j = p then \<lparr>left = s i, right = s (2 * j + 1), parent = s (j div 2)\<rparr>
              else \<lparr>left = s (2 * j), right = s i, parent = s (j div 2)\<rparr>)
            else \<lparr>left = s (2 * j), right = s (2 * j + 1), parent = s (j div 2)\<rparr>)"
          unfolding sw(3)[OF x] nd[OF j] by (simp only: heap_node.simps)
        have ix: "(2 * j = i) = False" "(2 * j + 1 = i) = False" "(j div 2 = i) = (j = 2 * i \<or> j = 2 * i + 1)"
          "(j div 2 = p) = (j = sb)" "(2 * j + 1 = p) = (j = p div 2 \<and> 2 * j \<noteq> p)" "2 * j = p \<Longrightarrow> j = p div 2"
          using 3 ip j by auto
        have u: "?s j = s j" "?s (2 * j) = (if 2 * j = p then s i else s (2 * j))"
          "?s (2 * j + 1) = (if j = p div 2 \<and> 2 * j \<noteq> p then s i else s (2 * j + 1))"
          "?s (j div 2) = (if j = sb then s i else if j = 2 * i \<or> j = 2 * i + 1 then s p else s (j div 2))"
          using 3 by (simp_all only: fun_upd_apply ix if_False simp_thms)
        define a b c d where "a \<longleftrightarrow> j = sb" and "b \<longleftrightarrow> j = 2 * i \<or> j = 2 * i + 1" and "c \<longleftrightarrow> j = p div 2" and "d \<longleftrightarrow> 2 * j = p"
        have "\<not> (a \<and> c)" "\<not> (b \<and> c)" "d \<longrightarrow> c" using ip p i ix(6) by (auto simp: a_def b_def c_def d_def)
        then show ?thesis unfolding u e a_def[symmetric] b_def[symmetric] c_def[symmetric] d_def[symmetric]
          by (cases a; cases b; cases c; cases d; simp)
      qed
    qed
  qed
qed

section \<open>The path to a position\<close>

text \<open>The walk over numbers that the walk over pointers follows.\<close>

fun descend :: "nat \<Rightarrow> nat \<Rightarrow> nat \<Rightarrow> nat" where
  "descend 0 path i = i"
| "descend (Suc k) path i = descend k (path div 2) (2 * i + path mod 2)"

text \<open>
  The bits pushed while halving \<open>n\<close> lead from the root to \<open>n\<close>. Nothing is shifted out of the
  32 bits, since \<open>k\<close> of them are used when \<open>n\<close> has been halved \<open>k\<close> times.
\<close>

lemma heap_path_descends:
  assumes "1 \<le> unat n" "unat n * 2 ^ unat k < 2 ^ 32" "unat path < 2 ^ unat k"
  shows "case heap_path k n path of (k', path') \<Rightarrow>
    descend (unat k') (unat path') 1 = descend (unat k) (unat path) (unat n)"
  using assms
proof (induction k n path rule: heap_path.induct)
  case (1 k n path)
  show ?case
  proof (cases "n \<ge> 2")
    case True
    then have n2: "2 \<le> unat n" by (simp add: word_le_nat_alt)
    have "2 * 2 ^ unat k < (2::nat) ^ 32" using n2 "1.prems"(2) by (meson le_less_trans mult_le_mono1)
    then have k: "Suc (unat k) < 32" by (metis power_Suc power_strict_increasing_iff one_less_numeral_iff semiring_norm(76))
    then have k1: "unat (k + 1) = Suc (unat k)" by (simp add: unat_word_ariths)
    have "2 * unat path + 1 < 2 * 2 ^ unat k" using "1.prems"(3) by simp
    then have p32: "2 * unat path + 1 < 2 ^ 32" using \<open>2 * 2 ^ unat k < (2::nat) ^ 32\<close> by simp
    have b: "unat (n AND 1) = unat n mod 2" by (simp add: and_one_eq unat_mod)
    have pb: "unat (push_bit 1 path OR (n AND 1)) = 2 * unat path + unat n mod 2"
    proof -
      have "push_bit 1 path OR (n AND 1) = push_bit 1 path + (n AND 1)"
        by (rule disjunctive_add_eq_or[symmetric], rule bit_word_eqI) (simp only: bit_and_iff bit_push_bit_iff bit_1_iff bit_0_eq bot_apply, auto)
      moreover have "unat (push_bit 1 path) = 2 * unat path"
        using p32 by (simp add: push_bit_eq_mult unat_word_ariths mult.commute)
      moreover have "2 * unat path + unat n mod 2 < 2 ^ 32" using p32 by linarith
      ultimately show ?thesis using b by (simp add: unat_word_ariths)
    qed
    have w1: "unat (n div 2) * 2 ^ unat (k + 1) < 2 ^ 32"
    proof -
      have "unat n div 2 * (2 * 2 ^ unat k) \<le> unat n * 2 ^ unat k" by (metis div_times_less_eq_dividend mult.assoc mult_le_mono1)
      then have "unat n div 2 * (2 * 2 ^ unat k) < 2 ^ 32" using "1.prems"(2) by (rule le_less_trans)
      then show ?thesis using k1 by (simp add: unat_div)
    qed
    have w2: "unat (push_bit 1 path OR (n AND 1)) < 2 ^ unat (k + 1)" using "1.prems"(3) k1 pb by simp
    have w3: "1 \<le> unat (n div 2)" using n2 by (simp add: unat_div)
    note "1.IH"[OF True w3 w1 w2]
    moreover have "descend (unat (k + 1)) (unat (push_bit 1 path OR (n AND 1))) (unat (n div 2)) = descend (unat k) (unat path) (unat n)"
      unfolding k1 pb unat_div by simp
    ultimately show ?thesis using True by (simp add: heap_path.simps[of k n path] split: prod.splits)
  next
    case False
    then have "unat n = 1" using "1.prems"(1) by (simp add: word_le_nat_alt)
    then show ?thesis using False by (simp add: heap_path.simps[of k n path])
  qed
qed

lemma heap_path_position:
  assumes "1 \<le> n" "n < 2 ^ 32" "heap_path 0 (of_nat n) 0 = (k, path)"
  shows "descend (unat k) (unat path) 1 = n"
proof -
  have u: "unat (of_nat n :: uint32) = n" using assms(2) by (simp add: unat_of_nat)
  then show ?thesis using heap_path_descends[of "of_nat n" 0 0] assms by simp
qed

text \<open>The place where position \<open>i\<close> is linked from.\<close>

definition at :: "(nat \<Rightarrow> ptr) \<Rightarrow> nat \<Rightarrow> loc" where
  "at s i = (if i \<le> 1 then Root else if even i then Left_of (s (i div 2)) else Right_of (s (i div 2)))"

lemma deref_at:
  assumes "layout h s n" "1 \<le> i" "i div 2 \<le> n" and "\<And>j. 1 \<le> j \<Longrightarrow> j \<le> n \<Longrightarrow> node h' (s j) = node h (s j)" "hmin h' = hmin h"
  shows "deref h' (at s i) = s i"
proof (cases "i = 1")
  case True
  then show ?thesis using layoutD(2)[OF assms(1)] assms(5) by (simp add: at_def)
next
  case False
  then have "1 \<le> i div 2" using assms(2) by simp
  from assms(4)[OF this assms(3)] layoutD(4)[OF assms(1) this assms(3)] show ?thesis
    using False assms(2) by (auto simp: at_def elim!: oddE evenE)
qed

lemma descend_ge: "i \<le> descend k path i"
proof (induction k arbitrary: path i)
  case (Suc k)
  have "i \<le> 2 * i + path mod 2" by simp
  then show ?case using Suc[of "2 * i + path mod 2" "path div 2"] by simp
qed simp

text \<open>The memory may differ from the one of the layout outside the nodes.\<close>

lemma heap_walk_at:
  assumes l: "layout h s n" and h': "\<And>j. 1 \<le> j \<Longrightarrow> j \<le> n \<Longrightarrow> node h' (s j) = node h (s j)" "hmin h' = hmin h"
  shows "1 \<le> i \<Longrightarrow> descend (unat k) (unat path) i \<le> n + 1 \<Longrightarrow> heap_walk h' k path (at s (i div 2), at s i) =
    (at s (descend (unat k) (unat path) i div 2), at s (descend (unat k) (unat path) i))"
proof (induction "unat k" arbitrary: k path i)
  case 0
  then have "k = 0" by (simp add: unat_eq_0)
  then show ?case by (simp add: heap_walk.simps[of h' 0])
next
  case (Suc m)
  have "k \<noteq> 0" using Suc.hyps(2) by auto
  then have k: "k > 0" "m = unat (k - 1)" using Suc.hyps(2) by (simp_all add: word_greater_zero_iff unat_minus_one)
  have bit: "path AND 1 \<noteq> 0 \<longleftrightarrow> unat path mod 2 = 1" "unat (drop_bit 1 path) = unat path div 2"
    by (auto simp: and_one_eq unsigned_drop_bit_eq drop_bit_eq_div word_unat_eq_iff unat_mod unat_div take_bit_eq_mod)
  let ?i = "2 * i + unat path mod 2"
  have d: "descend (unat k) (unat path) i = descend (unat (k - 1)) (unat (drop_bit 1 path)) ?i"
    unfolding Suc.hyps(2)[symmetric] k(2)[symmetric] bit(2) by simp
  have i: "?i \<le> n + 1" using Suc.prems(2) descend_ge[of ?i "unat (k - 1)" "unat (drop_bit 1 path)"] unfolding d by simp
  have "deref h' (at s i) = s i" by (rule deref_at[OF l]) (use Suc.prems(1) i h' in auto)
  then have "(if path AND 1 \<noteq> 0 then Right_of (deref h' (at s i)) else Left_of (deref h' (at s i))) = at s ?i"
    using Suc.prems(1) by (auto simp: bit(1) at_def)
  then have "heap_walk h' k path (at s (i div 2), at s i) = heap_walk h' (k - 1) (drop_bit 1 path) (at s (?i div 2), at s ?i)"
    using k(1) by (simp add: heap_walk.simps[of h' k] split: if_splits)
  also have "\<dots> = (at s (descend (unat k) (unat path) i div 2), at s (descend (unat k) (unat path) i))"
    unfolding d by (rule Suc.hyps(1)[OF k(2)]) (use Suc.prems d in simp_all)
  finally show ?case .
qed

text \<open>Together: the place of position \<open>m\<close>, one past the last node at most, and of its parent.\<close>

lemma heap_walk_position:
  assumes "layout h s n" "\<And>j. 1 \<le> j \<Longrightarrow> j \<le> n \<Longrightarrow> node h' (s j) = node h (s j)" "hmin h' = hmin h"
    and "1 \<le> m" "m \<le> n + 1" "m < 2 ^ 32" "heap_path 0 (of_nat m) 0 = (k, path)"
  shows "heap_walk h' k path (Root, Root) = (at s (m div 2), at s m)"
  using heap_walk_at[OF assms(1-3), of 1 k path] heap_path_position[OF assms(4,6,7)] assms(5) by (simp add: at_def)

section \<open>Linking and unlinking the last node\<close>

lemma store_at:
  assumes "2 \<le> m"
  shows "store (at s m) v h = (if even m then set_left (s (m div 2)) v h else set_right (s (m div 2)) v h)"
  using assms by (simp add: at_def)

lemma layout_link:
  assumes l: "layout h s n" and x: "x \<noteq> NULL" "\<And>j. 1 \<le> j \<Longrightarrow> j \<le> n \<Longrightarrow> s j \<noteq> x"
    and h': "h' = (store (at s (Suc n)) x (put x \<lparr>left = NULL, right = NULL, parent = s ((Suc n) div 2)\<rparr> h))\<lparr>nelts := nelts h + 1\<rparr>"
  shows "layout h' (s(Suc n := x)) (Suc n)"
proof -
  let ?s = "s(Suc n := x)" and ?p = "Suc n div 2"
  note z = layoutD(1)[OF l] and nd = layoutD(4)[OF l] and eq = layoutD(5)[OF l]
  have sx: "s j \<noteq> x" for j using x z[of j] by (cases "1 \<le> j \<and> j \<le> n") auto
  have hm: "hmin h' = ?s 1" using layoutD(2)[OF l] by (cases "n = 0") (auto simp: h' at_def)
  have nx: "node h' x = \<lparr>left = NULL, right = NULL, parent = s ?p\<rparr>"
    using sx sx[THEN not_sym] by (cases "n = 0") (simp_all add: h' at_def)
  have nj: "node h' (s j) = \<lparr>left = ?s (2 * j), right = ?s (2 * j + 1), parent = s (j div 2)\<rparr>" if j: "1 \<le> j" "j \<le> n" for j
  proof -
    have n: "2 \<le> Suc n" using j by simp
    have "node h' (s j) = (if j = ?p then if even (Suc n) then node h (s j)\<lparr>left := x\<rparr> else node h (s j)\<lparr>right := x\<rparr> else node h (s j))"
      using sx[of j] sx[of ?p] eq[OF j] by (simp add: h' store_at[OF n] del: even_Suc)
    moreover have "2 * j = Suc n \<longleftrightarrow> j = ?p \<and> even (Suc n)" "2 * j + 1 = Suc n \<longleftrightarrow> j = ?p \<and> odd (Suc n)" by presburger+
    ultimately show ?thesis using nd[OF j] by (auto simp del: even_Suc)
  qed
  show ?thesis
  proof (rule layoutI)
    show "?s j = NULL \<longleftrightarrow> j = 0 \<or> Suc n < j" for j using z[of j] x(1) by auto
    show "nelts h' = of_nat (Suc n)" using layoutD(3)[OF l] by (simp add: h')
    show "j = k" if "1 \<le> j" "j \<le> Suc n" "1 \<le> k" "k \<le> Suc n" "?s j = ?s k" for j k
      using that eq[of j k] sx[of j] sx[of k] by (auto split: if_splits)
    show "node h' (?s j) = \<lparr>left = ?s (2 * j), right = ?s (2 * j + 1), parent = ?s (j div 2)\<rparr>" if j: "1 \<le> j" "j \<le> Suc n" for j
      using j nj[of j] nx z[of "2 * (Suc n)"] z[of "2 * (Suc n) + 1"] by (cases "j = Suc n") auto
  qed (rule hm)
qed

lemma layout_unlink:
  assumes l: "layout h s (Suc n)"
    and h': "h' = store (at s (Suc n)) NULL (h\<lparr>nelts := nelts h - 1\<rparr>)"
  shows "layout h' (s(Suc n := NULL)) n"
proof -
  let ?s = "s(Suc n := NULL)" and ?p = "Suc n div 2"
  note z = layoutD(1)[OF l] and nd = layoutD(4)[OF l] and eq = layoutD(5)[OF l]
  have nj: "node h' (s j) = \<lparr>left = ?s (2 * j), right = ?s (2 * j + 1), parent = s (j div 2)\<rparr>" if j: "1 \<le> j" "j \<le> n" for j
  proof -
    have n: "2 \<le> Suc n" and j': "j \<le> Suc n" using j by simp_all
    have "node h' (s j) = (if j = ?p then if even (Suc n) then node h (s j)\<lparr>left := NULL\<rparr> else node h (s j)\<lparr>right := NULL\<rparr> else node h (s j))"
      using eq[OF j(1) j'] by (simp add: h' store_at[OF n] del: even_Suc)
    moreover have "2 * j = Suc n \<longleftrightarrow> j = ?p \<and> even (Suc n)" "2 * j + 1 = Suc n \<longleftrightarrow> j = ?p \<and> odd (Suc n)" by presburger+
    ultimately show ?thesis using nd[OF j(1) j'] by (auto simp del: even_Suc)
  qed
  show ?thesis
  proof (rule layoutI)
    show "?s j = NULL \<longleftrightarrow> j = 0 \<or> n < j" for j using z[of j] by auto
    show "hmin h' = ?s 1" using layoutD(2)[OF l] by (cases "n = 0") (auto simp: h' at_def)
    have "nelts h' = nelts h - 1" by (cases "n = 0") (simp_all add: h' at_def)
    then show "nelts h' = of_nat n" using layoutD(3)[OF l] by simp
    show "j = k" if "1 \<le> j" "j \<le> n" "1 \<le> k" "k \<le> n" "?s j = ?s k" for j k
      using that eq[of j k] by (auto split: if_splits)
    show "node h' (?s j) = \<lparr>left = ?s (2 * j), right = ?s (2 * j + 1), parent = ?s (j div 2)\<rparr>" if j: "1 \<le> j" "j \<le> n" for j
      using j nj[OF j] by auto
  qed
qed

section \<open>Replacing a node by one that is not linked\<close>

lemma heap_replace_eq:
  assumes "node h x = \<lparr>left = lc, right = rc, parent = q\<rparr>" "c \<noteq> x" "c \<noteq> NULL"
    "lc \<noteq> c" "rc \<noteq> c" "q \<noteq> c" "lc \<noteq> x" "rc \<noteq> x" "q \<noteq> x"
    "lc \<noteq> NULL \<longrightarrow> lc \<noteq> rc \<and> lc \<noteq> q" "rc \<noteq> NULL \<longrightarrow> rc \<noteq> q"
  shows "hmin (heap_replace h x c) = (if q = NULL then c else hmin h)" "nelts (heap_replace h x c) = nelts h"
    "node (heap_replace h x c) c = \<lparr>left = lc, right = rc, parent = q\<rparr>"
    "y \<noteq> NULL \<Longrightarrow> y \<noteq> c \<Longrightarrow> node (heap_replace h x c) y =
       (if y = lc \<or> y = rc then node h y\<lparr>parent := c\<rparr>
        else if y = q then (if left (node h y) = x then node h y\<lparr>left := c\<rparr> else node h y\<lparr>right := c\<rparr>)
        else node h y)"
proof -
  define h1 where "h1 = put c \<lparr>left = lc, right = rc, parent = q\<rparr> h"
  have eq: "heap_replace h x c = replace_child q x c (fix_parent rc c (fix_parent lc c h1))"
  proof -
    let ?h3 = "set_parent c q (set_right c rc (set_left c lc h))"
    have h3: "?h3 = h1" by (cases "node h c") (simp add: h1_def)
    have "right (node (set_left c lc h) x) = rc" "parent (node (set_right c rc (set_left c lc h)) x) = q"
      using assms(1,2) by simp_all
    moreover have "left (node h1 c) = lc" "right (node (fix_parent lc c h1) c) = rc"
      "parent (node (fix_parent rc c (fix_parent lc c h1)) x) = q"
      using assms(1,2,4-9) by (simp_all add: h1_def)
    ultimately show ?thesis unfolding heap_replace_def Let_def by (simp only: assms(1) heap_node.simps h3)
  qed
  show "hmin (heap_replace h x c) = (if q = NULL then c else hmin h)" "nelts (heap_replace h x c) = nelts h"
    "node (heap_replace h x c) c = \<lparr>left = lc, right = rc, parent = q\<rparr>"
    using assms(4-6) by (simp_all add: eq h1_def)
  assume y: "y \<noteq> NULL" "y \<noteq> c"
  show "node (heap_replace h x c) y = (if y = lc \<or> y = rc then node h y\<lparr>parent := c\<rparr>
      else if y = q then (if left (node h y) = x then node h y\<lparr>left := c\<rparr> else node h y\<lparr>right := c\<rparr>)
      else node h y)"
  proof (cases "y = lc \<or> y = rc")
    case True
    then have "node (fix_parent rc c (fix_parent lc c h1)) y = node h y\<lparr>parent := c\<rparr>" "y \<noteq> q"
      using y assms(10,11) by (auto simp: h1_def)
    then show ?thesis using True by (simp add: eq del: fix_parent_simps)
  next
    case False
    then have n: "node (fix_parent rc c (fix_parent lc c h1)) y = node h y" using y by (auto simp: h1_def)
    show ?thesis using False y n by (cases "y = q") (simp_all add: eq del: fix_parent_simps)
  qed
qed

lemma layout_replace:
  assumes l: "layout h s n" and i: "1 \<le> i" "i \<le> n" and c: "c \<noteq> NULL" "\<And>j. 1 \<le> j \<Longrightarrow> j \<le> n \<Longrightarrow> s j \<noteq> c"
  shows "layout (heap_replace h (s i) c) (s(i := c)) n"
proof -
  let ?h = "heap_replace h (s i) c" and ?s = "s(i := c)"
  note z = layoutD(1)[OF l] and nd = layoutD(4)[OF l] and eq = layoutD(5)[OF l]
  have sc: "s j \<noteq> c" for j using c z[of j] by (cases "1 \<le> j \<and> j \<le> n") auto
  have nei: "s j \<noteq> s i" if "j \<noteq> i" for j using that eq[OF i, of j] by auto
  have nej: "s j \<noteq> s k" if "s j \<noteq> NULL" "j \<noteq> k" for j k using that eq[of j k] z[of j] by auto
  have ix: "2 * i \<noteq> i" "2 * i + 1 \<noteq> i" "i div 2 \<noteq> i" "2 * i \<noteq> 2 * i + 1" "2 * i \<noteq> i div 2" "2 * i + 1 \<noteq> i div 2" using i by auto
  have side: "s (2 * i) \<noteq> NULL \<longrightarrow> s (2 * i) \<noteq> s (2 * i + 1) \<and> s (2 * i) \<noteq> s (i div 2)"
    "s (2 * i + 1) \<noteq> NULL \<longrightarrow> s (2 * i + 1) \<noteq> s (i div 2)" using nej ix by auto
  note r = heap_replace_eq[OF nd[OF i] sc[THEN not_sym] c(1) sc sc sc nei[OF ix(1)] nei[OF ix(2)] nei[OF ix(3)] side]
  show ?thesis
  proof (rule layoutI)
    show "?s j = NULL \<longleftrightarrow> j = 0 \<or> n < j" for j using z[of j] c(1) i by auto
    show "hmin ?h = ?s 1" using r(1) z[of "i div 2"] layoutD(2)[OF l] i by auto
    show "nelts ?h = of_nat n" using r(2) layoutD(3)[OF l] by simp
    show "j = k" if "1 \<le> j" "j \<le> n" "1 \<le> k" "k \<le> n" "?s j = ?s k" for j k
      using that eq[of j k] sc[of j] sc[of k] by (auto split: if_splits)
    show "node ?h (?s j) = \<lparr>left = ?s (2 * j), right = ?s (2 * j + 1), parent = ?s (j div 2)\<rparr>" if j: "1 \<le> j" "j \<le> n" for j
    proof (cases "j = i")
      case True
      then show ?thesis using r(3) ix by simp
    next
      case False
      have "s j \<noteq> NULL" using z[of j] j by simp
      note e = r(4)[OF this sc, unfolded eq[OF j] nd[OF j] heap_node.simps]
      have e': "s (2 * j) = s i \<longleftrightarrow> 2 * j = i" using eq[OF i, of "2 * j"] by auto
      have i': "j div 2 = i \<longleftrightarrow> j = 2 * i \<or> j = 2 * i + 1" "2 * j + 1 = i \<longleftrightarrow> j = i div 2 \<and> 2 * j \<noteq> i" "2 * j = i \<longrightarrow> j = i div 2"
        "j = i div 2 \<longrightarrow> \<not> (j = 2 * i \<or> j = 2 * i + 1)" using i j by auto
      have u: "?s j = s j" "?s (2 * j) = (if 2 * j = i then c else s (2 * j))"
        "?s (2 * j + 1) = (if j = i div 2 \<and> 2 * j \<noteq> i then c else s (2 * j + 1))"
        "?s (j div 2) = (if j = 2 * i \<or> j = 2 * i + 1 then c else s (j div 2))"
        using False by (simp_all only: fun_upd_apply i' if_False)
      define b d f where "b \<longleftrightarrow> j = 2 * i \<or> j = 2 * i + 1" and "d \<longleftrightarrow> j = i div 2" and "f \<longleftrightarrow> 2 * j = i"
      have "\<not> (b \<and> d)" "f \<longrightarrow> d" using i' by (auto simp: b_def d_def f_def)
      then show ?thesis unfolding u e e' b_def[symmetric] d_def[symmetric] f_def[symmetric]
        by (cases b; cases d; cases f; simp)
    qed
  qed
qed

end
