(* ===== verification/Uv_Order.thy ===== *)
theory Uv_Order
  imports Uv_Layout
begin

text \<open>
  The order of the libuv heap: the loops of \<open>heap_insert\<close> and \<open>heap_remove\<close> end and restore it, for every
  comparison that is a strict weak order.
\<close>

section \<open>The comparison\<close>

locale heap_order =
  fixes lt :: "ptr \<Rightarrow> ptr \<Rightarrow> bool"
  assumes asym: "lt a b \<Longrightarrow> \<not> lt b a"
    and neg_trans: "\<not> lt b a \<Longrightarrow> \<not> lt c b \<Longrightarrow> \<not> lt c a"

section \<open>Order on positions\<close>

definition ordered :: "(ptr \<Rightarrow> ptr \<Rightarrow> bool) \<Rightarrow> (nat \<Rightarrow> ptr) \<Rightarrow> nat \<Rightarrow> bool" where
  "ordered lt s n \<longleftrightarrow> (\<forall>j\<in>{2..n}. \<not> lt (s j) (s (j div 2)))"

text \<open>
  In the second, the node at \<open>i\<close> may be smaller than its parent; in the third, also larger than its
  children. In both, the children of \<open>i\<close> are not smaller than the parent of \<open>i\<close>.
\<close>

definition bypass :: "(ptr \<Rightarrow> ptr \<Rightarrow> bool) \<Rightarrow> (nat \<Rightarrow> ptr) \<Rightarrow> nat \<Rightarrow> nat \<Rightarrow> bool" where
  "bypass lt s n i \<longleftrightarrow> (\<forall>j\<in>{2..n}. j div 2 = i \<and> 2 \<le> i \<longrightarrow> \<not> lt (s j) (s (i div 2)))"

definition ordered_up :: "(ptr \<Rightarrow> ptr \<Rightarrow> bool) \<Rightarrow> (nat \<Rightarrow> ptr) \<Rightarrow> nat \<Rightarrow> nat \<Rightarrow> bool" where
  "ordered_up lt s n i \<longleftrightarrow> (\<forall>j\<in>{2..n}. j \<noteq> i \<longrightarrow> \<not> lt (s j) (s (j div 2))) \<and> bypass lt s n i"

definition ordered_down :: "(ptr \<Rightarrow> ptr \<Rightarrow> bool) \<Rightarrow> (nat \<Rightarrow> ptr) \<Rightarrow> nat \<Rightarrow> nat \<Rightarrow> bool" where
  "ordered_down lt s n i \<longleftrightarrow> (\<forall>j\<in>{2..n}. j \<noteq> i \<and> j div 2 \<noteq> i \<longrightarrow> \<not> lt (s j) (s (j div 2))) \<and> bypass lt s n i"

lemma swap_image: "i \<in> A \<Longrightarrow> p \<in> A \<Longrightarrow> (s(i := s p, p := s i)) ` A = s ` A"
  by (auto simp: image_iff)

context heap_order
begin

lemma irrefl: "\<not> lt a a"
  using asym by blast

lemma up_step:
  assumes "ordered_up lt s n i" "2 \<le> i" "i \<le> n" "lt (s i) (s (i div 2))"
  shows "ordered_up lt (s(i := s (i div 2), i div 2 := s i)) n (i div 2)"
proof -
  define p where "p = i div 2"
  let ?s = "s(i := s p, p := s i)"
  have p: "1 \<le> p" "p < i" "p \<le> n" using assms(2,3) by (auto simp: p_def)
  have edge: "\<not> lt (s j) (s (j div 2))" if "2 \<le> j" "j \<le> n" "j \<noteq> i" for j using assms(1) that by (simp add: ordered_up_def)
  have byp: "\<not> lt (s j) (s p)" if "j div 2 = i" "j \<le> n" for j
  proof -
    have "2 \<le> j" using that(1) assms(2) by simp
    then show ?thesis using assms(1,2) that by (simp add: ordered_up_def bypass_def p_def)
  qed
  have pi: "\<not> lt (s p) (s i)" using asym assms(4) by (simp add: p_def)
  have "\<not> lt (?s j) (?s (j div 2))" if j: "2 \<le> j" "j \<le> n" "j \<noteq> p" for j
  proof -
    have jj: "j div 2 \<noteq> j" using j by auto
    consider "j = i" | "j \<noteq> i" "j div 2 = i" | "j \<noteq> i" "j div 2 = p" | "j \<noteq> i" "j div 2 \<noteq> i" "j div 2 \<noteq> p" by blast
    then show ?thesis
    proof cases
      case 1
      then show ?thesis using pi p by (simp add: p_def[symmetric])
    next
      case 2
      then show ?thesis using byp[of j] j p by simp
    next
      case 3
      then show ?thesis using neg_trans[OF pi] edge[OF j(1,2)] j p by simp
    next
      case 4
      then show ?thesis using edge[OF j(1,2)] j by simp
    qed
  qed
  moreover have "\<not> lt (?s j) (?s (p div 2))" if j: "2 \<le> j" "j \<le> n" "j div 2 = p" "2 \<le> p" for j
  proof -
    have pp: "\<not> lt (s p) (s (p div 2))" using edge[of p] p j(4) by simp
    have "p div 2 \<noteq> p" "p div 2 \<noteq> i" "j \<noteq> p" using p j(3,4) by auto
    then show ?thesis using pp neg_trans[OF pp] edge[OF j(1,2)] j(3) by (cases "j = i") simp_all
  qed
  ultimately show ?thesis by (simp add: ordered_up_def bypass_def p_def)
qed

lemma heap_up_ordered:
  "layout h s n \<Longrightarrow> 1 \<le> i \<Longrightarrow> i \<le> n \<Longrightarrow> ordered_up lt s n i \<Longrightarrow>
   \<exists>h' s'. heap_up lt h (s i) = Some h' \<and> layout h' s' n \<and> ordered lt s' n \<and> s' ` {1..n} = s ` {1..n}"
proof (induction i arbitrary: h s rule: less_induct)
  case (less i)
  note l = less.prems(1) and i = less.prems(2,3)
  let ?p = "i div 2"
  have pa: "parent (node h (s i)) = s ?p" using layoutD(4)[OF l i] by simp
  show ?case
  proof (cases "2 \<le> i \<and> lt (s i) (s ?p)")
    case True
    let ?s = "s(i := s ?p, ?p := s i)"
    have p: "1 \<le> ?p" "?p \<le> n" "?p < i" "?p \<noteq> i" using True i by auto
    have "s ?p \<noteq> NULL" using layoutD(1)[OF l, of ?p] p by simp
    then have up: "heap_up lt h (s i) = heap_up lt (heap_node_swap h (s ?p) (s i)) (?s ?p)"
      using True by (subst heap_up.simps) (simp add: pa)
    have "layout (heap_node_swap h (s ?p) (s i)) ?s n" by (rule layout_swap[OF l]) (use True i in simp_all)
    moreover have "ordered_up lt ?s n ?p" by (rule up_step[OF less.prems(4)]) (use True i in simp_all)
    moreover have "?s ` {1..n} = s ` {1..n}" by (rule swap_image) (use i p in simp_all)
    ultimately show ?thesis using less.IH[OF p(3) _ p(1,2), of _ ?s] unfolding up by metis
  next
    case False
    then have "heap_up lt h (s i) = Some h"
      using layoutD(1)[OF l, of ?p] by (subst heap_up.simps) (auto simp: pa)
    moreover have "ordered lt s n" using less.prems(4) False by (auto simp: ordered_def ordered_up_def)
    ultimately show ?thesis using l by blast
  qed
qed

lemma smallest_child:
  assumes l: "layout h s n" and i: "1 \<le> i" "i \<le> n"
  obtains m where "smallest lt h (s i) = s m" "m = i \<or> m div 2 = i \<and> m \<le> n \<and> lt (s m) (s i)"
    "\<forall>j. j div 2 = i \<and> j \<le> n \<longrightarrow> \<not> lt (s j) (s m)"
proof -
  define a where "a = (if 2 * i \<le> n \<and> lt (s (2 * i)) (s i) then 2 * i else i)"
  define m where "m = (if 2 * i + 1 \<le> n \<and> lt (s (2 * i + 1)) (s a) then 2 * i + 1 else a)"
  have nz: "s (2 * i) \<noteq> NULL \<longleftrightarrow> 2 * i \<le> n" "s (2 * i + 1) \<noteq> NULL \<longleftrightarrow> 2 * i + 1 \<le> n"
    using layoutD(1)[OF l, of "2 * i"] layoutD(1)[OF l, of "2 * i + 1"] i by auto
  have nd: "left (node h (s i)) = s (2 * i)" "right (node h (s i)) = s (2 * i + 1)" using layoutD(4)[OF l i] by simp_all
  have "s a = (if 2 * i \<le> n \<and> lt (s (2 * i)) (s i) then s (2 * i) else s i)"
    "s m = (if 2 * i + 1 \<le> n \<and> lt (s (2 * i + 1)) (s a) then s (2 * i + 1) else s a)"
    by (simp_all add: a_def m_def)
  then have a: "smallest lt h (s i) = s m" unfolding smallest_def Let_def nd nz by (simp only:)
  have la: "\<not> lt (s i) (s a)" using asym irrefl by (auto simp: a_def)
  have le: "\<not> lt (s a) (s m)" "\<not> lt (s i) (s m)" using asym irrefl la neg_trans[of "s a" "s m" "s i"] by (auto simp: m_def)
  have "\<not> lt (s (2 * i)) (s a)" if "2 * i \<le> n" using that irrefl by (auto simp: a_def)
  then have c1: "\<not> lt (s (2 * i)) (s m)" if "2 * i \<le> n" using that neg_trans[OF le(1)] by blast
  have c2: "\<not> lt (s (2 * i + 1)) (s m)" if "2 * i + 1 \<le> n" using that irrefl by (auto simp: m_def)
  have "lt (s m) (s i)" if "m \<noteq> i"
  proof (cases "m = a")
    case True
    then show ?thesis using that by (auto simp: a_def split: if_splits)
  next
    case False
    then have "lt (s m) (s a)" by (auto simp: m_def split: if_splits)
    then show ?thesis using neg_trans[of "s i" "s a" "s m"] la by (metis neg_trans asym)
  qed
  moreover have "m = i \<or> m div 2 = i \<and> m \<le> n" by (auto simp: m_def a_def)
  moreover have "\<not> lt (s j) (s m)" if "j div 2 = i" "j \<le> n" for j
  proof -
    have "j = 2 * i \<or> j = 2 * i + 1" using that(1) by auto
    then show ?thesis using c1 c2 that(2) by auto
  qed
  ultimately show ?thesis using that[of m] a by blast
qed

lemma down_step:
  assumes o: "ordered_down lt s n i" and i: "1 \<le> i" "i \<le> n" and m: "m div 2 = i" "m \<le> n" "lt (s m) (s i)"
    and le: "\<forall>j. j div 2 = i \<and> j \<le> n \<longrightarrow> \<not> lt (s j) (s m)"
  shows "ordered_down lt (s(m := s i, i := s m)) n m"
proof -
  let ?s = "s(m := s i, i := s m)"
  have mi: "m \<noteq> i" "i < m" using m(1) i(1) by auto
  have edge: "\<not> lt (s j) (s (j div 2))" if "2 \<le> j" "j \<le> n" "j \<noteq> i" "j div 2 \<noteq> i" for j using o that by (simp add: ordered_down_def)
  have "\<not> lt (?s j) (?s (j div 2))" if j: "2 \<le> j" "j \<le> n" "j \<noteq> m" "j div 2 \<noteq> m" for j
  proof -
    consider "j = i" | "j \<noteq> i" "j div 2 = i" | "j \<noteq> i" "j div 2 \<noteq> i" by blast
    then show ?thesis
    proof cases
      case 1
      then have "2 \<le> m" "2 \<le> i" "i div 2 \<noteq> i" using j(1) mi(2) by auto
      then show ?thesis using o m 1 mi j(4) by (simp add: ordered_down_def bypass_def)
    next
      case 2
      then show ?thesis using le j by simp
    next
      case 3
      then show ?thesis using edge[of j] j by simp
    qed
  qed
  moreover have "\<not> lt (?s j) (?s (m div 2))" if j: "2 \<le> j" "j \<le> n" "j div 2 = m" for j
  proof -
    have "j \<noteq> i" "j \<noteq> m" "j div 2 \<noteq> i" using j mi by auto
    then show ?thesis using edge[of j] j m(1) by simp
  qed
  ultimately show ?thesis by (simp add: ordered_down_def bypass_def)
qed

lemma heap_down_ordered:
  "layout h s n \<Longrightarrow> 1 \<le> i \<Longrightarrow> i \<le> n \<Longrightarrow> ordered_down lt s n i \<Longrightarrow>
   \<exists>h' s' j. heap_down lt h (s i) = Some h' \<and> layout h' s' n \<and> 1 \<le> j \<and> j \<le> n \<and> s' j = s i \<and> ordered_up lt s' n j \<and>
     s' ` {1..n} = s ` {1..n}"
proof (induction "n - i" arbitrary: i h s rule: less_induct)
  case less
  note l = less.prems(1) and i = less.prems(2,3)
  obtain m where sm: "smallest lt h (s i) = s m" "m = i \<or> m div 2 = i \<and> m \<le> n \<and> lt (s m) (s i)"
    "\<forall>j. j div 2 = i \<and> j \<le> n \<longrightarrow> \<not> lt (s j) (s m)" by (rule smallest_child[OF l i])
  show ?case
  proof (cases "m = i")
    case True
    then have "heap_down lt h (s i) = Some h" using sm(1) by (subst heap_down.simps) simp
    moreover have "ordered_up lt s n i" using less.prems(4) sm(3) unfolding True ordered_up_def ordered_down_def by (metis atLeastAtMost_iff)
    ultimately show ?thesis using l i by blast
  next
    case False
    then have m: "m div 2 = i" "m \<le> n" "lt (s m) (s i)" "1 \<le> m" "n - m < n - i" using sm(2) i by auto
    let ?s = "s(m := s i, i := s m)"
    have "s m \<noteq> s i" using layoutD(5)[OF l i, of m] False by auto
    then have dn: "heap_down lt h (s i) = heap_down lt (heap_node_swap h (s i) (s m)) (?s m)"
      using sm(1) False by (subst heap_down.simps) simp
    have "2 \<le> m" using m(1) i by auto
    then have "layout (heap_node_swap h (s i) (s m)) ?s n" using layout_swap[OF l _ m(2)] m(1) by simp
    moreover have "ordered_down lt ?s n m" by (rule down_step[OF less.prems(4) i m(1-3) sm(3)])
    moreover have im: "?s ` {1..n} = s ` {1..n}" by (rule swap_image) (use i m in simp_all)
    ultimately obtain h' s' j where r: "heap_down lt (heap_node_swap h (s i) (s m)) (?s m) = Some h'" "layout h' s' n"
      "1 \<le> j" "j \<le> n" "s' j = ?s m" "ordered_up lt s' n j" "s' ` {1..n} = ?s ` {1..n}"
      using less.hyps[OF m(5) _ m(4,2), of _ ?s] by metis
    have "?s m = s i" using False by simp
    then show ?thesis using r dn im by metis
  qed
qed

lemma replaced_ordered:
  assumes "ordered lt s n"
  shows "ordered_down lt (s(i := c)) n i"
proof -
  have "\<not> lt (s j) (s (i div 2))" if j: "2 \<le> j" "j \<le> n" "j div 2 = i" "2 \<le> i" for j
  proof -
    have "i \<le> n" using j by auto
    then show ?thesis using neg_trans[of "s i" "s (i div 2)" "s j"] assms j by (auto simp: ordered_def)
  qed
  moreover have "j \<noteq> i" "i div 2 \<noteq> i" if "j div 2 = i" "2 \<le> i" for j using that by auto
  ultimately have "bypass lt (s(i := c)) n i" unfolding bypass_def by (metis atLeastAtMost_iff fun_upd_other)
  then show ?thesis using assms by (simp add: ordered_def ordered_down_def)
qed

end

section \<open>The heap as a set of nodes with a least one\<close>

definition heap_ok :: "(ptr \<Rightarrow> ptr \<Rightarrow> bool) \<Rightarrow> heap \<Rightarrow> ptr set \<Rightarrow> bool" where
  "heap_ok lt h S \<longleftrightarrow> (\<exists>s n. layout h s n \<and> n < 2 ^ 32 \<and> ordered lt s n \<and> S = s ` {1..n})"

lemma heap_okI: "layout h s n \<Longrightarrow> n < 2 ^ 32 \<Longrightarrow> ordered lt s n \<Longrightarrow> s ` {1..n} = S \<Longrightarrow> heap_ok lt h S"
  unfolding heap_ok_def by blast

lemma heap_ok_init: "heap_ok lt (heap_init h) {}"
  unfolding heap_ok_def
  by (rule exI[of _ "\<lambda>_. NULL"], rule exI[of _ 0]) (auto simp: layout_def heap_init_def ordered_def)

text \<open>Only the order of the nodes in the heap matters.\<close>

lemma heap_ok_cong:
  assumes "heap_ok lt h S" "\<And>a b. a \<in> S \<Longrightarrow> b \<in> S \<Longrightarrow> lt' a b = lt a b"
  shows "heap_ok lt' h S"
proof -
  obtain s n where s: "layout h s n" "n < 2 ^ 32" "ordered lt s n" "S = s ` {1..n}" using assms(1) by (auto simp: heap_ok_def)
  have "ordered lt' s n" unfolding ordered_def
  proof
    fix j
    assume j: "j \<in> {2..n}"
    then have "j \<in> {1..n}" "j div 2 \<in> {1..n}" by auto
    then have "s j \<in> S" "s (j div 2) \<in> S" unfolding s(4) by (blast intro: imageI)+
    then show "\<not> lt' (s j) (s (j div 2))" using s(3) j assms(2) by (simp add: ordered_def)
  qed
  then show ?thesis using s unfolding heap_ok_def by blast
qed

lemma heap_ok_finite: "heap_ok lt h S \<Longrightarrow> finite S \<and> NULL \<notin> S \<and> card S < 2 ^ 32 \<and> nelts h = of_nat (card S)"
proof -
  assume "heap_ok lt h S"
  then obtain s n where s: "layout h s n" "n < 2 ^ 32" "S = s ` {1..n}" by (auto simp: heap_ok_def)
  have "NULL \<notin> S" using layoutD(1)[OF s(1)] s(3) by force
  moreover have "card S = n" using s(1,3) by (simp add: layout_def card_image)
  ultimately show ?thesis using s layoutD(3)[OF s(1)] by simp
qed

lemma link_eq:
  assumes "layout h s n" "x \<noteq> NULL" "\<And>j. 1 \<le> j \<Longrightarrow> j \<le> n \<Longrightarrow> s j \<noteq> x" "Suc n < 2 ^ 32"
  shows "heap_insert lt h x = heap_up lt
    ((store (at s (Suc n)) x (put x \<lparr>left = NULL, right = NULL, parent = s (Suc n div 2)\<rparr> h))\<lparr>nelts := nelts h + 1\<rparr>) x"
proof -
  let ?h = "put x \<lparr>left = NULL, right = NULL, parent = NULL\<rparr> h"
  have frame: "\<And>j. 1 \<le> j \<Longrightarrow> j \<le> n \<Longrightarrow> node ?h (s j) = node h (s j)" "hmin ?h = hmin h" using assms(3) by simp_all
  obtain k path where kp: "heap_path 0 (of_nat (Suc n)) 0 = (k, path)" by fastforce
  have w: "heap_walk ?h k path (Root, Root) = (at s (Suc n div 2), at s (Suc n))"
    by (rule heap_walk_position[OF assms(1) frame _ _ assms(4) kp]) simp_all
  have d: "deref ?h (at s (Suc n div 2)) = s (Suc n div 2)"
  proof (cases "n = 0")
    case True
    then show ?thesis using layoutD(1)[OF assms(1), of 1] layoutD(1)[OF assms(1), of 0] layoutD(2)[OF assms(1)]
      by (simp add: at_def)
  next
    case False
    then show ?thesis by (intro deref_at[OF assms(1) _ _ frame]) auto
  qed
  have ns: "nelts (store l v g) = nelts g" for l v g by (cases l) simp_all
  have "1 + nelts h = of_nat (Suc n)" using layoutD(3)[OF assms(1)] by simp
  then show ?thesis unfolding heap_insert_def Let_def using kp w d by (simp add: ns del: of_nat_Suc)
qed

lemma unlink_eq:
  assumes "layout h s (Suc n)" "Suc n < 2 ^ 32"
  defines "h' \<equiv> store (at s (Suc n)) NULL (h\<lparr>nelts := nelts h - 1\<rparr>)"
  shows "heap_remove lt h x =
    (if s (Suc n) = x then Some h'
     else case heap_down lt (heap_replace h' x (s (Suc n))) (s (Suc n)) of None \<Rightarrow> None | Some h \<Rightarrow> heap_up lt h (s (Suc n)))"
proof -
  obtain k path where kp: "heap_path 0 (of_nat (Suc n)) 0 = (k, path)" by fastforce
  have w: "heap_walk h k path (Root, Root) = (at s (Suc n div 2), at s (Suc n))"
    by (rule heap_walk_position[OF assms(1) _ _ _ _ assms(2) kp]) simp_all
  have d: "deref (h\<lparr>nelts := nelts h - 1\<rparr>) (at s (Suc n)) = s (Suc n)"
    by (rule deref_at[OF assms(1)]) simp_all
  have ne: "nelts h = of_nat (Suc n)" "nelts h \<noteq> 0"
    using layoutD(3)[OF assms(1)] assms(2) by (simp_all add: word_unat_eq_iff unat_of_nat del: of_nat_Suc)
  have "hmin h' = (s(Suc n := NULL)) 1" using layoutD(2)[OF layout_unlink[OF assms(1)]] h'_def by simp
  then have hm: "s (Suc n) \<noteq> hmin h'"
    using layoutD(1)[OF assms(1), of "Suc n"] layoutD(5)[OF assms(1), of "Suc n" 1] by auto
  have kp': "heap_path 0 (nelts h) 0 = (k, path)" using kp ne(1) by (simp only:)
  show ?thesis unfolding heap_remove_def Let_def kp' prod.case w snd_conv d h'_def[symmetric] using ne(2) hm by simp
qed

context heap_order
begin

lemma heap_insert_ok:
  assumes "heap_ok lt h S" "x \<noteq> NULL" "x \<notin> S" "card S + 1 < 2 ^ 32"
  shows "\<exists>h'. heap_insert lt h x = Some h' \<and> heap_ok lt h' (insert x S)"
proof -
  obtain s n where s: "layout h s n" "ordered lt s n" "S = s ` {1..n}" using assms(1) by (auto simp: heap_ok_def)
  have n: "Suc n < 2 ^ 32" using assms(4) s(1,3) by (simp add: layout_def card_image)
  have x: "\<And>j. 1 \<le> j \<Longrightarrow> j \<le> n \<Longrightarrow> s j \<noteq> x" using assms(3) s(3) by auto
  let ?s = "s(Suc n := x)"
  define h1 where "h1 = (store (at s (Suc n)) x (put x \<lparr>left = NULL, right = NULL, parent = s (Suc n div 2)\<rparr> h))\<lparr>nelts := nelts h + 1\<rparr>"
  have l: "layout h1 ?s (Suc n)" by (rule layout_link[OF s(1) assms(2) x h1_def])
  have o: "ordered_up lt ?s (Suc n) (Suc n)"
  proof -
    have "j div 2 \<noteq> Suc n" if "j \<le> Suc n" for j using that by auto
    then show ?thesis using s(2) by (auto simp: ordered_up_def ordered_def bypass_def)
  qed
  obtain h' s' where h': "heap_up lt h1 (?s (Suc n)) = Some h'" "layout h' s' (Suc n)" "ordered lt s' (Suc n)" "s' ` {1..Suc n} = ?s ` {1..Suc n}"
    using heap_up_ordered[OF l _ _ o] by auto
  have "?s ` {1..Suc n} = insert x S" using s(3) by (auto simp: atLeastAtMostSuc_conv)
  then have "heap_ok lt h' (insert x S)" using h'(4) by (intro heap_okI[OF h'(2) n h'(3)]) simp
  moreover have "heap_insert lt h x = Some h'" using h'(1) link_eq[OF s(1) assms(2) x n, of lt, folded h1_def] by simp
  ultimately show ?thesis by blast
qed

lemma heap_remove_ok:
  assumes "heap_ok lt h S" "x \<in> S"
  shows "\<exists>h'. heap_remove lt h x = Some h' \<and> heap_ok lt h' (S - {x})"
proof -
  obtain s m where s: "layout h s m" "m < 2 ^ 32" "ordered lt s m" "S = s ` {1..m}" using assms(1) by (auto simp: heap_ok_def)
  obtain i where i: "1 \<le> i" "i \<le> m" "x = s i" using assms(2) s(4) by auto
  then obtain n where m: "m = Suc n" by (cases m) auto
  define h1 where "h1 = store (at s (Suc n)) NULL (h\<lparr>nelts := nelts h - 1\<rparr>)"
  let ?s = "s(Suc n := NULL)" and ?c = "s (Suc n)"
  note l = s(1)[unfolded m] and eq = unlink_eq[OF s(1,2)[unfolded m], of lt x, folded h1_def]
  have l1: "layout h1 ?s n" by (rule layout_unlink[OF l h1_def])
  have o1: "ordered lt ?s n" using s(3) m by (auto simp: ordered_def)
  have inj: "s j = s k \<longleftrightarrow> j = k" if "1 \<le> j" "j \<le> Suc n" for j k using layoutD(5)[OF l that] .
  show ?thesis
  proof (cases "i = Suc n")
    case True
    then have "?s ` {1..n} = S - {x}" using s(4) m i(3) inj by (auto simp: atLeastAtMostSuc_conv)
    then have "heap_ok lt h1 (S - {x})" using s(2) m by (intro heap_okI[OF l1 _ o1]) simp_all
    then show ?thesis using True i(3) eq by simp
  next
    case False
    have c: "?c \<noteq> NULL" "\<And>j. 1 \<le> j \<Longrightarrow> j \<le> n \<Longrightarrow> ?s j \<noteq> ?c" using layoutD(1)[OF l, of "Suc n"] inj by auto
    have i': "i \<le> n" "?s i = x" using False i m by auto
    let ?t = "?s(i := ?c)"
    have "layout (heap_replace h1 (?s i) ?c) ?t n" by (rule layout_replace[OF l1 i(1) i'(1) c])
    then obtain h2 s2 j where d: "heap_down lt (heap_replace h1 x ?c) (?t i) = Some h2" "layout h2 s2 n" "1 \<le> j" "j \<le> n" "s2 j = ?t i"
      "ordered_up lt s2 n j" "s2 ` {1..n} = ?t ` {1..n}"
      using heap_down_ordered[OF _ i(1) i'(1) replaced_ordered[OF o1]] i'(2) by metis
    obtain h3 s3 where u: "heap_up lt h2 ?c = Some h3" "layout h3 s3 n" "ordered lt s3 n" "s3 ` {1..n} = s2 ` {1..n}"
      using heap_up_ordered[OF d(2-4,6)] d(5) by auto
    have "?t ` {1..n} = S - {x}"
    proof -
      have "?t ` {1..n} = insert ?c (s ` ({1..n} - {i}))" using i(1) i'(1) by (auto simp: image_iff)
      also have "\<dots> = S - {x}" using s(4) m i(3) i(1) i'(1) inj False by (auto simp: atLeastAtMostSuc_conv)
      finally show ?thesis .
    qed
    then have "heap_ok lt h3 (S - {x})" using s(2) m d(7) u(4) by (intro heap_okI[OF u(2) _ u(3)]) simp_all
    moreover have "?c \<noteq> x" using inj[of "Suc n" i] i(3) False by simp
    ultimately show ?thesis using eq d(1) u(1) by simp
  qed
qed

lemma heap_min_ok:
  assumes "heap_ok lt h S"
  shows "(heap_min h = NULL \<longleftrightarrow> S = {}) \<and> (S \<noteq> {} \<longrightarrow> heap_min h \<in> S \<and> (\<forall>y\<in>S. \<not> lt y (heap_min h)))"
proof -
  obtain s n where s: "layout h s n" "ordered lt s n" "S = s ` {1..n}" using assms(1) by (auto simp: heap_ok_def)
  have "1 \<le> j \<Longrightarrow> j \<le> n \<Longrightarrow> \<not> lt (s j) (s 1)" for j
  proof (induction j rule: less_induct)
    case (less j)
    show ?case
    proof (cases "j = 1")
      case False
      then have "\<not> lt (s (j div 2)) (s 1)" using less.IH[of "j div 2"] less.prems by auto
      then show ?thesis using neg_trans[of "s (j div 2)" "s 1" "s j"] s(2) less.prems False by (auto simp: ordered_def)
    qed (simp add: irrefl)
  qed
  then show ?thesis using s(3) layoutD(1)[OF s(1), of 1] layoutD(2)[OF s(1)] by (auto simp: heap_min_def)
qed

end

end
