(* ===== verification/Uv_Timer.thy ===== *)
theory Uv_Timer
  imports Uv_Order
begin

text \<open>
  The timers of libuv, \<^verbatim>\<open>Libuv-gRPC/src/timer.c\<close>: handles that are active exactly while their node is in
  the heap of the loop, ordered by due time and then by the order in which they were started.
\<close>

section \<open>Handles and loops\<close>

text \<open>
  A callback is known by its identity; the heap node of a handle is identified with the handle, from
  which it lies at a fixed offset. The last field of the loop is whatever the callbacks work on.
\<close>

record uv_timer =
  flags :: uint32
  timer_cb :: "nat option"
  timeout :: uint64
  repeat :: uint64
  start_id :: uint64

record 'w uv_loop =
  time :: uint64
  timer_counter :: uint64
  active_handles :: uint32
  handle_queue :: "ptr list"
  timer_heap :: heap
  timer :: "ptr \<Rightarrow> uv_timer"
  world :: 'w

abbreviation UV_HANDLE_CLOSING :: uint32 where "UV_HANDLE_CLOSING \<equiv> 1"
abbreviation UV_HANDLE_CLOSED :: uint32 where "UV_HANDLE_CLOSED \<equiv> 2"
abbreviation UV_HANDLE_ACTIVE :: uint32 where "UV_HANDLE_ACTIVE \<equiv> 4"
abbreviation UV_HANDLE_REF :: uint32 where "UV_HANDLE_REF \<equiv> 8"

definition UV_EINVAL :: int where "UV_EINVAL = - 22"

abbreviation set_timer :: "ptr \<Rightarrow> uv_timer \<Rightarrow> 'w uv_loop \<Rightarrow> 'w uv_loop" where
  "set_timer x t L \<equiv> L\<lparr>timer := (timer L)(x := t)\<rparr>"

definition uv__is_active :: "'w uv_loop \<Rightarrow> ptr \<Rightarrow> bool" where
  "uv__is_active L x \<longleftrightarrow> flags (timer L x) AND UV_HANDLE_ACTIVE \<noteq> 0"

definition uv__is_closing :: "'w uv_loop \<Rightarrow> ptr \<Rightarrow> bool" where
  "uv__is_closing L x \<longleftrightarrow> flags (timer L x) AND (UV_HANDLE_CLOSING OR UV_HANDLE_CLOSED) \<noteq> 0"

definition uv__handle_start :: "'w uv_loop \<Rightarrow> ptr \<Rightarrow> 'w uv_loop" where
  "uv__handle_start L x =
     (if uv__is_active L x then L
      else let L = set_timer x (timer L x\<lparr>flags := flags (timer L x) OR UV_HANDLE_ACTIVE\<rparr>) L
           in if flags (timer L x) AND UV_HANDLE_REF \<noteq> 0 then L\<lparr>active_handles := active_handles L + 1\<rparr> else L)"

definition uv__handle_stop :: "'w uv_loop \<Rightarrow> ptr \<Rightarrow> 'w uv_loop" where
  "uv__handle_stop L x =
     (if \<not> uv__is_active L x then L
      else let L = set_timer x (timer L x\<lparr>flags := flags (timer L x) AND NOT UV_HANDLE_ACTIVE\<rparr>) L
           in if flags (timer L x) AND UV_HANDLE_REF \<noteq> 0 then L\<lparr>active_handles := active_handles L - 1\<rparr> else L)"

definition uv__handle_init :: "'w uv_loop \<Rightarrow> ptr \<Rightarrow> 'w uv_loop" where
  "uv__handle_init L x = set_timer x (timer L x\<lparr>flags := UV_HANDLE_REF\<rparr>) (L\<lparr>handle_queue := handle_queue L @ [x]\<rparr>)"

section \<open>Timers\<close>

definition timer_less_than :: "(ptr \<Rightarrow> uv_timer) \<Rightarrow> ptr \<Rightarrow> ptr \<Rightarrow> bool" where
  "timer_less_than T ha hb =
     (let a = T ha; b = T hb in
      if timeout a < timeout b then True
      else if timeout b < timeout a then False
      else start_id a < start_id b)"

definition uv_timer_init :: "'w uv_loop \<Rightarrow> ptr \<Rightarrow> 'w uv_loop" where
  "uv_timer_init L x =
     (let L = uv__handle_init L x in set_timer x (timer L x\<lparr>timer_cb := None, repeat := 0\<rparr>) L)"

definition uv_timer_stop :: "'w uv_loop \<Rightarrow> ptr \<Rightarrow> 'w uv_loop option" where
  "uv_timer_stop L x =
     (if \<not> uv__is_active L x then Some L
      else (case heap_remove (timer_less_than (timer L)) (timer_heap L) x of
              None \<Rightarrow> None
            | Some h \<Rightarrow> Some (uv__handle_stop (L\<lparr>timer_heap := h\<rparr>) x)))"

definition uv_timer_start :: "'w uv_loop \<Rightarrow> ptr \<Rightarrow> nat option \<Rightarrow> uint64 \<Rightarrow> uint64 \<Rightarrow> (int \<times> 'w uv_loop) option" where
  "uv_timer_start L x cb timeout0 repeat0 =
     (if uv__is_closing L x \<or> cb = None then Some (UV_EINVAL, L)
      else
        (case (if uv__is_active L x then uv_timer_stop L x else Some L) of
           None \<Rightarrow> None
         | Some L \<Rightarrow>
             let clamped_timeout = time L + timeout0;
                 clamped_timeout = (if clamped_timeout < timeout0 then - 1 else clamped_timeout);
                 L = set_timer x (timer L x\<lparr>timer_cb := cb, timeout := clamped_timeout, repeat := repeat0,
                                            start_id := timer_counter L\<rparr>) L;
                 L = L\<lparr>timer_counter := timer_counter L + 1\<rparr>
             in (case heap_insert (timer_less_than (timer L)) (timer_heap L) x of
                   None \<Rightarrow> None
                 | Some h \<Rightarrow> Some (0, uv__handle_start (L\<lparr>timer_heap := h\<rparr>) x))))"

definition uv_timer_again :: "'w uv_loop \<Rightarrow> ptr \<Rightarrow> (int \<times> 'w uv_loop) option" where
  "uv_timer_again L x =
     (if timer_cb (timer L x) = None then Some (UV_EINVAL, L)
      else if repeat (timer L x) \<noteq> 0 then
        (case uv_timer_stop L x of
           None \<Rightarrow> None
         | Some L \<Rightarrow>
             (case uv_timer_start L x (timer_cb (timer L x)) (repeat (timer L x)) (repeat (timer L x)) of
                None \<Rightarrow> None
              | Some (_, L) \<Rightarrow> Some (0, L)))
      else Some (0, L))"

definition uv_timer_set_repeat :: "'w uv_loop \<Rightarrow> ptr \<Rightarrow> uint64 \<Rightarrow> 'w uv_loop" where
  "uv_timer_set_repeat L x r = set_timer x (timer L x\<lparr>repeat := r\<rparr>) L"

definition uv_timer_get_repeat :: "'w uv_loop \<Rightarrow> ptr \<Rightarrow> uint64" where
  "uv_timer_get_repeat L x = repeat (timer L x)"

abbreviation INT_MAX :: int where "INT_MAX \<equiv> 2 ^ 31 - 1"

definition uv__next_timeout :: "'w uv_loop \<Rightarrow> int" where
  "uv__next_timeout L =
     (let handle = heap_min (timer_heap L) in
      if handle = NULL then - 1
      else if timeout (timer L handle) \<le> time L then 0
      else let diff = timeout (timer L handle) - time L;
               diff = (if diff > of_int INT_MAX then of_int INT_MAX else diff)
           in sint (ucast diff :: 32 word))"

text \<open>
  \<open>call\<close> runs the callback of an identity on a handle. Calling a null pointer has no result here, and
  neither has a loop that does not end.
\<close>

partial_function (option) uv__run_timers :: "(nat \<Rightarrow> ptr \<Rightarrow> 'w uv_loop \<Rightarrow> 'w uv_loop) \<Rightarrow> 'w uv_loop \<Rightarrow> 'w uv_loop option" where
  "uv__run_timers call L =
     (let handle = heap_min (timer_heap L) in
      if handle = NULL then Some L
      else if timeout (timer L handle) > time L then Some L
      else
        Option.bind (uv_timer_stop L handle) (\<lambda>L.
        Option.bind (uv_timer_again L handle) (\<lambda>(_, L).
        Option.bind (timer_cb (timer L handle)) (\<lambda>cb. uv__run_timers call (call cb handle L)))))"

definition uv__timer_close :: "'w uv_loop \<Rightarrow> ptr \<Rightarrow> 'w uv_loop option" where
  "uv__timer_close L x = uv_timer_stop L x"

section \<open>The comparison is an order\<close>

interpretation timer: heap_order "timer_less_than T" for T
  by unfold_locales (auto simp: timer_less_than_def Let_def split: if_splits)

lemma timer_less_than_cong: "T' a = T a \<Longrightarrow> T' b = T b \<Longrightarrow> timer_less_than T' a b = timer_less_than T a b"
  by (simp add: timer_less_than_def)

lemma timer_less_than_timeout: "\<not> timer_less_than T b a \<Longrightarrow> timeout (T a) \<le> timeout (T b)"
  by (auto simp: timer_less_than_def Let_def not_less split: if_splits)

section \<open>Active timers are the nodes of the heap\<close>

definition active :: "'w uv_loop \<Rightarrow> ptr set" where
  "active L = {x. uv__is_active L x}"

definition timer_inv :: "'w uv_loop \<Rightarrow> bool" where
  "timer_inv L \<longleftrightarrow> heap_ok (timer_less_than (timer L)) (timer_heap L) (active L) \<and> (\<forall>x\<in>active L. timer_cb (timer L x) \<noteq> None)"

lemma active_flag: "(f OR 4) AND (4::uint32) = 4" "(f AND - 5) AND (4::uint32) = 0"
  by (rule bit_word_eqI, auto simp: bit_simps) (simp add: and.assoc)

text \<open>The comparison is used on the timers as they are; changes to timers outside the heap do not matter to it.\<close>

lemma heap_ok_timers:
  assumes "heap_ok (timer_less_than T) h S" "\<And>x. x \<in> S \<Longrightarrow> timeout (T' x) = timeout (T x) \<and> start_id (T' x) = start_id (T x)"
  shows "heap_ok (timer_less_than T') h S"
  using assms(1) by (rule heap_ok_cong) (use assms(2) in \<open>simp add: timer_less_than_def Let_def\<close>)

lemma uv__handle_stop_simps:
  assumes "uv__is_active L x"
  shows "timer (uv__handle_stop L x) = (timer L)(x := timer L x\<lparr>flags := flags (timer L x) AND NOT UV_HANDLE_ACTIVE\<rparr>)"
    "timer_heap (uv__handle_stop L x) = timer_heap L" "time (uv__handle_stop L x) = time L" "world (uv__handle_stop L x) = world L"
    "timer_counter (uv__handle_stop L x) = timer_counter L"
  using assms by (simp_all add: uv__handle_stop_def Let_def)

lemma uv__handle_start_simps:
  assumes "\<not> uv__is_active L x"
  shows "timer (uv__handle_start L x) = (timer L)(x := timer L x\<lparr>flags := flags (timer L x) OR UV_HANDLE_ACTIVE\<rparr>)"
    "timer_heap (uv__handle_start L x) = timer_heap L" "time (uv__handle_start L x) = time L" "world (uv__handle_start L x) = world L"
    "timer_counter (uv__handle_start L x) = timer_counter L"
  using assms by (simp_all add: uv__handle_start_def Let_def)

lemma uv_timer_stop_ok:
  assumes "timer_inv L"
  obtains L' where "uv_timer_stop L x = Some L'" "timer_inv L'" "active L' = active L - {x}" "time L' = time L" "world L' = world L"
    "\<And>y. timer L' y = (if y = x \<and> uv__is_active L x then timer L x\<lparr>flags := flags (timer L x) AND NOT UV_HANDLE_ACTIVE\<rparr> else timer L y)"
proof (cases "uv__is_active L x")
  case False
  then show ?thesis using that[of L] assms by (auto simp: uv_timer_stop_def active_def)
next
  case True
  note inv = assms[unfolded timer_inv_def]
  obtain h where h: "heap_remove (timer_less_than (timer L)) (timer_heap L) x = Some h"
    "heap_ok (timer_less_than (timer L)) h (active L - {x})"
    using timer.heap_remove_ok[of "timer L" "timer_heap L" "active L" x] inv True by (auto simp: active_def)
  let ?L = "L\<lparr>timer_heap := h\<rparr>"
  have act: "uv__is_active ?L x" using True by (simp add: uv__is_active_def)
  note sm = uv__handle_stop_simps[OF act]
  have a: "active (uv__handle_stop ?L x) = active L - {x}"
    by (auto simp: active_def uv__is_active_def sm active_flag)
  have "heap_ok (timer_less_than (timer (uv__handle_stop ?L x))) h (active L - {x})"
    by (rule heap_ok_timers[OF h(2)]) (simp add: sm)
  then have "timer_inv (uv__handle_stop ?L x)" using inv by (auto simp: timer_inv_def a sm)
  then show ?thesis
    by (rule that[rotated]) (use True h(1) a sm in \<open>auto simp: uv_timer_stop_def\<close>)
qed

text \<open>The due time, clamped instead of wrapped.\<close>

definition due_time :: "'w uv_loop \<Rightarrow> uint64 \<Rightarrow> uint64" where
  "due_time L d = (if unat (time L) + unat d < 2 ^ 64 then time L + d else - 1)"

lemma clamp: "(if time L + d < d then - 1 else time L + d) = due_time L d"
proof -
  have "time L + d < d \<longleftrightarrow> \<not> unat (time L) + unat d < 2 ^ 64"
  proof (cases "unat (time L) + unat d < 2 ^ 64")
    case True
    then show ?thesis by (simp add: word_less_nat_alt unat_word_ariths)
  next
    case False
    then show ?thesis using unat_lt_64[of "time L"] unat_lt_64[of d]
      by (simp add: word_less_nat_alt unat_word_ariths le_mod_geq)
  qed
  then show ?thesis by (simp add: due_time_def)
qed

lemma uv_timer_start_ok:
  assumes "timer_inv L" "x \<noteq> NULL" "\<not> uv__is_closing L x" "card (active L - {x}) + 1 < 2 ^ 32"
  obtains L' where "uv_timer_start L x (Some cb) d r = Some (0, L')" "timer_inv L'" "active L' = insert x (active L)"
    "time L' = time L" "world L' = world L"
    "\<And>y. y \<noteq> x \<Longrightarrow> timer L' y = timer L y" "timeout (timer L' x) = due_time L d" "timer_cb (timer L' x) = Some cb"
    "repeat (timer L' x) = r"
proof -
  have st: "(if uv__is_active L x then uv_timer_stop L x else Some L) = uv_timer_stop L x" by (simp add: uv_timer_stop_def)
  obtain L1 where L1: "uv_timer_stop L x = Some L1" "timer_inv L1" "active L1 = active L - {x}"
    "time L1 = time L" "world L1 = world L" "\<forall>y. y \<noteq> x \<longrightarrow> timer L1 y = timer L y"
    by (rule uv_timer_stop_ok[OF assms(1), of x]) auto
  define t where "t = timer L1 x\<lparr>timer_cb := Some cb, timeout := due_time L1 d, repeat := r, start_id := timer_counter L1\<rparr>"
  define L2 where "L2 = (set_timer x t L1)\<lparr>timer_counter := timer_counter L1 + 1\<rparr>"
  have l2: "timer L2 = (timer L1)(x := t)" "time L2 = time L1" "world L2 = world L1" "timer_heap L2 = timer_heap L1" by (simp_all add: L2_def)
  have x: "x \<notin> active L1" using L1(3) by simp
  note inv = L1(2)[unfolded timer_inv_def]
  have "heap_ok (timer_less_than (timer L2)) (timer_heap L1) (active L1)"
    by (rule heap_ok_timers[OF conjunct1[OF inv]]) (use x in \<open>auto simp: L2_def\<close>)
  then obtain h where h: "heap_insert (timer_less_than (timer L2)) (timer_heap L2) x = Some h"
    "heap_ok (timer_less_than (timer L2)) h (insert x (active L1))"
    using timer.heap_insert_ok[of "timer L2" "timer_heap L1" "active L1" x] assms(2,4) x L1(3) by (auto simp: L2_def)
  let ?L = "L2\<lparr>timer_heap := h\<rparr>"
  have nact: "\<not> uv__is_active ?L x" using x by (simp add: l2 t_def active_def uv__is_active_def)
  note sm = uv__handle_start_simps[OF nact]
  have a: "active (uv__handle_start ?L x) = insert x (active L1)"
    by (auto simp: active_def uv__is_active_def sm active_flag l2)
  have "heap_ok (timer_less_than (timer (uv__handle_start ?L x))) h (insert x (active L1))"
    by (rule heap_ok_timers[OF h(2)]) (simp add: sm)
  then have i: "timer_inv (uv__handle_start ?L x)" using inv by (auto simp: timer_inv_def a sm l2 t_def)
  have e: "uv_timer_start L x (Some cb) d r = Some (0, uv__handle_start ?L x)"
    using assms(3) h(1) unfolding uv_timer_start_def unfolding st unfolding L1(1) by (simp add: L2_def t_def clamp Let_def)
  show ?thesis
    by (rule that[OF e i]) (use L1(3-6) in \<open>auto simp: a sm l2 t_def due_time_def\<close>)
qed

text \<open>A closing handle is not restarted.\<close>

lemma uv_timer_again_ok:
  assumes "timer_inv L" "x \<noteq> NULL" "card (active L - {x}) + 1 < 2 ^ 32"
  obtains v L' where "uv_timer_again L x = Some (v, L')" "timer_inv L'" "active L - {x} \<subseteq> active L'" "active L' \<subseteq> insert x (active L)"
    "time L' = time L" "world L' = world L" "\<forall>y. y \<noteq> x \<longrightarrow> timer L' y = timer L y" "timer_cb (timer L' x) = timer_cb (timer L x)"
    "x \<in> active L' \<longrightarrow> x \<in> active L \<and> timeout (timer L' x) = timeout (timer L x) \<or>
       repeat (timer L x) \<noteq> 0 \<and> timeout (timer L' x) = due_time L (repeat (timer L x))"
proof (cases "timer_cb (timer L x) = None \<or> repeat (timer L x) = 0")
  case True
  then show ?thesis
    using that[of _ L] assms(1) by (cases "timer_cb (timer L x) = None") (auto simp: uv_timer_again_def)
next
  case False
  then obtain cb where cb: "timer_cb (timer L x) = Some cb" by auto
  obtain L1 where L1: "uv_timer_stop L x = Some L1" "timer_inv L1" "active L1 = active L - {x}" "time L1 = time L" "world L1 = world L"
    "\<forall>y. y \<noteq> x \<longrightarrow> timer L1 y = timer L y" "timer_cb (timer L1 x) = Some cb" "repeat (timer L1 x) = repeat (timer L x)"
    by (rule uv_timer_stop_ok[OF assms(1), of x]) (auto simp: cb)
  have ag: "uv_timer_again L x = (case uv_timer_start L1 x (Some cb) (repeat (timer L x)) (repeat (timer L x)) of None \<Rightarrow> None | Some (_, L) \<Rightarrow> Some (0, L))"
    using False L1(1,7,8) by (simp add: uv_timer_again_def cb)
  show ?thesis
  proof (cases "uv__is_closing L1 x")
    case True
    then have "uv_timer_again L x = Some (0, L1)" by (simp add: ag uv_timer_start_def)
    then show ?thesis by (rule that) (use L1 cb in auto)
  next
    case closing: False
    have "card (active L1 - {x}) + 1 < 2 ^ 32" using assms(3) L1(3) by simp
    then obtain L2 where L2: "uv_timer_start L1 x (Some cb) (repeat (timer L x)) (repeat (timer L x)) = Some (0, L2)" "timer_inv L2"
      "active L2 = insert x (active L1)" "time L2 = time L1" "world L2 = world L1" "\<forall>y. y \<noteq> x \<longrightarrow> timer L2 y = timer L1 y"
      "timeout (timer L2 x) = due_time L1 (repeat (timer L x))" "timer_cb (timer L2 x) = Some cb"
      by (rule uv_timer_start_ok[OF L1(2) assms(2) closing]) blast
    have "uv_timer_again L x = Some (0, L2)" by (simp add: ag L2(1))
    then show ?thesis by (rule that) (use L1 L2 cb False in \<open>auto simp: due_time_def\<close>)
  qed
qed

section \<open>Sequences of calls\<close>

text \<open>
  Any sequence of calls on a loop, between which time may pass: handles are initialised before they
  are used and again only when they are not active, are not null, and are fewer than the heap can count.
\<close>

inductive timer_reach :: "'w uv_loop \<Rightarrow> bool" where
  new: "\<forall>x. \<not> uv__is_active L x \<Longrightarrow> timer_reach (L\<lparr>timer_heap := heap_init (timer_heap L)\<rparr>)"
| init: "timer_reach L \<Longrightarrow> \<not> uv__is_active L x \<Longrightarrow> timer_reach (uv_timer_init L x)"
| start: "timer_reach L \<Longrightarrow> x \<noteq> NULL \<Longrightarrow> card (active L) + 1 < 2 ^ 32 \<Longrightarrow> uv_timer_start L x cb d r = Some (v, L') \<Longrightarrow> timer_reach L'"
| stop: "timer_reach L \<Longrightarrow> uv_timer_stop L x = Some L' \<Longrightarrow> timer_reach L'"
| again: "timer_reach L \<Longrightarrow> x \<noteq> NULL \<Longrightarrow> card (active L) + 1 < 2 ^ 32 \<Longrightarrow> uv_timer_again L x = Some (v, L') \<Longrightarrow> timer_reach L'"
| set_repeat: "timer_reach L \<Longrightarrow> timer_reach (uv_timer_set_repeat L x r)"
| update_time: "timer_reach L \<Longrightarrow> timer_reach (L\<lparr>time := now\<rparr>)"
| work: "timer_reach L \<Longrightarrow> timer_reach (L\<lparr>world := w\<rparr>)"

lemma timer_inv_frame:
  assumes "timer_inv L" "timer_heap L' = timer_heap L"
    and "\<And>x. flags (timer L' x) AND UV_HANDLE_ACTIVE = flags (timer L x) AND UV_HANDLE_ACTIVE"
    and "\<And>x. x \<in> active L \<Longrightarrow> timer_cb (timer L' x) = timer_cb (timer L x) \<and> timeout (timer L' x) = timeout (timer L x) \<and>
      start_id (timer L' x) = start_id (timer L x)"
  shows "timer_inv L'"
proof -
  have a: "active L' = active L" using assms(3) by (simp add: active_def uv__is_active_def)
  have "heap_ok (timer_less_than (timer L')) (timer_heap L) (active L)"
    by (rule heap_ok_timers[of "timer L"]) (use assms(1,4) in \<open>simp_all add: timer_inv_def\<close>)
  then show ?thesis using assms(1,2,4) a by (simp add: timer_inv_def)
qed

lemma card_less: "timer_inv L \<Longrightarrow> card (active L) + 1 < 2 ^ 32 \<Longrightarrow> card (active L - {x}) + 1 < 2 ^ 32"
  using card_Diff1_le[of "active L" x] by linarith

lemma timer_reach_inv: "timer_reach L \<Longrightarrow> timer_inv L"
proof (induction rule: timer_reach.induct)
  case (new L)
  then have "active (L\<lparr>timer_heap := heap_init (timer_heap L)\<rparr>) = {}" by (simp add: active_def uv__is_active_def)
  then show ?case by (simp add: timer_inv_def heap_ok_init)
next
  case (init L x)
  have "timer (uv_timer_init L x) = (timer L)(x := timer L x\<lparr>flags := UV_HANDLE_REF, timer_cb := None, repeat := 0\<rparr>)"
    "timer_heap (uv_timer_init L x) = timer_heap L" by (simp_all add: uv_timer_init_def uv__handle_init_def)
  then show ?case using init.hyps(2) by (intro timer_inv_frame[OF init.IH]) (auto simp: active_def uv__is_active_def)
next
  case (start L x cb d r v L')
  show ?case
  proof (cases "uv__is_closing L x \<or> cb = None")
    case True
    then show ?thesis using start by (auto simp: uv_timer_start_def)
  next
    case False
    then obtain f where f: "cb = Some f" "\<not> uv__is_closing L x" by auto
    obtain L1 where "uv_timer_start L x (Some f) d r = Some (0, L1)" "timer_inv L1"
      by (rule uv_timer_start_ok[OF start.IH start.hyps(2) f(2) card_less[OF start.IH start.hyps(3)]])
    then show ?thesis using start.hyps(4) f(1) by simp
  qed
next
  case (stop L x L')
  obtain L1 where "uv_timer_stop L x = Some L1" "timer_inv L1" by (rule uv_timer_stop_ok[OF stop.IH])
  then show ?case using stop.hyps(2) by simp
next
  case (again L x v L')
  obtain v1 L1 where "uv_timer_again L x = Some (v1, L1)" "timer_inv L1"
    by (rule uv_timer_again_ok[OF again.IH again.hyps(2) card_less[OF again.IH again.hyps(3)]])
  then show ?case using again.hyps(4) by simp
next
  case (set_repeat L x r)
  show ?case by (rule timer_inv_frame[OF set_repeat.IH]) (simp_all add: uv_timer_set_repeat_def)
next
  case (update_time L now)
  show ?case by (rule timer_inv_frame[OF update_time.IH]) simp_all
next
  case (work L w)
  show ?case by (rule timer_inv_frame[OF work.IH]) simp_all
qed

section \<open>The next timeout\<close>

lemma heap_min_timer:
  assumes "timer_inv L"
  shows "heap_min (timer_heap L) = NULL \<longleftrightarrow> active L = {}"
    and "active L \<noteq> {} \<Longrightarrow> heap_min (timer_heap L) \<in> active L"
    and "y \<in> active L \<Longrightarrow> \<not> timer_less_than (timer L) y (heap_min (timer_heap L))"
    and "y \<in> active L \<Longrightarrow> timeout (timer L (heap_min (timer_heap L))) \<le> timeout (timer L y)"
proof -
  note m = timer.heap_min_ok[OF conjunct1[OF assms[unfolded timer_inv_def]]]
  show "heap_min (timer_heap L) = NULL \<longleftrightarrow> active L = {}" "active L \<noteq> {} \<Longrightarrow> heap_min (timer_heap L) \<in> active L"
    "y \<in> active L \<Longrightarrow> \<not> timer_less_than (timer L) y (heap_min (timer_heap L))" using m by auto
  then show "y \<in> active L \<Longrightarrow> timeout (timer L (heap_min (timer_heap L))) \<le> timeout (timer L y)"
    by (intro timer_less_than_timeout)
qed

lemma clamp_int:
  fixes a b :: uint64
  assumes "\<not> a \<le> b"
  shows "sint (ucast (if a - b > 2147483647 then 2147483647 else a - b) :: 32 word) = int (min (unat a - unat b) 2147483647)"
proof -
  have d: "unat (a - b) = unat a - unat b" using assms by (intro unat_sub) (simp add: not_le less_imp_le)
  have small: "sint (ucast w :: 32 word) = int (unat w)" if "unat w \<le> 2147483647" for w :: uint64
  proof -
    have "(ucast w :: 32 word) = of_int (int (unat w))" by (simp only: ucast_eq of_nat_unat)
    moreover have "signed_take_bit 31 (int (unat w)) = int (unat w)"
      using that by (intro signed_take_bit_int_eq_self) (simp_all del: of_nat_unat)
    ultimately show ?thesis by (simp only: signed_of_int of_int_eq_id id_apply) simp
  qed
  show ?thesis
  proof (cases "a - b > 2147483647")
    case True
    then have "2147483647 < unat a - unat b" using d by (simp add: word_less_nat_alt)
    then show ?thesis using True small[of 2147483647] by simp
  next
    case False
    then have "unat (a - b) \<le> 2147483647" by (simp add: word_less_nat_alt)
    then show ?thesis using False small[of "a - b"] d by (simp add: not_less)
  qed
qed

lemma next_timeout_eq:
  assumes "timer_inv L"
  shows "uv__next_timeout L =
    (if active L = {} then - 1
     else int (min (Min ((\<lambda>x. unat (timeout (timer L x))) ` active L) - unat (time L)) (2 ^ 31 - 1)))"
proof (cases "active L = {}")
  case True
  then show ?thesis using heap_min_timer(1)[OF assms] by (simp add: uv__next_timeout_def)
next
  case False
  define m where "m = heap_min (timer_heap L)"
  have fin: "finite (active L)" using heap_ok_finite assms by (auto simp: timer_inv_def)
  have m: "m \<in> active L" "m \<noteq> NULL" using heap_min_timer(1,2)[OF assms] False by (auto simp: m_def)
  have "Min ((\<lambda>x. unat (timeout (timer L x))) ` active L) = unat (timeout (timer L m))"
    using fin m heap_min_timer(4)[OF assms] by (intro Min_eqI) (auto simp: m_def word_le_nat_alt)
  moreover have "uv__next_timeout L = int (min (unat (timeout (timer L m)) - unat (time L)) (2 ^ 31 - 1))"
  proof (cases "timeout (timer L m) \<le> time L")
    case True
    then show ?thesis using m(2) by (simp add: uv__next_timeout_def Let_def m_def[symmetric] word_le_nat_alt)
  next
    case late: False
    have i: "(of_int INT_MAX :: uint64) = 2147483647" by simp
    show ?thesis using m(2) late clamp_int[OF late] unfolding uv__next_timeout_def Let_def m_def[symmetric] i by simp
  qed
  ultimately show ?thesis using False by simp
qed

section \<open>Running the timers\<close>

text \<open>The timers whose time has come.\<close>

definition due :: "'w uv_loop \<Rightarrow> ptr set" where
  "due L = {x \<in> active L. timeout (timer L x) \<le> time L}"

lemma due_time_later: "d \<noteq> 0 \<Longrightarrow> time L \<noteq> - 1 \<Longrightarrow> time L < due_time L d"
proof -
  assume d: "d \<noteq> 0" "time L \<noteq> - 1"
  then have "0 < unat d" by (simp add: unat_gt_0)
  moreover have "time L < - 1" using d(2) by (simp add: word_order.not_eq_extremum)
  ultimately show ?thesis by (simp add: due_time_def word_less_nat_alt unat_word_ariths)
qed

text \<open>One turn of the loop, with the due timer stopped, perhaps rearmed for later, and called.\<close>

lemma run_timers_turn:
  assumes "timer_inv L" "time L \<noteq> - 1" "due L \<noteq> {}" and m: "m = heap_min (timer_heap L)"
  obtains cb L' where "uv__run_timers call L = uv__run_timers call (call cb m L')" "timer_inv L'" "time L' = time L" "world L' = world L"
    "due L' = due L - {m}" "m \<in> due L" "\<forall>y. y \<noteq> m \<longrightarrow> timer L' y = timer L y" "timer_cb (timer L m) = Some cb"
    "\<forall>y\<in>due L. \<not> timer_less_than (timer L) y m"
proof -
  have ne: "active L \<noteq> {}" using assms(3) by (auto simp: due_def)
  obtain y where y: "y \<in> active L" "timeout (timer L y) \<le> time L" using assms(3) by (auto simp: due_def)
  have ma: "m \<in> active L" "m \<noteq> NULL" using heap_min_timer(1,2)[OF assms(1)] ne by (auto simp: m)
  have mt: "timeout (timer L m) \<le> time L" using heap_min_timer(4)[OF assms(1) y(1)] y(2) by (simp add: m)
  obtain cb where cb: "timer_cb (timer L m) = Some cb" using assms(1) ma(1) by (auto simp: timer_inv_def)
  obtain L1 where L1: "uv_timer_stop L m = Some L1" "timer_inv L1" "active L1 = active L - {m}" "time L1 = time L" "world L1 = world L"
    "\<forall>y. y \<noteq> m \<longrightarrow> timer L1 y = timer L y" "timer_cb (timer L1 m) = Some cb"
    by (rule uv_timer_stop_ok[OF assms(1), of m]) (auto simp: cb)
  have fin: "finite (active L)" "card (active L) < 2 ^ 32" using heap_ok_finite assms(1) by (auto simp: timer_inv_def)
  then have cd: "card (active L1 - {m}) + 1 < 2 ^ 32" using ma(1) by (simp add: L1(3) card_Diff_singleton card_gt_0_iff)
  obtain v L2 where L2: "uv_timer_again L1 m = Some (v, L2)" "timer_inv L2" "active L1 - {m} \<subseteq> active L2" "active L2 \<subseteq> insert m (active L1)"
    "time L2 = time L1" "world L2 = world L1" "\<forall>y. y \<noteq> m \<longrightarrow> timer L2 y = timer L1 y" "timer_cb (timer L2 m) = timer_cb (timer L1 m)"
    "m \<in> active L2 \<longrightarrow> m \<in> active L1 \<and> timeout (timer L2 m) = timeout (timer L1 m) \<or>
       repeat (timer L1 m) \<noteq> 0 \<and> timeout (timer L2 m) = due_time L1 (repeat (timer L1 m))"
    by (rule uv_timer_again_ok[OF L1(2) ma(2) cd])
  have later: "m \<in> active L2 \<Longrightarrow> time L < timeout (timer L2 m)"
    using L2(9) L1(3) due_time_later[of "repeat (timer L1 m)" L1] assms(2) L1(4) by auto
  have d: "due L2 = due L - {m}"
  proof (rule set_eqI)
    fix y
    have "y \<in> active L2 \<longleftrightarrow> y \<in> active L" "timer L2 y = timer L y" if "y \<noteq> m"
      using that L1(3,6) L2(3,4,7) by auto
    then show "y \<in> due L2 \<longleftrightarrow> y \<in> due L - {m}" using later L1(4) L2(5) by (cases "y = m") (auto simp: due_def)
  qed
  have run: "uv__run_timers call L = uv__run_timers call (call cb m L2)"
    using ma(2) mt[unfolded not_less[symmetric]] L1(1,7) L2(1,8) by (subst uv__run_timers.simps) (simp add: m[symmetric] Let_def)
  show ?thesis
    by (rule that[OF run L2(2)]) (use L1 L2 d ma mt cb heap_min_timer(3)[OF assms(1)] m in \<open>auto simp: due_def\<close>)
qed

lemma run_timers_ok:
  assumes call: "\<And>cb x L. call cb x L = L\<lparr>world := g cb x (world L)\<rparr>"
  shows "timer_inv L \<Longrightarrow> time L \<noteq> - 1 \<Longrightarrow>
    \<exists>xs L'. uv__run_timers call L = Some L' \<and> distinct xs \<and> set xs = due L \<and>
      sorted_wrt (\<lambda>a b. \<not> timer_less_than (timer L) b a) xs \<and>
      world L' = fold (\<lambda>x. g (the (timer_cb (timer L x))) x) xs (world L) \<and> timer_inv L' \<and> due L' = {}"
proof (induction "card (due L)" arbitrary: L rule: less_induct)
  case (less L)
  have fin: "finite (due L)" using heap_ok_finite less.prems(1) by (auto simp: timer_inv_def due_def)
  show ?case
  proof (cases "due L = {}")
    case True
    have "heap_min (timer_heap L) = NULL \<or> timeout (timer L (heap_min (timer_heap L))) > time L"
      using True heap_min_timer(1,2)[OF less.prems(1)] by (force simp: due_def)
    then have "uv__run_timers call L = Some L" by (subst uv__run_timers.simps) (auto simp: Let_def)
    then show ?thesis using True less.prems(1) by (intro exI[of _ "[]"] exI[of _ L]) simp
  next
    case False
    define m where "m = heap_min (timer_heap L)"
    obtain cb L1 where L1: "uv__run_timers call L = uv__run_timers call (call cb m L1)" "timer_inv L1" "time L1 = time L" "world L1 = world L"
      "due L1 = due L - {m}" "m \<in> due L" "\<forall>y. y \<noteq> m \<longrightarrow> timer L1 y = timer L y" "timer_cb (timer L m) = Some cb"
      "\<forall>y\<in>due L. \<not> timer_less_than (timer L) y m"
      by (rule run_timers_turn[OF less.prems False m_def])
    let ?L = "L1\<lparr>world := g cb m (world L)\<rparr>"
    have same: "due ?L = due L - {m}" "timer ?L = timer L1" using L1(5) by (simp_all add: due_def active_def uv__is_active_def)
    have inv: "timer_inv ?L" by (rule timer_inv_frame[OF L1(2)]) simp_all
    have "card (due ?L) < card (due L)" unfolding same(1) using fin L1(6) by (rule card_Diff1_less)
    from less.hyps[OF this inv] obtain xs L' where r: "uv__run_timers call ?L = Some L'" "distinct xs" "set xs = due L - {m}"
      "sorted_wrt (\<lambda>a b. \<not> timer_less_than (timer L1) b a) xs"
      "world L' = fold (\<lambda>x. g (the (timer_cb (timer L1 x))) x) xs (g cb m (world L))" "timer_inv L'" "due L' = {}"
      using less.prems(2) L1(3) same by auto
    have xs: "\<forall>x\<in>set xs. timer L1 x = timer L x" using r(3) L1(7) by simp
    have "sorted_wrt (\<lambda>a b. \<not> timer_less_than (timer L) b a) xs"
      by (rule sorted_wrt_mono_rel[OF _ r(4)]) (use xs in \<open>metis timer_less_than_cong\<close>)
    then have "sorted_wrt (\<lambda>a b. \<not> timer_less_than (timer L) b a) (m # xs)" using r(3) L1(9) by simp
    moreover have "world L' = fold (\<lambda>x. g (the (timer_cb (timer L x))) x) (m # xs) (world L)"
      using r(5) L1(8) xs by (auto intro: fold_cong)
    ultimately show ?thesis
      using L1(1,4,6) r by (intro exI[of _ "m # xs"] exI[of _ L']) (auto simp: call)
  qed
qed

section \<open>Main results\<close>

text \<open>
  C10. The heap of libuv is a priority queue. On a well-formed heap of the nodes \<open>S\<close>, whose pointers form
  a complete binary tree in heap order, and for a comparison that is a strict weak order:
  \<open>heap_insert\<close> of another node and \<open>heap_remove\<close> of any node of it end with a well-formed heap of the
  nodes with that one added or removed, \<open>heap_dequeue\<close> removes the least, and \<open>heap_min\<close> is null for
  the empty heap and else a node of the heap to which none is preferred.
\<close>

theorem uv_heap_priority_queue:
  assumes "heap_order lt" and "heap_ok lt h S"
  shows "(\<forall>x. x \<noteq> NULL \<and> x \<notin> S \<and> card S + 1 < 2 ^ 32 \<longrightarrow> (\<exists>h'. heap_insert lt h x = Some h' \<and> heap_ok lt h' (insert x S))) \<and>
    (\<forall>x\<in>S. \<exists>h'. heap_remove lt h x = Some h' \<and> heap_ok lt h' (S - {x})) \<and>
    (S \<noteq> {} \<longrightarrow> heap_min h \<in> S \<and> (\<forall>y\<in>S. \<not> lt y (heap_min h)) \<and>
       (\<exists>h'. heap_dequeue lt h = Some h' \<and> heap_ok lt h' (S - {heap_min h}))) \<and>
    (S = {} \<longrightarrow> heap_min h = NULL \<and> heap_dequeue lt h = Some h)"
proof -
  note ins = heap_order.heap_insert_ok[OF assms] and rem = heap_order.heap_remove_ok[OF assms]
    and mn = heap_order.heap_min_ok[OF assms]
  have "heap_dequeue lt h = Some h" if "S = {}"
    using heap_ok_finite[OF assms(2)] that by (simp add: heap_dequeue_def heap_remove_def)
  moreover have "heap_dequeue lt h = heap_remove lt h (heap_min h)" by (simp add: heap_dequeue_def heap_min_def)
  ultimately show ?thesis using ins rem mn by simp
qed

definition idle :: uv_timer where
  "idle = \<lparr>flags = 8, timer_cb = None, timeout = 0, repeat = 0, start_id = 0\<rparr>"

definition empty_heap :: heap where
  "empty_heap = heap_init \<lparr>hmin = NULL, nelts = 0, node = \<lambda>_. \<lparr>left = NULL, right = NULL, parent = NULL\<rparr>\<rparr>"

theorem uv_heap_priority_queue_witness:
  "\<exists>h'. heap_insert (timer_less_than (\<lambda>_. idle)) empty_heap 7 = Some h' \<and> heap_ok (timer_less_than (\<lambda>_. idle)) h' {7}"
  using uv_heap_priority_queue[OF timer.heap_order_axioms, of "\<lambda>_. idle" empty_heap "{}"]
  by (simp add: empty_heap_def heap_ok_init)

text \<open>
  C11. After any sequence of timer calls the active timers are exactly the nodes of the heap, which is
  well-formed in the order of due time and start, and each of them has a callback.
\<close>

theorem timers_are_the_heap:
  assumes "timer_reach L"
  shows "heap_ok (timer_less_than (timer L)) (timer_heap L) {x. uv__is_active L x} \<and>
    (\<forall>x. uv__is_active L x \<longrightarrow> timer_cb (timer L x) \<noteq> None)"
  using timer_reach_inv[OF assms] by (simp add: timer_inv_def active_def)

definition new_loop :: "ptr list uv_loop" where
  "new_loop = \<lparr>time = 1000, timer_counter = 0, active_handles = 0, handle_queue = [], timer_heap = empty_heap,
     timer = \<lambda>_. idle, world = []\<rparr>"

lemma new_loop_reach: "timer_reach new_loop"
proof -
  have "\<forall>x. \<not> uv__is_active new_loop x" by (simp add: uv__is_active_def new_loop_def idle_def)
  then have "timer_reach (new_loop\<lparr>timer_heap := heap_init (timer_heap new_loop)\<rparr>)" by (rule timer_reach.new)
  moreover have "new_loop\<lparr>timer_heap := heap_init (timer_heap new_loop)\<rparr> = new_loop"
    by (simp add: new_loop_def empty_heap_def heap_init_def)
  ultimately show ?thesis by simp
qed

text \<open>Two timers, the second due first.\<close>

lemma two_timers:
  obtains L1 L2 where "uv_timer_start new_loop 7 (Some 1) 30 0 = Some (0, L1)" "uv_timer_start L1 5 (Some 2) 20 10 = Some (0, L2)"
    "timer_reach L2" "{x. uv__is_active L2 x} = {5, 7}" "time L2 = 1000" "world L2 = []"
    "timeout (timer L2 7) = 1030" "timeout (timer L2 5) = 1020"
proof -
  note inv = timer_reach_inv[OF new_loop_reach]
  have a0: "active new_loop = {}" by (simp add: active_def uv__is_active_def new_loop_def idle_def)
  have c: "\<not> uv__is_closing new_loop x" for x by (simp add: uv__is_closing_def new_loop_def idle_def)
  have k0: "card (active new_loop - {7}) + 1 < 2 ^ 32" by (simp add: a0)
  have n0: "time new_loop = 1000" "world new_loop = []" by (simp_all add: new_loop_def)
  obtain L1 where L1: "uv_timer_start new_loop 7 (Some 1) 30 0 = Some (0, L1)" "timer_inv L1" "active L1 = {7}"
    "time L1 = 1000" "world L1 = []" "\<forall>y. y \<noteq> 7 \<longrightarrow> timer L1 y = timer new_loop y" "timeout (timer L1 7) = 1030"
    by (rule uv_timer_start_ok[OF inv _ c k0, of 1 30 0]) (simp_all add: a0 n0 due_time_def)
  have c1: "\<not> uv__is_closing L1 5" using L1(6) c[of 5] by (simp add: uv__is_closing_def)
  have k1: "card (active L1 - {5}) + 1 < 2 ^ 32" by (simp add: L1(3))
  obtain L2 where L2: "uv_timer_start L1 5 (Some 2) 20 10 = Some (0, L2)" "timer_inv L2" "active L2 = {5, 7}"
    "time L2 = 1000" "world L2 = []" "\<forall>y. y \<noteq> 5 \<longrightarrow> timer L2 y = timer L1 y" "timeout (timer L2 5) = 1020"
    by (rule uv_timer_start_ok[OF L1(2) _ c1 k1, of 2 20 10]) (simp_all add: L1(3-5) due_time_def)
  have "timer_reach L1" by (rule timer_reach.start[OF new_loop_reach _ _ L1(1)]) (simp_all add: a0)
  then have r: "timer_reach L2" by (rule timer_reach.start[OF _ _ _ L2(1)]) (simp_all add: L1(3))
  show ?thesis by (rule that[OF L1(1) L2(1) r]) (use L1 L2 in \<open>auto simp: active_def\<close>)
qed

theorem timers_are_the_heap_witness:
  "\<exists>L1 L2. uv_timer_start new_loop 7 (Some 1) 30 0 = Some (0, L1) \<and> uv_timer_start L1 5 (Some 2) 20 10 = Some (0, L2) \<and>
    heap_ok (timer_less_than (timer L2)) (timer_heap L2) {5, 7}"
proof -
  obtain L1 L2 where "uv_timer_start new_loop 7 (Some 1) 30 0 = Some (0, L1)" "uv_timer_start L1 5 (Some 2) 20 10 = Some (0, L2)"
    "timer_reach L2" "{x. uv__is_active L2 x} = {5, 7}" by (rule two_timers)
  then show ?thesis using timers_are_the_heap[of L2] by auto
qed

text \<open>
  C13. The timeout for the next poll: after any sequence of timer calls \<open>uv__next_timeout\<close> is \<open>-1\<close> when no
  timer is active and else the time from now until the earliest due time of the active timers, zero
  when that has passed, and cut off at the largest \<open>int\<close>.
\<close>

theorem uv_next_timeout_earliest:
  assumes "timer_reach L"
  shows "uv__next_timeout L =
    (if \<forall>x. \<not> uv__is_active L x then - 1
     else int (min (Min ((\<lambda>x. unat (timeout (timer L x))) ` {x. uv__is_active L x}) - unat (time L)) (2 ^ 31 - 1)))"
  using next_timeout_eq[OF timer_reach_inv[OF assms]] by (simp add: active_def)

theorem uv_next_timeout_earliest_witness:
  "\<exists>L1 L2. uv_timer_start new_loop 7 (Some 1) 30 0 = Some (0, L1) \<and> uv_timer_start L1 5 (Some 2) 20 10 = Some (0, L2) \<and>
    uv__next_timeout L2 = 20"
proof -
  obtain L1 L2 where L: "uv_timer_start new_loop 7 (Some 1) 30 0 = Some (0, L1)" "uv_timer_start L1 5 (Some 2) 20 10 = Some (0, L2)"
    "timer_reach L2" "{x. uv__is_active L2 x} = {5, 7}" "time L2 = 1000" "timeout (timer L2 7) = 1030" "timeout (timer L2 5) = 1020"
    by (rule two_timers)
  have "\<not> (\<forall>x. \<not> uv__is_active L2 x)" using L(4) by blast
  then have "uv__next_timeout L2 = 20" using uv_next_timeout_earliest[OF L(3)] by (simp add: L)
  then show ?thesis using L by blast
qed

text \<open>
  C12. \<open>uv__run_timers\<close> ends, when the callbacks leave the timers alone and the clock is not at its last
  value: it calls the callback of every timer that is due once, the earlier due one first and in
  the order of their starts when due at the same time, repeating timers being rearmed for later,
  and no active timer is due afterwards.
\<close>

theorem uv_run_timers_calls_due:
  assumes "timer_reach L" and "time L \<noteq> - 1" and "\<forall>cb x L. call cb x L = L\<lparr>world := g cb x (world L)\<rparr>"
  shows "\<exists>xs L'. uv__run_timers call L = Some L' \<and> distinct xs \<and>
    set xs = {x. uv__is_active L x \<and> timeout (timer L x) \<le> time L} \<and>
    sorted_wrt (\<lambda>a b. \<not> timer_less_than (timer L) b a) xs \<and>
    world L' = fold (\<lambda>x. g (the (timer_cb (timer L x))) x) xs (world L) \<and>
    (\<forall>x. uv__is_active L' x \<longrightarrow> time L' < timeout (timer L' x))"
proof -
  have "call cb x L = L\<lparr>world := g cb x (world L)\<rparr>" for cb x L using assms(3) by blast
  then obtain xs L' where r: "uv__run_timers call L = Some L'" "distinct xs" "set xs = due L"
    "sorted_wrt (\<lambda>a b. \<not> timer_less_than (timer L) b a) xs"
    "world L' = fold (\<lambda>x. g (the (timer_cb (timer L x))) x) xs (world L)" "due L' = {}"
    using run_timers_ok[OF _ timer_reach_inv[OF assms(1)] assms(2), of call g] by blast
  have "due L = {x. uv__is_active L x \<and> timeout (timer L x) \<le> time L}" by (simp add: due_def active_def)
  moreover have "time L' < timeout (timer L' x)" if "uv__is_active L' x" for x
    using r(6) that by (auto simp: due_def active_def not_le)
  ultimately show ?thesis using r(1-5) by (intro exI[of _ xs] exI[of _ L']) simp
qed

text \<open>Callbacks that append their handle to a log. After 25 of the 30 and 20 units only the second timer is called.\<close>

definition logging :: "nat \<Rightarrow> ptr \<Rightarrow> ptr list uv_loop \<Rightarrow> ptr list uv_loop" where
  "logging cb x L = L\<lparr>world := world L @ [x]\<rparr>"

theorem uv_run_timers_calls_due_witness:
  "\<exists>L1 L2 L3. uv_timer_start new_loop 7 (Some 1) 30 0 = Some (0, L1) \<and> uv_timer_start L1 5 (Some 2) 20 10 = Some (0, L2) \<and>
    uv__run_timers logging (L2\<lparr>time := 1025\<rparr>) = Some L3 \<and> world L3 = [5]"
proof -
  obtain L1 L2 where L: "uv_timer_start new_loop 7 (Some 1) 30 0 = Some (0, L1)" "uv_timer_start L1 5 (Some 2) 20 10 = Some (0, L2)"
    "timer_reach L2" "{x. uv__is_active L2 x} = {5, 7}" "time L2 = 1000" "world L2 = []" "timeout (timer L2 7) = 1030" "timeout (timer L2 5) = 1020"
    by (rule two_timers)
  let ?L = "L2\<lparr>time := 1025\<rparr>"
  have a: "uv__is_active ?L x \<longleftrightarrow> x = 5 \<or> x = 7" for x using L(4) by (auto simp: uv__is_active_def)
  have h: "timer_reach ?L" "time ?L \<noteq> - 1" "\<forall>cb x L. logging cb x L = L\<lparr>world := world L @ [x]\<rparr>"
    by (rule timer_reach.update_time[OF L(3)]) (simp_all add: logging_def)
  obtain xs L3
    where r: "uv__run_timers logging ?L = Some L3" "distinct xs" "set xs = {x. uv__is_active ?L x \<and> timeout (timer ?L x) \<le> time ?L}"
      "world L3 = fold (\<lambda>x w. w @ [x]) xs (world ?L)"
    using uv_run_timers_calls_due[where g = "\<lambda>cb x w. w @ [x]", OF h] by blast
  have "\<not> timeout (timer ?L 7) \<le> time ?L" "timeout (timer ?L 5) \<le> time ?L" by (simp_all add: L(7,8))
  then have "set xs = {5}" unfolding r(3) a by blast
  with r(2) have "xs = [5]" by (cases xs rule: remdups_adj.cases) auto
  then show ?thesis using L(1,2,6) r(1,4) by auto
qed

end
