(* ===== verification/Stack.thy ===== *)
theory Stack
  imports Compare "HOL-Library.Multiset"
begin

text \<open>
  The stacks of BoringSSL, \<^verbatim>\<open>crypto/stack/stack.c\<close>: growing arrays of pointers with an optional
  comparison function, which can be sorted and searched.
\<close>

section \<open>Data\<close>

text \<open>
  A pointer is a number, null being zero. A comparison function is known by its identity; as in the
  code it is called through a helper, \<open>call\<close>. The array has \<open>num_alloc\<close> places.
\<close>

type_synonym item = nat

record STACK =
  st_num :: size_t
  st_data :: "item list"
  st_sorted :: bool
  num_alloc :: size_t
  st_comp :: "nat option"

abbreviation kMinSize :: size_t where "kMinSize \<equiv> 4"

text \<open>
  Memory: \<open>obj\<close> says whether the allocation of a structure succeeds, and \<open>mem n\<close> is the contents of a new
  block for \<open>n\<close> pointers, or \<open>None\<close> when there is no such block.
\<close>

type_synonym mem = "nat \<Rightarrow> item list option"

section \<open>Operations\<close>

definition sk_new :: "bool \<Rightarrow> mem \<Rightarrow> nat option \<Rightarrow> STACK option" where
  "sk_new obj mem cf =
     (if \<not> obj then None
      else case mem (unat kMinSize) of
        None \<Rightarrow> None
      | Some _ \<Rightarrow> Some \<lparr>st_num = 0, st_data = replicate (unat kMinSize) 0, st_sorted = False, num_alloc = kMinSize, st_comp = cf\<rparr>)"

definition sk_new_null :: "bool \<Rightarrow> mem \<Rightarrow> STACK option" where
  "sk_new_null obj mem = sk_new obj mem None"

definition sk_num :: "STACK option \<Rightarrow> size_t" where
  "sk_num sk = (case sk of None \<Rightarrow> 0 | Some s \<Rightarrow> st_num s)"

definition sk_zero :: "STACK option \<Rightarrow> STACK option" where
  "sk_zero sk =
     (case sk of
        None \<Rightarrow> None
      | Some s \<Rightarrow>
          if st_num s = 0 then Some s
          else Some (s\<lparr>st_data := replicate (unat (st_num s)) 0 @ drop (unat (st_num s)) (st_data s), st_num := 0, st_sorted := False\<rparr>))"

definition sk_value :: "STACK option \<Rightarrow> size_t \<Rightarrow> item" where
  "sk_value sk i = (case sk of None \<Rightarrow> 0 | Some s \<Rightarrow> if i \<ge> st_num s then 0 else st_data s ! unat i)"

definition sk_set :: "STACK option \<Rightarrow> size_t \<Rightarrow> item \<Rightarrow> item \<times> STACK option" where
  "sk_set sk i value =
     (case sk of
        None \<Rightarrow> (0, None)
      | Some s \<Rightarrow> if i \<ge> st_num s then (0, Some s) else (value, Some (s\<lparr>st_data := (st_data s)[unat i := value]\<rparr>)))"

text \<open>The pointers handed to the freeing function, in order; the stack is gone afterwards.\<close>

definition sk_pop_free_ex :: "STACK option \<Rightarrow> item list" where
  "sk_pop_free_ex sk = (case sk of None \<Rightarrow> [] | Some s \<Rightarrow> filter (\<lambda>x. x \<noteq> 0) (take (unat (st_num s)) (st_data s)))"

text \<open>\<open>OPENSSL_memmove\<close> of \<open>n\<close> pointers inside the array.\<close>

definition move_items :: "item list \<Rightarrow> nat \<Rightarrow> nat \<Rightarrow> nat \<Rightarrow> item list" where
  "move_items xs dst src n = take dst xs @ take n (drop src xs) @ drop (dst + n) xs"

text \<open>Room for one more pointer, or \<open>None\<close>.\<close>

definition sk_grow :: "mem \<Rightarrow> STACK \<Rightarrow> STACK option" where
  "sk_grow mem s =
     (if num_alloc s \<le> st_num s + 1 then
        let new_alloc = push_bit 1 (num_alloc s);
            alloc_size = new_alloc * 8;
            (new_alloc, alloc_size) =
              (if new_alloc < num_alloc s \<or> alloc_size div 8 \<noteq> new_alloc then (num_alloc s + 1, (num_alloc s + 1) * 8)
               else (new_alloc, alloc_size))
        in if new_alloc < num_alloc s \<or> alloc_size div 8 \<noteq> new_alloc then None
           else (case mem (unat (alloc_size div 8)) of
                   None \<Rightarrow> None
                 | Some fresh \<Rightarrow> Some (s\<lparr>st_data := st_data s @ drop (length (st_data s)) fresh, num_alloc := new_alloc\<rparr>))
      else Some s)"

definition sk_insert :: "mem \<Rightarrow> STACK option \<Rightarrow> item \<Rightarrow> size_t \<Rightarrow> size_t \<times> STACK option" where
  "sk_insert mem sk p at =
     (case sk of
        None \<Rightarrow> (0, None)
      | Some s \<Rightarrow>
          (case sk_grow mem s of
             None \<Rightarrow> (0, Some s)
           | Some s \<Rightarrow>
               let n = unat (st_num s);
                   data = (if at \<ge> st_num s then (st_data s)[n := p]
                           else (move_items (st_data s) (unat at + 1) (unat at) (n - unat at))[unat at := p]);
                   s = s\<lparr>st_data := data, st_num := st_num s + 1, st_sorted := False\<rparr>
               in (st_num s, Some s)))"

definition sk_delete :: "STACK option \<Rightarrow> size_t \<Rightarrow> item \<times> STACK option" where
  "sk_delete sk at =
     (case sk of
        None \<Rightarrow> (0, None)
      | Some s \<Rightarrow>
          if at \<ge> st_num s then (0, Some s)
          else
            let ret = st_data s ! unat at;
                data = (if at \<noteq> st_num s - 1
                        then move_items (st_data s) (unat at) (unat at + 1) (unat (st_num s - at - 1)) else st_data s)
            in (ret, Some (s\<lparr>st_data := data, st_num := st_num s - 1\<rparr>)))"

text \<open>The linear searches: the first index of \<open>0\<close> to \<open>n - 1\<close> at which the test holds.\<close>

primrec first_index :: "(item \<Rightarrow> bool) \<Rightarrow> item list \<Rightarrow> nat \<Rightarrow> nat \<Rightarrow> size_t option" where
  "first_index test xs i 0 = None"
| "first_index test xs i (Suc n) = (if test (xs ! i) then Some (of_nat i) else first_index test xs (i + 1) n)"

definition sk_delete_ptr :: "STACK option \<Rightarrow> item \<Rightarrow> item \<times> STACK option" where
  "sk_delete_ptr sk p =
     (case sk of
        None \<Rightarrow> (0, None)
      | Some s \<Rightarrow>
          (case first_index (\<lambda>x. x = p) (st_data s) 0 (unat (st_num s)) of
             None \<Rightarrow> (0, Some s)
           | Some i \<Rightarrow> sk_delete (Some s) i))"

text \<open>The middle that the binary search takes.\<close>

lemma mid_bounds:
  fixes lo hi :: size_t
  assumes "lo < hi"
  defines "mid \<equiv> lo + (hi - lo - 1) div 2"
  shows "unat mid = unat lo + (unat hi - unat lo - 1) div 2" "unat (mid + 1) = unat mid + 1" "lo \<le> mid" "mid < hi"
    "hi - lo = 1 \<longleftrightarrow> unat hi = unat lo + 1" "hi - lo \<noteq> 1 \<Longrightarrow> mid + 1 < hi"
proof -
  have l: "unat lo < unat hi" "unat hi < 2 ^ 64" using assms(1) unat_lt_64[of hi] by (simp_all add: word_less_nat_alt)
  have d: "unat (hi - lo) = unat hi - unat lo" using assms(1) by (intro unat_sub) (simp add: less_imp_le)
  then have "hi - lo \<noteq> 0" using l by auto
  then have d1: "unat ((hi - lo - 1) div 2) = (unat hi - unat lo - 1) div 2" using d by (simp add: unat_div unat_minus_one)
  have b: "unat lo + (unat hi - unat lo - 1) div 2 < unat hi" using l by linarith
  then show m: "unat mid = unat lo + (unat hi - unat lo - 1) div 2"
    using l d1 by (simp add: mid_def unat_word_ariths)
  show m1: "unat (mid + 1) = unat mid + 1" using b m l by (simp add: unat_word_ariths)
  show "lo \<le> mid" "mid < hi" using m b by (simp_all add: word_le_nat_alt word_less_nat_alt)
  show one: "hi - lo = 1 \<longleftrightarrow> unat hi = unat lo + 1" using d l by (auto simp: word_unat_eq_iff)
  show "mid + 1 < hi" if "hi - lo \<noteq> 1" using that m m1 l one by (simp add: word_less_nat_alt)
qed

text \<open>The binary search, on the half-open interval from \<open>lo\<close> to \<open>hi\<close>.\<close>

function sk_bsearch :: "('a \<Rightarrow> int) \<Rightarrow> 'a list \<Rightarrow> size_t \<Rightarrow> size_t \<Rightarrow> size_t option" where
  "sk_bsearch cmp xs lo hi =
     (if lo < hi then
        let mid = lo + (hi - lo - 1) div 2;
            r = cmp (xs ! unat mid)
        in if r > 0 then sk_bsearch cmp xs (mid + 1) hi
           else if r < 0 then sk_bsearch cmp xs lo mid
           else if hi - lo = 1 then Some mid
           else sk_bsearch cmp xs lo (mid + 1)
      else None)"
  by pat_completeness auto

termination
proof (relation "measure (\<lambda>(cmp, xs, lo, hi). unat hi - unat lo)")
  fix cmp :: "'a \<Rightarrow> int" and xs and lo hi mid :: size_t and r
  assume a: "lo < hi" "mid = lo + (hi - lo - 1) div 2"
  note m = mid_bounds[OF a(1), folded a(2)]
  have l: "unat lo < unat hi" using a(1) by (simp add: word_less_nat_alt)
  show "((cmp, xs, mid + 1, hi), (cmp, xs, lo, hi)) \<in> measure (\<lambda>(cmp, xs, lo, hi). unat hi - unat lo)"
    "((cmp, xs, lo, mid), (cmp, xs, lo, hi)) \<in> measure (\<lambda>(cmp, xs, lo, hi). unat hi - unat lo)"
    using m(2-4) l by (auto simp: word_le_nat_alt word_less_nat_alt)
  show "((cmp, xs, lo, mid + 1), (cmp, xs, lo, hi)) \<in> measure (\<lambda>(cmp, xs, lo, hi). unat hi - unat lo)" if "hi - lo \<noteq> 1"
    using m(6)[OF that] m(2) l by (auto simp: word_less_nat_alt)
qed simp

declare sk_bsearch.simps [simp del]

definition sk_is_sorted :: "STACK option \<Rightarrow> bool" where
  "sk_is_sorted sk = (case sk of None \<Rightarrow> True | Some s \<Rightarrow> st_sorted s)"

definition sk_find :: "(nat \<Rightarrow> item \<Rightarrow> item \<Rightarrow> int) \<Rightarrow> STACK option \<Rightarrow> item \<Rightarrow> size_t option" where
  "sk_find call sk p =
     (case sk of
        None \<Rightarrow> None
      | Some s \<Rightarrow>
          (case st_comp s of
             None \<Rightarrow> first_index (\<lambda>x. x = p) (st_data s) 0 (unat (st_num s))
           | Some f \<Rightarrow>
               if p = 0 then None
               else if \<not> sk_is_sorted sk then first_index (\<lambda>x. call f p x = 0) (st_data s) 0 (unat (st_num s))
               else sk_bsearch (call f p) (st_data s) 0 (st_num s)))"

definition sk_shift :: "STACK option \<Rightarrow> item \<times> STACK option" where
  "sk_shift sk =
     (case sk of None \<Rightarrow> (0, None) | Some s \<Rightarrow> if st_num s = 0 then (0, Some s) else sk_delete (Some s) 0)"

definition sk_push :: "mem \<Rightarrow> STACK \<Rightarrow> item \<Rightarrow> size_t \<times> STACK option" where
  "sk_push mem s p = sk_insert mem (Some s) p (st_num s)"

definition sk_pop :: "STACK option \<Rightarrow> item \<times> STACK option" where
  "sk_pop sk =
     (case sk of None \<Rightarrow> (0, None) | Some s \<Rightarrow> if st_num s = 0 then (0, Some s) else sk_delete (Some s) (st_num s - 1))"

definition sk_dup :: "bool \<Rightarrow> mem \<Rightarrow> STACK option \<Rightarrow> STACK option" where
  "sk_dup obj mem sk =
     (case sk of
        None \<Rightarrow> None
      | Some s \<Rightarrow>
          if \<not> obj then None
          else (case mem (unat (num_alloc s)) of
                  None \<Rightarrow> None
                | Some fresh \<Rightarrow>
                    Some \<lparr>st_num = st_num s, st_data = take (unat (st_num s)) (st_data s) @ drop (unat (st_num s)) fresh,
                      st_sorted = st_sorted s, num_alloc = num_alloc s, st_comp = st_comp s\<rparr>))"

text \<open>\<open>qsort\<close> is the sorting function of the C library.\<close>

definition sk_sort :: "((item \<Rightarrow> item \<Rightarrow> int) \<Rightarrow> item list \<Rightarrow> item list) \<Rightarrow> (nat \<Rightarrow> item \<Rightarrow> item \<Rightarrow> int) \<Rightarrow> STACK option \<Rightarrow> STACK option" where
  "sk_sort qsort call sk =
     (case sk of
        None \<Rightarrow> None
      | Some s \<Rightarrow>
          (case st_comp s of
             None \<Rightarrow> Some s
           | Some f \<Rightarrow>
               if st_sorted s then Some s
               else
                 let n = unat (st_num s);
                     data = (if st_num s \<ge> 2 then qsort (call f) (take n (st_data s)) @ drop n (st_data s) else st_data s)
                 in Some (s\<lparr>st_data := data, st_sorted := True\<rparr>)))"

definition sk_set_cmp_func :: "STACK \<Rightarrow> nat option \<Rightarrow> nat option \<times> STACK" where
  "sk_set_cmp_func s cf =
     (st_comp s, (if st_comp s \<noteq> cf then s\<lparr>st_sorted := False\<rparr> else s)\<lparr>st_comp := cf\<rparr>)"

text \<open>The copying loop: the array so far, and \<open>None\<close> when a copy fails.\<close>

primrec copy_items :: "(item \<Rightarrow> item) \<Rightarrow> item list \<Rightarrow> nat \<Rightarrow> nat \<Rightarrow> item list option" where
  "copy_items copy xs i 0 = Some xs"
| "copy_items copy xs i (Suc n) =
     (if xs ! i = 0 then copy_items copy xs (i + 1) n
      else if copy (xs ! i) = 0 then None
      else copy_items copy (xs[i := copy (xs ! i)]) (i + 1) n)"

definition sk_deep_copy :: "bool \<Rightarrow> mem \<Rightarrow> (item \<Rightarrow> item) \<Rightarrow> STACK option \<Rightarrow> STACK option" where
  "sk_deep_copy obj mem copy sk =
     (case sk_dup obj mem sk of
        None \<Rightarrow> None
      | Some s \<Rightarrow> map_option (\<lambda>xs. s\<lparr>st_data := xs\<rparr>) (copy_items copy (st_data s) 0 (unat (st_num s))))"

section \<open>The contents\<close>

definition items :: "STACK \<Rightarrow> item list" where
  "items s = take (unat (st_num s)) (st_data s)"

text \<open>Well-formed: the array has the announced size and a free place.\<close>

definition stack_wf :: "STACK \<Rightarrow> bool" where
  "stack_wf s \<longleftrightarrow> length (st_data s) = unat (num_alloc s) \<and> st_num s < num_alloc s"

text \<open>Blocks have the size asked for.\<close>

definition mem_ok :: "mem \<Rightarrow> bool" where
  "mem_ok mem \<longleftrightarrow> (\<forall>n xs. mem n = Some xs \<longrightarrow> length xs = n)"

lemma length_items: "stack_wf s \<Longrightarrow> length (items s) = unat (st_num s)"
  by (simp add: stack_wf_def items_def word_less_nat_alt)

lemma sk_new_items: "sk_new obj mem cf = Some s \<Longrightarrow> stack_wf s \<and> items s = [] \<and> \<not> st_sorted s"
  by (auto simp: sk_new_def stack_wf_def items_def split: if_splits option.splits)

lemma sk_value_items: "stack_wf s \<Longrightarrow> sk_value (Some s) i = (if unat i < length (items s) then items s ! unat i else 0)"
  using length_items[of s] by (simp add: sk_value_def items_def word_le_nat_alt not_less)

lemma sk_zero_items: "stack_wf s \<Longrightarrow> sk_zero (Some s) = Some t \<Longrightarrow> stack_wf t \<and> items t = []"
  by (auto simp: sk_zero_def stack_wf_def items_def word_less_nat_alt split: if_splits)

lemma sk_set_items:
  assumes "stack_wf s" "sk_set (Some s) i v = (r, Some t)"
  shows "stack_wf t" "items t = (items s)[unat i := v]" "r = (if unat i < length (items s) then v else 0)"
  using assms length_items[OF assms(1)]
  by (auto simp: sk_set_def stack_wf_def items_def word_le_nat_alt not_less take_update_swap list_update_beyond split: if_splits)

lemma sk_grow_wf:
  assumes "mem_ok mem" "stack_wf s" "sk_grow mem s = Some t"
  shows "length (st_data t) = unat (num_alloc t)" "unat (st_num t) + 1 < unat (num_alloc t)" "items t = items s"
    "st_num t = st_num s" "st_comp t = st_comp s" "st_sorted t = st_sorted s"
proof -
  have n: "unat (st_num s + 1) = unat (st_num s) + 1" "unat (st_num s) < unat (num_alloc s)" "unat (num_alloc s) < 2 ^ 64"
    using assms(2) unat_lt_64[of "num_alloc s"] by (auto simp: stack_wf_def word_less_nat_alt unat_word_ariths)
  have len: "length (st_data s) = unat (num_alloc s)" using assms(2) by (simp add: stack_wf_def)
  have "(length (st_data t) = unat (num_alloc t) \<and> unat (st_num t) + 1 < unat (num_alloc t) \<and> items t = items s) \<and>
    st_num t = st_num s \<and> st_comp t = st_comp s \<and> st_sorted t = st_sorted s"
  proof (cases "num_alloc s \<le> st_num s + 1")
    case False
    then show ?thesis using assms(3) n len by (simp add: sk_grow_def word_le_nat_alt)
  next
    case True
    define a where "a = (if push_bit 1 (num_alloc s) < num_alloc s \<or> push_bit 1 (num_alloc s) * 8 div 8 \<noteq> push_bit 1 (num_alloc s)
      then num_alloc s + 1 else push_bit 1 (num_alloc s))"
    have ok: "\<not> (a < num_alloc s \<or> a * 8 div 8 \<noteq> a)"
      and fresh: "\<exists>fresh. mem (unat (a * 8 div 8)) = Some fresh \<and> t = s\<lparr>st_data := st_data s @ drop (length (st_data s)) fresh, num_alloc := a\<rparr>"
      using assms(3) True by (auto simp: sk_grow_def Let_def a_def split: if_splits option.splits)
    obtain fresh where f: "mem (unat a) = Some fresh" "t = s\<lparr>st_data := st_data s @ drop (length (st_data s)) fresh, num_alloc := a\<rparr>"
      using ok fresh by auto
    have dbl: "unat (push_bit 1 (num_alloc s)) = 2 * unat (num_alloc s) mod 2 ^ 64"
      by (simp add: push_bit_eq_mult unat_word_ariths mult.commute)
    have "unat (num_alloc s) < unat a"
    proof -
      have "a = num_alloc s + 1 \<or> a = push_bit 1 (num_alloc s)" by (simp add: a_def)
      then have "unat a \<noteq> unat (num_alloc s)"
      proof
        assume "a = num_alloc s + 1"
        then show ?thesis by (simp add: word_unat_eq_iff[symmetric])
      next
        assume a: "a = push_bit 1 (num_alloc s)"
        have "2 * x mod 2 ^ 64 \<noteq> x" if "0 < x" "x < 2 ^ 64" for x :: nat
          using that by (cases "2 * x < 2 ^ 64") (auto simp: le_mod_geq)
        then show ?thesis using n dbl unfolding a by simp
      qed
      then show ?thesis using ok by (simp add: word_less_nat_alt)
    qed
    moreover have "length fresh = unat a" using assms(1) f(1) by (simp add: mem_ok_def)
    ultimately show ?thesis using n len f(2) by (simp add: items_def)
  qed
  then show "length (st_data t) = unat (num_alloc t)" "unat (st_num t) + 1 < unat (num_alloc t)" "items t = items s"
    "st_num t = st_num s" "st_comp t = st_comp s" "st_sorted t = st_sorted s" by blast+
qed

lemma move_up:
  assumes "w < n" "n < length xs"
  shows "take (Suc n) ((move_items xs (w + 1) w (n - w))[w := p]) = take w xs @ p # take (n - w) (drop w xs)"
proof -
  have "take (w + 1) xs = take w xs @ [xs ! w]" using assms by (simp add: take_Suc_conv_app_nth)
  then have "(move_items xs (w + 1) w (n - w))[w := p] = take w xs @ p # take (n - w) (drop w xs) @ drop (Suc n) xs"
    using assms by (simp add: move_items_def list_update_append)
  then show ?thesis using assms by (simp add: Suc_diff_le)
qed

lemma move_down:
  assumes "w < n" "n < length xs"
  shows "take (n - 1) (move_items xs w (w + 1) (n - w - 1)) = take w xs @ take (n - w - 1) (drop (w + 1) xs)"
proof -
  have "length (take w xs @ take (n - w - 1) (drop (w + 1) xs)) = n - 1" using assms by (simp add: min_def) linarith
  then show ?thesis unfolding move_items_def append_assoc[symmetric] by (metis append_eq_conv_conj)
qed

lemma length_move_items: "dst + n \<le> length xs \<Longrightarrow> src + n \<le> length xs \<Longrightarrow> length (move_items xs dst src n) = length xs"
  by (simp add: move_items_def)

lemma sk_insert_items:
  assumes "mem_ok mem" "stack_wf s" "sk_insert mem (Some s) p at = (r, st)"
  shows "r = 0 \<and> st = Some s \<and> sk_grow mem s = None \<or>
    (\<exists>t. st = Some t \<and> stack_wf t \<and> items t = take (unat at) (items s) @ p # drop (unat at) (items s) \<and>
      unat r = length (items t) \<and> \<not> st_sorted t \<and> st_comp t = st_comp s)"
proof (cases "sk_grow mem s")
  case None
  then show ?thesis using assms(3) by (simp add: sk_insert_def)
next
  case (Some g)
  note g = sk_grow_wf[OF assms(1,2) Some]
  define n where "n = unat (st_num g)"
  define d where "d = (if at \<ge> st_num g then (st_data g)[n := p]
    else (move_items (st_data g) (unat at + 1) (unat at) (n - unat at))[unat at := p])"
  define t where "t = g\<lparr>st_data := d, st_num := st_num g + 1, st_sorted := False\<rparr>"
  have t: "r = st_num t" "st = Some t" using assms(3) Some by (auto simp: sk_insert_def Let_def t_def d_def n_def)
  have n: "n + 1 < length (st_data g)" "unat (st_num g + 1) = n + 1"
    using g(1,2) unat_lt_64[of "num_alloc g"] by (simp_all add: n_def unat_word_ariths)
  have it: "items s = take n (st_data g)" using g(3) by (simp add: items_def n_def)
  have "length d = length (st_data g) \<and> take (n + 1) d = take (unat at) (items s) @ p # drop (unat at) (items s)"
  proof (cases "at \<ge> st_num g")
    case True
    then have "n \<le> unat at" by (simp add: n_def word_le_nat_alt)
    then show ?thesis using True n(1) it by (simp add: d_def take_Suc_conv_app_nth)
  next
    case False
    then have w: "unat at < n" by (simp add: n_def word_le_nat_alt)
    have "drop (unat at) (items s) = take (n - unat at) (drop (unat at) (st_data g))" by (simp add: it drop_take)
    then show ?thesis
      using False w n(1) move_up[of "unat at" n "st_data g" p] length_move_items[of "unat at + 1" "n - unat at" "st_data g" "unat at"]
      by (simp add: d_def it min_def)
  qed
  moreover have "items t = take (n + 1) d" using n(2) by (simp add: items_def t_def)
  ultimately have "stack_wf t \<and> items t = take (unat at) (items s) @ p # drop (unat at) (items s) \<and> unat r = length (items t)"
    using g(1,2) n t(1) length_items[OF assms(2)] g(4) by (auto simp: stack_wf_def t_def n_def word_less_nat_alt)
  then show ?thesis using t(2) g(5) by (simp add: t_def)
qed

lemma sk_delete_items:
  assumes "stack_wf s" "sk_delete (Some s) at = (r, st)"
  shows "\<exists>t. st = Some t \<and> stack_wf t \<and>
    items t = take (unat at) (items s) @ drop (unat at + 1) (items s) \<and> r = (if unat at < length (items s) then items s ! unat at else 0) \<and>
    st_comp t = st_comp s \<and> st_sorted t = st_sorted s"
proof (cases "unat at < unat (st_num s)")
  case False
  then show ?thesis using assms length_items[OF assms(1)] by (auto simp: sk_delete_def word_le_nat_alt not_less)
next
  case True
  define n where "n = unat (st_num s)"
  have wf: "length (st_data s) = unat (num_alloc s)" "n < unat (num_alloc s)" "unat at < n"
    using assms(1) True by (simp_all add: stack_wf_def word_less_nat_alt n_def)
  have "st_num s \<noteq> 0" "at < st_num s" using True by (auto simp: word_less_nat_alt)
  then have n1: "unat (st_num s - 1) = n - 1" "unat (st_num s - at) = n - unat at"
    by (simp_all add: unat_minus_one n_def unat_sub less_imp_le)
  have "st_num s - at \<noteq> 0" using n1(2) wf(3) by auto
  then have n2: "unat (st_num s - at - 1) = n - unat at - 1" using n1(2) by (simp add: unat_minus_one)
  define d where "d = (if at \<noteq> st_num s - 1 then move_items (st_data s) (unat at) (unat at + 1) (n - unat at - 1) else st_data s)"
  have st: "st = Some (s\<lparr>st_data := d, st_num := st_num s - 1\<rparr>)" "r = st_data s ! unat at"
    using assms(2) \<open>at < st_num s\<close>[unfolded not_le[symmetric]] by (auto simp: sk_delete_def Let_def d_def n2)
  have "length d = length (st_data s) \<and> take (n - 1) d = take (unat at) (items s) @ drop (unat at + 1) (items s)"
  proof (cases "at = st_num s - 1")
    case True
    then have "unat at = n - 1" using n1(1) by simp
    then show ?thesis using True wf by (simp add: d_def items_def n_def[symmetric] min_def)
  next
    case False
    have "drop (unat at + 1) (items s) = take (n - unat at - 1) (drop (unat at + 1) (st_data s))"
      by (simp add: items_def n_def[symmetric] drop_take)
    then show ?thesis
      using False wf move_down[of "unat at" n "st_data s"] length_move_items[of "unat at" "n - unat at - 1" "st_data s" "unat at + 1"]
      by (simp add: d_def items_def n_def[symmetric] min_def)
  qed
  then show ?thesis
    using st wf n1(1) by (simp add: stack_wf_def items_def word_less_nat_alt n_def[symmetric])
qed

section \<open>Searching\<close>

text \<open>The reference: the first index at which the test holds.\<close>

lemma find_append: "find P (xs @ ys) = (case find P xs of None \<Rightarrow> find P ys | Some x \<Rightarrow> Some x)"
  by (induction xs) simp_all

lemma find_split: "lo \<le> m \<Longrightarrow> m \<le> hi \<Longrightarrow> find P [lo..<hi] = (case find P [lo..<m] of None \<Rightarrow> find P [m..<hi] | Some x \<Rightarrow> Some x)"
  unfolding find_append[symmetric] by (metis le_add_diff_inverse upt_add_eq_append)

lemma find_none: "(\<And>i. lo \<le> i \<Longrightarrow> i < hi \<Longrightarrow> \<not> P i) \<Longrightarrow> find P [lo..<hi] = None"
  by (auto simp: find_None_iff)

lemma first_index_find: "first_index test xs i n = map_option of_nat (find (\<lambda>j. test (xs ! j)) [i..<i + n])"
proof (induction n arbitrary: i)
  case (Suc n)
  have "[i..<i + Suc n] = i # [Suc i..<Suc i + n]" by (simp add: upt_conv_Cons)
  then show ?case using Suc[of "i + 1"] by (simp del: upt_Suc)
qed simp

context total_compare
begin

lemma sorted_nth:
  assumes "sorted_wrt (\<lambda>a b. cmp a b \<le> 0) (take n xs)" "i \<le> j" "j < n" "n \<le> length xs"
  shows "cmp (xs ! i) (xs ! j) \<le> 0"
proof (cases "i = j")
  case True
  then show ?thesis using le_total[of "xs ! j" "xs ! j"] by simp
next
  case False
  then show ?thesis using sorted_wrt_nth_less[OF assms(1), of i j] assms(2-4) by simp
qed

lemma bsearch_find:
  assumes s: "sorted_wrt (\<lambda>a b. cmp a b \<le> 0) (take n xs)" "n \<le> length xs"
  shows "unat hi \<le> n \<Longrightarrow> sk_bsearch (cmp p) xs lo hi = map_option of_nat (find (\<lambda>i. cmp p (xs ! i) = 0) [unat lo..<unat hi])"
proof (induction "unat hi - unat lo" arbitrary: lo hi rule: less_induct)
  case less
  let ?P = "\<lambda>i. cmp p (xs ! i) = 0"
  show ?case
  proof (cases "lo < hi")
    case False
    then show ?thesis by (simp add: sk_bsearch.simps[of _ _ lo hi] word_less_nat_alt)
  next
    case True
    define mid where "mid = lo + (hi - lo - 1) div 2"
    note m = mid_bounds[OF True, folded mid_def]
    have mn: "unat lo \<le> unat mid" "unat mid < unat hi" using m(3,4) by (simp_all add: word_le_nat_alt word_less_nat_alt)
    note step = sk_bsearch.simps[of "cmp p" xs lo hi, folded mid_def, unfolded Let_def]
    consider "cmp p (xs ! unat mid) > 0" | "cmp p (xs ! unat mid) < 0" | "cmp p (xs ! unat mid) = 0" by linarith
    then show ?thesis
    proof cases
      case 1
      have "find ?P [unat lo..<unat mid + 1] = None"
      proof (rule find_none)
        fix i
        assume "unat lo \<le> i" "i < unat mid + 1"
        then have "cmp p (xs ! i) > 0" using above[OF 1 sorted_nth[OF s(1), of i "unat mid"]] mn less.prems s(2) by simp
        then show "cmp p (xs ! i) \<noteq> 0" by simp
      qed
      then have "find ?P [unat lo..<unat hi] = find ?P [unat (mid + 1)..<unat hi]"
        using find_split[of "unat lo" "unat mid + 1" "unat hi" ?P] mn m(2) by simp
      then show ?thesis using step True 1 less.hyps[of hi "mid + 1"] less.prems mn m(2) by simp
    next
      case 2
      have "find ?P [unat mid..<unat hi] = None"
      proof (rule find_none)
        fix i
        assume "unat mid \<le> i" "i < unat hi"
        then have "cmp p (xs ! i) < 0" using below[OF 2 sorted_nth[OF s(1), of "unat mid" i]] less.prems s(2) by simp
        then show "cmp p (xs ! i) \<noteq> 0" by simp
      qed
      then have "find ?P [unat lo..<unat hi] = find ?P [unat lo..<unat mid]"
        using find_split[of "unat lo" "unat mid" "unat hi" ?P] mn by (simp split: option.splits)
      then show ?thesis using step True 2 less.hyps[of mid lo] less.prems mn by simp
    next
      case 3
      show ?thesis
      proof (cases "hi - lo = 1")
        case one: True
        then have "unat mid = unat lo" "unat hi = Suc (unat lo)" using m(1,5) by simp_all
        moreover have "mid = lo" using calculation(1) by (simp add: word_unat_eq_iff)
        ultimately show ?thesis using step True 3 one by simp
      next
        case many: False
        have "find ?P [unat lo..<unat mid + 1] \<noteq> None" using 3 mn by (auto simp: find_None_iff)
        then have "find ?P [unat lo..<unat hi] = find ?P [unat lo..<unat (mid + 1)]"
          using find_split[of "unat lo" "unat mid + 1" "unat hi" ?P] mn m(2) by auto
        moreover have "unat (mid + 1) < unat hi" using m(6)[OF many] by (simp add: word_less_nat_alt)
        ultimately show ?thesis using step True 3 many less.hyps[of "mid + 1" lo] less.prems mn m(2) by simp
      qed
    qed
  qed
qed

end

text \<open>A stack flagged as sorted is.\<close>

definition sorted_ok :: "(nat \<Rightarrow> item \<Rightarrow> item \<Rightarrow> int) \<Rightarrow> STACK \<Rightarrow> bool" where
  "sorted_ok call s \<longleftrightarrow> (st_sorted s \<longrightarrow> (\<exists>f. st_comp s = Some f \<and> sorted_wrt (\<lambda>a b. call f a b \<le> 0) (items s)))"

definition matches :: "(nat \<Rightarrow> item \<Rightarrow> item \<Rightarrow> int) \<Rightarrow> STACK \<Rightarrow> item \<Rightarrow> item \<Rightarrow> bool" where
  "matches call s p x = (case st_comp s of None \<Rightarrow> x = p | Some f \<Rightarrow> p \<noteq> 0 \<and> call f p x = 0)"

lemma find_cong: "(\<And>x. x \<in> set xs \<Longrightarrow> P x = Q x) \<Longrightarrow> find P xs = find Q xs"
  by (induction xs) auto

lemma sk_find_eq:
  assumes "stack_wf s" "sorted_ok call s" "\<And>f. total_compare (call f)"
  shows "sk_find call (Some s) p = map_option of_nat (find (\<lambda>i. matches call s p (items s ! i)) [0..<length (items s)])"
proof -
  let ?n = "unat (st_num s)"
  have len: "length (items s) = ?n" "?n \<le> length (st_data s)" using assms(1) length_items by (auto simp: stack_wf_def word_less_nat_alt)
  have it: "find (\<lambda>i. P (st_data s ! i)) [0..<?n] = find (\<lambda>i. P (items s ! i)) [0..<?n]" for P
    by (rule find_cong) (simp add: items_def)
  show ?thesis
  proof (cases "st_comp s")
    case None
    then show ?thesis using it[of "\<lambda>x. x = p"] by (simp add: sk_find_def first_index_find matches_def len(1))
  next
    case (Some f)
    have b: "sk_bsearch (call f p) (st_data s) 0 (st_num s) = map_option of_nat (find (\<lambda>i. call f p (items s ! i) = 0) [0..<?n])"
      if "st_sorted s"
      using total_compare.bsearch_find[OF assms(3)[of f], where n = ?n and xs = "st_data s" and hi = "st_num s" and p = p and lo = 0] assms(2) that Some len(2) it[of "\<lambda>x. call f p x = 0"]
      by (simp add: sorted_ok_def items_def)
    show ?thesis
      using b Some it[of "\<lambda>x. call f p x = 0"]
      by (auto simp: sk_find_def sk_is_sorted_def first_index_find matches_def len(1) find_none[symmetric] find_None_iff)
  qed
qed

section \<open>Sequences of calls\<close>

text \<open>The contract of \<open>qsort\<close>: a permutation in ascending order; where elements compare equal it is free.\<close>

definition qsort_ok :: "((item \<Rightarrow> item \<Rightarrow> int) \<Rightarrow> item list \<Rightarrow> item list) \<Rightarrow> bool" where
  "qsort_ok qsort \<longleftrightarrow> (\<forall>cmp xs. total_compare cmp \<longrightarrow> mset (qsort cmp xs) = mset xs \<and> sorted_wrt (\<lambda>a b. cmp a b \<le> 0) (qsort cmp xs))"

lemma sk_sort_items:
  assumes "stack_wf s" "sorted_ok call s" "total_compare (call f)" "qsort_ok qsort" "st_comp s = Some f"
  shows "\<exists>t. sk_sort qsort call (Some s) = Some t \<and> stack_wf t \<and> mset (items t) = mset (items s) \<and> st_sorted t \<and> sorted_ok call t"
proof (cases "st_sorted s")
  case True
  then show ?thesis using assms by (simp add: sk_sort_def)
next
  case False
  let ?n = "unat (st_num s)"
  have q: "mset (qsort (call f) (items s)) = mset (items s)" "sorted_wrt (\<lambda>a b. call f a b \<le> 0) (qsort (call f) (items s))"
    using assms(3,4) by (simp_all add: qsort_ok_def)
  have len: "length (items s) = ?n" "length (qsort (call f) (items s)) = ?n" using length_items[OF assms(1)] q(1) by (metis mset_eq_length)+
  show ?thesis
  proof (cases "st_num s \<ge> 2")
    case True
    let ?t = "s\<lparr>st_data := qsort (call f) (items s) @ drop ?n (st_data s), st_sorted := True\<rparr>"
    have "items ?t = qsort (call f) (items s)" using len by (simp add: items_def)
    moreover have "length (st_data ?t) = length (st_data s)" using len assms(1) by (simp add: stack_wf_def word_less_nat_alt)
    ultimately show ?thesis using True False assms(1,5) q by (auto simp: sk_sort_def stack_wf_def sorted_ok_def items_def[symmetric])
  next
    case small: False
    then have "?n < 2" by (simp add: word_le_nat_alt)
    then have "sorted_wrt (\<lambda>a b. call f a b \<le> 0) (items s)" using len(1) by (cases "items s" rule: remdups_adj.cases) auto
    then show ?thesis using small False assms(1,5) by (auto simp: sk_sort_def stack_wf_def sorted_ok_def items_def)
  qed
qed

lemma sk_delete_sorted: "sorted_ok call s \<Longrightarrow> st_comp t = st_comp s \<Longrightarrow> st_sorted t = st_sorted s \<Longrightarrow>
    items t = take i (items s) @ drop (i + 1) (items s) \<Longrightarrow> sorted_ok call t"
proof -
  assume a: "sorted_ok call s" "st_comp t = st_comp s" "st_sorted t = st_sorted s" "items t = take i (items s) @ drop (i + 1) (items s)"
  have "sorted_wrt R (take i xs @ drop (i + 1) xs)" if "sorted_wrt R xs" for R and xs :: "item list"
    using that sorted_wrt_append[of R "take i xs" "drop i xs"]
    by (simp add: sorted_wrt_append sorted_wrt_drop) (metis drop_Suc in_set_dropD drop_drop plus_1_eq_Suc)
  then show ?thesis using a by (auto simp: sorted_ok_def)
qed

text \<open>
  The stacks that the calls of the interface lead to, under two restrictions that keep a stack flagged
  as sorted in order: \<open>sk_set\<close> replaces elements only while the stack is not flagged (what happens otherwise
  is shown at the end), and the copies that \<open>sk_deep_copy\<close> makes of a flagged stack compare equal to
  their originals.
\<close>

inductive stack_reach ::
  "(nat \<Rightarrow> item \<Rightarrow> item \<Rightarrow> int) \<Rightarrow> ((item \<Rightarrow> item \<Rightarrow> int) \<Rightarrow> item list \<Rightarrow> item list) \<Rightarrow> STACK \<Rightarrow> bool"
  for call qsort where
  new: "sk_new obj mem cf = Some s \<Longrightarrow> stack_reach call qsort s"
| insert: "stack_reach call qsort s \<Longrightarrow> mem_ok mem \<Longrightarrow> sk_insert mem (Some s) p at = (r, Some t) \<Longrightarrow> stack_reach call qsort t"
| delete: "stack_reach call qsort s \<Longrightarrow> sk_delete (Some s) at = (r, Some t) \<Longrightarrow> stack_reach call qsort t"
| set: "stack_reach call qsort s \<Longrightarrow> \<not> st_sorted s \<Longrightarrow> sk_set (Some s) i v = (r, Some t) \<Longrightarrow> stack_reach call qsort t"
| zero: "stack_reach call qsort s \<Longrightarrow> sk_zero (Some s) = Some t \<Longrightarrow> stack_reach call qsort t"
| sort: "stack_reach call qsort s \<Longrightarrow> sk_sort qsort call (Some s) = Some t \<Longrightarrow> stack_reach call qsort t"
| set_cmp: "stack_reach call qsort s \<Longrightarrow> stack_reach call qsort (snd (sk_set_cmp_func s cf))"
| dup: "stack_reach call qsort s \<Longrightarrow> mem_ok mem \<Longrightarrow> sk_dup obj mem (Some s) = Some t \<Longrightarrow> stack_reach call qsort t"
| deep_copy: "stack_reach call qsort s \<Longrightarrow> mem_ok mem \<Longrightarrow>
    (\<And>f x. st_sorted s \<Longrightarrow> st_comp s = Some f \<Longrightarrow> x \<in> set (items s) \<Longrightarrow> copy x \<noteq> 0 \<Longrightarrow> call f (copy x) x = 0) \<Longrightarrow>
    sk_deep_copy obj mem copy (Some s) = Some t \<Longrightarrow> stack_reach call qsort t"

lemma copy_items_below: "copy_items copy xs i n = Some ys \<Longrightarrow> j < i \<Longrightarrow> ys ! j = xs ! j"
  by (induction n arbitrary: xs i) (auto split: if_splits)

lemma copy_items_nth:
  "copy_items copy xs i n = Some ys \<Longrightarrow> length ys = length xs \<and>
   (\<forall>j < length xs. ys ! j = xs ! j \<or> ys ! j = copy (xs ! j) \<and> copy (xs ! j) \<noteq> 0)"
proof (induction n arbitrary: xs i)
  case (Suc n)
  show ?case
  proof (cases "xs ! i = 0")
    case True
    then show ?thesis using Suc by simp
  next
    case False
    then have c: "copy (xs ! i) \<noteq> 0" "copy_items copy (xs[i := copy (xs ! i)]) (i + 1) n = Some ys"
      using Suc.prems by (auto split: if_splits)
    have "ys ! j = xs ! j \<or> ys ! j = copy (xs ! j) \<and> copy (xs ! j) \<noteq> 0" if "j < length xs" for j
      using Suc.IH[OF c(2)] that c(1) copy_items_below[OF c(2), of i] by (cases "j = i") auto
    then show ?thesis using Suc.IH[OF c(2)] by simp
  qed
qed simp

lemma sk_dup_items: "mem_ok mem \<Longrightarrow> stack_wf s \<Longrightarrow> sk_dup obj mem (Some s) = Some t \<Longrightarrow>
    stack_wf t \<and> items t = items s \<and> st_sorted t = st_sorted s \<and> st_comp t = st_comp s"
  by (auto simp: sk_dup_def stack_wf_def items_def mem_ok_def word_less_nat_alt split: if_splits option.splits)

lemma sk_deep_copy_items:
  assumes "mem_ok mem" "stack_wf s" "sk_deep_copy obj mem copy (Some s) = Some t"
  shows "stack_wf t \<and> st_sorted t = st_sorted s \<and> st_comp t = st_comp s \<and> length (items t) = length (items s) \<and>
    (\<forall>j < length (items s). items t ! j = items s ! j \<or> items t ! j = copy (items s ! j) \<and> copy (items s ! j) \<noteq> 0)"
proof -
  obtain d ys where d: "sk_dup obj mem (Some s) = Some d" "copy_items copy (st_data d) 0 (unat (st_num d)) = Some ys"
      "t = d\<lparr>st_data := ys\<rparr>"
    using assms(3) by (auto simp: sk_deep_copy_def split: option.splits)
  have s: "stack_wf d" "items d = items s" "st_sorted d = st_sorted s" "st_comp d = st_comp s"
    using sk_dup_items[OF assms(1,2) d(1)] by auto
  have t: "stack_wf t" "length (items t) = length (items d)"
    using s(1) copy_items_nth[OF d(2)] d(3) by (simp_all add: stack_wf_def items_def)
  have "items t ! j = items d ! j \<or> items t ! j = copy (items d ! j) \<and> copy (items d ! j) \<noteq> 0" if "j < length (items d)" for j
    using copy_items_nth[OF d(2)] d(3) that by (simp add: items_def)
  then show ?thesis using s t d(3) by simp
qed

lemma sorted_copies:
  assumes cmp: "total_compare cmp" and sorted: "sorted_wrt (\<lambda>a b. cmp a b \<le> 0) xs" and len: "length ys = length xs"
    and eq: "\<And>j. j < length xs \<Longrightarrow> ys ! j = xs ! j \<or> cmp (ys ! j) (xs ! j) = 0"
  shows "sorted_wrt (\<lambda>a b. cmp a b \<le> 0) ys"
  unfolding sorted_wrt_iff_nth_less
proof (intro allI impI)
  note laws = total_compare.sign[OF cmp] total_compare.le_trans[OF cmp]
  fix i j assume ij: "i < j" "j < length ys"
  have refl: "cmp x x = 0" for x using laws(1)[of x x] by linarith
  have "cmp (ys ! i) (xs ! i) = 0" "cmp (ys ! j) (xs ! j) = 0" using eq[of i] eq[of j] ij len refl by auto
  then have "cmp (ys ! i) (xs ! i) \<le> 0" "cmp (xs ! j) (ys ! j) \<le> 0" using laws(1)[of "ys ! j" "xs ! j"] laws(1)[of "xs ! j" "ys ! j"] by linarith+
  moreover have "cmp (xs ! i) (xs ! j) \<le> 0" using sorted ij len by (simp add: sorted_wrt_iff_nth_less)
  ultimately show "cmp (ys ! i) (ys ! j) \<le> 0" using laws(2) by blast
qed

lemma stack_reach_inv:
  assumes "stack_reach call qsort s" "\<And>f. total_compare (call f)" "qsort_ok qsort"
  shows "stack_wf s \<and> sorted_ok call s"
  using assms(1)
proof (induction rule: stack_reach.induct)
  case (new obj mem cf s)
  then show ?case using sk_new_items[OF new] by (simp add: sorted_ok_def)
next
  case (insert s mem p at r t)
  then show ?case using sk_insert_items[OF insert.hyps(2) _ insert.hyps(3)] by (auto simp: sorted_ok_def)
next
  case (delete s at r t)
  have "stack_wf t \<and> items t = take (unat at) (items s) @ drop (unat at + 1) (items s) \<and> st_comp t = st_comp s \<and> st_sorted t = st_sorted s"
    using sk_delete_items[OF _ delete.hyps(2)] delete.IH by simp
  then show ?case using sk_delete_sorted[of call s t "unat at"] delete.IH by blast
next
  case (set s i v r t)
  have "\<not> st_sorted t" using set.hyps(2,3) by (auto simp: sk_set_def split: if_splits)
  then show ?case using sk_set_items(1)[OF _ set.hyps(3)] set.IH by (simp add: sorted_ok_def)
next
  case (zero s t)
  have "\<not> st_sorted t \<or> t = s" using zero.hyps(2) by (auto simp: sk_zero_def split: if_splits)
  then show ?case using sk_zero_items[OF _ zero.hyps(2)] zero.IH by (auto simp: sorted_ok_def)
next
  case (sort s t)
  show ?case
  proof (cases "st_comp s")
    case None
    then show ?thesis using sort by (simp add: sk_sort_def)
  next
    case (Some f)
    then show ?thesis using sk_sort_items[OF conjunct1[OF sort.IH] conjunct2[OF sort.IH] assms(2,3)] sort.hyps(2) by auto
  qed
next
  case (set_cmp s cf)
  then show ?case by (auto simp: sk_set_cmp_func_def stack_wf_def sorted_ok_def items_def)
next
  case (dup s mem obj t)
  then show ?case using sk_dup_items[OF dup.hyps(2) _ dup.hyps(3)] by (auto simp: sorted_ok_def)
next
  case (deep_copy s mem copy obj t)
  have wf: "stack_wf s" and sorted: "sorted_ok call s" using deep_copy.IH by auto
  note c = sk_deep_copy_items[OF deep_copy.hyps(2) wf deep_copy.hyps(4)]
  have "sorted_wrt (\<lambda>a b. call f a b \<le> 0) (items t)" if f: "st_sorted s" "st_comp s = Some f" for f
  proof (rule sorted_copies[OF assms(2)])
    show "sorted_wrt (\<lambda>a b. call f a b \<le> 0) (items s)" using sorted f by (simp add: sorted_ok_def)
    show "length (items t) = length (items s)" using c by blast
    show "items t ! j = items s ! j \<or> call f (items t ! j) (items s ! j) = 0" if "j < length (items s)" for j
      using c deep_copy.hyps(3)[OF f, of "items s ! j"] that by (metis nth_mem)
  qed
  moreover have "\<exists>f. st_comp s = Some f" if "st_sorted s" using sorted that by (auto simp: sorted_ok_def)
  ultimately show ?case using c unfolding sorted_ok_def by metis
qed

section \<open>Main results\<close>

text \<open>
  C39. A stack is a list. On well-formed stacks, and for memory of any contents, \<open>sk_insert\<close> inserts at
  the given position, or at the end for a position beyond it, and returns the new length, or returns
  zero and changes nothing when the array cannot grow; \<open>sk_push\<close> appends; \<open>sk_delete\<close>, \<open>sk_shift\<close> and
  \<open>sk_pop\<close> remove and return the element at the position, the front and the end; \<open>sk_value\<close> reads and
  \<open>sk_set\<close> writes in range; and the stacks stay well-formed.
\<close>

theorem stack_is_a_list:
  assumes "stack_wf s" and "mem_ok mem"
  shows "(\<forall>p at. \<exists>r t. sk_insert mem (Some s) p at = (r, Some t) \<and>
      (if sk_grow mem s = None then r = 0 \<and> t = s
       else stack_wf t \<and> items t = take (unat at) (items s) @ p # drop (unat at) (items s) \<and> unat r = length (items t))) \<and>
    (\<forall>p. \<exists>r t. sk_push mem s p = (r, Some t) \<and> (sk_grow mem s \<noteq> None \<longrightarrow> items t = items s @ [p])) \<and>
    (\<forall>i. \<exists>t. sk_delete (Some s) i = (sk_value (Some s) i, Some t) \<and> stack_wf t \<and>
      items t = take (unat i) (items s) @ drop (unat i + 1) (items s)) \<and>
    (items s \<noteq> [] \<longrightarrow> (\<exists>t. sk_shift (Some s) = (hd (items s), Some t) \<and> stack_wf t \<and> items t = tl (items s)) \<and>
      (\<exists>t. sk_pop (Some s) = (last (items s), Some t) \<and> stack_wf t \<and> items t = butlast (items s))) \<and>
    (\<forall>i. sk_value (Some s) i = (if unat i < length (items s) then items s ! unat i else 0)) \<and>
    (\<forall>i v. \<exists>r t. sk_set (Some s) i v = (r, Some t) \<and> stack_wf t \<and> items t = (items s)[unat i := v])"
proof (intro conjI allI impI)
  note len = length_items[OF assms(1)]
  have ins: "\<exists>r t. sk_insert mem (Some s) p at = (r, Some t) \<and>
      (if sk_grow mem s = None then r = 0 \<and> t = s
       else stack_wf t \<and> items t = take (unat at) (items s) @ p # drop (unat at) (items s) \<and> unat r = length (items t))" for p at
  proof -
    obtain r st where r: "sk_insert mem (Some s) p at = (r, st)" by fastforce
    then have n: "sk_grow mem s = None \<longleftrightarrow> r = 0 \<and> st = Some s \<and> sk_grow mem s = None" by (auto simp: sk_insert_def)
    show ?thesis using sk_insert_items[OF assms(2,1) r] n r by auto
  qed
  then show "\<exists>r t. sk_insert mem (Some s) p at = (r, Some t) \<and>
      (if sk_grow mem s = None then r = 0 \<and> t = s
       else stack_wf t \<and> items t = take (unat at) (items s) @ p # drop (unat at) (items s) \<and> unat r = length (items t))" for p at .
  show "\<exists>r t. sk_push mem s p = (r, Some t) \<and> (sk_grow mem s \<noteq> None \<longrightarrow> items t = items s @ [p])" for p
    using ins[of p "st_num s"] len by (fastforce simp: sk_push_def)
  show val: "sk_value (Some s) i = (if unat i < length (items s) then items s ! unat i else 0)" for i
    by (rule sk_value_items[OF assms(1)])
  have del: "\<exists>t. sk_delete (Some s) i = (sk_value (Some s) i, Some t) \<and> stack_wf t \<and>
      items t = take (unat i) (items s) @ drop (unat i + 1) (items s)" for i
    using sk_delete_items[OF assms(1), of i] by (metis val prod.collapse)
  then show "\<exists>t. sk_delete (Some s) i = (sk_value (Some s) i, Some t) \<and> stack_wf t \<and>
      items t = take (unat i) (items s) @ drop (unat i + 1) (items s)" for i .
  show "\<exists>r t. sk_set (Some s) i v = (r, Some t) \<and> stack_wf t \<and> items t = (items s)[unat i := v]" for i v
  proof -
    obtain r t where r: "sk_set (Some s) i v = (r, Some t)" by (cases "i \<ge> st_num s") (simp_all add: sk_set_def)
    then show ?thesis using sk_set_items(1,2)[OF assms(1) r] by blast
  qed
  assume ne: "items s \<noteq> []"
  then have n0: "st_num s \<noteq> 0" using len by auto
  show "\<exists>t. sk_shift (Some s) = (hd (items s), Some t) \<and> stack_wf t \<and> items t = tl (items s)"
    using del[of 0] val[of 0] ne n0 by (auto simp: sk_shift_def hd_conv_nth drop_Suc)
  have u: "unat (st_num s - 1) = length (items s) - 1" using n0 len by (simp add: unat_minus_one)
  show "\<exists>t. sk_pop (Some s) = (last (items s), Some t) \<and> stack_wf t \<and> items t = butlast (items s)"
    using del[of "st_num s - 1"] val[of "st_num s - 1"] ne n0 u by (auto simp: sk_pop_def last_conv_nth butlast_conv_take)
qed

definition some_mem :: mem where
  "some_mem n = Some (replicate n 99)"

lemma some_mem_ok: "mem_ok some_mem"
  by (simp add: mem_ok_def some_mem_def)

definition three :: STACK where
  "three = \<lparr>st_num = 3, st_data = [30, 10, 20, 99], st_sorted = False, num_alloc = 4, st_comp = Some 1\<rparr>"

theorem stack_is_a_list_witness:
  "\<exists>r t. sk_insert some_mem (Some three) 15 1 = (r, Some t) \<and> items t = [30, 15, 10, 20] \<and> unat r = 4"
proof -
  have wf: "stack_wf three" and it: "items three = [30, 10, 20]" by (simp_all add: stack_wf_def items_def three_def)
  have "sk_grow some_mem three \<noteq> None" by (simp add: sk_grow_def three_def some_mem_def)
  then show ?thesis
    using conjunct1[OF stack_is_a_list[OF wf some_mem_ok], rule_format, of 15 1] by (auto simp: it)
qed

text \<open>
  C40. Searching: after any sequence of calls in which \<open>sk_set\<close> is not applied to a stack flagged as
  sorted, and in which a deep copy of a flagged stack copies its elements to elements that compare equal,
  with comparison functions that are total orders up to equality, \<open>sk_find\<close> returns the first index whose
  element equals what is searched, and nothing when there is none. This holds for the search by pointer
  when there is no comparison function, for the linear search and for the binary search, which ends.
\<close>

theorem sk_find_first:
  assumes "stack_reach call qsort s" and "\<forall>f. total_compare (call f)" and "qsort_ok qsort"
  shows "sk_find call (Some s) p =
    map_option of_nat (find (\<lambda>i. case st_comp s of None \<Rightarrow> items s ! i = p | Some f \<Rightarrow> p \<noteq> 0 \<and> call f p (items s ! i) = 0)
      [0..<length (items s)])"
  using sk_find_eq[of s call p] stack_reach_inv[OF assms(1) _ assms(3)] assms(2) by (simp add: matches_def)

text \<open>Numbers compared by size, and insertion sort.\<close>

definition by_size :: "nat \<Rightarrow> item \<Rightarrow> item \<Rightarrow> int" where
  "by_size f a b = int a - int b"

interpretation by_size: total_compare "by_size f" for f
  by unfold_locales (auto simp: by_size_def)

primrec ins_by :: "(item \<Rightarrow> item \<Rightarrow> int) \<Rightarrow> item \<Rightarrow> item list \<Rightarrow> item list" where
  "ins_by cmp x [] = [x]"
| "ins_by cmp x (y # ys) = (if cmp x y \<le> 0 then x # y # ys else y # ins_by cmp x ys)"

definition ins_sort :: "(item \<Rightarrow> item \<Rightarrow> int) \<Rightarrow> item list \<Rightarrow> item list" where
  "ins_sort cmp xs = foldr (ins_by cmp) xs []"

lemma ins_sort_ok: "qsort_ok ins_sort"
  unfolding qsort_ok_def
proof (intro allI impI)
  fix cmp :: "item \<Rightarrow> item \<Rightarrow> int" and xs
  assume tc: "total_compare cmp"
  have m: "mset (ins_by cmp x ys) = add_mset x (mset ys)" for x ys by (induction ys) simp_all
  then have s: "set (ins_by cmp x ys) = insert x (set ys)" for x ys by (metis set_mset_add_mset_insert set_mset_mset)
  have "sorted_wrt (\<lambda>a b. cmp a b \<le> 0) (ins_by cmp x ys)" if "sorted_wrt (\<lambda>a b. cmp a b \<le> 0) ys" for x ys
    using that
  proof (induction ys)
    case (Cons y ys)
    then show ?case
      using total_compare.le_trans[OF tc, of x y] total_compare.le_total[OF tc, of x y] by (auto simp: s)
  qed simp
  then have "sorted_wrt (\<lambda>a b. cmp a b \<le> 0) (ins_sort cmp xs)" by (induction xs) (simp_all add: ins_sort_def)
  moreover have "mset (ins_sort cmp xs) = mset xs" by (induction xs) (simp_all add: ins_sort_def m)
  ultimately show "mset (ins_sort cmp xs) = mset xs \<and> sorted_wrt (\<lambda>a b. cmp a b \<le> 0) (ins_sort cmp xs)" by blast
qed

text \<open>Three elements pushed in descending order and sorted.\<close>

fun push_all :: "item list \<Rightarrow> STACK option \<Rightarrow> STACK option" where
  "push_all [] sk = sk"
| "push_all (x # xs) None = None"
| "push_all (x # xs) (Some s) = push_all xs (snd (sk_push some_mem s x))"

definition pushed :: STACK where
  "pushed = the (sk_sort ins_sort by_size (push_all [30, 20, 10] (sk_new True some_mem (Some 1))))"

lemma pushed_eq: "pushed = \<lparr>st_num = 3, st_data = [10, 20, 30, 0], st_sorted = True, num_alloc = 4, st_comp = Some 1\<rparr>"
  by code_simp

lemma push_all_eq: "push_all [30, 20, 10] (sk_new True some_mem (Some 1)) =
    Some \<lparr>st_num = 3, st_data = [30, 20, 10, 0], st_sorted = False, num_alloc = 4, st_comp = Some 1\<rparr>"
  by code_simp

lemma pushed_reach: "stack_reach by_size ins_sort pushed"
proof -
  have p: "stack_reach by_size ins_sort t" if "stack_reach by_size ins_sort s" "snd (sk_push some_mem s x) = Some t" for s t x
    using stack_reach.insert[OF that(1) some_mem_ok] that(2) by (metis sk_push_def prod.collapse)
  have a: "stack_reach by_size ins_sort t" if "stack_reach by_size ins_sort s" "push_all xs (Some s) = Some t" for s t xs
    using that
  proof (induction xs arbitrary: s)
    case (Cons x xs)
    then obtain u where "snd (sk_push some_mem s x) = Some u" by (cases "snd (sk_push some_mem s x)"; cases xs) auto
    then show ?case using Cons.IH[of u] Cons.prems p[OF Cons.prems(1)] by simp
  qed simp
  obtain s0 where s0: "sk_new True some_mem (Some 1) = Some s0" by (simp add: sk_new_def some_mem_def)
  obtain s1 where s1: "push_all [30, 20, 10] (sk_new True some_mem (Some 1)) = Some s1"
    using push_all_eq by blast
  have "stack_reach by_size ins_sort s1" by (rule a[OF stack_reach.new[OF s0] s1[unfolded s0]])
  moreover have "sk_sort ins_sort by_size (Some s1) = Some pushed"
    unfolding pushed_def s1[symmetric] push_all_eq by (simp add: sk_sort_def Let_def)
  ultimately show ?thesis by (rule stack_reach.sort)
qed

theorem sk_find_first_witness:
  "sk_find by_size (Some pushed) 20 = Some 1 \<and> sk_find by_size (Some pushed) 25 = None"
  using sk_find_first[OF pushed_reach _ ins_sort_ok, of 20] sk_find_first[OF pushed_reach _ ins_sort_ok, of 25]
  by (simp add: by_size.total_compare_axioms pushed_eq items_def by_size_def upt_rec)

text \<open>
  \<open>sk_set\<close> leaves the flag of a sorted stack set, although the new element may break the order; the
  binary search that follows then misses elements that are in the stack.
\<close>

theorem sk_set_spoils_search:
  "\<exists>t. sk_set (Some pushed) 0 40 = (40, Some t) \<and> items t = [40, 20, 30] \<and> st_sorted t \<and> \<not> sorted_ok by_size t \<and>
    by_size 1 40 (items t ! 0) = 0 \<and> sk_find by_size (Some t) 40 = None"
  by (simp add: pushed_eq sk_set_def items_def sorted_ok_def by_size_def sk_find_def sk_is_sorted_def sk_bsearch.simps)

end
