(* ===== verification/Lhash.thy ===== *)
theory Lhash
  imports Compare "HOL-Library.Multiset"
begin

text \<open>
  The hash tables of BoringSSL, \<^verbatim>\<open>crypto/lhash/lhash.c\<close>: chained buckets that grow and shrink with
  the number of elements.
\<close>

section \<open>Data\<close>

text \<open>
  The elements, opaque pointers, are of any type. A chain is the list of its items. The hash and
  comparison functions are fields of the table, called through the helpers \<open>call_hash_func\<close> and
  \<open>call_cmp_func\<close>, as in the code.
\<close>

record 'e LHASH_ITEM =
  it_data :: 'e
  it_hash :: uint32

record 'e LHASH =
  num_items :: size_t
  buckets :: "'e LHASH_ITEM list list"
  num_buckets :: size_t
  callback_depth :: uint32
  lh_comp :: "'e \<Rightarrow> 'e \<Rightarrow> int"
  lh_hash :: "'e \<Rightarrow> uint32"

type_synonym 'e hash_helper = "('e \<Rightarrow> uint32) \<Rightarrow> 'e \<Rightarrow> uint32"
type_synonym 'e cmp_helper = "('e \<Rightarrow> 'e \<Rightarrow> int) \<Rightarrow> 'e \<Rightarrow> 'e \<Rightarrow> int"

abbreviation kMinNumBuckets :: size_t where "kMinNumBuckets \<equiv> 16"
abbreviation kMaxAverageChainLength :: size_t where "kMaxAverageChainLength \<equiv> 2"
abbreviation kMinAverageChainLength :: size_t where "kMinAverageChainLength \<equiv> 1"

section \<open>Operations\<close>

text \<open>
  \<open>obj\<close> says whether the allocation of a structure suceeds, and \<open>mem n\<close> whether that of an array of
  \<open>n\<close> bytes does.
\<close>

definition OPENSSL_lh_new :: "bool \<Rightarrow> (size_t \<Rightarrow> bool) \<Rightarrow> ('e \<Rightarrow> uint32) \<Rightarrow> ('e \<Rightarrow> 'e \<Rightarrow> int) \<Rightarrow> 'e LHASH option" where
  "OPENSSL_lh_new obj mem hash cmp =
     (if \<not> obj \<or> \<not> mem (8 * kMinNumBuckets) then None
      else Some \<lparr>num_items = 0, buckets = replicate (unat kMinNumBuckets) [], num_buckets = kMinNumBuckets, callback_depth = 0,
        lh_comp = cmp, lh_hash = hash\<rparr>)"

definition OPENSSL_lh_num_items :: "'e LHASH \<Rightarrow> size_t" where
  "OPENSSL_lh_num_items lh = num_items lh"

text \<open>The code's pointer to a pointer: a bucket and a position in its chain, or the end of it.\<close>

primrec chain_pos :: "('e \<Rightarrow> bool) \<Rightarrow> 'e LHASH_ITEM list \<Rightarrow> nat" where
  "chain_pos test [] = 0"
| "chain_pos test (x # xs) = (if test (it_data x) then 0 else Suc (chain_pos test xs))"

definition deref :: "'e LHASH \<Rightarrow> nat \<times> nat \<Rightarrow> 'e LHASH_ITEM option" where
  "deref lh p = (let chain = buckets lh ! fst p in if snd p < length chain then Some (chain ! snd p) else None)"

definition bucket_of :: "uint32 \<Rightarrow> size_t \<Rightarrow> nat" where
  "bucket_of hash n = unat (ucast hash mod n)"

definition get_next_ptr_and_hash :: "'e hash_helper \<Rightarrow> 'e cmp_helper \<Rightarrow> 'e LHASH \<Rightarrow> 'e \<Rightarrow> uint32 \<times> (nat \<times> nat)" where
  "get_next_ptr_and_hash call_hash_func call_cmp_func lh d =
     (let hash = call_hash_func (lh_hash lh) d;
          b = bucket_of hash (num_buckets lh)
      in (hash, b, chain_pos (\<lambda>x. call_cmp_func (lh_comp lh) x d = 0) (buckets lh ! b)))"

definition get_next_ptr_by_key :: "'e LHASH \<Rightarrow> 'k \<Rightarrow> uint32 \<Rightarrow> ('k \<Rightarrow> 'e \<Rightarrow> int) \<Rightarrow> nat \<times> nat" where
  "get_next_ptr_by_key lh key key_hash cmp_key =
     (let b = bucket_of key_hash (num_buckets lh)
      in (b, chain_pos (\<lambda>x. cmp_key key x = 0) (buckets lh ! b)))"

definition OPENSSL_lh_retrieve :: "'e hash_helper \<Rightarrow> 'e cmp_helper \<Rightarrow> 'e LHASH \<Rightarrow> 'e \<Rightarrow> 'e option" where
  "OPENSSL_lh_retrieve call_hash_func call_cmp_func lh d =
     map_option it_data (deref lh (snd (get_next_ptr_and_hash call_hash_func call_cmp_func lh d)))"

definition OPENSSL_lh_retrieve_key :: "'e LHASH \<Rightarrow> 'k \<Rightarrow> uint32 \<Rightarrow> ('k \<Rightarrow> 'e \<Rightarrow> int) \<Rightarrow> 'e option" where
  "OPENSSL_lh_retrieve_key lh key key_hash cmp_key = map_option it_data (deref lh (get_next_ptr_by_key lh key key_hash cmp_key))"

text \<open>One item moved to the front of its new chain.\<close>

definition rebucket_item :: "size_t \<Rightarrow> 'e LHASH_ITEM \<Rightarrow> 'e LHASH_ITEM list list \<Rightarrow> 'e LHASH_ITEM list list" where
  "rebucket_item n cur bs = (let b = bucket_of (it_hash cur) n in bs[b := cur # bs ! b])"

definition lh_rebucket :: "(size_t \<Rightarrow> bool) \<Rightarrow> 'e LHASH \<Rightarrow> size_t \<Rightarrow> 'e LHASH" where
  "lh_rebucket mem lh new_num_buckets =
     (let alloc_size = 8 * new_num_buckets in
      if alloc_size div 8 \<noteq> new_num_buckets then lh
      else if \<not> mem alloc_size then lh
      else lh\<lparr>num_buckets := new_num_buckets,
              buckets := fold (\<lambda>chain bs. fold (rebucket_item new_num_buckets) chain bs) (buckets lh)
                           (replicate (unat new_num_buckets) [])\<rparr>)"

definition lh_maybe_resize :: "(size_t \<Rightarrow> bool) \<Rightarrow> 'e LHASH \<Rightarrow> 'e LHASH" where
  "lh_maybe_resize mem lh =
     (if callback_depth lh > 0 then lh
      else
        let avg_chain_length = num_items lh div num_buckets lh in
        if avg_chain_length > kMaxAverageChainLength then
          let new_num_buckets = num_buckets lh * 2 in
          if new_num_buckets > num_buckets lh then lh_rebucket mem lh new_num_buckets else lh
        else if avg_chain_length < kMinAverageChainLength \<and> num_buckets lh > kMinNumBuckets then
          let new_num_buckets = num_buckets lh div 2;
              new_num_buckets = (if new_num_buckets < kMinNumBuckets then kMinNumBuckets else new_num_buckets)
          in lh_rebucket mem lh new_num_buckets
        else lh)"

text \<open>The result: sucess, the previous element and the table.\<close>

definition OPENSSL_lh_insert ::
  "'e hash_helper \<Rightarrow> 'e cmp_helper \<Rightarrow> bool \<Rightarrow> (size_t \<Rightarrow> bool) \<Rightarrow> 'e LHASH \<Rightarrow> 'e \<Rightarrow> bool \<times> 'e option \<times> 'e LHASH" where
  "OPENSSL_lh_insert call_hash_func call_cmp_func obj mem lh d =
     (case get_next_ptr_and_hash call_hash_func call_cmp_func lh d of
        (hash, b, i) \<Rightarrow>
          (case deref lh (b, i) of
             Some item \<Rightarrow>
               (True, Some (it_data item), lh\<lparr>buckets := (buckets lh)[b := (buckets lh ! b)[i := item\<lparr>it_data := d\<rparr>]]\<rparr>)
           | None \<Rightarrow>
               if \<not> obj then (False, None, lh)
               else
                 (True, None,
                  lh_maybe_resize mem
                    (lh\<lparr>buckets := (buckets lh)[b := take i (buckets lh ! b) @ [\<lparr>it_data = d, it_hash = hash\<rparr>]],
                        num_items := num_items lh + 1\<rparr>))))"

definition OPENSSL_lh_delete ::
  "'e hash_helper \<Rightarrow> 'e cmp_helper \<Rightarrow> (size_t \<Rightarrow> bool) \<Rightarrow> 'e LHASH \<Rightarrow> 'e \<Rightarrow> 'e option \<times> 'e LHASH" where
  "OPENSSL_lh_delete call_hash_func call_cmp_func mem lh d =
     (case get_next_ptr_and_hash call_hash_func call_cmp_func lh d of
        (_, b, i) \<Rightarrow>
          (case deref lh (b, i) of
             None \<Rightarrow> (None, lh)
           | Some item \<Rightarrow>
               (Some (it_data item),
                lh_maybe_resize mem
                  (lh\<lparr>buckets := (buckets lh)[b := take i (buckets lh ! b) @ drop (Suc i) (buckets lh ! b)],
                      num_items := num_items lh - 1\<rparr>))))"

text \<open>
  \<open>func\<close> is the callback, on the state of its argument; callbacks that call back into the table are
  not covered.
\<close>

definition OPENSSL_lh_doall_arg :: "(size_t \<Rightarrow> bool) \<Rightarrow> 'e LHASH \<Rightarrow> ('e \<Rightarrow> 'a \<Rightarrow> 'a) \<Rightarrow> 'a \<Rightarrow> 'a \<times> 'e LHASH" where
  "OPENSSL_lh_doall_arg mem lh func arg =
     (let lh = (if callback_depth lh < - 1 then lh\<lparr>callback_depth := callback_depth lh + 1\<rparr> else lh);
          arg = fold (\<lambda>chain. fold (\<lambda>cur. func (it_data cur)) chain) (buckets lh) arg;
          lh = (if callback_depth lh < - 1 then lh\<lparr>callback_depth := callback_depth lh - 1\<rparr> else lh)
      in (arg, lh_maybe_resize mem lh))"

section \<open>Tables and their contents\<close>

text \<open>What the hash and comparison functions of a table promise, on the elements it is used for.\<close>

locale lhash_key =
  fixes ok :: "'e \<Rightarrow> bool" and hash :: "'e \<Rightarrow> uint32" and cmp :: "'e \<Rightarrow> 'e \<Rightarrow> int"
  assumes cmp_refl: "ok a \<Longrightarrow> cmp a a = 0"
    and cmp_sym: "ok a \<Longrightarrow> ok b \<Longrightarrow> cmp a b = 0 \<Longrightarrow> cmp b a = 0"
    and cmp_trans: "ok a \<Longrightarrow> ok b \<Longrightarrow> ok c \<Longrightarrow> cmp a b = 0 \<Longrightarrow> cmp b c = 0 \<Longrightarrow> cmp a c = 0"
    and hash_cong: "ok a \<Longrightarrow> ok b \<Longrightarrow> cmp a b = 0 \<Longrightarrow> hash a = hash b"

definition table_items :: "'e LHASH \<Rightarrow> 'e LHASH_ITEM list" where
  "table_items lh = concat (buckets lh)"

definition stored :: "'e LHASH \<Rightarrow> 'e set" where
  "stored lh = it_data ` set (table_items lh)"

text \<open>Every item is in the bucket of its hash.\<close>

definition placed :: "('e \<Rightarrow> uint32) \<Rightarrow> size_t \<Rightarrow> 'e LHASH_ITEM list list \<Rightarrow> bool" where
  "placed hash n bs \<longleftrightarrow> length bs = unat n \<and>
     (\<forall>b<length bs. \<forall>it\<in>set (bs ! b). it_hash it = hash (it_data it) \<and> bucket_of (it_hash it) n = b)"

definition lh_inv :: "('e \<Rightarrow> bool) \<Rightarrow> ('e \<Rightarrow> uint32) \<Rightarrow> ('e \<Rightarrow> 'e \<Rightarrow> int) \<Rightarrow> 'e LHASH \<Rightarrow> bool" where
  "lh_inv ok hash cmp lh \<longleftrightarrow> kMinNumBuckets \<le> num_buckets lh \<and> placed hash (num_buckets lh) (buckets lh) \<and>
     num_items lh = of_nat (length (table_items lh)) \<and> distinct (map it_data (table_items lh)) \<and>
     (\<forall>x\<in>stored lh. ok x) \<and> (\<forall>x\<in>stored lh. \<forall>y\<in>stored lh. cmp x y = 0 \<longrightarrow> x = y)"

lemma chain_pos:
  shows "chain_pos P c \<le> length c"
    and "chain_pos P c < length c \<longleftrightarrow> (\<exists>x\<in>set c. P (it_data x))"
    and "chain_pos P c < length c \<Longrightarrow> P (it_data (c ! chain_pos P c))"
  by (induction c) auto

lemma bucket_less: "0 < n \<Longrightarrow> bucket_of h n < unat n"
  by (simp add: bucket_of_def unat_mod word_greater_zero_iff unat_gt_0)

lemma mset_concat_update:
  assumes "b < length bs"
  shows "mset (concat (bs[b := c])) + mset (bs ! b) = mset (concat bs) + mset c"
proof -
  have "mset (concat bs) = mset (concat (take b bs)) + mset (bs ! b) + mset (concat (drop (Suc b) bs))"
    by (subst id_take_nth_drop[OF assms]) simp
  then show ?thesis using assms by (simp add: upd_conv_take_nth_drop)
qed

lemma set_update_bucket: "b < length bs \<Longrightarrow> it \<in> set (bs[b := c] ! b') \<Longrightarrow> b' < length bs \<Longrightarrow> it \<in> set c \<and> b' = b \<or> it \<in> set (bs ! b') \<and> b' \<noteq> b"
  by (cases "b = b'") simp_all

lemma placed_update:
  assumes "placed hash n bs" "b < length bs" "\<And>it. it \<in> set c \<Longrightarrow> it_hash it = hash (it_data it) \<and> bucket_of (it_hash it) n = b"
  shows "placed hash n (bs[b := c])"
  using assms set_update_bucket[OF assms(2)] by (fastforce simp: placed_def)

lemma placed_nth: "placed hash n bs \<Longrightarrow> b < length bs \<Longrightarrow> it \<in> set (bs ! b) \<Longrightarrow> it_hash it = hash (it_data it) \<and> bucket_of (it_hash it) n = b"
  unfolding placed_def by blast

lemma placed_hash: "placed hash n bs \<Longrightarrow> it \<in> set (concat bs) \<Longrightarrow> it_hash it = hash (it_data it)"
  using placed_nth[of hash n bs _ it] by (auto simp: in_set_conv_nth[of _ bs])

lemma bucket_items: "b < length (buckets lh) \<Longrightarrow> it \<in> set (buckets lh ! b) \<Longrightarrow> it \<in> set (table_items lh)"
  unfolding table_items_def using nth_mem by fastforce

section \<open>Resizing\<close>

lemma rebucket_fold:
  assumes "0 < n" "\<And>it. it \<in> set its \<Longrightarrow> it_hash it = hash (it_data it)"
  shows "placed hash n bs \<Longrightarrow> placed hash n (fold (rebucket_item n) its bs) \<and>
    mset (concat (fold (rebucket_item n) its bs)) = mset its + mset (concat bs)"
  using assms(2)
proof (induction its arbitrary: bs)
  case (Cons it its)
  let ?b = "bucket_of (it_hash it) n"
  have b: "?b < length bs" using bucket_less[OF assms(1)] Cons.prems(1) by (simp add: placed_def)
  have p: "placed hash n (rebucket_item n it bs)"
    unfolding rebucket_item_def Let_def
  proof (rule placed_update[OF Cons.prems(1) b])
    fix x
    assume "x \<in> set (it # bs ! ?b)"
    then consider "x = it" | "x \<in> set (bs ! ?b)" by auto
    then show "it_hash x = hash (it_data x) \<and> bucket_of (it_hash x) n = ?b"
      by cases (use Cons.prems(2)[of it] placed_nth[OF Cons.prems(1) b, of x] in auto)
  qed
  have "mset (concat (rebucket_item n it bs)) = add_mset it (mset (concat bs))"
    using mset_concat_update[OF b, of "it # bs ! ?b"] by (simp add: rebucket_item_def Let_def)
  then show ?case using Cons.IH[OF p] Cons.prems(2) by simp
qed simp

lemma fold_concat_list: "fold (\<lambda>xs. fold f xs) xss a = fold f (concat xss) a"
  by (induction xss arbitrary: a) simp_all

lemma lh_rebucket_mset:
  assumes "0 < n" "placed hash (num_buckets lh) (buckets lh)"
  shows "placed hash (num_buckets (lh_rebucket mem lh n)) (buckets (lh_rebucket mem lh n))"
    and "mset (table_items (lh_rebucket mem lh n)) = mset (table_items lh)"
    and "num_items (lh_rebucket mem lh n) = num_items lh"
    and "num_buckets (lh_rebucket mem lh n) = num_buckets lh \<or> num_buckets (lh_rebucket mem lh n) = n"
    and "lh_comp (lh_rebucket mem lh n) = lh_comp lh" "lh_hash (lh_rebucket mem lh n) = lh_hash lh"
proof -
  have "\<And>it. it \<in> set (concat (buckets lh)) \<Longrightarrow> it_hash it = hash (it_data it)"
    by (rule placed_hash[OF assms(2)])
  moreover have "placed hash n (replicate (unat n) [])" by (simp add: placed_def)
  ultimately have r: "placed hash n (fold (rebucket_item n) (concat (buckets lh)) (replicate (unat n) []))"
    "mset (concat (fold (rebucket_item n) (concat (buckets lh)) (replicate (unat n) []))) = mset (concat (buckets lh))"
    using rebucket_fold[OF assms(1), of "concat (buckets lh)" hash "replicate (unat n) []"] by simp_all
  have "lh_rebucket mem lh n = lh \<or> lh_rebucket mem lh n =
      lh\<lparr>num_buckets := n, buckets := fold (rebucket_item n) (concat (buckets lh)) (replicate (unat n) [])\<rparr>"
    unfolding lh_rebucket_def Let_def fold_concat_list by (meson if_split)
  then show "placed hash (num_buckets (lh_rebucket mem lh n)) (buckets (lh_rebucket mem lh n))"
    "mset (table_items (lh_rebucket mem lh n)) = mset (table_items lh)" "num_items (lh_rebucket mem lh n) = num_items lh"
    "num_buckets (lh_rebucket mem lh n) = num_buckets lh \<or> num_buckets (lh_rebucket mem lh n) = n"
    "lh_comp (lh_rebucket mem lh n) = lh_comp lh" "lh_hash (lh_rebucket mem lh n) = lh_hash lh"
    by (auto simp: r assms(2) table_items_def simp del: mset_concat concat_eq_concat_iff)
qed

text \<open>The invariant depends on the places of the items and on the items up to their order.\<close>

lemma lh_inv_intro:
  assumes "kMinNumBuckets \<le> num_buckets lh" "placed hash (num_buckets lh) (buckets lh)" "mset (table_items lh) = mset ys"
    "num_items lh = of_nat (length ys)" "distinct (map it_data ys)"
    "\<And>x. x \<in> it_data ` set ys \<Longrightarrow> ok x"
    "\<And>x y. x \<in> it_data ` set ys \<Longrightarrow> y \<in> it_data ` set ys \<Longrightarrow> cmp x y = 0 \<Longrightarrow> x = y"
  shows "lh_inv ok hash cmp lh \<and> stored lh = it_data ` set ys"
proof -
  have st: "stored lh = it_data ` set ys" unfolding stored_def using assms(3) by (metis set_mset_mset)
  moreover have "distinct (map it_data (table_items lh)) = distinct (map it_data ys)"
    using assms(3) by (intro mset_eq_imp_distinct_iff) simp
  ultimately show ?thesis using assms mset_eq_length[OF assms(3)] by (simp add: lh_inv_def)
qed

lemma lh_inv_same:
  assumes "lh_inv ok hash cmp lh" "placed hash (num_buckets lh') (buckets lh')" "mset (table_items lh') = mset (table_items lh)"
    "num_items lh' = num_items lh" "kMinNumBuckets \<le> num_buckets lh'"
  shows "lh_inv ok hash cmp lh' \<and> stored lh' = stored lh"
  unfolding stored_def[of lh]
  by (rule lh_inv_intro[OF assms(5,2,3)]) (use assms(1,4) in \<open>auto simp: lh_inv_def stored_def\<close>)

lemma lh_maybe_resize_inv:
  assumes "lh_inv ok hash cmp lh"
  shows "lh_inv ok hash cmp (lh_maybe_resize mem lh)" "stored (lh_maybe_resize mem lh) = stored lh"
    "lh_comp (lh_maybe_resize mem lh) = lh_comp lh" "lh_hash (lh_maybe_resize mem lh) = lh_hash lh"
proof -
  have inv: "kMinNumBuckets \<le> num_buckets lh" "placed hash (num_buckets lh) (buckets lh)" using assms by (simp_all add: lh_inv_def)
  have "lh_maybe_resize mem lh = lh \<or> (\<exists>n\<ge>kMinNumBuckets. lh_maybe_resize mem lh = lh_rebucket mem lh n)"
  proof -
    have "num_buckets lh * 2 > num_buckets lh \<Longrightarrow> kMinNumBuckets \<le> num_buckets lh * 2" using inv(1) by (meson le_less_trans less_imp_le)
    then show ?thesis unfolding lh_maybe_resize_def Let_def by (auto simp: not_less)
  qed
  then show "lh_inv ok hash cmp (lh_maybe_resize mem lh)" "stored (lh_maybe_resize mem lh) = stored lh"
    "lh_comp (lh_maybe_resize mem lh) = lh_comp lh" "lh_hash (lh_maybe_resize mem lh) = lh_hash lh"
  proof -
    have r: "lh_inv ok hash cmp (lh_rebucket mem lh n) \<and> stored (lh_rebucket mem lh n) = stored lh \<and>
        lh_comp (lh_rebucket mem lh n) = lh_comp lh \<and> lh_hash (lh_rebucket mem lh n) = lh_hash lh" if "kMinNumBuckets \<le> n" for n
    proof -
      have "n \<noteq> 0" using that by auto
      then have "0 < n" by (simp add: word_greater_zero_iff)
      note rb = lh_rebucket_mset[OF this inv(2), of mem]
      show ?thesis using lh_inv_same[OF assms rb(1-3)] rb(4-6) that inv(1) by metis
    qed
    assume "lh_maybe_resize mem lh = lh \<or> (\<exists>n\<ge>kMinNumBuckets. lh_maybe_resize mem lh = lh_rebucket mem lh n)"
    then show "lh_inv ok hash cmp (lh_maybe_resize mem lh)" "stored (lh_maybe_resize mem lh) = stored lh"
      "lh_comp (lh_maybe_resize mem lh) = lh_comp lh" "lh_hash (lh_maybe_resize mem lh) = lh_hash lh" using r assms by auto
  qed
qed

section \<open>The operations under the contract\<close>

text \<open>Where an element is looked for: in the bucket of its hash, at the item equal to it.\<close>

context lhash_key
begin

lemma found:
  assumes inv: "lh_inv ok hash cmp lh" and d: "ok d" and b: "b = bucket_of (hash d) (num_buckets lh)" and i: "i = chain_pos (\<lambda>x. cmp x d = 0) (buckets lh ! b)"
  shows "b < length (buckets lh)" "i \<le> length (buckets lh ! b)"
    and "i < length (buckets lh ! b) \<Longrightarrow> it_data (buckets lh ! b ! i) \<in> stored lh \<and> cmp (it_data (buckets lh ! b ! i)) d = 0"
    and "i < length (buckets lh ! b) \<longleftrightarrow> (\<exists>x\<in>stored lh. cmp x d = 0)"
proof -
  have p: "placed hash (num_buckets lh) (buckets lh)" "num_buckets lh \<noteq> 0" using inv by (auto simp: lh_inv_def)
  then show bl: "b < length (buckets lh)" using bucket_less[of "num_buckets lh" "hash d"] by (simp add: b placed_def word_greater_zero_iff)
  show "i \<le> length (buckets lh ! b)" unfolding i by (rule chain_pos(1))
  have sub: "it_data it \<in> stored lh" if "it \<in> set (buckets lh ! b)" for it
    using bucket_items[OF bl that] by (simp add: stored_def)
  show "it_data (buckets lh ! b ! i) \<in> stored lh \<and> cmp (it_data (buckets lh ! b ! i)) d = 0" if "i < length (buckets lh ! b)"
    using chain_pos(3)[of "\<lambda>x. cmp x d = 0" "buckets lh ! b"] that sub[OF nth_mem] unfolding i by blast
  have okx: "ok x" if "x \<in> stored lh" for x using inv that by (simp add: lh_inv_def)
  have "\<exists>it\<in>set (buckets lh ! b). cmp (it_data it) d = 0" if x: "x \<in> stored lh" "cmp x d = 0" for x
  proof -
    obtain it b' where it: "it \<in> set (buckets lh ! b')" "b' < length (buckets lh)" "x = it_data it"
      using x(1) by (auto simp: stored_def table_items_def in_set_conv_nth[of _ "buckets lh"])
    have "bucket_of (hash x) (num_buckets lh) = b'" using placed_nth[OF p(1) it(2,1)] it(3) by metis
    then have "b' = b" using hash_cong[OF _ d x(2)] okx[OF x(1)] b by simp
    then show ?thesis using it x(2) by blast
  qed
  then show "i < length (buckets lh ! b) \<longleftrightarrow> (\<exists>x\<in>stored lh. cmp x d = 0)"
    unfolding i chain_pos(2) using sub by blast
qed

lemma retrieve_iff:
  assumes inv: "lh_inv ok hash cmp lh" and d: "ok d" and "call_hash_func (lh_hash lh) = hash" "call_cmp_func (lh_comp lh) = cmp"
  shows "OPENSSL_lh_retrieve call_hash_func call_cmp_func lh d = Some x \<longleftrightarrow> x \<in> stored lh \<and> cmp x d = 0"
proof -
  define b where "b = bucket_of (hash d) (num_buckets lh)"
  define i where "i = chain_pos (\<lambda>x. cmp x d = 0) (buckets lh ! b)"
  note f = found[OF inv d b_def i_def]
  have r: "OPENSSL_lh_retrieve call_hash_func call_cmp_func lh d =
      (if i < length (buckets lh ! b) then Some (it_data (buckets lh ! b ! i)) else None)"
    using assms(3,4) by (simp add: OPENSSL_lh_retrieve_def get_next_ptr_and_hash_def deref_def Let_def b_def i_def)
  have "x = it_data (buckets lh ! b ! i)" if "i < length (buckets lh ! b)" "x \<in> stored lh" "cmp x d = 0"
  proof -
    have "ok x" "ok (it_data (buckets lh ! b ! i))" using inv that(2) f(3)[OF that(1)] by (simp_all add: lh_inv_def)
    then have "cmp x (it_data (buckets lh ! b ! i)) = 0" using cmp_trans[OF _ d] cmp_sym[OF _ d] f(3)[OF that(1)] that(3) by blast
    then show ?thesis using inv that(2) f(3)[OF that(1)] by (simp add: lh_inv_def)
  qed
  then show ?thesis using r f(3,4) by auto
qed

text \<open>A chain of a table replaced by another one.\<close>

lemma chain_update:
  assumes inv: "lh_inv ok hash cmp lh" and d: "ok d" and b: "b = bucket_of (hash d) (num_buckets lh)"
    and lh': "lh' = lh\<lparr>buckets := (buckets lh)[b := c], num_items := of_nat (length ys)\<rparr>"
    and c: "\<And>it. it \<in> set c \<Longrightarrow> it \<in> set (buckets lh ! b) \<or> it = \<lparr>it_data = d, it_hash = hash d\<rparr>"
    and ys: "mset ys + mset (buckets lh ! b) = mset (table_items lh) + mset c" "distinct (map it_data ys)"
      "\<And>x. x \<in> it_data ` set ys \<Longrightarrow> ok x"
      "\<And>x y. x \<in> it_data ` set ys \<Longrightarrow> y \<in> it_data ` set ys \<Longrightarrow> cmp x y = 0 \<Longrightarrow> x = y"
  shows "lh_inv ok hash cmp lh' \<and> stored lh' = it_data ` set ys"
proof (rule lh_inv_intro)
  have p: "placed hash (num_buckets lh) (buckets lh)" and bl: "b < length (buckets lh)"
    using inv found(1)[OF inv d b refl] by (simp_all add: lh_inv_def)
  have "it_hash x = hash (it_data x) \<and> bucket_of (it_hash x) (num_buckets lh) = b" if "x \<in> set c" for x
    using c[OF that] placed_nth[OF p bl, of x] b by auto
  then have "placed hash (num_buckets lh) ((buckets lh)[b := c])" by (rule placed_update[OF p bl])
  then show "placed hash (num_buckets lh') (buckets lh')" by (simp add: lh')
  have "mset (table_items lh') + mset (buckets lh ! b) = mset ys + mset (buckets lh ! b)"
    using mset_concat_update[OF bl, of c] ys(1) by (simp add: lh' table_items_def)
  then show "mset (table_items lh') = mset ys" by simp
qed (use inv ys in \<open>auto simp: lh' lh_inv_def\<close>)

lemma insert_new:
  assumes inv: "lh_inv ok hash cmp lh" and d: "ok d" and b: "b = bucket_of (hash d) (num_buckets lh)" and new: "\<not> (\<exists>x\<in>stored lh. cmp x d = 0)"
    and lh': "lh' = lh\<lparr>buckets := (buckets lh)[b := buckets lh ! b @ [\<lparr>it_data = d, it_hash = hash d\<rparr>]], num_items := num_items lh + 1\<rparr>"
  shows "lh_inv ok hash cmp lh' \<and> stored lh' = insert d (stored lh)"
proof -
  let ?it = "\<lparr>it_data = d, it_hash = hash d\<rparr>"
  have nd: "d \<notin> stored lh" using new cmp_refl d by blast
  have inj: "x = y" if "x \<in> insert d (stored lh)" "y \<in> insert d (stored lh)" "cmp x y = 0" for x y
    using that inv new cmp_sym[OF _ _ that(3)] d by (auto simp: lh_inv_def)
  have "lh_inv ok hash cmp lh' \<and> stored lh' = it_data ` set (?it # table_items lh)"
  proof (rule chain_update[OF inv d b])
    show "lh' = lh\<lparr>buckets := (buckets lh)[b := buckets lh ! b @ [?it]], num_items := of_nat (length (?it # table_items lh))\<rparr>"
      using inv by (simp add: lh' lh_inv_def)
    show "distinct (map it_data (?it # table_items lh))" using inv nd by (simp add: lh_inv_def stored_def)
    show "ok x" if "x \<in> it_data ` set (?it # table_items lh)" for x using that inv d by (auto simp: lh_inv_def stored_def)
    show "x = y" if "x \<in> it_data ` set (?it # table_items lh)" "y \<in> it_data ` set (?it # table_items lh)" "cmp x y = 0" for x y
      by (rule inj[OF _ _ that(3)]) (use that(1,2) in \<open>simp_all add: stored_def\<close>)
  qed auto
  then show ?thesis by (simp add: stored_def)
qed

text \<open>The item found and the others.\<close>

lemma found_split:
  assumes inv: "lh_inv ok hash cmp lh" and d: "ok d" and b: "b = bucket_of (hash d) (num_buckets lh)" and i: "i = chain_pos (\<lambda>x. cmp x d = 0) (buckets lh ! b)"
    and il: "i < length (buckets lh ! b)"
  defines "it \<equiv> buckets lh ! b ! i"
  obtains xs where "mset (table_items lh) = mset (it # xs)" "distinct (map it_data (it # xs))" "it_data it \<notin> it_data ` set xs"
    "it_data ` set xs = {x \<in> stored lh. cmp x d \<noteq> 0}" "cmp (it_data it) d = 0" "it_data it \<in> stored lh" "it_hash it = hash d"
proof -
  note f = found[OF inv d b i]
  have p: "placed hash (num_buckets lh) (buckets lh)" using inv by (simp add: lh_inv_def)
  have it: "it \<in> set (buckets lh ! b)" "it \<in> set (table_items lh)" using nth_mem[OF il] bucket_items[OF f(1)] by (simp_all add: it_def)
  define xs where "xs = remove1 it (table_items lh)"
  have m: "mset (table_items lh) = mset (it # xs)" using it(2) by (simp add: xs_def)
  then have ds: "distinct (map it_data (it # xs))"
    using inv mset_eq_imp_distinct_iff[of "map it_data (table_items lh)" "map it_data (it # xs)"] by (simp add: lh_inv_def)
  have st: "stored lh = insert (it_data it) (it_data ` set xs)" unfolding stored_def using m
    by (metis image_insert list.simps(15) set_mset_mset)
  have c: "cmp (it_data it) d = 0" "it_data it \<in> stored lh" using f(3)[OF il] by (simp_all add: it_def)
  have okx: "ok x" if "x \<in> stored lh" for x using inv that by (simp add: lh_inv_def)
  have u: "x = it_data it" if "x \<in> stored lh" "cmp x d = 0" for x
    using inv that c cmp_trans[OF okx[OF that(1)] d okx[OF c(2)] that(2) cmp_sym[OF okx[OF c(2)] d c(1)]] by (simp add: lh_inv_def)
  have nin: "it_data it \<notin> it_data ` set xs" using ds by simp
  have eq: "it_data ` set xs = {x \<in> stored lh. cmp x d \<noteq> 0}"
  proof (rule set_eqI)
    show "x \<in> it_data ` set xs \<longleftrightarrow> x \<in> {x \<in> stored lh. cmp x d \<noteq> 0}" for x
      using u[of x] nin c(1) unfolding st mem_Collect_eq insert_iff by (cases "x = it_data it"; metis)
  qed
  have "it_hash it = hash d" using placed_nth[OF p f(1) it(1)] hash_cong[OF okx[OF c(2)] d c(1)] by metis
  then show thesis by (rule that[OF m ds nin eq c])
qed

lemma insert_replace:
  assumes inv: "lh_inv ok hash cmp lh" and d: "ok d" and b: "b = bucket_of (hash d) (num_buckets lh)" and i: "i = chain_pos (\<lambda>x. cmp x d = 0) (buckets lh ! b)"
    and il: "i < length (buckets lh ! b)"
    and lh': "lh' = lh\<lparr>buckets := (buckets lh)[b := (buckets lh ! b)[i := (buckets lh ! b ! i)\<lparr>it_data := d\<rparr>]]\<rparr>"
  shows "lh_inv ok hash cmp lh' \<and> stored lh' = insert d {x \<in> stored lh. cmp x d \<noteq> 0}"
proof -
  obtain xs where xs: "mset (table_items lh) = mset (buckets lh ! b ! i # xs)" "distinct (map it_data (buckets lh ! b ! i # xs))"
      "it_data ` set xs = {x \<in> stored lh. cmp x d \<noteq> 0}" "it_hash (buckets lh ! b ! i) = hash d"
    by (rule found_split[OF inv d b i il])
  let ?it = "\<lparr>it_data = d, it_hash = hash d\<rparr>"
  have it: "(buckets lh ! b ! i)\<lparr>it_data := d\<rparr> = ?it" using xs(4) by simp
  have n: "num_items lh = of_nat (length (?it # xs))" using inv mset_eq_length[OF xs(1)] by (simp add: lh_inv_def)
  have inj: "x = y" if "x \<in> insert d (it_data ` set xs)" "y \<in> insert d (it_data ` set xs)" "cmp x y = 0" for x y
    using that inv cmp_sym[OF _ _ that(3)] d unfolding xs(3) by (auto simp: lh_inv_def)
  have "lh_inv ok hash cmp lh' \<and> stored lh' = it_data ` set (?it # xs)"
  proof (rule chain_update[OF inv d b])
    show "lh' = lh\<lparr>buckets := (buckets lh)[b := (buckets lh ! b)[i := ?it]], num_items := of_nat (length (?it # xs))\<rparr>"
      unfolding lh' it n[symmetric] by simp
    show "x \<in> set (buckets lh ! b) \<or> x = ?it" if "x \<in> set ((buckets lh ! b)[i := ?it])" for x
      using that set_update_subset_insert by fastforce
    show "mset (?it # xs) + mset (buckets lh ! b) = mset (table_items lh) + mset ((buckets lh ! b)[i := ?it])"
      using il unfolding xs(1) by (simp add: mset_update)
    show "distinct (map it_data (?it # xs))" using xs(2,3) cmp_refl[OF d] by simp
    show "ok x" if "x \<in> it_data ` set (?it # xs)" for x using that inv d xs(3) by (auto simp: lh_inv_def)
    show "x = y" if "x \<in> it_data ` set (?it # xs)" "y \<in> it_data ` set (?it # xs)" "cmp x y = 0" for x y
      by (rule inj[OF _ _ that(3)]) (use that(1,2) in simp_all)
  qed
  then show ?thesis using xs(3) by simp
qed

lemma delete_found:
  assumes inv: "lh_inv ok hash cmp lh" and d: "ok d" and b: "b = bucket_of (hash d) (num_buckets lh)" and i: "i = chain_pos (\<lambda>x. cmp x d = 0) (buckets lh ! b)"
    and il: "i < length (buckets lh ! b)"
    and lh': "lh' = lh\<lparr>buckets := (buckets lh)[b := take i (buckets lh ! b) @ drop (Suc i) (buckets lh ! b)], num_items := num_items lh - 1\<rparr>"
  shows "lh_inv ok hash cmp lh' \<and> stored lh' = {x \<in> stored lh. cmp x d \<noteq> 0}"
proof -
  obtain xs where xs: "mset (table_items lh) = mset (buckets lh ! b ! i # xs)" "distinct (map it_data (buckets lh ! b ! i # xs))"
      "it_data ` set xs = {x \<in> stored lh. cmp x d \<noteq> 0}" "it_hash (buckets lh ! b ! i) = hash d"
    by (rule found_split[OF inv d b i il])
  have n: "num_items lh - 1 = of_nat (length xs)" using inv mset_eq_length[OF xs(1)] by (simp add: lh_inv_def)
  have "mset (buckets lh ! b) = mset (take i (buckets lh ! b) @ drop (Suc i) (buckets lh ! b)) + {#buckets lh ! b ! i#}"
    by (subst id_take_nth_drop[OF il]) simp
  then have "mset xs + mset (buckets lh ! b) = mset (table_items lh) + mset (take i (buckets lh ! b) @ drop (Suc i) (buckets lh ! b))"
    unfolding xs(1) by simp
  then have "lh_inv ok hash cmp lh' \<and> stored lh' = it_data ` set xs"
    by (rule chain_update[OF inv d b lh'[unfolded n], rotated])
      (use inv xs(2,3) in \<open>auto simp: lh_inv_def dest: in_set_takeD in_set_dropD\<close>)
  then show ?thesis using xs(3) by simp
qed

lemma insert_spec:
  assumes inv: "lh_inv ok hash cmp lh" and d: "ok d" and calls: "call_hash_func (lh_hash lh) = hash" "call_cmp_func (lh_comp lh) = cmp"
    and ins: "OPENSSL_lh_insert call_hash_func call_cmp_func obj mem lh d = (suc, old, lh')"
  shows "old = OPENSSL_lh_retrieve call_hash_func call_cmp_func lh d" "suc \<longleftrightarrow> obj \<or> old \<noteq> None"
    "lh_inv ok hash cmp lh'" "lh_comp lh' = lh_comp lh" "lh_hash lh' = lh_hash lh"
    "stored lh' = (if suc then insert d {x \<in> stored lh. cmp x d \<noteq> 0} else stored lh)"
proof -
  define b where "b = bucket_of (hash d) (num_buckets lh)"
  define i where "i = chain_pos (\<lambda>x. cmp x d = 0) (buckets lh ! b)"
  note f = found[OF inv d b_def i_def]
  have g: "get_next_ptr_and_hash call_hash_func call_cmp_func lh d = (hash d, b, i)"
    by (simp add: get_next_ptr_and_hash_def calls Let_def b_def i_def)
  have *: "old = OPENSSL_lh_retrieve call_hash_func call_cmp_func lh d \<and> (suc \<longleftrightarrow> obj \<or> old \<noteq> None) \<and>
    lh_inv ok hash cmp lh' \<and> lh_comp lh' = lh_comp lh \<and> lh_hash lh' = lh_hash lh \<and>
    stored lh' = (if suc then insert d {x \<in> stored lh. cmp x d \<noteq> 0} else stored lh)"
  proof (cases "i < length (buckets lh ! b)")
    case True
    have "lh' = lh\<lparr>buckets := (buckets lh)[b := (buckets lh ! b)[i := (buckets lh ! b ! i)\<lparr>it_data := d\<rparr>]]\<rparr>"
      "suc" "old = Some (it_data (buckets lh ! b ! i))"
      using ins True by (simp_all add: OPENSSL_lh_insert_def g deref_def)
    then show ?thesis using insert_replace[OF inv d b_def i_def True, of lh'] True by (simp add: OPENSSL_lh_retrieve_def g deref_def)
  next
    case False
    then have none: "\<not> (\<exists>x\<in>stored lh. cmp x d = 0)" and i: "i = length (buckets lh ! b)" using f by auto
    define new where "new = lh\<lparr>buckets := (buckets lh)[b := buckets lh ! b @ [\<lparr>it_data = d, it_hash = hash d\<rparr>]], num_items := num_items lh + 1\<rparr>"
    note n = insert_new[OF inv d b_def none new_def]
    have r: "OPENSSL_lh_retrieve call_hash_func call_cmp_func lh d = None" by (simp add: OPENSSL_lh_retrieve_def g deref_def i)
    have ins': "suc = obj \<and> old = None \<and> lh' = (if obj then lh_maybe_resize mem new else lh)"
      using ins by (auto simp: OPENSSL_lh_insert_def g deref_def i new_def split: if_splits)
    have "{x \<in> stored lh. cmp x d \<noteq> 0} = stored lh" using none by blast
    then show ?thesis using ins' r n lh_maybe_resize_inv[OF conjunct1[OF n], of mem] inv
      by (cases obj) (simp_all add: new_def)
  qed
  show "old = OPENSSL_lh_retrieve call_hash_func call_cmp_func lh d" "suc \<longleftrightarrow> obj \<or> old \<noteq> None"
    "lh_inv ok hash cmp lh'" "lh_comp lh' = lh_comp lh" "lh_hash lh' = lh_hash lh"
    "stored lh' = (if suc then insert d {x \<in> stored lh. cmp x d \<noteq> 0} else stored lh)" using * by blast+
qed

lemma delete_spec:
  assumes inv: "lh_inv ok hash cmp lh" and d: "ok d" and calls: "call_hash_func (lh_hash lh) = hash" "call_cmp_func (lh_comp lh) = cmp"
    and del: "OPENSSL_lh_delete call_hash_func call_cmp_func mem lh d = (old, lh')"
  shows "old = OPENSSL_lh_retrieve call_hash_func call_cmp_func lh d" "lh_inv ok hash cmp lh'"
    "lh_comp lh' = lh_comp lh" "lh_hash lh' = lh_hash lh" "stored lh' = {x \<in> stored lh. cmp x d \<noteq> 0}"
proof -
  define b where "b = bucket_of (hash d) (num_buckets lh)"
  define i where "i = chain_pos (\<lambda>x. cmp x d = 0) (buckets lh ! b)"
  note f = found[OF inv d b_def i_def]
  have g: "get_next_ptr_and_hash call_hash_func call_cmp_func lh d = (hash d, b, i)"
    by (simp add: get_next_ptr_and_hash_def calls Let_def b_def i_def)
  have *: "old = OPENSSL_lh_retrieve call_hash_func call_cmp_func lh d \<and> lh_inv ok hash cmp lh' \<and>
    lh_comp lh' = lh_comp lh \<and> lh_hash lh' = lh_hash lh \<and> stored lh' = {x \<in> stored lh. cmp x d \<noteq> 0}"
  proof (cases "i < length (buckets lh ! b)")
    case True
    define new where "new = lh\<lparr>buckets := (buckets lh)[b := take i (buckets lh ! b) @ drop (Suc i) (buckets lh ! b)], num_items := num_items lh - 1\<rparr>"
    note n = delete_found[OF inv d b_def i_def True new_def]
    have "lh' = lh_maybe_resize mem new" "old = Some (it_data (buckets lh ! b ! i))"
      using del True by (simp_all add: OPENSSL_lh_delete_def g deref_def new_def)
    then show ?thesis using n lh_maybe_resize_inv[OF conjunct1[OF n], of mem] True
      by (simp add: OPENSSL_lh_retrieve_def g deref_def new_def)
  next
    case False
    then have "\<not> (\<exists>x\<in>stored lh. cmp x d = 0)" using f by auto
    then have "{x \<in> stored lh. cmp x d \<noteq> 0} = stored lh" by blast
    moreover have "lh' = lh" "old = None" using del False by (simp_all add: OPENSSL_lh_delete_def g deref_def)
    moreover have "OPENSSL_lh_retrieve call_hash_func call_cmp_func lh d = None" using False by (simp add: OPENSSL_lh_retrieve_def g deref_def)
    ultimately show ?thesis using inv by simp
  qed
  show "old = OPENSSL_lh_retrieve call_hash_func call_cmp_func lh d" "lh_inv ok hash cmp lh'"
    "lh_comp lh' = lh_comp lh" "lh_hash lh' = lh_hash lh" "stored lh' = {x \<in> stored lh. cmp x d \<noteq> 0}" using * by blast+
qed

end

lemma new_spec:
  assumes "OPENSSL_lh_new obj mem hf cf = Some lh"
  shows "lh_inv ok hash cmp lh" "stored lh = {}" "lh_comp lh = cf" "lh_hash lh = hf"
proof -
  have lh: "lh = \<lparr>num_items = 0, buckets = replicate 16 [], num_buckets = kMinNumBuckets, callback_depth = 0, lh_comp = cf, lh_hash = hf\<rparr>"
    using assms by (simp add: OPENSSL_lh_new_def split: if_splits)
  have t: "table_items lh = []" by (simp add: lh table_items_def)
  show "lh_inv ok hash cmp lh" unfolding lh_inv_def stored_def t by (simp add: lh placed_def)
  show "stored lh = {}" "lh_comp lh = cf" "lh_hash lh = hf" by (simp_all add: stored_def t) (simp_all add: lh)
qed

lemma lh_inv_depth: "lh_inv ok hash cmp (lh\<lparr>callback_depth := n\<rparr>) = lh_inv ok hash cmp lh" "stored (lh\<lparr>callback_depth := n\<rparr>) = stored lh"
  by (simp_all add: lh_inv_def stored_def table_items_def)

lemma doall_spec:
  assumes inv: "lh_inv ok hash cmp lh" and da: "OPENSSL_lh_doall_arg mem lh func arg = (arg', lh')"
  shows "arg' = fold func (map it_data (table_items lh)) arg" "lh_inv ok hash cmp lh'" "stored lh' = stored lh"
    "lh_comp lh' = lh_comp lh" "lh_hash lh' = lh_hash lh"
proof -
  define up where "up = (if callback_depth lh < - 1 then lh\<lparr>callback_depth := callback_depth lh + 1\<rparr> else lh)"
  define down where "down = (if callback_depth up < - 1 then up\<lparr>callback_depth := callback_depth up - 1\<rparr> else up)"
  have *: "lh' = lh_maybe_resize mem down \<and> arg' = fold func (map it_data (table_items lh)) arg"
    using da by (auto simp: OPENSSL_lh_doall_arg_def Let_def up_def[symmetric] down_def[symmetric] fold_concat_list fold_map o_def)
      (simp add: up_def table_items_def)
  have "lh_inv ok hash cmp down" "stored down = stored lh" "lh_comp down = lh_comp lh" "lh_hash down = lh_hash lh"
    using inv by (simp_all add: down_def up_def lh_inv_depth)
  with * lh_maybe_resize_inv[of ok hash cmp down mem]
  show "arg' = fold func (map it_data (table_items lh)) arg" "lh_inv ok hash cmp lh'" "stored lh' = stored lh"
    "lh_comp lh' = lh_comp lh" "lh_hash lh' = lh_hash lh" by auto
qed

section \<open>Runs\<close>

text \<open>
  The tables reached from a new one by calls of the interface, with the map they stand for: from
  elements to the element stored that is equal to them.
\<close>

inductive lh_run :: "('e \<Rightarrow> bool) \<Rightarrow> 'e hash_helper \<Rightarrow> 'e cmp_helper \<Rightarrow> ('e \<Rightarrow> uint32) \<Rightarrow> ('e \<Rightarrow> 'e \<Rightarrow> int) \<Rightarrow> 'e LHASH \<Rightarrow> ('e \<rightharpoonup> 'e) \<Rightarrow> bool" for ok ch cc hf cf where
  new: "OPENSSL_lh_new obj mem hf cf = Some lh \<Longrightarrow> lh_run ok ch cc hf cf lh Map.empty"
| insert: "lh_run ok ch cc hf cf lh m \<Longrightarrow> ok d \<Longrightarrow> OPENSSL_lh_insert ch cc obj mem lh d = (True, old, lh') \<Longrightarrow>
    lh_run ok ch cc hf cf lh' (\<lambda>x. if ok x \<and> cc cf d x = 0 then Some d else m x)"
| insert_failed: "lh_run ok ch cc hf cf lh m \<Longrightarrow> ok d \<Longrightarrow> OPENSSL_lh_insert ch cc obj mem lh d = (False, old, lh') \<Longrightarrow> lh_run ok ch cc hf cf lh' m"
| delete: "lh_run ok ch cc hf cf lh m \<Longrightarrow> ok d \<Longrightarrow> OPENSSL_lh_delete ch cc mem lh d = (old, lh') \<Longrightarrow>
    lh_run ok ch cc hf cf lh' (\<lambda>x. if cc cf d x = 0 then None else m x)"
| doall: "lh_run ok ch cc hf cf lh m \<Longrightarrow> OPENSSL_lh_doall_arg mem lh func (arg :: 'e list) = (arg', lh') \<Longrightarrow> lh_run ok ch cc hf cf lh' m"

context lhash_key
begin

text \<open>The map read off the elements stored.\<close>

lemma option_ext: "(\<And>x. a = Some x \<longleftrightarrow> b = Some x) \<Longrightarrow> a = b"
  by (metis not_None_eq)

lemma retrieve_after:
  assumes inv: "lh_inv ok hash cmp lh" "ch (lh_hash lh) = hash" "cc (lh_comp lh) = cmp"
    and inv': "lh_inv ok hash cmp lh'" "lh_hash lh' = lh_hash lh" "lh_comp lh' = lh_comp lh"
    and x: "ok x" and d: "ok d"
  shows "stored lh' = stored lh \<Longrightarrow> OPENSSL_lh_retrieve ch cc lh' x = OPENSSL_lh_retrieve ch cc lh x"
    and "stored lh' = {y \<in> stored lh. cmp y d \<noteq> 0} \<Longrightarrow>
      OPENSSL_lh_retrieve ch cc lh' x = (if cmp d x = 0 then None else OPENSSL_lh_retrieve ch cc lh x)"
    and "stored lh' = insert d {y \<in> stored lh. cmp y d \<noteq> 0} \<Longrightarrow>
      OPENSSL_lh_retrieve ch cc lh' x = (if cmp d x = 0 then Some d else OPENSSL_lh_retrieve ch cc lh x)"
proof -
  have r: "OPENSSL_lh_retrieve ch cc lh x = Some y \<longleftrightarrow> y \<in> stored lh \<and> cmp y x = 0" for y
    by (rule retrieve_iff[where call_hash_func = ch and call_cmp_func = cc, OF inv(1) x inv(2,3)])
  have r': "OPENSSL_lh_retrieve ch cc lh' x = Some y \<longleftrightarrow> y \<in> stored lh' \<and> cmp y x = 0" for y
    by (rule retrieve_iff[where call_hash_func = ch and call_cmp_func = cc, OF inv'(1) x]) (simp_all add: inv inv')
  have okx: "ok y" if "y \<in> stored lh" for y using inv(1) that by (simp add: lh_inv_def)
  have e: "cmp y x = 0 \<longleftrightarrow> cmp y d = 0" if "cmp d x = 0" "ok y" for y
    using cmp_trans[OF that(2) x d] cmp_trans[OF that(2) d x] cmp_sym[OF d x] that(1) by blast
  have e': "cmp y d \<noteq> 0" if "cmp d x \<noteq> 0" "ok y" "cmp y x = 0" for y
    using cmp_trans[OF d that(2) x] cmp_sym[OF that(2) d] that by blast
  show "OPENSSL_lh_retrieve ch cc lh' x = OPENSSL_lh_retrieve ch cc lh x" if "stored lh' = stored lh"
    by (rule option_ext) (simp only: r r' that)
  show "OPENSSL_lh_retrieve ch cc lh' x = (if cmp d x = 0 then None else OPENSSL_lh_retrieve ch cc lh x)"
    if "stored lh' = {y \<in> stored lh. cmp y d \<noteq> 0}"
  proof (rule option_ext)
    show "OPENSSL_lh_retrieve ch cc lh' x = Some y \<longleftrightarrow> (if cmp d x = 0 then None else OPENSSL_lh_retrieve ch cc lh x) = Some y" for y
      using e[of y] e'[of y] okx[of y] by (cases "cmp d x = 0") (auto simp: r r' that)
  qed
  show "OPENSSL_lh_retrieve ch cc lh' x = (if cmp d x = 0 then Some d else OPENSSL_lh_retrieve ch cc lh x)"
    if "stored lh' = insert d {y \<in> stored lh. cmp y d \<noteq> 0}"
  proof (rule option_ext)
    show "OPENSSL_lh_retrieve ch cc lh' x = Some y \<longleftrightarrow> (if cmp d x = 0 then Some d else OPENSSL_lh_retrieve ch cc lh x) = Some y" for y
      using e[of y] e'[of y] okx[of y] by (cases "cmp d x = 0") (auto simp: r r' that)
  qed
qed

lemma run_inv:
  assumes "lh_run ok ch cc hf cf lh m" "ch hf = hash" "cc cf = cmp"
  shows "lh_inv ok hash cmp lh \<and> lh_hash lh = hf \<and> lh_comp lh = cf \<and>
    (\<forall>x. m x = (if ok x then OPENSSL_lh_retrieve ch cc lh x else None))"
  using assms
proof (induction rule: lh_run.induct)
  case (new obj mem lh)
  note n = new_spec[OF new(1)]
  have "OPENSSL_lh_retrieve ch cc lh x = None" if "ok x" for x
    using retrieve_iff[OF n(1) that, of ch cc] n new by (metis empty_iff not_None_eq)
  then show ?case using n by simp
next
  case (insert lh m d obj mem old lh')
  then have i: "lh_inv ok hash cmp lh" "ch (lh_hash lh) = hash" "cc (lh_comp lh) = cmp" by simp_all
  note s = insert_spec[where call_hash_func = ch and call_cmp_func = cc, OF i(1) insert.hyps(2) i(2,3) insert.hyps(3)]
  show ?case using retrieve_after(3)[where ch = ch and cc = cc, OF i s(3,5,4) _ insert.hyps(2)] s(6) insert s(3-5) by simp
next
  case (insert_failed lh m d obj mem old lh')
  then have i: "lh_inv ok hash cmp lh" "ch (lh_hash lh) = hash" "cc (lh_comp lh) = cmp" by simp_all
  note s = insert_spec[where call_hash_func = ch and call_cmp_func = cc, OF i(1) insert_failed.hyps(2) i(2,3) insert_failed.hyps(3)]
  show ?case using retrieve_after(1)[where ch = ch and cc = cc, OF i s(3,5,4) _ insert_failed.hyps(2)] s(6) insert_failed s(3-5) by simp
next
  case (delete lh m d mem old lh')
  then have i: "lh_inv ok hash cmp lh" "ch (lh_hash lh) = hash" "cc (lh_comp lh) = cmp" by simp_all
  note s = delete_spec[where call_hash_func = ch and call_cmp_func = cc, OF i(1) delete.hyps(2) i(2,3) delete.hyps(3)]
  show ?case using retrieve_after(2)[where ch = ch and cc = cc, OF i s(2,4,3) _ delete.hyps(2)] s(5) delete s(2-4) by simp
next
  case (doall lh m mem func arg arg' lh')
  then have i: "lh_inv ok hash cmp lh" "ch (lh_hash lh) = hash" "cc (lh_comp lh) = cmp" by simp_all
  note s = doall_spec[OF i(1) doall.hyps(2)]
  show ?case using retrieve_after(1)[where ch = ch and cc = cc, OF i s(2,5,4)] s(3) doall s(2-5) by simp
qed

lemma run_ran:
  assumes "lh_run ok ch cc hf cf lh m" "ch hf = hash" "cc cf = cmp"
  shows "ran m = stored lh"
proof -
  note i = run_inv[OF assms]
  have "m d = Some x \<longleftrightarrow> ok d \<and> x \<in> stored lh \<and> cmp x d = 0" for d x
    using retrieve_iff[of lh d ch cc x] i assms(2,3) by simp
  moreover have "ok x" if "x \<in> stored lh" for x using i that by (simp add: lh_inv_def)
  ultimately show ?thesis using cmp_refl unfolding ran_def by blast
qed

end

lemma retrieve_key_eq:
  assumes "key_hash = ch (lh_hash lh) d" "\<And>x. cmp_key key x = 0 \<longleftrightarrow> cc (lh_comp lh) x d = 0"
  shows "OPENSSL_lh_retrieve_key lh key key_hash cmp_key = OPENSSL_lh_retrieve ch cc lh d"
  using assms by (simp add: OPENSSL_lh_retrieve_key_def OPENSSL_lh_retrieve_def get_next_ptr_by_key_def get_next_ptr_and_hash_def Let_def)

lemma fold_snoc: "fold (\<lambda>x ys. ys @ [x]) zs ys = ys @ zs"
  by (induction zs arbitrary: ys) simp_all

text \<open>
  C14. A hash table is the map that its insertions and deletions spell out, whatever its hash
  function, its resizings and the allocations that fail on the way: after any run of calls a lookup
  gives the element last inserted among those equal to the one looked for, a lookup by key and hash
  gives the same, an insertion returns the element it replaces and fails only if it needs memory it
  does not get, a deletion returns the element it removes, the count is the number of elements, and
  an iteration visits each of them once.
\<close>

theorem lhash_refines_map:
  assumes key: "lhash_key ok (ch hf) (cc cf)" and run: "lh_run ok ch cc hf cf lh m" and d: "ok d"
  shows "OPENSSL_lh_retrieve ch cc lh d = m d \<and>
    ((\<forall>x. cmp_key k x = 0 \<longleftrightarrow> cc cf x d = 0) \<longrightarrow> OPENSSL_lh_retrieve_key lh k (ch hf d) cmp_key = m d) \<and>
    (\<exists>lh'. OPENSSL_lh_insert ch cc obj mem lh d = (obj \<or> m d \<noteq> None, m d, lh')) \<and>
    (\<exists>lh'. OPENSSL_lh_delete ch cc mem lh d = (m d, lh')) \<and>
    OPENSSL_lh_num_items lh = of_nat (card (ran m)) \<and>
    (\<exists>xs lh'. OPENSSL_lh_doall_arg mem lh (\<lambda>x ys. ys @ [x]) [] = (xs, lh') \<and> distinct xs \<and> set xs = ran m)"
proof (intro conjI impI)
  note i = lhash_key.run_inv[OF key run refl refl]
  note ran = lhash_key.run_ran[OF key run refl refl]
  have inv: "lh_inv ok (ch hf) (cc cf) lh" "ch (lh_hash lh) = ch hf" "cc (lh_comp lh) = cc cf" using i by simp_all
  show r: "OPENSSL_lh_retrieve ch cc lh d = m d" using i d by simp
  show "OPENSSL_lh_retrieve_key lh k (ch hf d) cmp_key = m d" if "\<forall>x. cmp_key k x = 0 \<longleftrightarrow> cc cf x d = 0"
    using retrieve_key_eq[of "ch hf d" ch lh d cmp_key k cc] that i d by simp
  obtain suc old lh' where ins: "OPENSSL_lh_insert ch cc obj mem lh d = (suc, old, lh')" using prod_cases3 by blast
  show "\<exists>lh'. OPENSSL_lh_insert ch cc obj mem lh d = (obj \<or> m d \<noteq> None, m d, lh')"
    using lhash_key.insert_spec(1,2)[where call_hash_func = ch and call_cmp_func = cc, OF key inv(1) d inv(2,3) ins] r ins by auto
  obtain old' lh'' where del: "OPENSSL_lh_delete ch cc mem lh d = (old', lh'')" by (cases "OPENSSL_lh_delete ch cc mem lh d")
  show "\<exists>lh'. OPENSSL_lh_delete ch cc mem lh d = (m d, lh')"
    using lhash_key.delete_spec(1)[where call_hash_func = ch and call_cmp_func = cc, OF key inv(1) d inv(2,3) del] r del by auto
  have ds: "distinct (map it_data (table_items lh))" and n: "num_items lh = of_nat (length (table_items lh))"
    using inv(1) by (simp_all add: lh_inv_def)
  have "card (ran m) = length (table_items lh)" using distinct_card[OF ds] by (simp add: ran stored_def)
  then show "OPENSSL_lh_num_items lh = of_nat (card (ran m))" by (simp add: OPENSSL_lh_num_items_def n)
  obtain xs lh3 where da: "OPENSSL_lh_doall_arg mem lh (\<lambda>x ys. ys @ [x]) [] = (xs, lh3)" by (cases "OPENSSL_lh_doall_arg mem lh (\<lambda>x ys. ys @ [x]) []")
  have "xs = map it_data (table_items lh)" using doall_spec(1)[OF inv(1) da] by (simp add: fold_snoc)
  then show "\<exists>xs lh'. OPENSSL_lh_doall_arg mem lh (\<lambda>x ys. ys @ [x]) [] = (xs, lh') \<and> distinct xs \<and> set xs = ran m"
    using da ds by (auto simp: ran stored_def)
qed

definition by_last_digit :: "nat \<Rightarrow> uint32" where
  "by_last_digit x = of_nat (x mod 10)"

definition compare_last_digit :: "nat \<Rightarrow> nat \<Rightarrow> int" where
  "compare_last_digit x y = int (x mod 10) - int (y mod 10)"

theorem lhash_refines_map_witness:
  "\<exists>lh m. lh_run (\<lambda>_. True) (\<lambda>f. f) (\<lambda>f. f) by_last_digit compare_last_digit lh m \<and>
     OPENSSL_lh_retrieve (\<lambda>f. f) (\<lambda>f. f) lh 35 = Some 25 \<and> OPENSSL_lh_retrieve (\<lambda>f. f) (\<lambda>f. f) lh 36 = None"
proof -
  let ?run = "lh_run (\<lambda>_. True) (\<lambda>f. f) (\<lambda>f. f) by_last_digit compare_last_digit"
  have key: "lhash_key (\<lambda>_. True) by_last_digit compare_last_digit"
    by unfold_locales (simp_all add: by_last_digit_def compare_last_digit_def)
  obtain lh0 where "OPENSSL_lh_new True (\<lambda>_. True) by_last_digit compare_last_digit = Some lh0" by (simp add: OPENSSL_lh_new_def)
  then have r0: "?run lh0 Map.empty" by (rule lh_run.new)
  obtain lh1 where i1: "OPENSSL_lh_insert (\<lambda>f. f) (\<lambda>f. f) True (\<lambda>_. True) lh0 15 = (True, None, lh1)"
    using lhash_refines_map[OF key r0, of 15 "\<lambda>_ _. 0" "()" True "\<lambda>_. True"] by auto
  note r1 = lh_run.insert[OF r0 TrueI i1]
  obtain lh2 where i2: "OPENSSL_lh_insert (\<lambda>f. f) (\<lambda>f. f) True (\<lambda>_. True) lh1 25 = (True, Some 15, lh2)"
    using lhash_refines_map[OF key r1, of 25 "\<lambda>_ _. 0" "()" True "\<lambda>_. True"] by (auto simp: compare_last_digit_def)
  note r2 = lh_run.insert[OF r1 TrueI i2]
  have "OPENSSL_lh_retrieve (\<lambda>f. f) (\<lambda>f. f) lh2 35 = Some 25" "OPENSSL_lh_retrieve (\<lambda>f. f) (\<lambda>f. f) lh2 36 = None"
    using lhash_refines_map[OF key r2, of 35 "\<lambda>_ _. 0" "()"] lhash_refines_map[OF key r2, of 36 "\<lambda>_ _. 0" "()"] by (simp_all add: compare_last_digit_def)
  then show ?thesis using r2 by blast
qed

end
