(* ===== verification/Obj.thy ===== *)
theory Obj
  imports Lhash Oid
begin

text \<open>
  The object registry of BoringSSL, \<^verbatim>\<open>crypto/obj/obj.c\<close>, with the object structures of
  \<^verbatim>\<open>crypto/asn1/a_object.c\<close> and the string helpers of \<^verbatim>\<open>crypto/mem.c\<close> it calls: object identifiers with a
  numeric id, a short and a long name, found by each of them in the compiled-in tables or in the hash
  tables of the objects added at run time.
\<close>

section \<open>Strings and hashes\<close>

text \<open>C strings are the bytes before their NUL. \<open>strcmp\<close> compares as unsigned characters.\<close>

fun strcmp :: "byte list \<Rightarrow> byte list \<Rightarrow> int" where
  "strcmp (x # xs) (y # ys) = (if x = y then strcmp xs ys else uint x - uint y)"
| "strcmp [] (y # ys) = - uint y"
| "strcmp (x # xs) [] = uint x"
| "strcmp [] [] = 0"

definition OPENSSL_hash32 :: "byte list \<Rightarrow> uint32" where
  "OPENSSL_hash32 bs = fold (\<lambda>b h. (h XOR ucast b) * 16777619) bs 2166136261"

definition OPENSSL_strhash :: "byte list \<Rightarrow> uint32" where
  "OPENSSL_strhash s = OPENSSL_hash32 s"

text \<open>The copying loop at position \<open>i\<close> of the destination, with \<open>n\<close> contents left in it.\<close>

primrec strlcpy_loop :: "byte list \<Rightarrow> nat \<Rightarrow> byte list \<Rightarrow> nat \<Rightarrow> size_t \<times> byte list" where
  "strlcpy_loop [] i dst n = (0, if n \<noteq> 0 then dst[i := 0] else dst)"
| "strlcpy_loop (c # src) i dst n =
     (if n > 1 then (case strlcpy_loop src (Suc i) (dst[i := c]) (n - 1) of (l, dst) \<Rightarrow> (l + 1, dst))
      else (of_nat (length (c # src)), if n \<noteq> 0 then dst[i := 0] else dst))"

definition OPENSSL_strlcpy :: "byte list \<Rightarrow> byte list \<Rightarrow> size_t \<Rightarrow> size_t \<times> byte list" where
  "OPENSSL_strlcpy dst src dst_size = strlcpy_loop src 0 dst (unat dst_size)"

section \<open>Objects\<close>

text \<open>
  Objects are not changed once they are initialised, so pointers to them are represented by their
  values. A NULL name or NULL contents are \<open>None\<close>.
\<close>

record ASN1_OBJECT =
  sn :: "byte list option"
  ln :: "byte list option"
  nid :: int
  obj_length :: int
  obj_data :: "byte list option"
  flags :: uint32

abbreviation ASN1_OBJECT_FLAG_DYNAMIC :: uint32 where "ASN1_OBJECT_FLAG_DYNAMIC \<equiv> 1"
abbreviation ASN1_OBJECT_FLAG_DYNAMIC_STRINGS :: uint32 where "ASN1_OBJECT_FLAG_DYNAMIC_STRINGS \<equiv> 4"
abbreviation ASN1_OBJECT_FLAG_DYNAMIC_DATA :: uint32 where "ASN1_OBJECT_FLAG_DYNAMIC_DATA \<equiv> 8"
abbreviation NID_undef :: int where "NID_undef \<equiv> 0"
abbreviation NUM_NID :: int where "NUM_NID \<equiv> 963"

text \<open>The bytes behind the contents pointer; nothing is read through a NULL one of length zero.\<close>

definition obj_bytes :: "ASN1_OBJECT \<Rightarrow> byte list" where
  "obj_bytes obj = (case obj_data obj of None \<Rightarrow> [] | Some bs \<Rightarrow> take (nat (obj_length obj)) bs)"

definition ASN1_OBJECT_new :: "bool \<Rightarrow> ASN1_OBJECT option" where
  "ASN1_OBJECT_new mem =
     (if \<not> mem then None
      else Some \<lparr>sn = None, ln = None, nid = 0, obj_length = 0, obj_data = None, flags = ASN1_OBJECT_FLAG_DYNAMIC\<rparr>)"

definition OPENSSL_strdup :: "bool \<Rightarrow> byte list option \<Rightarrow> byte list option" where
  "OPENSSL_strdup mem s = (if s = None then None else if \<not> mem then None else s)"

text \<open>
  \<open>mem 0\<close>, \<open>mem 1\<close> and \<open>mem 2\<close> say whether the allocations of the structure, of the long name and of
  the short name succeed; \<open>malloc\<close> allocates the contents.
\<close>

definition OBJ_dup :: "alloc \<Rightarrow> (nat \<Rightarrow> bool) \<Rightarrow> ASN1_OBJECT option \<Rightarrow> ASN1_OBJECT option" where
  "OBJ_dup malloc mem p =
     (case p of None \<Rightarrow> None | Some ob \<Rightarrow>
      if flags ob AND ASN1_OBJECT_FLAG_DYNAMIC = 0 then Some ob
      else case ASN1_OBJECT_new (mem 0) of None \<Rightarrow> None | Some r \<Rightarrow>
      case OPENSSL_malloc malloc (of_int (obj_length ob)) of None \<Rightarrow> None | Some contents \<Rightarrow>
        let contents = (case obj_data ob of None \<Rightarrow> contents | Some bs \<Rightarrow> memcpy_at contents 0 (take (nat (obj_length ob)) bs));
            r = r\<lparr>obj_data := Some contents, obj_length := obj_length ob, nid := nid ob\<rparr>;
            ln' = OPENSSL_strdup (mem 1) (ln ob);
            sn' = OPENSSL_strdup (mem 2) (sn ob)
        in if ln ob \<noteq> None \<and> ln' = None then None
           else if sn ob \<noteq> None \<and> sn' = None then None
           else Some (r\<lparr>sn := sn', ln := ln', flags := flags ob OR (ASN1_OBJECT_FLAG_DYNAMIC OR
                  ASN1_OBJECT_FLAG_DYNAMIC_STRINGS OR ASN1_OBJECT_FLAG_DYNAMIC_DATA)\<rparr>))"

definition ASN1_OBJECT_create ::
  "alloc \<Rightarrow> (nat \<Rightarrow> bool) \<Rightarrow> int \<Rightarrow> byte list option \<Rightarrow> int \<Rightarrow> byte list option \<Rightarrow> byte list option \<Rightarrow> ASN1_OBJECT option" where
  "ASN1_OBJECT_create malloc mem n contents len s l =
     OBJ_dup malloc mem
       (Some \<lparr>sn = s, ln = l, nid = n, obj_length = len, obj_data = contents, flags = ASN1_OBJECT_FLAG_DYNAMIC OR
         ASN1_OBJECT_FLAG_DYNAMIC_STRINGS OR ASN1_OBJECT_FLAG_DYNAMIC_DATA\<rparr>)"

text \<open>The differences of lengths and of numeric ids, both not negative, do not overflow.\<close>

definition OBJ_cmp :: "ASN1_OBJECT \<Rightarrow> ASN1_OBJECT \<Rightarrow> int" where
  "OBJ_cmp a b =
     (let ret = obj_length a - obj_length b in if ret \<noteq> 0 then ret else memcmp (obj_bytes a) (obj_bytes b))"

definition OBJ_get0_data :: "ASN1_OBJECT option \<Rightarrow> byte list option" where
  "OBJ_get0_data p = (case p of None \<Rightarrow> None | Some obj \<Rightarrow> obj_data obj)"

definition OBJ_length :: "ASN1_OBJECT option \<Rightarrow> size_t" where
  "OBJ_length p = (case p of None \<Rightarrow> 0 | Some obj \<Rightarrow> if obj_length obj < 0 then 0 else of_int (obj_length obj))"

section \<open>The tables\<close>

definition hash_nid :: "ASN1_OBJECT \<Rightarrow> uint32" where
  "hash_nid obj = of_int (nid obj)"

definition cmp_nid :: "ASN1_OBJECT \<Rightarrow> ASN1_OBJECT \<Rightarrow> int" where
  "cmp_nid a b = nid a - nid b"

definition hash_data :: "ASN1_OBJECT \<Rightarrow> uint32" where
  "hash_data obj = OPENSSL_hash32 (obj_bytes obj)"

definition cmp_data :: "ASN1_OBJECT \<Rightarrow> ASN1_OBJECT \<Rightarrow> int" where
  "cmp_data a b = (let i = obj_length a - obj_length b in if i \<noteq> 0 then i else memcmp (obj_bytes a) (obj_bytes b))"

definition hash_short_name :: "ASN1_OBJECT \<Rightarrow> uint32" where
  "hash_short_name obj = OPENSSL_strhash (the (sn obj))"

definition cmp_short_name :: "ASN1_OBJECT \<Rightarrow> ASN1_OBJECT \<Rightarrow> int" where
  "cmp_short_name a b = strcmp (the (sn a)) (the (sn b))"

definition hash_long_name :: "ASN1_OBJECT \<Rightarrow> uint32" where
  "hash_long_name obj = OPENSSL_strhash (the (ln obj))"

definition cmp_long_name :: "ASN1_OBJECT \<Rightarrow> ASN1_OBJECT \<Rightarrow> int" where
  "cmp_long_name a b = strcmp (the (ln a)) (the (ln b))"

type_synonym obj_table = "ASN1_OBJECT LHASH option"

definition lh_ASN1_OBJECT_call_hash_func :: "ASN1_OBJECT hash_helper" where
  "lh_ASN1_OBJECT_call_hash_func func a = func a"

definition lh_ASN1_OBJECT_call_cmp_func :: "ASN1_OBJECT cmp_helper" where
  "lh_ASN1_OBJECT_call_cmp_func func a b = func a b"

text \<open>A call on a NULL table dereferences it; the result \<open>None\<close> stands for that.\<close>

definition lh_ASN1_OBJECT_insert ::
  "bool \<Rightarrow> (size_t \<Rightarrow> bool) \<Rightarrow> obj_table \<Rightarrow> ASN1_OBJECT \<Rightarrow> (bool \<times> ASN1_OBJECT option \<times> obj_table) option" where
  "lh_ASN1_OBJECT_insert obj mem t ob =
     (case t of None \<Rightarrow> None
      | Some lh \<Rightarrow> (case OPENSSL_lh_insert lh_ASN1_OBJECT_call_hash_func lh_ASN1_OBJECT_call_cmp_func obj mem lh ob of
          (ret, old, lh) \<Rightarrow> Some (ret, old, Some lh)))"

definition lh_ASN1_OBJECT_retrieve :: "ASN1_OBJECT LHASH \<Rightarrow> ASN1_OBJECT \<Rightarrow> ASN1_OBJECT option" where
  "lh_ASN1_OBJECT_retrieve lh ob = OPENSSL_lh_retrieve lh_ASN1_OBJECT_call_hash_func lh_ASN1_OBJECT_call_cmp_func lh ob"

text \<open>The global variables. The locks around their uses are not modelled.\<close>

record obj_state =
  global_added_by_data :: obj_table
  global_added_by_nid :: obj_table
  global_added_by_short_name :: obj_table
  global_added_by_long_name :: obj_table
  global_next_nid :: uint32

definition obj_next_nid :: "obj_state \<Rightarrow> int \<times> obj_state" where
  "obj_next_nid g = (sint (global_next_nid g), g\<lparr>global_next_nid := global_next_nid g + 1\<rparr>)"

text \<open>
  \<open>ob k\<close> and \<open>mem k\<close> say which allocations succeed, of the four tables (\<open>k\<close> from 0 to 3) and of the
  four insertions (\<open>k\<close> from 4 to 7).
\<close>

definition insert_when ::
  "bool \<Rightarrow> bool \<Rightarrow> (size_t \<Rightarrow> bool) \<Rightarrow> obj_table \<Rightarrow> ASN1_OBJECT \<Rightarrow> (bool \<times> obj_table) option" where
  "insert_when b obj mem t ob =
     (if b then map_option (\<lambda>(ok, _, t). (ok, t)) (lh_ASN1_OBJECT_insert obj mem t ob) else Some (True, t))"

definition new_tables :: "(nat \<Rightarrow> bool) \<Rightarrow> (nat \<Rightarrow> size_t \<Rightarrow> bool) \<Rightarrow> obj_state \<Rightarrow> obj_state" where
  "new_tables obs mem g =
     (if global_added_by_nid g = None then
        g\<lparr>global_added_by_nid := OPENSSL_lh_new (obs 0) (mem 0) hash_nid cmp_nid,
          global_added_by_data := OPENSSL_lh_new (obs 1) (mem 1) hash_data cmp_data,
          global_added_by_short_name := OPENSSL_lh_new (obs 2) (mem 2) hash_short_name cmp_short_name,
          global_added_by_long_name := OPENSSL_lh_new (obs 3) (mem 3) hash_long_name cmp_long_name\<rparr>
      else g)"

definition obj_add_object ::
  "(nat \<Rightarrow> bool) \<Rightarrow> (nat \<Rightarrow> size_t \<Rightarrow> bool) \<Rightarrow> ASN1_OBJECT \<Rightarrow> obj_state \<Rightarrow> (bool \<times> ASN1_OBJECT \<times> obj_state) option" where
  "obj_add_object obs mem ob g =
     (let ob = ob\<lparr>flags := flags ob AND NOT (ASN1_OBJECT_FLAG_DYNAMIC OR ASN1_OBJECT_FLAG_DYNAMIC_STRINGS OR
                 ASN1_OBJECT_FLAG_DYNAMIC_DATA)\<rparr>;
          g = new_tables obs mem g
      in case insert_when True (obs 4) (mem 4) (global_added_by_nid g) ob of None \<Rightarrow> None | Some (ok0, tn) \<Rightarrow>
         case insert_when (obj_length ob \<noteq> 0 \<and> obj_data ob \<noteq> None) (obs 5) (mem 5) (global_added_by_data g) ob of
           None \<Rightarrow> None | Some (ok1, td) \<Rightarrow>
         case insert_when (sn ob \<noteq> None) (obs 6) (mem 6) (global_added_by_short_name g) ob of None \<Rightarrow> None | Some (ok2, ts) \<Rightarrow>
         case insert_when (ln ob \<noteq> None) (obs 7) (mem 7) (global_added_by_long_name g) ob of None \<Rightarrow> None | Some (ok3, tln) \<Rightarrow>
         Some (ok0 \<and> ok1 \<and> ok2 \<and> ok3, ob,
           g\<lparr>global_added_by_nid := tn, global_added_by_data := td, global_added_by_short_name := ts,
             global_added_by_long_name := tln\<rparr>))"

section \<open>Lookups\<close>

text \<open>
  The tables of the generated file \<^verbatim>\<open>obj_dat.h\<close> and the C library's \<open>bsearch\<close>, which is given the
  comparison with the key. \<open>junk\<close> is what the uninitialised fields of a template hold.
\<close>

record obj_tables =
  kObjects :: "ASN1_OBJECT list"
  kNIDsInOIDOrder :: "uint16 list"
  kNIDsInShortNameOrder :: "uint16 list"
  kNIDsInLongNameOrder :: "uint16 list"
  bsearch :: "(uint16 \<Rightarrow> int) \<Rightarrow> uint16 list \<Rightarrow> uint16 option"
  junk :: ASN1_OBJECT

definition obj_cmp :: "obj_tables \<Rightarrow> ASN1_OBJECT \<Rightarrow> uint16 \<Rightarrow> int" where
  "obj_cmp tb a elem =
     (let b = kObjects tb ! unat elem
      in if obj_length a < obj_length b then - 1
         else if obj_length a > obj_length b then 1
         else memcmp (obj_bytes a) (obj_bytes b))"

definition short_name_cmp :: "obj_tables \<Rightarrow> byte list \<Rightarrow> uint16 \<Rightarrow> int" where
  "short_name_cmp tb name elem = strcmp name (the (sn (kObjects tb ! unat elem)))"

definition long_name_cmp :: "obj_tables \<Rightarrow> byte list \<Rightarrow> uint16 \<Rightarrow> int" where
  "long_name_cmp tb name elem = strcmp name (the (ln (kObjects tb ! unat elem)))"

definition added :: "obj_table \<Rightarrow> ASN1_OBJECT \<Rightarrow> ASN1_OBJECT option" where
  "added t template = (case t of None \<Rightarrow> None | Some lh \<Rightarrow> lh_ASN1_OBJECT_retrieve lh template)"

definition nid_at :: "obj_tables \<Rightarrow> uint16 option \<Rightarrow> int" where
  "nid_at tb nid_ptr = (case nid_ptr of None \<Rightarrow> NID_undef | Some i \<Rightarrow> nid (kObjects tb ! unat i))"

definition OBJ_obj2nid :: "obj_tables \<Rightarrow> obj_state \<Rightarrow> ASN1_OBJECT option \<Rightarrow> int" where
  "OBJ_obj2nid tb g p =
     (case p of None \<Rightarrow> NID_undef | Some obj \<Rightarrow>
      if nid obj \<noteq> 0 then nid obj
      else case added (global_added_by_data g) obj of
        Some m \<Rightarrow> nid m
      | None \<Rightarrow> nid_at tb (bsearch tb (obj_cmp tb obj) (kNIDsInOIDOrder tb)))"

definition OBJ_cbs2nid :: "obj_tables \<Rightarrow> heap \<Rightarrow> obj_state \<Rightarrow> CBS \<Rightarrow> int" where
  "OBJ_cbs2nid tb m g cbs =
     (if CBS_len cbs > 0x7fffffff then NID_undef
      else OBJ_obj2nid tb g
        (Some \<lparr>sn = None, ln = None, nid = 0, obj_length = uint (CBS_len cbs),
               obj_data = Some (read_bytes m (cb_data cbs) (unat (CBS_len cbs))), flags = 0\<rparr>))"

definition OBJ_sn2nid :: "obj_tables \<Rightarrow> obj_state \<Rightarrow> byte list \<Rightarrow> int" where
  "OBJ_sn2nid tb g short_name =
     (case added (global_added_by_short_name g) ((junk tb)\<lparr>sn := Some short_name\<rparr>) of
        Some m \<Rightarrow> nid m
      | None \<Rightarrow> nid_at tb (bsearch tb (short_name_cmp tb short_name) (kNIDsInShortNameOrder tb)))"

definition OBJ_ln2nid :: "obj_tables \<Rightarrow> obj_state \<Rightarrow> byte list \<Rightarrow> int" where
  "OBJ_ln2nid tb g long_name =
     (case added (global_added_by_long_name g) ((junk tb)\<lparr>ln := Some long_name\<rparr>) of
        Some m \<Rightarrow> nid m
      | None \<Rightarrow> nid_at tb (bsearch tb (long_name_cmp tb long_name) (kNIDsInLongNameOrder tb)))"

definition OBJ_nid2obj :: "obj_tables \<Rightarrow> obj_state \<Rightarrow> int \<Rightarrow> ASN1_OBJECT option" where
  "OBJ_nid2obj tb g n =
     (if 0 \<le> n \<and> n < NUM_NID then
        if n \<noteq> NID_undef \<and> nid (kObjects tb ! nat n) = NID_undef then None else Some (kObjects tb ! nat n)
      else added (global_added_by_nid g) ((junk tb)\<lparr>nid := n\<rparr>))"

definition OBJ_nid2sn :: "obj_tables \<Rightarrow> obj_state \<Rightarrow> int \<Rightarrow> byte list option" where
  "OBJ_nid2sn tb g n = (case OBJ_nid2obj tb g n of None \<Rightarrow> None | Some obj \<Rightarrow> sn obj)"

definition OBJ_nid2ln :: "obj_tables \<Rightarrow> obj_state \<Rightarrow> int \<Rightarrow> byte list option" where
  "OBJ_nid2ln tb g n = (case OBJ_nid2obj tb g n of None \<Rightarrow> None | Some obj \<Rightarrow> ln obj)"

definition OBJ_nid2cbb :: "alloc \<Rightarrow> obj_tables \<Rightarrow> obj_state \<Rightarrow> int \<Rightarrow> cbb_state \<Rightarrow> unit option \<times> cbb_state" where
  "OBJ_nid2cbb malloc tb g n st =
     (case OBJ_nid2obj tb g n of None \<Rightarrow> (None, st)
      | Some obj \<Rightarrow>
          bindf (CBB_add_asn1 malloc 6) (\<lambda>_. bindf (on_child (CBB_add_bytes malloc (obj_bytes obj))) (\<lambda>_. CBB_flush malloc)) st)"

section \<open>Text\<close>

text \<open>The text of an identifier is at address 0 of a memory of its own.\<close>

definition create_object_with_text_oid ::
  "alloc \<Rightarrow> (nat \<Rightarrow> bool) \<Rightarrow> (obj_state \<Rightarrow> int \<times> obj_state) option \<Rightarrow> byte list \<Rightarrow> byte list option \<Rightarrow> byte list option \<Rightarrow> obj_state
    \<Rightarrow> ASN1_OBJECT option \<times> obj_state" where
  "create_object_with_text_oid malloc mem get_nid oid short_name long_name g =
     (case CBB_init malloc 32 of None \<Rightarrow> (None, g) | Some cbb \<Rightarrow>
      case CBB_add_asn1_oid_from_text malloc (\<lambda>i. oid ! i) 0 (of_nat (length oid)) cbb of (None, _) \<Rightarrow> (None, g) | (Some _, cbb) \<Rightarrow>
      case CBB_finish malloc False False cbb of None \<Rightarrow> (None, g) | Some (contents, len) \<Rightarrow>
      case (case get_nid of None \<Rightarrow> (NID_undef, g) | Some f \<Rightarrow> f g) of (n, g) \<Rightarrow>
        (ASN1_OBJECT_create malloc mem n (Some contents) (sint (ucast len :: uint32)) short_name long_name, g))"

definition OBJ_txt2obj :: "alloc \<Rightarrow> (nat \<Rightarrow> bool) \<Rightarrow> obj_tables \<Rightarrow> obj_state \<Rightarrow> byte list \<Rightarrow> bool \<Rightarrow> ASN1_OBJECT option" where
  "OBJ_txt2obj malloc mem tb g s dont_search_names =
     (let n = (if dont_search_names then NID_undef
               else let n = OBJ_sn2nid tb g s in if n = NID_undef then OBJ_ln2nid tb g s else n)
      in if n \<noteq> NID_undef then OBJ_nid2obj tb g n
         else fst (create_object_with_text_oid malloc mem None s None None g))"

definition OBJ_txt2nid :: "alloc \<Rightarrow> (nat \<Rightarrow> bool) \<Rightarrow> obj_tables \<Rightarrow> obj_state \<Rightarrow> byte list \<Rightarrow> int" where
  "OBJ_txt2nid malloc mem tb g s = OBJ_obj2nid tb g (OBJ_txt2obj malloc mem tb g s False)"

definition strlcpy_int :: "byte list \<Rightarrow> byte list \<Rightarrow> int \<Rightarrow> int \<times> byte list" where
  "strlcpy_int dst src dst_size =
     (case OPENSSL_strlcpy dst src (if dst_size < 0 then 0 else of_int dst_size) of
        (ret, dst) \<Rightarrow> if ret > 0x7fffffff then (- 1, dst) else (uint ret, dst))"

text \<open>The contents of the object are at address 0 of a memory of their own.\<close>

definition OBJ_obj2txt ::
  "alloc \<Rightarrow> obj_tables \<Rightarrow> obj_state \<Rightarrow> byte list \<Rightarrow> int \<Rightarrow> ASN1_OBJECT option \<Rightarrow> bool \<Rightarrow> int \<times> byte list" where
  "OBJ_obj2txt malloc tb g out out_len p always_return_oid =
     (case p of None \<Rightarrow> strlcpy_int out [] out_len | Some obj \<Rightarrow>
      if obj_length obj = 0 then strlcpy_int out [] out_len
      else
        let n = (if always_return_oid then NID_undef else OBJ_obj2nid tb g (Some obj));
            name = (if n = NID_undef then None else
                    case OBJ_nid2ln tb g n of None \<Rightarrow> OBJ_nid2sn tb g n | Some name \<Rightarrow> Some name)
        in case name of
             Some name \<Rightarrow> strlcpy_int out name out_len
           | None \<Rightarrow>
               (case CBS_asn1_oid_to_text malloc (\<lambda>i. the (obj_data obj) ! i) (CBS_init 0 (of_int (obj_length obj))) of
                  None \<Rightarrow> (- 1, if out_len > 0 then out[0 := 0] else out)
                | Some name \<Rightarrow> strlcpy_int out (takeWhile (\<lambda>c. c \<noteq> 0) name) out_len))"

definition OBJ_create ::
  "alloc \<Rightarrow> (nat \<Rightarrow> bool) \<Rightarrow> (nat \<Rightarrow> bool) \<Rightarrow> (nat \<Rightarrow> size_t \<Rightarrow> bool) \<Rightarrow> byte list \<Rightarrow> byte list option \<Rightarrow> byte list option \<Rightarrow> obj_state
    \<Rightarrow> (int \<times> obj_state) option" where
  "OBJ_create malloc mem obs tmem oid short_name long_name g =
     (case create_object_with_text_oid malloc mem (Some obj_next_nid) oid short_name long_name g of
        (None, g) \<Rightarrow> Some (NID_undef, g)
      | (Some op, g) \<Rightarrow>
          (case obj_add_object obs tmem op g of None \<Rightarrow> None
           | Some (ok, op, g) \<Rightarrow> Some (if ok then nid op else NID_undef, g)))"

section \<open>Signature algorithms\<close>

text \<open>
  The table of \<^verbatim>\<open>obj_xref.c\<close> with the numbers of \<^verbatim>\<open>nid.h\<close>: RSA, DSA and ECDSA with the digests, RSA-PSS and
  Ed25519. The output pointers are not NULL.
\<close>

record nid_triple =
  sign_nid :: int
  digest_nid :: int
  pkey_nid :: int

definition kTriples :: "nid_triple list" where
  "kTriples =
    [\<lparr>sign_nid = 396, digest_nid = 257, pkey_nid = 6\<rparr>, \<lparr>sign_nid = 8, digest_nid = 4, pkey_nid = 6\<rparr>,
     \<lparr>sign_nid = 65, digest_nid = 64, pkey_nid = 6\<rparr>, \<lparr>sign_nid = 671, digest_nid = 675, pkey_nid = 6\<rparr>,
     \<lparr>sign_nid = 668, digest_nid = 672, pkey_nid = 6\<rparr>, \<lparr>sign_nid = 669, digest_nid = 673, pkey_nid = 6\<rparr>,
     \<lparr>sign_nid = 670, digest_nid = 674, pkey_nid = 6\<rparr>, \<lparr>sign_nid = 113, digest_nid = 64, pkey_nid = 116\<rparr>,
     \<lparr>sign_nid = 70, digest_nid = 64, pkey_nid = 67\<rparr>, \<lparr>sign_nid = 802, digest_nid = 675, pkey_nid = 116\<rparr>,
     \<lparr>sign_nid = 803, digest_nid = 672, pkey_nid = 116\<rparr>, \<lparr>sign_nid = 416, digest_nid = 64, pkey_nid = 408\<rparr>,
     \<lparr>sign_nid = 793, digest_nid = 675, pkey_nid = 408\<rparr>, \<lparr>sign_nid = 794, digest_nid = 672, pkey_nid = 408\<rparr>,
     \<lparr>sign_nid = 795, digest_nid = 673, pkey_nid = 408\<rparr>, \<lparr>sign_nid = 796, digest_nid = 674, pkey_nid = 408\<rparr>,
     \<lparr>sign_nid = 912, digest_nid = 0, pkey_nid = 6\<rparr>, \<lparr>sign_nid = 949, digest_nid = 0, pkey_nid = 949\<rparr>]"

definition OBJ_find_sigid_algs :: "int \<Rightarrow> (int \<times> int) option" where
  "OBJ_find_sigid_algs s = map_option (\<lambda>t. (digest_nid t, pkey_nid t)) (find (\<lambda>t. sign_nid t = s) kTriples)"

definition OBJ_find_sigid_by_algs :: "int \<Rightarrow> int \<Rightarrow> int option" where
  "OBJ_find_sigid_by_algs d k = map_option sign_nid (find (\<lambda>t. digest_nid t = d \<and> pkey_nid t = k) kTriples)"

section \<open>Tables keyed by a field\<close>

lemma call_helpers [simp]: "lh_ASN1_OBJECT_call_hash_func = (\<lambda>f. f)" "lh_ASN1_OBJECT_call_cmp_func = (\<lambda>f. f)"
  by (simp_all add: fun_eq_iff lh_ASN1_OBJECT_call_hash_func_def lh_ASN1_OBJECT_call_cmp_func_def)

lemma strcmp_eq_0: "0 \<notin> set a \<Longrightarrow> 0 \<notin> set b \<Longrightarrow> strcmp a b = 0 \<longleftrightarrow> a = b"
  by (induction a b rule: strcmp.induct) (auto simp: word_uint_eq_iff)

text \<open>The comparison is equality of a key, on which the hash depends.\<close>

locale keyed_table =
  fixes ok :: "ASN1_OBJECT \<Rightarrow> bool" and hash :: "ASN1_OBJECT \<Rightarrow> uint32" and cmp :: "ASN1_OBJECT \<Rightarrow> ASN1_OBJECT \<Rightarrow> int"
    and key :: "ASN1_OBJECT \<Rightarrow> 'k"
  assumes cmp_key: "ok a \<Longrightarrow> ok b \<Longrightarrow> cmp a b = 0 \<longleftrightarrow> key a = key b"
    and hash_key: "ok a \<Longrightarrow> ok b \<Longrightarrow> key a = key b \<Longrightarrow> hash a = hash b"

sublocale keyed_table \<subseteq> lhash_key ok hash cmp
  by unfold_locales (auto simp: cmp_key intro: hash_key)

text \<open>A table that holds the objects of a map from keys, or the empty map when it does not exist.\<close>

definition table_is ::
  "(ASN1_OBJECT \<Rightarrow> bool) \<Rightarrow> (ASN1_OBJECT \<Rightarrow> uint32) \<Rightarrow> (ASN1_OBJECT \<Rightarrow> ASN1_OBJECT \<Rightarrow> int) \<Rightarrow> (ASN1_OBJECT \<Rightarrow> 'k) \<Rightarrow> obj_table
    \<Rightarrow> ('k \<rightharpoonup> ASN1_OBJECT) \<Rightarrow> bool" where
  "table_is ok hash cmp key t M \<longleftrightarrow>
     (case t of None \<Rightarrow> M = Map.empty
      | Some lh \<Rightarrow> lh_inv ok hash cmp lh \<and> lh_hash lh = hash \<and> lh_comp lh = cmp \<and>
          (\<forall>x. ok x \<longrightarrow> lh_ASN1_OBJECT_retrieve lh x = M (key x)))"

lemma table_lookup: "table_is ok hash cmp key t M \<Longrightarrow> ok x \<Longrightarrow> added t x = M (key x)"
  by (auto simp: table_is_def added_def split: option.splits)

context keyed_table
begin

lemma table_new: "table_is ok hash cmp key (OPENSSL_lh_new obj mem hash cmp) Map.empty"
proof (cases "OPENSSL_lh_new obj mem hash cmp")
  case (Some lh)
  note n = new_spec(1)[OF Some, of ok hash cmp] new_spec(2-4)[OF Some]
  have "lh_ASN1_OBJECT_retrieve lh x = None" if "ok x" for x
    using retrieve_iff[OF n(1) that, of "\<lambda>f. f" "\<lambda>f. f"] n(2-4) by (auto simp: lh_ASN1_OBJECT_retrieve_def)
  then show ?thesis using n Some by (simp add: table_is_def)
qed (simp add: table_is_def)

lemma table_insert:
  assumes t: "table_is ok hash cmp key t M" and x: "ok x" and ins: "lh_ASN1_OBJECT_insert obj mem t x = Some (suc, old, t')"
  shows "table_is ok hash cmp key t' (if suc then M(key x \<mapsto> x) else M)" "t' \<noteq> None" "obj \<Longrightarrow> suc" "old = M (key x)"
proof -
  obtain lh lh' where lh: "t = Some lh" "t' = Some lh'"
    and ins': "OPENSSL_lh_insert (\<lambda>f. f) (\<lambda>f. f) obj mem lh x = (suc, old, lh')"
    using ins by (auto simp: lh_ASN1_OBJECT_insert_def split: option.splits prod.splits)
  have inv: "lh_inv ok hash cmp lh" "lh_hash lh = hash" "lh_comp lh = cmp" "\<forall>x. ok x \<longrightarrow> lh_ASN1_OBJECT_retrieve lh x = M (key x)"
    using t lh by (simp_all add: table_is_def)
  note s = insert_spec[where call_hash_func = "\<lambda>f. f" and call_cmp_func = "\<lambda>f. f", OF inv(1) x inv(2,3) ins']
  note after = retrieve_after[where ch = "\<lambda>f. f" and cc = "\<lambda>f. f", OF inv(1-3) s(3,5,4) _ x]
  have "lh_ASN1_OBJECT_retrieve lh' y = (if suc then M(key x \<mapsto> x) else M) (key y)" if "ok y" for y
  proof (cases suc)
    case True
    then show ?thesis using after(3)[OF that] s(6) inv(4) that cmp_key[OF x that] by (auto simp: lh_ASN1_OBJECT_retrieve_def)
  next
    case False
    then show ?thesis using after(1)[OF that] s(6) inv(4) that by (auto simp: lh_ASN1_OBJECT_retrieve_def)
  qed
  then show "table_is ok hash cmp key t' (if suc then M(key x \<mapsto> x) else M)"
    unfolding table_is_def lh using s(3-5) inv by simp
  show "t' \<noteq> None" "obj \<Longrightarrow> suc" "old = M (key x)" using lh s(1,2) inv(4) x by (auto simp: lh_ASN1_OBJECT_retrieve_def)
qed

lemma table_insert_when:
  assumes "table_is ok hash cmp key t M" "b \<Longrightarrow> ok x" "insert_when b obj mem t x = Some (suc, t')"
  shows "table_is ok hash cmp key t' (if b \<and> suc then M(key x \<mapsto> x) else M)" "t \<noteq> None \<Longrightarrow> t' \<noteq> None" "obj \<Longrightarrow> suc"
  using table_insert[OF assms(1), of x obj mem suc _ t'] assms
  by (auto simp: insert_when_def split: if_splits)

end

text \<open>The objects that the four tables hold, and the keys.\<close>

definition data_ok :: "ASN1_OBJECT \<Rightarrow> bool" where
  "data_ok x \<longleftrightarrow> obj_length x = int (length (obj_bytes x))"

definition sn_ok :: "ASN1_OBJECT \<Rightarrow> bool" where
  "sn_ok x \<longleftrightarrow> (\<exists>s. sn x = Some s \<and> 0 \<notin> set s)"

definition ln_ok :: "ASN1_OBJECT \<Rightarrow> bool" where
  "ln_ok x \<longleftrightarrow> (\<exists>s. ln x = Some s \<and> 0 \<notin> set s)"

interpretation nid_table: keyed_table "\<lambda>_. True" hash_nid cmp_nid nid
  by unfold_locales (auto simp: hash_nid_def cmp_nid_def)

interpretation data_table: keyed_table data_ok hash_data cmp_data obj_bytes
  by unfold_locales (auto simp: hash_data_def cmp_data_def data_ok_def Let_def memcmp_eq_0)

interpretation sn_table: keyed_table sn_ok hash_short_name cmp_short_name "\<lambda>x. the (sn x)"
  by unfold_locales (auto simp: hash_short_name_def cmp_short_name_def sn_ok_def strcmp_eq_0)

interpretation ln_table: keyed_table ln_ok hash_long_name cmp_long_name "\<lambda>x. the (ln x)"
  by unfold_locales (auto simp: hash_long_name_def cmp_long_name_def ln_ok_def strcmp_eq_0)

section \<open>The registry\<close>

record registry =
  of_nid :: "int \<rightharpoonup> ASN1_OBJECT"
  of_data :: "byte list \<rightharpoonup> ASN1_OBJECT"
  of_sn :: "byte list \<rightharpoonup> ASN1_OBJECT"
  of_ln :: "byte list \<rightharpoonup> ASN1_OBJECT"

definition registers :: "obj_state \<Rightarrow> registry \<Rightarrow> bool" where
  "registers g R \<longleftrightarrow>
     table_is (\<lambda>_. True) hash_nid cmp_nid nid (global_added_by_nid g) (of_nid R) \<and>
     table_is data_ok hash_data cmp_data obj_bytes (global_added_by_data g) (of_data R) \<and>
     table_is sn_ok hash_short_name cmp_short_name (\<lambda>x. the (sn x)) (global_added_by_short_name g) (of_sn R) \<and>
     table_is ln_ok hash_long_name cmp_long_name (\<lambda>x. the (ln x)) (global_added_by_long_name g) (of_ln R)"

definition enter :: "ASN1_OBJECT \<Rightarrow> registry \<Rightarrow> registry" where
  "enter x R =
     \<lparr>of_nid = (of_nid R)(nid x \<mapsto> x),
      of_data = (if obj_length x \<noteq> 0 \<and> obj_data x \<noteq> None then (of_data R)(obj_bytes x \<mapsto> x) else of_data R),
      of_sn = (case sn x of None \<Rightarrow> of_sn R | Some s \<Rightarrow> (of_sn R)(s \<mapsto> x)),
      of_ln = (case ln x of None \<Rightarrow> of_ln R | Some s \<Rightarrow> (of_ln R)(s \<mapsto> x))\<rparr>"

definition object_ok :: "ASN1_OBJECT \<Rightarrow> bool" where
  "object_ok x \<longleftrightarrow> (obj_data x \<noteq> None \<longrightarrow> data_ok x) \<and> (sn x \<noteq> None \<longrightarrow> sn_ok x) \<and> (ln x \<noteq> None \<longrightarrow> ln_ok x)"

definition made_static :: "ASN1_OBJECT \<Rightarrow> ASN1_OBJECT" where
  "made_static x = x\<lparr>flags := flags x AND NOT (ASN1_OBJECT_FLAG_DYNAMIC OR ASN1_OBJECT_FLAG_DYNAMIC_STRINGS OR
     ASN1_OBJECT_FLAG_DYNAMIC_DATA)\<rparr>"

lemma made_static_simps [simp]:
  "nid (made_static x) = nid x" "sn (made_static x) = sn x" "ln (made_static x) = ln x" "obj_length (made_static x) = obj_length x"
  "obj_data (made_static x) = obj_data x" "obj_bytes (made_static x) = obj_bytes x" "data_ok (made_static x) = data_ok x"
  "sn_ok (made_static x) = sn_ok x" "ln_ok (made_static x) = ln_ok x"
  by (simp_all add: made_static_def obj_bytes_def data_ok_def sn_ok_def ln_ok_def split: option.split)

text \<open>Either no table exists, or all of them do.\<close>

definition all_or_none :: "obj_state \<Rightarrow> bool" where
  "all_or_none g \<longleftrightarrow>
     (if global_added_by_nid g = None
      then global_added_by_data g = None \<and> global_added_by_short_name g = None \<and> global_added_by_long_name g = None
      else global_added_by_data g \<noteq> None \<and> global_added_by_short_name g \<noteq> None \<and> global_added_by_long_name g \<noteq> None)"

lemma new_tables_registers: "all_or_none g \<Longrightarrow> registers g R \<Longrightarrow> registers (new_tables obs mem g) R"
  using nid_table.table_new[of "obs 0" "mem 0"] data_table.table_new[of "obs 1" "mem 1"] sn_table.table_new[of "obs 2" "mem 2"]
    ln_table.table_new[of "obs 3" "mem 3"]
  by (cases "global_added_by_nid g = None") (auto simp: registers_def new_tables_def all_or_none_def table_is_def[of _ _ _ _ None])

lemma obj_add_object_spec:
  assumes g: "all_or_none g" "registers g R" and x: "object_ok x" and add: "obj_add_object obs mem x g = Some (ok, x', g')"
  shows "x' = made_static x" "global_next_nid g' = global_next_nid g" "\<exists>R'. registers g' R' \<and> (ok \<longrightarrow> R' = enter x' R)"
proof -
  define h where "h = new_tables obs mem g"
  have n: "global_next_nid h = global_next_nid g" by (simp add: h_def new_tables_def)
  have reg: "registers h R" unfolding h_def by (rule new_tables_registers[OF g])
  obtain ok0 tn ok1 td ok2 ts ok3 tln where ins:
    "insert_when True (obs 4) (mem 4) (global_added_by_nid h) (made_static x) = Some (ok0, tn)"
    "insert_when (obj_length x \<noteq> 0 \<and> obj_data x \<noteq> None) (obs 5) (mem 5) (global_added_by_data h) (made_static x) = Some (ok1, td)"
    "insert_when (sn x \<noteq> None) (obs 6) (mem 6) (global_added_by_short_name h) (made_static x) = Some (ok2, ts)"
    "insert_when (ln x \<noteq> None) (obs 7) (mem 7) (global_added_by_long_name h) (made_static x) = Some (ok3, tln)"
    and r: "ok = (ok0 \<and> ok1 \<and> ok2 \<and> ok3)" "x' = made_static x" "g' = h\<lparr>global_added_by_nid := tn, global_added_by_data := td,
      global_added_by_short_name := ts, global_added_by_long_name := tln\<rparr>"
    using add unfolding obj_add_object_def Let_def made_static_def[symmetric] h_def[symmetric]
    by (simp split: option.splits prod.splits)
  show "x' = made_static x" "global_next_nid g' = global_next_nid g" using r(2,3) n by simp_all
  note t = reg[unfolded registers_def]
  note T = nid_table.table_insert_when(1)[OF conjunct1[OF t] _ ins(1)]
    data_table.table_insert_when(1)[OF conjunct1[OF conjunct2[OF t]] _ ins(2)]
    sn_table.table_insert_when(1)[OF conjunct1[OF conjunct2[OF conjunct2[OF t]]] _ ins(3)]
    ln_table.table_insert_when(1)[OF conjunct2[OF conjunct2[OF conjunct2[OF t]]] _ ins(4)]
  define R' where "R' = \<lparr>of_nid = (if True \<and> ok0 then (of_nid R)(nid (made_static x) \<mapsto> made_static x) else of_nid R),
    of_data = (if (obj_length x \<noteq> 0 \<and> obj_data x \<noteq> None) \<and> ok1 then (of_data R)(obj_bytes (made_static x) \<mapsto> made_static x) else of_data R),
    of_sn = (if sn x \<noteq> None \<and> ok2 then (of_sn R)(the (sn (made_static x)) \<mapsto> made_static x) else of_sn R),
    of_ln = (if ln x \<noteq> None \<and> ok3 then (of_ln R)(the (ln (made_static x)) \<mapsto> made_static x) else of_ln R)\<rparr>"
  have "registers g' R'" unfolding registers_def r(3) R'_def
    using T x by (simp add: object_ok_def)
  moreover have "R' = enter x' R" if ok
    using that r(1,2) by (cases "sn x"; cases "ln x") (simp_all add: R'_def enter_def)
  ultimately show "\<exists>R'. registers g' R' \<and> (ok \<longrightarrow> R' = enter x' R)" by blast
qed

text \<open>With memory for the tables and the items, the object is entered.\<close>

lemma insert_when_present: "t \<noteq> None \<Longrightarrow> \<exists>suc t'. insert_when b obj mem t x = Some (suc, t')"
  by (auto simp: insert_when_def lh_ASN1_OBJECT_insert_def split: prod.splits)

lemma obj_add_object_total:
  assumes g: "all_or_none g" "registers g R" and x: "object_ok x" and obs: "\<forall>k. obs k" "\<forall>k n. mem k n"
  shows "\<exists>g'. obj_add_object obs mem x g = Some (True, made_static x, g') \<and> registers g' (enter (made_static x) R) \<and>
    all_or_none g' \<and> global_next_nid g' = global_next_nid g"
proof -
  define h where "h = new_tables obs mem g"
  have reg: "registers h R" unfolding h_def by (rule new_tables_registers[OF g])
  have "global_added_by_nid h \<noteq> None" "global_added_by_data h \<noteq> None" "global_added_by_short_name h \<noteq> None" "global_added_by_long_name h \<noteq> None"
    using g(1) obs by (auto simp: h_def new_tables_def OPENSSL_lh_new_def all_or_none_def split: if_splits)
  note pr = this
  obtain ok0 tn ok1 td ok2 ts ok3 tln where ins:
    "insert_when True (obs 4) (mem 4) (global_added_by_nid h) (made_static x) = Some (ok0, tn)"
    "insert_when (obj_length x \<noteq> 0 \<and> obj_data x \<noteq> None) (obs 5) (mem 5) (global_added_by_data h) (made_static x) = Some (ok1, td)"
    "insert_when (sn x \<noteq> None) (obs 6) (mem 6) (global_added_by_short_name h) (made_static x) = Some (ok2, ts)"
    "insert_when (ln x \<noteq> None) (obs 7) (mem 7) (global_added_by_long_name h) (made_static x) = Some (ok3, tln)"
    using pr insert_when_present by metis
  note t = reg[unfolded registers_def]
  note T = nid_table.table_insert_when(2,3)[OF conjunct1[OF t] _ ins(1)]
    data_table.table_insert_when(2,3)[OF conjunct1[OF conjunct2[OF t]] _ ins(2)]
    sn_table.table_insert_when(2,3)[OF conjunct1[OF conjunct2[OF conjunct2[OF t]]] _ ins(3)]
    ln_table.table_insert_when(2,3)[OF conjunct2[OF conjunct2[OF conjunct2[OF t]]] _ ins(4)]
  define g' where "g' = h\<lparr>global_added_by_nid := tn, global_added_by_data := td,
      global_added_by_short_name := ts, global_added_by_long_name := tln\<rparr>"
  have ok: "ok0" "ok1" "ok2" "ok3" and p: "tn \<noteq> None" "td \<noteq> None" "ts \<noteq> None" "tln \<noteq> None"
    using T pr obs x by (auto simp: object_ok_def)
  have a: "obj_add_object obs mem x g = Some (True, made_static x, g')"
    unfolding obj_add_object_def Let_def made_static_def[symmetric] h_def[symmetric] using ins ok by (simp add: g'_def)
  have "all_or_none g'" using p by (auto simp: all_or_none_def g'_def)
  then show ?thesis using obj_add_object_spec[OF g x a] a by auto
qed

lemma registry_lookup:
  assumes "registers g R"
  shows "added (global_added_by_nid g) (t\<lparr>nid := n\<rparr>) = of_nid R n"
    and "data_ok x \<Longrightarrow> added (global_added_by_data g) x = of_data R (obj_bytes x)"
    and "0 \<notin> set s \<Longrightarrow> added (global_added_by_short_name g) (t\<lparr>sn := Some s\<rparr>) = of_sn R s"
    and "0 \<notin> set s \<Longrightarrow> added (global_added_by_long_name g) (t\<lparr>ln := Some s\<rparr>) = of_ln R s"
proof -
  note t = assms[unfolded registers_def]
  note T = table_lookup[OF conjunct1[OF t]] table_lookup[OF conjunct1[OF conjunct2[OF t]]]
    table_lookup[OF conjunct1[OF conjunct2[OF conjunct2[OF t]]]] table_lookup[OF conjunct2[OF conjunct2[OF conjunct2[OF t]]]]
  show "added (global_added_by_nid g) (t\<lparr>nid := n\<rparr>) = of_nid R n" using T(1)[of "t\<lparr>nid := n\<rparr>"] by simp
  show "added (global_added_by_data g) x = of_data R (obj_bytes x)" if "data_ok x" using T(2)[OF that] .
  show "added (global_added_by_short_name g) (t\<lparr>sn := Some s\<rparr>) = of_sn R s" if "0 \<notin> set s"
    using T(3)[of "t\<lparr>sn := Some s\<rparr>"] that by (simp add: sn_ok_def)
  show "added (global_added_by_long_name g) (t\<lparr>ln := Some s\<rparr>) = of_ln R s" if "0 \<notin> set s"
    using T(4)[of "t\<lparr>ln := Some s\<rparr>"] that by (simp add: ln_ok_def)
qed

lemma cbs2nid_eq:
  assumes g: "registers g R" and small: "CBS_len c \<le> 0x7fffffff" and found: "of_data R (cview m c) = Some y"
  shows "OBJ_cbs2nid tb m g c = nid y"
proof -
  define x where "x = \<lparr>sn = None, ln = None, nid = 0, obj_length = uint (CBS_len c),
    obj_data = Some (read_bytes m (cb_data c) (unat (CBS_len c))), flags = 0\<rparr>"
  have b: "obj_bytes x = cview m c" by (simp add: x_def obj_bytes_def cview_def CBS_len_def read_bytes_def)
  then have "data_ok x" by (simp add: data_ok_def cview_def read_bytes_def x_def CBS_len_def)
  then have "added (global_added_by_data g) x = Some y" using registry_lookup(2)[OF g] found b by simp
  moreover have "OBJ_cbs2nid tb m g c = OBJ_obj2nid tb g (Some x)" using small by (auto simp: OBJ_cbs2nid_def x_def)
  ultimately show ?thesis by (simp add: OBJ_obj2nid_def x_def)
qed

text \<open>The state before anything is added.\<close>

definition no_objects :: obj_state where
  "no_objects = \<lparr>global_added_by_data = None, global_added_by_nid = None, global_added_by_short_name = None,
     global_added_by_long_name = None, global_next_nid = of_int NUM_NID\<rparr>"

definition empty_registry :: registry where
  "empty_registry = \<lparr>of_nid = Map.empty, of_data = Map.empty, of_sn = Map.empty, of_ln = Map.empty\<rparr>"

lemma no_objects: "all_or_none no_objects" "registers no_objects empty_registry" "sint (global_next_nid no_objects) = NUM_NID"
  by (simp_all add: no_objects_def empty_registry_def all_or_none_def registers_def table_is_def)

definition an_object :: ASN1_OBJECT where
  "an_object = \<lparr>sn = Some [0x61], ln = Some [0x62], nid = 963, obj_length = 2, obj_data = Some [42, 3], flags = 13\<rparr>"

definition few_tables :: obj_tables where
  "few_tables = \<lparr>kObjects = [], kNIDsInOIDOrder = [], kNIDsInShortNameOrder = [], kNIDsInLongNameOrder = [],
     bsearch = \<lambda>c xs. find (\<lambda>x. c x = 0) xs, junk = an_object\<rparr>"

text \<open>
  C16. The registry is a set of finite maps. In a state that holds the maps of a registry, adding an
  object enters it under its numeric id, its contents and its names, in place of the objects that
  were there, or fails, and leaves a registry; and the lookups by number, by contents and by name
  give what the maps hold, or else what the compiled-in tables do. What the uninitialised fields of
  the templates hold plays no part.
\<close>

theorem obj_registry_refines:
  assumes "all_or_none g" and "registers g R" and "object_ok x"
  shows "(\<forall>obs mem ok x' g'. obj_add_object obs mem x g = Some (ok, x', g') \<longrightarrow>
      (\<exists>R'. registers g' R' \<and> (ok \<longrightarrow> R' = enter x' R \<and> x' = made_static x))) \<and>
    (\<forall>n. \<not> (0 \<le> n \<and> n < NUM_NID) \<longrightarrow> OBJ_nid2obj tb g n = of_nid R n) \<and>
    (\<forall>s. 0 \<notin> set s \<longrightarrow> OBJ_sn2nid tb g s = (case of_sn R s of Some y \<Rightarrow> nid y
      | None \<Rightarrow> nid_at tb (bsearch tb (short_name_cmp tb s) (kNIDsInShortNameOrder tb)))) \<and>
    (\<forall>s. 0 \<notin> set s \<longrightarrow> OBJ_ln2nid tb g s = (case of_ln R s of Some y \<Rightarrow> nid y
      | None \<Rightarrow> nid_at tb (bsearch tb (long_name_cmp tb s) (kNIDsInLongNameOrder tb)))) \<and>
    (\<forall>y. data_ok y \<and> nid y = 0 \<longrightarrow> OBJ_obj2nid tb g (Some y) = (case of_data R (obj_bytes y) of Some z \<Rightarrow> nid z
      | None \<Rightarrow> nid_at tb (bsearch tb (obj_cmp tb y) (kNIDsInOIDOrder tb))))"
proof (intro conjI allI impI)
  show "\<exists>R'. registers g' R' \<and> (ok \<longrightarrow> R' = enter x' R \<and> x' = made_static x)"
    if "obj_add_object obs mem x g = Some (ok, x', g')" for obs mem ok x' g'
    using obj_add_object_spec[OF assms that] by blast
qed (use registry_lookup[OF assms(2)] in \<open>auto simp: OBJ_nid2obj_def OBJ_sn2nid_def OBJ_ln2nid_def OBJ_obj2nid_def\<close>)

theorem obj_registry_refines_witness:
  "\<exists>g' R'. obj_add_object (\<lambda>_. True) (\<lambda>_ _. True) an_object no_objects = Some (True, made_static an_object, g') \<and>
     registers g' R' \<and> of_sn R' [0x61] = Some (made_static an_object) \<and> OBJ_sn2nid few_tables no_objects [0x61] = 0"
proof -
  have x: "object_ok an_object" by (simp add: object_ok_def data_ok_def sn_ok_def ln_ok_def obj_bytes_def an_object_def)
  note w = obj_registry_refines[OF no_objects(1,2) x]
  obtain g' where a: "obj_add_object (\<lambda>_. True) (\<lambda>_ _. True) an_object no_objects = Some (True, made_static an_object, g')"
    using obj_add_object_total[OF no_objects(1,2) x, of "\<lambda>_. True" "\<lambda>_ _. True"] by auto
  then obtain R' where "registers g' R'" "R' = enter (made_static an_object) empty_registry" using conjunct1[OF w] by blast
  moreover have "sn an_object = Some [0x61]" by (simp add: an_object_def)
  moreover have "OBJ_sn2nid few_tables no_objects [0x61] = 0"
    using conjunct1[OF conjunct2[OF conjunct2[OF w]], rule_format, of "[0x61]" few_tables]
    by (simp add: empty_registry_def few_tables_def nid_at_def)
  ultimately show ?thesis using a by (auto simp: enter_def)
qed

text \<open>
  Running out of memory while the tables are created is not an error return: when the table by
  contents cannot be allocated, \<open>obj_add_object\<close> goes on to insert into the NULL table.
\<close>

theorem obj_add_object_null_table:
  "obj_add_object (\<lambda>k. k \<noteq> 1) (\<lambda>_ _. True) an_object no_objects = None"
proof -
  have "global_added_by_data (new_tables (\<lambda>k. k \<noteq> 1) (\<lambda>_ _. True) no_objects) = None"
    by (simp add: new_tables_def no_objects_def OPENSSL_lh_new_def)
  moreover have "obj_length an_object \<noteq> 0" "obj_data an_object \<noteq> None" by (simp_all add: an_object_def)
  ultimately show ?thesis
    unfolding obj_add_object_def Let_def insert_when_def lh_ASN1_OBJECT_insert_def by (auto split: option.split)
qed

section \<open>Creating objects\<close>

lemma strlcpy_fits:
  "i + n \<le> length dst \<Longrightarrow> length src < n \<Longrightarrow>
    strlcpy_loop src i dst n = (of_nat (length src), take i dst @ src @ 0 # drop (Suc (i + length src)) dst)"
proof (induction src arbitrary: i dst n)
  case Nil
  then show ?case by (simp add: upd_conv_take_nth_drop)
next
  case (Cons c src)
  have "n > 1" "i < length dst" using Cons.prems by auto
  moreover have "strlcpy_loop src (Suc i) (dst[i := c]) (n - 1) =
      (of_nat (length src), take (Suc i) (dst[i := c]) @ src @ 0 # drop (Suc (Suc i + length src)) (dst[i := c]))"
    by (rule Cons.IH) (use Cons.prems in auto)
  ultimately show ?case by (simp add: take_Suc_conv_app_nth)
qed

lemma created_object:
  assumes "roomy malloc" "\<forall>k. mem k" "unat len = length xs" "take (unat len) bs = xs" "length xs < 2 ^ 31"
  shows "ASN1_OBJECT_create malloc mem n (Some bs) (sint (ucast (len :: size_t) :: uint32)) s l =
    Some \<lparr>sn = s, ln = l, nid = n, obj_length = int (length xs), obj_data = Some xs, flags = 13\<rparr>"
proof -
  have len: "sint (ucast len :: uint32) = int (length xs)"
  proof -
    have "uint len = int (length xs)" using assms(3) uint_nat[of len] by simp
    then have "uint (ucast len :: uint32) = int (length xs)" using assms(5) by (simp add: unsigned_ucast_eq take_bit_int_eq_self)
    then show ?thesis using assms(5) by (simp add: sint_uint signed_take_bit_int_eq_self)
  qed
  have n: "unat (of_int (int (length xs)) :: size_t) = length xs" using assms(5) by (simp add: unat_of_nat_size)
  obtain cs where cs: "OPENSSL_malloc malloc (of_int (int (length xs))) = Some cs" "length cs = length xs"
    using malloc_succeeds[OF assms(1), of "of_int (int (length xs))"] n assms(5)
    by (auto simp: OPENSSL_malloc_def split: if_splits)
  have "take (length xs) bs = xs" using assms(3,4) by simp
  then show ?thesis using cs assms(2)
    by (cases s; cases l) (simp_all add: ASN1_OBJECT_create_def OBJ_dup_def len ASN1_OBJECT_new_def OPENSSL_strdup_def memcpy_at_def Let_def)
qed

lemma create_object:
  assumes r: "roomy malloc" and mem: "\<forall>k. mem k" and ok: "oid_ok a b rest"
    and size: "length (oid_text a b rest) < 2 ^ 61" "length (oid_der a b rest) < 2 ^ 31"
    and nid: "(case get_nid of None \<Rightarrow> (NID_undef, g) | Some f \<Rightarrow> f g) = (n, g')"
  shows "create_object_with_text_oid malloc mem get_nid (oid_text a b rest) s l g =
    (Some \<lparr>sn = s, ln = l, nid = n, obj_length = int (length (oid_der a b rest)), obj_data = Some (oid_der a b rest), flags = 13\<rparr>, g')"
proof -
  obtain st where i: "CBB_init malloc 32 = Some st" using CBB_init_succeeds[OF r, of 32] by auto
  have "unat (of_nat (length (oid_text a b rest)) :: size_t) = length (oid_text a b rest)"
    by (rule unat_of_nat_size) (use size(1) in simp)
  then have vw: "cview (\<lambda>i. oid_text a b rest ! i) (CBS_init 0 (of_nat (length (oid_text a b rest)))) = oid_text a b rest"
    by (intro cview_buffer) simp_all
  from writes_finish[OF r i writes_oid_from_text[OF r ok vw]] size(2)
  obtain u st' bs len where f: "CBB_add_asn1_oid_from_text malloc (\<lambda>i. oid_text a b rest ! i) 0 (of_nat (length (oid_text a b rest))) st = (Some u, st')"
      "CBB_finish malloc False False st' = Some (bs, len)" "take (unat len) bs = oid_der a b rest" "unat len = length (oid_der a b rest)"
    by auto
  show ?thesis unfolding create_object_with_text_oid_def using i f(1,2) nid created_object[OF r mem f(4,3) size(2)] by simp
qed

lemma decimal_no_nul: "0 \<notin> set (decimal n)"
proof (induction n rule: decimal.induct)
  case (1 n)
  have "(of_nat (0x30 + n mod 10) :: byte) \<noteq> 0"
  proof
    assume "(of_nat (0x30 + n mod 10) :: byte) = 0"
    then have "(0x30 + n mod 10) mod 256 = 0" using unat_of_nat[where 'a = 8, of "0x30 + n mod 10"] by simp
    then show False using mod_less[of "0x30 + n mod 10" 256] by simp
  qed
  then show ?case using 1 by (cases "n < 10") (simp_all add: decimal_small decimal_step)
qed

lemma oid_text_no_nul: "0 \<notin> set (oid_text a b rest)"
  using decimal_no_nul by (auto simp: oid_text_def dot_decimals_def)

lemma created_text:
  assumes r: "roomy malloc" and ok: "oid_ok a b rest" and x: "obj_data x = Some (oid_der a b rest)" "obj_length x = int (length (oid_der a b rest))"
    and len: "oid_der a b rest \<noteq> []" "length (oid_der a b rest) < 2 ^ 31" and out: "length (oid_text a b rest) < length out" "length out < 2 ^ 31"
  shows "OBJ_obj2txt malloc tb g out (int (length out)) (Some x) True =
    (int (length (oid_text a b rest)), oid_text a b rest @ 0 # drop (Suc (length (oid_text a b rest))) out)"
proof -
  let ?t = "oid_text a b rest" and ?d = "oid_der a b rest"
  have d: "unat (of_int (int (length ?d)) :: size_t) = length ?d" "unat (of_int (int (length out)) :: size_t) = length out"
    using len(2) out(2) by (simp_all add: unat_of_nat_size)
  have "cview (\<lambda>i. ?d ! i) (CBS_init 0 (of_int (int (length ?d)))) = ?d" by (rule cview_buffer) (simp_all only: d, simp)
  then have t: "CBS_asn1_oid_to_text malloc (\<lambda>i. ?d ! i) (CBS_init 0 (of_int (int (length ?d)))) = Some (?t @ [0])"
    by (rule oid_to_text_complete[OF r ok]) (use out in simp)
  have w: "takeWhile (\<lambda>c. c \<noteq> 0) (?t @ [0]) = ?t" using oid_text_no_nul[of a b rest] by (subst takeWhile_append2) auto
  have cp: "OPENSSL_strlcpy out ?t (of_int (int (length out))) = (of_nat (length ?t), ?t @ 0 # drop (Suc (length ?t)) out)"
    unfolding OPENSSL_strlcpy_def d(2) using strlcpy_fits[of 0 "length out" out ?t] out by simp
  have "unat (of_nat (length ?t) :: size_t) = length ?t" by (rule unat_of_nat_size) (use out in simp)
  then have "\<not> (of_nat (length ?t) :: size_t) > 0x7fffffff" "uint (of_nat (length ?t) :: size_t) = int (length ?t)"
    using out uint_nat[of "of_nat (length ?t) :: size_t"] by (simp_all add: word_less_nat_alt)
  then have sl: "strlcpy_int out ?t (int (length out)) = (int (length ?t), ?t @ 0 # drop (Suc (length ?t)) out)"
    unfolding strlcpy_int_def using cp by simp
  have "obj_length x \<noteq> 0" using len(1) x(2) by simp
  then show ?thesis using t w sl x by (simp add: OBJ_obj2txt_def Let_def)
qed

lemma oid_der_nonempty: "oid_der a b rest \<noteq> []"
  by (simp add: oid_der_def)

text \<open>
  C15. Creating an object registers it: from the dotted text of an identifier and two names, when
  memory lasts, \<open>OBJ_create\<close> returns a fresh numeric id, and afterwards the lookups by short name,
  by long name and by the encoded contents of the identifier give that id, the id gives the names
  back, and its text is the one it was created from.
\<close>

theorem obj_create_found:
  assumes r: "roomy malloc" and mem: "\<forall>k. mem k" "\<forall>k. obs k" "\<forall>k n. tmem k n"
    and ok: "oid_ok a b rest" "length (oid_text a b rest) < 2 ^ 31 - 1" "length (oid_der a b rest) < 2 ^ 31"
    and names: "0 \<notin> set s" "0 \<notin> set l" and g: "all_or_none g" "registers g R" and n: "n = sint (global_next_nid g)" "n \<ge> NUM_NID"
  shows "\<exists>g' x. OBJ_create malloc mem obs tmem (oid_text a b rest) (Some s) (Some l) g = Some (n, g') \<and>
    registers g' (enter x R) \<and> global_next_nid g' = global_next_nid g + 1 \<and>
    OBJ_sn2nid tb g' s = n \<and> OBJ_ln2nid tb g' l = n \<and>
    (\<forall>m c. cview m c = oid_der a b rest \<longrightarrow> OBJ_cbs2nid tb m g' c = n) \<and>
    OBJ_nid2obj tb g' n = Some x \<and> sn x = Some s \<and> ln x = Some l \<and>
    (\<forall>out. length (oid_text a b rest) < length out \<and> length out < 2 ^ 31 \<longrightarrow>
      OBJ_obj2txt malloc tb g' out (int (length out)) (Some x) True =
        (int (length (oid_text a b rest)), oid_text a b rest @ 0 # drop (Suc (length (oid_text a b rest))) out))"
proof -
  define x where "x = \<lparr>sn = Some s, ln = Some l, nid = n, obj_length = int (length (oid_der a b rest)),
    obj_data = Some (oid_der a b rest), flags = (13 :: uint32)\<rparr>"
  define g1 where "g1 = g\<lparr>global_next_nid := global_next_nid g + 1\<rparr>"
  have "(case Some obj_next_nid of None \<Rightarrow> (NID_undef, g) | Some f \<Rightarrow> f g) = (n, g1)" by (simp add: obj_next_nid_def n(1) g1_def)
  from create_object[OF r mem(1) ok(1) _ ok(3) this] ok(2)
  have c: "create_object_with_text_oid malloc mem (Some obj_next_nid) (oid_text a b rest) (Some s) (Some l) g = (Some x, g1)"
    by (simp add: x_def)
  have bx: "obj_bytes x = oid_der a b rest" by (simp add: x_def obj_bytes_def)
  have "object_ok x" using names by (simp add: object_ok_def data_ok_def bx sn_ok_def ln_ok_def) (simp add: x_def)
  moreover have "all_or_none g1" "registers g1 R" using g by (simp_all add: g1_def all_or_none_def registers_def)
  ultimately obtain g' where add: "obj_add_object obs tmem x g1 = Some (True, made_static x, g')" "registers g' (enter (made_static x) R)"
      "global_next_nid g' = global_next_nid g + 1"
    using obj_add_object_total[of g1 R x obs tmem] mem(2,3) by (auto simp: g1_def)
  have create: "OBJ_create malloc mem obs tmem (oid_text a b rest) (Some s) (Some l) g = Some (n, g')"
    using c add(1) by (simp add: OBJ_create_def x_def)
  have e: "of_nid (enter (made_static x) R) n = Some (made_static x)" "of_sn (enter (made_static x) R) s = Some (made_static x)"
    "of_ln (enter (made_static x) R) l = Some (made_static x)" "of_data (enter (made_static x) R) (oid_der a b rest) = Some (made_static x)"
    using oid_der_nonempty[of a b rest] by (simp_all add: enter_def bx) (simp_all add: x_def)
  note look = registry_lookup[OF add(2)]
  have by_name: "OBJ_sn2nid tb g' s = n" "OBJ_ln2nid tb g' l = n"
    using look(3)[OF names(1)] look(4)[OF names(2)] e by (simp_all add: OBJ_sn2nid_def OBJ_ln2nid_def) (simp_all add: x_def)
  have by_nid: "OBJ_nid2obj tb g' n = Some (made_static x)" using look(1) e(1) n(2) by (simp add: OBJ_nid2obj_def)
  have by_der: "OBJ_cbs2nid tb m g' c = n" if "cview m c = oid_der a b rest" for m c
  proof -
    have "unat (CBS_len c) = length (oid_der a b rest)" using arg_cong[OF that, of length] by (simp add: cview_def CBS_len_def)
    then have "CBS_len c \<le> 0x7fffffff" using ok(3) by (simp add: word_le_nat_alt)
    from cbs2nid_eq[OF add(2) this] that e(4) show ?thesis by (simp add: x_def)
  qed
  have as_text: "OBJ_obj2txt malloc tb g' out (int (length out)) (Some (made_static x)) True =
        (int (length (oid_text a b rest)), oid_text a b rest @ 0 # drop (Suc (length (oid_text a b rest))) out)"
    if "length (oid_text a b rest) < length out \<and> length out < 2 ^ 31" for out
    by (rule created_text[OF r ok(1)]) (use that ok(3) oid_der_nonempty in \<open>simp_all add: x_def\<close>)
  show ?thesis using create add(2,3) by_name by_nid by_der as_text by (intro exI[of _ g'] exI[of _ "made_static x"]) (simp add: x_def)
qed

theorem obj_create_found_witness:
  "\<exists>g'. OBJ_create (\<lambda>_. Some (\<lambda>_. 0)) (\<lambda>_. True) (\<lambda>_. True) (\<lambda>_ _. True) [0x31, 0x2e, 0x32, 0x2e, 0x38, 0x34, 0x30] (Some [0x61]) (Some [0x62])
       no_objects = Some (963, g') \<and>
     OBJ_sn2nid few_tables g' [0x61] = 963 \<and> OBJ_cbs2nid few_tables (\<lambda>i. [42, 0x86, 0x48] ! i) g' (CBS_init 0 3) = 963"
proof -
  have t: "oid_text 1 2 [840] = [0x31, 0x2e, 0x32, 0x2e, 0x38, 0x34, 0x30]" by code_simp
  have d: "oid_der 1 2 [840] = [42, 0x86, 0x48]" by code_simp
  have ok: "oid_ok 1 2 [840]" by (simp add: oid_ok_def)
  have r: "roomy (\<lambda>_. Some (\<lambda>_. 0))" by (simp add: roomy_def)
  have "cview (\<lambda>i. [42, 0x86, 0x48] ! i) (CBS_init 0 3) = [42, 0x86, 0x48]" by (rule cview_buffer) simp_all
  then show ?thesis
    using obj_create_found[OF r _ _ _ ok, of "\<lambda>_. True" "\<lambda>_. True" "\<lambda>_ _. True" "[0x61]" "[0x62]", OF _ _ _ _ _ _ _ no_objects(1,2) no_objects(3)[symmetric], of few_tables]
    unfolding t d by auto
qed

section \<open>Signature algorithms and their parts\<close>

lemma find_key_iff: "distinct (map f xs) \<Longrightarrow> find (\<lambda>x. f x = k) xs = Some x \<longleftrightarrow> x \<in> set xs \<and> f x = k"
  by (induction xs) (auto simp: image_iff)

text \<open>
  A signature algorithm is determined by its digest and its key type and determines them: the
  two lookups in the table are inverse to each other.
\<close>

theorem sigid_algs_inverse:
  "OBJ_find_sigid_algs s = Some (d, k) \<longleftrightarrow> OBJ_find_sigid_by_algs d k = Some s"
proof -
  have "distinct (map sign_nid kTriples)" "distinct (map (\<lambda>t. (digest_nid t, pkey_nid t)) kTriples)"
    by (simp_all add: kTriples_def)
  note f = find_key_iff[OF this(1)] find_key_iff[OF this(2), of "(d, k)", unfolded prod.inject]
  have "OBJ_find_sigid_algs s = Some (d, k) \<longleftrightarrow> (\<exists>t\<in>set kTriples. sign_nid t = s \<and> digest_nid t = d \<and> pkey_nid t = k)"
    unfolding OBJ_find_sigid_algs_def map_option_eq_Some f by auto
  also have "\<dots> \<longleftrightarrow> OBJ_find_sigid_by_algs d k = Some s"
    unfolding OBJ_find_sigid_by_algs_def map_option_eq_Some f by auto
  finally show ?thesis .
qed

end
