(* ===== verification/Spec2Isabelle.thy ===== *)
theory Spec2Isabelle
  imports Pb_Safety Base64_Stream Sha256 Sha512 Sha1 Md5 Md4 Cbb_Reach Unicode Ber_Convert Hmac Uv_Timer Stack Obj
begin

text \<open>
  \<^bold>\<open>A verification library for the C code of HomeLight\<close>

  HomeLight is an iOS application over Firebase. Its own code is Swift user interface; what it computes
  with is in the libraries it carries in \<^verbatim>\<open>src/HomeLight/Pods\<close>. This development models C code of three of
  them: \<^verbatim>\<open>nanopb\<close>, the protocol-buffer wire format in which Firestore talks to its server,
  \<^verbatim>\<open>BoringSSL-GRPC\<close>, the cryptographic library below gRPC, and \<^verbatim>\<open>Libuv-gRPC\<close>, the event loop below gRPC.

  \<^bold>\<open>Conventions.\<close> Machine integers are words of their width; lengths and indices of the code are 64-bit
  words (\<open>size_t\<close>). Functions that return zero or NULL on failure return \<open>None\<close> or \<open>False\<close>, and every
  early return is a branch. State is passed explicitly: streams, contexts, builders, tables and loops are
  records. Memory is a function from addresses to bytes where the code reads through pointers it is
  given, and the list of the bytes where it owns a buffer. Allocation is a parameter: a function that may
  give or refuse memory, with arbitrary contents. The error queue of BoringSSL is left out.

  \<^bold>\<open>Shared theories.\<close> \<open>Prelude\<close>: integer types, reading and writing memory, generic lemmas. \<open>Compare\<close>: the
  contract of C comparison functions as the locale \<open>total_compare\<close>, and \<open>memcmp\<close>.

  \<^bold>\<open>nanopb\<close> (\<^verbatim>\<open>pb_encode.c\<close>, \<^verbatim>\<open>pb_decode.c\<close>). \<open>Pb_Wire\<close> has the abstract wire format, \<open>Pb_Ostream\<close> and
  \<open>Pb_Istream\<close> the streams and the writers and readers of varints, fixed-width values, tags, strings and
  substreams. \<open>Pb_Codec\<close> shows the round trips through a locale of codecs interpreted for each pair, and
  \<open>Pb_Safety\<close> that readers stay inside the stream, change no memory and never lengthen what is left.

  \<^bold>\<open>Base64\<close> (\<^verbatim>\<open>crypto/base64/base64.c\<close>, \<^verbatim>\<open>crypto/internal.h\<close>). \<open>Constant_Time\<close>: the mask arithmetic. \<open>Base64\<close> and
  \<open>Base64_Stream\<close>: the constant-time conversions are the alphabet, one-shot and streaming encoding give the
  reference whatever the cutting of the input, and decoding inverts them.

  \<^bold>\<open>Digests\<close> (\<^verbatim>\<open>crypto/fipsmodule\<close>: \<^verbatim>\<open>sha\<close>, \<^verbatim>\<open>md5\<close>, \<^verbatim>\<open>md4\<close>, \<^verbatim>\<open>digest\<close>, \<^verbatim>\<open>hmac\<close>; \<^verbatim>\<open>crypto/hkdf\<close>). \<open>Crypto_Words\<close>: byte order and
  rotations. \<open>Block_Buffer\<close> and \<open>Md32\<close>: the collector that buffers, counts and pads, against the
  specification that pads the whole message. \<open>Sha2\<close>, \<open>Sha256\<close>, \<open>Sha512\<close>, \<open>Sha1\<close>, \<open>Md_Rounds\<close>, \<open>Md5\<close>, \<open>Md4\<close>: the
  unrolled block functions with their circular schedules and rotating variables, against the rounds as the
  standards state them. The references have constants of their own: \<open>Fips_Constants\<close> computes those of SHA-2
  from the roots of the first primes, as FIPS 180-4 defines them, and the tables and initial values of the
  code are shown to be these. \<open>Evp\<close>: contexts, method tables and the one-shot interface for the nine digests.
  \<open>Hmac\<close>: HMAC as in RFC 2104 and HKDF as in RFC 5869 on top of it.

  \<^bold>\<open>Byte strings and ASN.1\<close> (\<^verbatim>\<open>crypto/bytestring\<close>). \<open>Cbs\<close> is the parser; \<open>Der\<close> and \<open>Der_Int\<close> show that it accepts
  exactly DER and reads nothing outside its slice. \<open>Cbb\<close> is the builder with its nested, back-patched
  length prefixes; \<open>Cbb_Spec\<close> is the abstract nested builder, \<open>Cbb_Refine\<close> the simulation, \<open>Cbb_Api\<close> what
  every call keeps, \<open>Cbb_Live\<close> that with memory the calls succeed. \<open>Set_Of\<close>: the ordering of sets. \<open>Oid\<close>: object
  identifiers as text and contents. \<open>Cbb_Reach\<close>: the states that successful calls of the whole interface lead
  to, and the stickiness of failed writes. A child is embedded in its parent by value, where the code has a
  pointer to a variable of the caller; after a call that fails while it works through a child of its own
  that pointer dangles, so no step is taken through a call that fails. \<open>Unicode\<close>: UTF-8 and its
  relatives. \<open>Ber\<close> and \<open>Ber_Convert\<close>: the conversion of BER to DER, its termination, what it computes, and
  an input on which the walk before it fails to notice that a conversion is needed.

  \<^bold>\<open>Containers and the object registry\<close> (\<^verbatim>\<open>crypto/stack\<close>, \<^verbatim>\<open>crypto/lhash\<close>, \<^verbatim>\<open>crypto/obj\<close>). \<open>Stack\<close>: the growing pointer
  arrays are lists, and searching returns the first match, by halving too, as long as \<open>sk_set\<close> is not applied
  to a stack flagged as sorted; what it does otherwise is shown on an example. \<open>Lhash\<close>: chained hash tables
  with their resizing; under the contract of hash and comparison (the locale \<open>lhash_key\<close>) any run of calls
  is a map. \<open>Obj\<close>: objects, the four tables of added objects, each an interpretation of \<open>keyed_table\<close> and
  through a sublocale of \<open>lhash_key\<close>, the lookups and the creation of objects from text, which composes the
  builder, the identifiers and the tables; the table of signature algorithms.

  \<^bold>\<open>Timers\<close> (\<^verbatim>\<open>Libuv-gRPC/src/heap-inl.h\<close>, \<^verbatim>\<open>timer.c\<close>). \<open>Uv_Heap\<close> is the heap of linked nodes on an explicit store.
  \<open>Uv_Layout\<close> relates the store to the positions of a complete binary tree and shows what swapping, linking
  and unlinking do to it; \<open>Uv_Order\<close> shows, in a locale of strict weak orders, that insertion and removal keep
  the heap order. \<open>Uv_Timer\<close> is the timer interface, interpreted on the order of due times: the heap holds the
  active timers after any sequence of calls, and running the timers calls those that are due.

  \<^bold>\<open>Termination and bounds.\<close> Loops are recursive functions with measures: the bytes left in a slice, the bits
  left in a counter, the depth or the length of the input for BER. The loops of the heap and of the timers
  follow pointers and may not end on a corrupt store; they are partial functions into \<open>option\<close>, and the
  theorems state that they return. No fuel is used. Size hypotheses (messages below the range of the bit
  counters, lengths below powers of two) are those past which the code itself wraps around or refuses.

  \<^bold>\<open>Not modelled.\<close> The message layer of nanopb, which walks generated descriptor tables over untyped
  pointers. In BoringSSL big integers, public keys, ciphers, X.509 and the ASN.1 templates, threads and
  randomness: large parts have assembly back ends, precomputed tables or untyped object pointers; releasing
  memory, which ends the life of an object; locks. The generated tables of \<^verbatim>\<open>obj_dat.h\<close> and the C library's
  \<open>qsort\<close> and \<open>bsearch\<close> are parameters. The rest of libuv works on operating-system interfaces. TLS, gRPC,
  Firestore and LevelDB are C++ and the application is Swift.
\<close>

end
